(* ===== verification/Prelude.thy ===== *)
theory Prelude
  imports Main "HOL-Library.Word" "HOL-Library.Char_ord" "HOL-Library.List_Lexorder"
begin

unbundle bit_operations_syntax

text \<open>
  What every component shares: bytes and big/little-endian integers, byte streams as
  \<^verbatim>\<open>io.ReadFull\<close> reads them, sinks that may fail, the errors of the Go code as values of one type,
  and lemmas on lists and maps.
\<close>

named_theorems model_defs "definitions unfolded by concrete evaluations"

section \<open>Machine types\<close>

type_synonym byte = "8 word"
type_synonym bytes = "byte list"
type_synonym u16 = "16 word"
type_synonym u32 = "32 word"
type_synonym u64 = "64 word"

text \<open>Go strings are byte sequences; \<^typ>\<open>string\<close> has one \<^typ>\<open>char\<close> per byte.\<close>

definition byte_of_char :: "char \<Rightarrow> byte" where
  "byte_of_char c = word_of_nat (of_char c)"

definition char_of_byte :: "byte \<Rightarrow> char" where
  "char_of_byte b = char_of (unat b)"

definition bytes_of_string :: "string \<Rightarrow> bytes" where
  "bytes_of_string s = map byte_of_char s"

definition string_of_bytes :: "bytes \<Rightarrow> string" where
  "string_of_bytes bs = map char_of_byte bs"

lemma unat_byte_of_char [simp]: "unat (byte_of_char c) = of_char c"
proof -
  have "(of_char c :: nat) mod 256 = of_char c" by (rule of_char_mod_256)
  then show ?thesis by (simp add: byte_of_char_def unat_of_nat)
qed

lemma char_of_byte_of_char [simp]: "char_of_byte (byte_of_char c) = c"
  by (simp add: char_of_byte_def)

lemma byte_of_char_of_byte [simp]: "byte_of_char (char_of_byte b) = b"
proof -
  have "unat b < 256" using unsigned_less [of b] by simp
  then show ?thesis by (simp add: byte_of_char_def char_of_byte_def)
qed

lemma string_of_bytes_of_string [simp]: "string_of_bytes (bytes_of_string s) = s"
  by (simp add: string_of_bytes_def bytes_of_string_def comp_def)

lemma bytes_of_string_of_bytes [simp]: "bytes_of_string (string_of_bytes b) = b"
  by (simp add: string_of_bytes_def bytes_of_string_def comp_def)

lemma bytes_of_string_append [simp]:
  "bytes_of_string (s @ t) = bytes_of_string s @ bytes_of_string t"
  by (simp add: bytes_of_string_def)

lemma string_of_bytes_append [simp]:
  "string_of_bytes (s @ t) = string_of_bytes s @ string_of_bytes t"
  by (simp add: string_of_bytes_def)

lemma length_bytes_of_string [simp]: "length (bytes_of_string s) = length s"
  by (simp add: bytes_of_string_def)

lemma length_string_of_bytes [simp]: "length (string_of_bytes s) = length s"
  by (simp add: string_of_bytes_def)

lemma string_of_bytes_Nil_iff [simp]: "string_of_bytes bs = [] \<longleftrightarrow> bs = []"
  by (simp add: string_of_bytes_def)

section \<open>Endianness (encoding/binary)\<close>

definition put_be16 :: "u16 \<Rightarrow> bytes" where
  "put_be16 w = [ucast (drop_bit 8 w), ucast w]"

definition get_be16 :: "byte \<Rightarrow> byte \<Rightarrow> u16" where
  "get_be16 hi lo = push_bit 8 (ucast hi) OR ucast lo"

definition get_le16 :: "byte \<Rightarrow> byte \<Rightarrow> u16" where
  "get_le16 lo hi = get_be16 hi lo"

definition get_le32 :: "byte \<Rightarrow> byte \<Rightarrow> byte \<Rightarrow> byte \<Rightarrow> u32" where
  "get_le32 b0 b1 b2 b3 =
     ucast b0 OR push_bit 8 (ucast b1) OR push_bit 16 (ucast b2) OR push_bit 24 (ucast b3)"

lemma get_put_be16 [simp]: "get_be16 (ucast (drop_bit 8 w)) (ucast w) = w"
  unfolding get_be16_def by (rule bit_word_eqI) (auto simp: bit_simps)

lemma put_get_be16 [simp]: "put_be16 (get_be16 a b) = [a, b]"
proof -
  have "ucast (drop_bit 8 (get_be16 a b)) = a"
    unfolding get_be16_def
    by (rule bit_word_eqI) (auto simp: bit_simps dest: bit_imp_le_length)
  moreover have "ucast (get_be16 a b) = b"
    unfolding get_be16_def by (rule bit_word_eqI) (auto simp: bit_simps)
  ultimately show ?thesis by (simp add: put_be16_def)
qed

lemma length_put_be16 [simp]: "length (put_be16 w) = 2"
  by (simp add: put_be16_def)

lemma put_be16_not_Nil [simp]: "put_be16 w \<noteq> []"
  by (simp add: put_be16_def)

text \<open>\<^verbatim>\<open>uint16(n)\<close> of a length: exact below \<open>2^16\<close>, wrapped above.\<close>

lemma unat_u16_of_nat: "unat (word_of_nat n :: u16) = n mod 65536"
  by (simp add: unat_of_nat)

lemma u16_of_nat_eq_iff:
  assumes "n < 65536" "m < 65536"
  shows "(word_of_nat n :: u16) = word_of_nat m \<longleftrightarrow> n = m"
  using assms by (metis mod_less unat_u16_of_nat)

lemma u16_of_nat_eq_0_iff: "n < 65536 \<Longrightarrow> (word_of_nat n :: u16) = 0 \<longleftrightarrow> n = 0"
  using u16_of_nat_eq_iff [of n 0] by simp

section \<open>Errors and streams\<close>

text \<open>
  The error values the modelled code returns or inspects. \<open>Remote\<close> is
  \<^verbatim>\<open>*mux.RemoteError\<close>; \<open>Msg\<close> is an \<^verbatim>\<open>fmt.Errorf\<close> value, known by the text that
  identifies it; \<open>Wrapped\<close> is \<^verbatim>\<open>fmt.Errorf("...: %w", err)\<close>.
\<close>

datatype error =
    EOF
  | UnexpectedEOF
  | ClosedPipe
  | NetClosed
  | Remote string
  | Msg string
  | Wrapped string error

text \<open>
  A reader is the list of bytes the peer sends before the stream ends.
  \<^verbatim>\<open>io.ReadFull\<close> of \<open>n\<close> bytes returns them and the rest of the stream;
  it reports \<open>EOF\<close> when nothing is left and \<open>UnexpectedEOF\<close> when the
  stream ends inside the buffer, with the stream consumed in both cases.
\<close>

definition read_full :: "nat \<Rightarrow> bytes \<Rightarrow> (error + bytes) \<times> bytes" where
  "read_full n s =
     (if n \<le> length s then (Inr (take n s), drop n s)
      else (Inl (if s = [] then EOF else UnexpectedEOF), []))"

lemma read_full_append [simp]:
  "length p = n \<Longrightarrow> read_full n (p @ rest) = (Inr p, rest)"
  by (simp add: read_full_def)

lemma read_full_0 [simp]: "read_full 0 s = (Inr [], s)"
  by (simp add: read_full_def)

lemma read_full_2 [simp]: "read_full 2 (a # b # rest) = (Inr [a, b], rest)"
  by (simp add: read_full_def)

lemma read_full_InrD:
  "read_full n s = (Inr p, rest) \<Longrightarrow> s = p @ rest \<and> length p = n"
  by (auto simp: read_full_def split: if_splits)

lemma read_full_suffix: "read_full n s = (r, rest) \<Longrightarrow> \<exists>p. s = p @ rest"
  by (auto simp: read_full_def split: if_splits intro: exI [of _ s] exI [of _ "take n s"])

text \<open>
  A writer collects what is written until the connection breaks; from then on every
  \<^verbatim>\<open>Write\<close> returns the connection's error and writes nothing.
\<close>

record sink =
  sk_out :: bytes
  sk_err :: "error option"

definition sink_write :: "bytes \<Rightarrow> sink \<Rightarrow> error option \<times> sink" where
  "sink_write b w =
     (case sk_err w of
        None \<Rightarrow> (None, w\<lparr>sk_out := sk_out w @ b\<rparr>)
      | Some e \<Rightarrow> (Some e, w))"

abbreviation open_sink :: "bytes \<Rightarrow> sink" where
  "open_sink out \<equiv> \<lparr>sk_out = out, sk_err = None\<rparr>"

lemma sink_write_open [simp]:
  "sink_write b (open_sink out) = (None, open_sink (out @ b))"
  by (simp add: sink_write_def)

lemma sink_write_ok:
  "sk_err w = None \<Longrightarrow> sink_write b w = (None, w\<lparr>sk_out := sk_out w @ b\<rparr>)"
  by (simp add: sink_write_def)

section \<open>Lists and maps\<close>

text \<open>The newest \<open>n\<close> entries of a history, oldest first.\<close>

definition last_n :: "nat \<Rightarrow> 'a list \<Rightarrow> 'a list" where
  "last_n n xs = drop (length xs - n) xs"

lemma length_last_n [simp]: "length (last_n n xs) = min n (length xs)"
  by (simp add: last_n_def)

lemma last_n_id [simp]: "length xs \<le> n \<Longrightarrow> last_n n xs = xs"
  by (simp add: last_n_def)

lemma last_n_Nil [simp]: "last_n n [] = []"
  by (simp add: last_n_def)

lemma set_last_n_subset: "set (last_n n xs) \<subseteq> set xs"
  by (simp add: last_n_def set_drop_subset)

lemma last_n_last_n_append: "last_n n (last_n n xs @ ys) = last_n n (xs @ ys)"
proof (cases "length xs \<le> n")
  case True
  then show ?thesis by simp
next
  case False
  then have "length (last_n n xs @ ys) - n = length ys" by simp
  with False show ?thesis by (simp add: last_n_def add.commute)
qed

lemma last_n_snoc:
  "0 < n \<Longrightarrow> length xs = n \<Longrightarrow> last_n n (xs @ [x]) = tl xs @ [x]"
  by (cases xs) (simp_all add: last_n_def)

lemma map_last_n: "map f (last_n n xs) = last_n n (map f xs)"
  by (simp add: last_n_def drop_map)

end
