(* ===== verification/GoText.thy ===== *)
theory GoText
  imports Prelude
begin

text \<open>
  The functions of Go's \<^verbatim>\<open>strings\<close>, \<^verbatim>\<open>strconv\<close> and \<^verbatim>\<open>fmt\<close> the modelled code calls, on
  byte strings. White space and letter case are those of ASCII; the Unicode tables Go
  consults for bytes above 127 are left out, so the theorems speak of ASCII host names,
  headers and configuration lines.
\<close>

section \<open>Prefixes, suffixes, trimming\<close>

definition has_prefix :: "string \<Rightarrow> string \<Rightarrow> bool" where
  "has_prefix s p \<longleftrightarrow> take (length p) s = p"

definition has_suffix :: "string \<Rightarrow> string \<Rightarrow> bool" where
  "has_suffix s p \<longleftrightarrow> length p \<le> length s \<and> drop (length s - length p) s = p"

definition trim_prefix :: "string \<Rightarrow> string \<Rightarrow> string" where
  "trim_prefix s p = (if has_prefix s p then drop (length p) s else s)"

definition trim_suffix :: "string \<Rightarrow> string \<Rightarrow> string" where
  "trim_suffix s p = (if has_suffix s p then take (length s - length p) s else s)"

lemma has_prefix_append [simp]: "has_prefix (p @ s) p"
  by (simp add: has_prefix_def)

lemma has_suffix_append [simp]: "has_suffix (s @ p) p"
  by (simp add: has_suffix_def)

lemma has_prefix_iff: "has_prefix s p \<longleftrightarrow> (\<exists>t. s = p @ t)"
  unfolding has_prefix_def by (metis append_eq_conv_conj append_take_drop_id)

lemma has_suffix_iff: "has_suffix s p \<longleftrightarrow> (\<exists>t. s = t @ p)"
proof
  assume "has_suffix s p"
  then have "s = take (length s - length p) s @ p"
    unfolding has_suffix_def by (metis append_take_drop_id)
  then show "\<exists>t. s = t @ p" by blast
qed (auto simp: has_suffix_def)

lemma trim_suffix_append [simp]: "trim_suffix (s @ p) p = s"
  by (simp add: trim_suffix_def)

lemma trim_prefix_append [simp]: "trim_prefix (p @ s) p = s"
  by (simp add: trim_prefix_def)

definition is_space :: "char \<Rightarrow> bool" where
  "is_space c \<longleftrightarrow> c \<in> {CHR 0x09, CHR 0x0A, CHR 0x0B, CHR 0x0C, CHR 0x0D, CHR 0x20}"

definition trim_right_by :: "(char \<Rightarrow> bool) \<Rightarrow> string \<Rightarrow> string" where
  "trim_right_by p s = rev (dropWhile p (rev s))"

definition trim_space :: "string \<Rightarrow> string" where
  "trim_space s = trim_right_by is_space (dropWhile is_space s)"

lemma trim_right_by_id: "s = [] \<or> \<not> p (last s) \<Longrightarrow> trim_right_by p s = s"
  unfolding trim_right_by_def
  by (metis dropWhile_eq_self_iff hd_rev rev_is_Nil_conv rev_rev_ident)

lemma trim_right_by_Nil_or_last: "trim_right_by p s = [] \<or> \<not> p (last (trim_right_by p s))"
  unfolding trim_right_by_def
  by (metis hd_dropWhile last_rev rev_is_Nil_conv)

lemma trim_right_by_idem [simp]: "trim_right_by p (trim_right_by p s) = trim_right_by p s"
  using trim_right_by_id trim_right_by_Nil_or_last by blast

lemma trim_right_by_prefix: "\<exists>t. s = trim_right_by p s @ t"
  unfolding trim_right_by_def
  by (metis rev_append rev_rev_ident takeWhile_dropWhile_id)

lemma trim_space_no_edge:
  "trim_space s = [] \<or> \<not> is_space (hd (trim_space s)) \<and> \<not> is_space (last (trim_space s))"
proof -
  let ?t = "dropWhile is_space s"
  obtain u where u: "?t = trim_space s @ u"
    unfolding trim_space_def using trim_right_by_prefix by blast
  have "trim_space s = [] \<or> hd (trim_space s) = hd ?t \<and> ?t \<noteq> []"
    using u by (metis append_is_Nil_conv hd_append2)
  moreover have "?t \<noteq> [] \<Longrightarrow> \<not> is_space (hd ?t)" by (rule hd_dropWhile)
  moreover have "trim_space s = [] \<or> \<not> is_space (last (trim_space s))"
    unfolding trim_space_def by (rule trim_right_by_Nil_or_last)
  ultimately show ?thesis by metis
qed

lemma trim_space_fixed:
  "s = [] \<or> \<not> is_space (hd s) \<and> \<not> is_space (last s) \<Longrightarrow> trim_space s = s"
  by (cases s) (auto simp: trim_space_def trim_right_by_id)

lemma trim_space_idem [simp]: "trim_space (trim_space s) = trim_space s"
  using trim_space_fixed trim_space_no_edge by blast

section \<open>Letter case\<close>

definition lower_char :: "char \<Rightarrow> char" where
  "lower_char c =
     (let n = of_char c :: nat in if 65 \<le> n \<and> n \<le> 90 then char_of (n + 32) else c)"

definition to_lower :: "string \<Rightarrow> string" where
  "to_lower s = map lower_char s"

lemma lower_char_idem [simp]: "lower_char (lower_char c) = lower_char c"
  by (auto simp: lower_char_def Let_def)

lemma to_lower_idem [simp]: "to_lower (to_lower s) = to_lower s"
  by (simp add: to_lower_def comp_def)

lemma length_to_lower [simp]: "length (to_lower s) = length s"
  by (simp add: to_lower_def)

lemma to_lower_Nil [simp]: "to_lower [] = []"
  by (simp add: to_lower_def)

lemma to_lower_append [simp]: "to_lower (s @ t) = to_lower s @ to_lower t"
  by (simp add: to_lower_def)

lemma is_space_lower_char [simp]: "is_space (lower_char c) = is_space c"
proof (cases "65 \<le> (of_char c :: nat) \<and> (of_char c :: nat) \<le> 90")
  case True
  then have n: "of_char (lower_char c) = (of_char c :: nat) + 32"
    by (simp add: lower_char_def)
  have sp: "is_space d \<Longrightarrow> (of_char d :: nat) \<le> 32" for d
    by (auto simp: is_space_def)
  from True n sp [of c] sp [of "lower_char c"] show ?thesis by linarith
next
  case False
  then show ?thesis by (auto simp: lower_char_def Let_def)
qed

section \<open>Searching and splitting\<close>

fun index_char :: "char \<Rightarrow> string \<Rightarrow> nat option" where
  "index_char c [] = None"
| "index_char c (x # s) = (if x = c then Some 0 else map_option Suc (index_char c s))"

definition last_index_char :: "char \<Rightarrow> string \<Rightarrow> nat option" where
  "last_index_char c s =
     map_option (\<lambda>i. length s - 1 - i) (index_char c (rev s))"

lemma index_char_None_iff: "index_char c s = None \<longleftrightarrow> c \<notin> set s"
  by (induction s) auto

lemma index_char_append_hit [simp]:
  "c \<notin> set s \<Longrightarrow> index_char c (s @ c # t) = Some (length s)"
  by (induction s) auto

lemma index_char_SomeD:
  "index_char c s = Some i \<Longrightarrow> i < length s \<and> s = take i s @ c # drop (Suc i) s \<and> c \<notin> set (take i s)"
  by (induction s arbitrary: i) (auto split: if_splits)

fun contains_sub :: "string \<Rightarrow> string \<Rightarrow> bool" where
  "contains_sub [] p = (p = [])"
| "contains_sub (c # s) p = (has_prefix (c # s) p \<or> contains_sub s p)"

lemma contains_sub_iff: "contains_sub s p \<longleftrightarrow> (\<exists>a b. s = a @ p @ b)"
proof (induction s)
  case (Cons c s)
  have "contains_sub (c # s) p \<longleftrightarrow> (\<exists>b. c # s = p @ b) \<or> (\<exists>a b. s = a @ p @ b)"
    using Cons by (simp add: has_prefix_iff)
  also have "\<dots> \<longleftrightarrow> (\<exists>a b. c # s = a @ p @ b)" by (auto simp: Cons_eq_append_conv)
  finally show ?case .
qed auto

text \<open>\<^verbatim>\<open>strings.Cut(s, sep)\<close>, and \<^verbatim>\<open>strings.SplitN(s, sep, 2)\<close>; \<open>None\<close> when \<open>sep\<close> is not there.\<close>

fun cut_sub :: "string \<Rightarrow> string \<Rightarrow> (string \<times> string) option" where
  "cut_sub sep [] = (if sep = [] then Some ([], []) else None)"
| "cut_sub sep (c # s) =
     (if has_prefix (c # s) sep then Some ([], drop (length sep) (c # s))
      else map_option (\<lambda>(a, b). (c # a, b)) (cut_sub sep s))"

text \<open>\<^verbatim>\<open>strings.Split(s, sep)\<close> for a one-character separator.\<close>

fun split_on :: "char \<Rightarrow> string \<Rightarrow> string list" where
  "split_on c [] = [''''] "
| "split_on c (x # s) =
     (if x = c then [] # split_on c s
      else (x # hd (split_on c s)) # tl (split_on c s))"

text \<open>\<^verbatim>\<open>strings.SplitN(s, sep, n)\<close> for \<open>0 < n\<close>: at most \<open>n\<close> parts.\<close>

fun split_n :: "char \<Rightarrow> nat \<Rightarrow> string \<Rightarrow> string list" where
  "split_n c 0 s = []"
| "split_n c (Suc 0) s = [s]"
| "split_n c (Suc (Suc n)) s =
     (case index_char c s of
        None \<Rightarrow> [s]
      | Some i \<Rightarrow> take i s # split_n c (Suc n) (drop (Suc i) s))"

fun join_with :: "string \<Rightarrow> string list \<Rightarrow> string" where
  "join_with sep [] = []"
| "join_with sep [s] = s"
| "join_with sep (s # t # ts) = s @ sep @ join_with sep (t # ts)"

lemma split_on_not_Nil [simp]: "split_on c s \<noteq> []"
  by (induction s) auto

lemma split_on_no_sep: "c \<notin> set s \<Longrightarrow> split_on c s = [s]"
  by (induction s) auto

lemma split_on_append_sep: "c \<notin> set s \<Longrightarrow> split_on c (s @ c # t) = s # split_on c t"
  by (induction s) auto

lemma split_on_parts: "p \<in> set (split_on c s) \<Longrightarrow> c \<notin> set p"
proof (induction s arbitrary: p)
  case Nil
  then show ?case by simp
next
  case (Cons x s)
  obtain q qs where "split_on c s = q # qs" by (cases "split_on c s") auto
  with Cons show ?case by (fastforce split: if_splits)
qed

lemma join_with_Cons: "ts \<noteq> [] \<Longrightarrow> join_with sep (s # ts) = s @ sep @ join_with sep ts"
  by (cases ts) auto

lemma join_split_on [simp]: "join_with [c] (split_on c s) = s"
proof (induction s)
  case Nil
  then show ?case by simp
next
  case (Cons x s)
  obtain q qs where q: "split_on c s = q # qs" by (cases "split_on c s") auto
  with Cons show ?case by (cases qs) auto
qed

lemma split_on_join:
  "ps \<noteq> [] \<Longrightarrow> (\<And>p. p \<in> set ps \<Longrightarrow> c \<notin> set p) \<Longrightarrow> split_on c (join_with [c] ps) = ps"
proof (induction ps)
  case Nil
  then show ?case by simp
next
  case (Cons p ps)
  then show ?case
    by (cases "ps = []") (auto simp: split_on_no_sep join_with_Cons split_on_append_sep)
qed

text \<open>\<^verbatim>\<open>strings.FieldsFunc\<close>, and \<^verbatim>\<open>strings.Fields\<close> with white space.\<close>

fun fields_acc :: "(char \<Rightarrow> bool) \<Rightarrow> string \<Rightarrow> string \<Rightarrow> string list" where
  "fields_acc p cur [] = (if cur = [] then [] else [rev cur])"
| "fields_acc p cur (c # s) =
     (if p c then (if cur = [] then fields_acc p [] s else rev cur # fields_acc p [] s)
      else fields_acc p (c # cur) s)"

definition fields_func :: "(char \<Rightarrow> bool) \<Rightarrow> string \<Rightarrow> string list" where
  "fields_func p s = fields_acc p [] s"

definition go_fields :: "string \<Rightarrow> string list" where
  "go_fields s = fields_func is_space s"

section \<open>Decimal numbers\<close>

definition is_digit :: "char \<Rightarrow> bool" where
  "is_digit c \<longleftrightarrow> 48 \<le> (of_char c :: nat) \<and> (of_char c :: nat) \<le> 57"

definition digit_char :: "nat \<Rightarrow> char" where
  "digit_char n = char_of (48 + n)"

definition digit_val :: "char \<Rightarrow> nat" where
  "digit_val c = of_char c - 48"

fun nat_digits :: "nat \<Rightarrow> string" where
  "nat_digits n = (if n < 10 then [digit_char n] else nat_digits (n div 10) @ [digit_char (n mod 10)])"

declare nat_digits.simps [simp del]

definition dec_val :: "string \<Rightarrow> nat" where
  "dec_val s = foldl (\<lambda>a c. a * 10 + digit_val c) 0 s"

text \<open>\<^verbatim>\<open>strconv.Itoa\<close> and the verb \<^verbatim>\<open>%d\<close>.\<close>

definition itoa :: "int \<Rightarrow> string" where
  "itoa n = (if n < 0 then CHR ''-'' # nat_digits (nat (- n)) else nat_digits (nat n))"

text \<open>
  \<^verbatim>\<open>strconv.ParseInt(s, 10, 64)\<close>: a value, a syntax error, or a range error with the
  clamped value that callers see when they ignore the error.
\<close>

datatype int_parse = IntOk int | IntSyntax | IntRange int

definition int64_max :: int where "int64_max = 2 ^ 63 - 1"
definition int64_min :: int where "int64_min = - (2 ^ 63)"

definition clamp_parse :: "int \<Rightarrow> int_parse" where
  "clamp_parse n =
     (if n > int64_max then IntRange int64_max
      else if n < int64_min then IntRange int64_min else IntOk n)"

definition parse_int64 :: "string \<Rightarrow> int_parse" where
  "parse_int64 s =
     (let neg = has_prefix s ''-'';
          ds = (if neg \<or> has_prefix s ''+'' then drop 1 s else s)
      in if ds = [] \<or> \<not> list_all is_digit ds then IntSyntax
         else clamp_parse (if neg then - int (dec_val ds) else int (dec_val ds)))"

definition atoi :: "string \<Rightarrow> int option" where
  "atoi s = (case parse_int64 s of IntOk n \<Rightarrow> Some n | _ \<Rightarrow> None)"

text \<open>The value of \<^verbatim>\<open>n, _ := strconv.Atoi(s)\<close>.\<close>

definition atoi_val :: "string \<Rightarrow> int" where
  "atoi_val s = (case parse_int64 s of IntOk n \<Rightarrow> n | IntSyntax \<Rightarrow> 0 | IntRange n \<Rightarrow> n)"

text \<open>
  The value left in a zeroed variable by \<^verbatim>\<open>fmt.Sscanf(s, "%d", &n)\<close> when its error is
  ignored: leading blanks (no newline), a sign, the longest run of digits; 0 when there is
  no digit or the number does not fit.
\<close>

definition sscanf_d :: "string \<Rightarrow> int" where
  "sscanf_d s =
     (let t = dropWhile (\<lambda>c. is_space c \<and> c \<noteq> CHR 0x0A) s;
          neg = has_prefix t ''-'';
          u = (if neg \<or> has_prefix t ''+'' then drop 1 t else t);
          ds = takeWhile is_digit u
      in case parse_int64 ((if neg then ''-'' else []) @ ds) of IntOk n \<Rightarrow> n | _ \<Rightarrow> 0)"

lemma digit_char_val [simp]: "n < 10 \<Longrightarrow> digit_val (digit_char n) = n"
  by (simp add: digit_val_def digit_char_def)

lemma is_digit_digit_char [simp]: "n < 10 \<Longrightarrow> is_digit (digit_char n)"
  by (simp add: is_digit_def digit_char_def)

lemma nat_digits_not_Nil [simp]: "nat_digits n \<noteq> []"
  by (subst nat_digits.simps) simp

lemma nat_digits_digits: "list_all is_digit (nat_digits n)"
proof (induction n rule: nat_digits.induct)
  case (1 n)
  then show ?case by (subst nat_digits.simps) simp
qed

lemma dec_val_append: "dec_val (s @ [c]) = dec_val s * 10 + digit_val c"
  by (simp add: dec_val_def)

lemma dec_val_nat_digits [simp]: "dec_val (nat_digits n) = n"
proof (induction n rule: nat_digits.induct)
  case (1 n)
  show ?case
  proof (cases "n < 10")
    case True
    then show ?thesis by (subst nat_digits.simps) (simp add: dec_val_def)
  next
    case False
    then have "dec_val (nat_digits n) = dec_val (nat_digits (n div 10)) * 10 + n mod 10"
      by (subst nat_digits.simps) (simp add: dec_val_append)
    with False "1.IH" show ?thesis by simp
  qed
qed

lemma not_digit_signs [simp]: "\<not> is_digit CHR ''-''" "\<not> is_digit CHR ''+''" "\<not> is_digit CHR '',''"
    "\<not> is_digit CHR '' ''"
  by (simp_all add: is_digit_def)

lemma digits_no_char: "list_all is_digit s \<Longrightarrow> \<not> is_digit c \<Longrightarrow> c \<notin> set s"
  by (auto simp: list_all_iff)

lemma digits_no_sign:
  assumes "list_all is_digit s"
  shows "\<not> has_prefix s ''-''" "\<not> has_prefix s ''+''"
  using assms by (cases s; auto simp: has_prefix_def)+

lemma parse_int64_digits:
  assumes "list_all is_digit s" "s \<noteq> []"
  shows "parse_int64 s = clamp_parse (int (dec_val s))"
  using assms by (simp add: parse_int64_def digits_no_sign Let_def)

lemma parse_int64_neg_digits:
  assumes "list_all is_digit s" "s \<noteq> []"
  shows "parse_int64 (CHR ''-'' # s) = clamp_parse (- int (dec_val s))"
  using assms by (simp add: parse_int64_def has_prefix_def Let_def)

lemma parse_int64_itoa: "parse_int64 (itoa n) = clamp_parse n"
  by (simp add: itoa_def parse_int64_digits parse_int64_neg_digits nat_digits_digits)

lemma clamp_parse_ok: "int64_min \<le> n \<Longrightarrow> n \<le> int64_max \<Longrightarrow> clamp_parse n = IntOk n"
  by (simp add: clamp_parse_def)

lemma atoi_itoa [simp]: "int64_min \<le> n \<Longrightarrow> n \<le> int64_max \<Longrightarrow> atoi (itoa n) = Some n"
  by (simp add: atoi_def parse_int64_itoa clamp_parse_ok)

lemma atoi_val_itoa [simp]: "int64_min \<le> n \<Longrightarrow> n \<le> int64_max \<Longrightarrow> atoi_val (itoa n) = n"
  by (simp add: atoi_val_def parse_int64_itoa clamp_parse_ok)

lemma itoa_not_Nil [simp]: "itoa n \<noteq> []"
  by (simp add: itoa_def)

lemma itoa_chars: "c \<in> set (itoa n) \<Longrightarrow> is_digit c \<or> c = CHR ''-''"
  using nat_digits_digits by (auto simp: itoa_def list_all_iff split: if_splits)

lemma itoa_no_char: "\<not> is_digit c \<Longrightarrow> c \<noteq> CHR ''-'' \<Longrightarrow> c \<notin> set (itoa n)"
  using itoa_chars by blast

lemma digit_not_space: "is_digit c \<Longrightarrow> \<not> is_space c"
  by (auto simp: is_digit_def is_space_def)

lemma sscanf_d_itoa [simp]:
  assumes "int64_min \<le> n" "n \<le> int64_max"
  shows "sscanf_d (itoa n) = n"
proof -
  define ds where "ds = nat_digits (nat \<bar>n\<bar>)"
  have ds: "list_all is_digit ds" "ds \<noteq> []" by (simp_all add: ds_def nat_digits_digits)
  have hd: "\<not> is_space (hd (itoa n))"
    using itoa_chars [of "hd (itoa n)" n] digit_not_space by (auto simp: is_space_def)
  have dw: "dropWhile (\<lambda>c. is_space c \<and> c \<noteq> CHR 0x0A) (itoa n) = itoa n"
    using hd by (cases "itoa n") auto
  have tw: "takeWhile is_digit ds = ds"
    using ds(1) by (simp add: takeWhile_eq_all_conv list_all_iff)
  have "parse_int64 (itoa n) = IntOk n"
    using assms by (simp add: parse_int64_itoa clamp_parse_ok)
  moreover have it: "itoa n = (if n < 0 then ''-'' else []) @ ds"
    by (auto simp: itoa_def ds_def)
  moreover have "has_prefix (itoa n) ''-'' \<longleftrightarrow> n < 0" "\<not> has_prefix (itoa n) ''+''"
    using it digits_no_sign [OF ds(1)] by (auto simp: has_prefix_def)
  ultimately show ?thesis
    unfolding sscanf_d_def Let_def dw by (cases "n < 0") (simp_all add: tw del: takeWhile_eq_all_conv)
qed

end
