(* ===== verification/Contracts.thy ===== *)
theory Contracts
  imports GoText
begin

text \<open>
  The interfaces between the components, as locales. A component's theory interprets the
  ones it provides on its own definitions; the lemmas proved here from the laws alone
  are then facts about the code's model.
\<close>

section \<open>Operations that keep an invariant\<close>

text \<open>
  \<open>step\<close> is one operation of a component (the event names the operation and its
  arguments), \<open>admissible\<close> what the code may assume of those. A run of operations keeps
  what every single one keeps.
\<close>

locale invariant_step =
  fixes step :: "'s \<Rightarrow> 'e \<Rightarrow> 's"
    and inv :: "'s \<Rightarrow> bool"
    and admissible :: "'e \<Rightarrow> bool"
  assumes step_inv: "inv s \<Longrightarrow> admissible e \<Longrightarrow> inv (step s e)"
begin

lemma run_inv: "inv s \<Longrightarrow> list_all admissible es \<Longrightarrow> inv (foldl step s es)"
  by (induction es arbitrary: s) (simp_all add: step_inv)

end

text \<open>
  The same when the state says which operations may come next: \<open>run_allowed\<close> asks it before each
  one. Fixed admissibility is the special case.
\<close>

fun run_allowed :: "('s \<Rightarrow> 'e \<Rightarrow> 's) \<Rightarrow> ('s \<Rightarrow> 'e \<Rightarrow> bool) \<Rightarrow> 's \<Rightarrow> 'e list \<Rightarrow> bool" where
  "run_allowed step allowed s [] = True"
| "run_allowed step allowed s (e # es) = (allowed s e \<and> run_allowed step allowed (step s e) es)"

locale guarded_step =
  fixes step :: "'s \<Rightarrow> 'e \<Rightarrow> 's"
    and inv :: "'s \<Rightarrow> bool"
    and allowed :: "'s \<Rightarrow> 'e \<Rightarrow> bool"
  assumes step_inv: "inv s \<Longrightarrow> allowed s e \<Longrightarrow> inv (step s e)"
begin

lemma run_inv: "inv s \<Longrightarrow> run_allowed step allowed s es \<Longrightarrow> inv (foldl step s es)"
  by (induction es arbitrary: s) (simp_all add: step_inv)

end

sublocale invariant_step \<subseteq> guarded: guarded_step step inv "\<lambda>_. admissible"
  by unfold_locales (rule step_inv)

section \<open>Self-delimiting frames\<close>

text \<open>
  A reader that takes one frame off the stream, and the writer whose frames it reads.
  The frames of a codec can be sent one after the other: reading as many as were
  written returns them in order and leaves exactly what followed.
\<close>

fun decode_many :: "(bytes \<Rightarrow> (error + 'a) \<times> bytes) \<Rightarrow> nat \<Rightarrow> bytes \<Rightarrow> (error + 'a list) \<times> bytes"
where
  "decode_many dec 0 s = (Inr [], s)"
| "decode_many dec (Suc n) s =
     (case dec s of
        (Inl e, s') \<Rightarrow> (Inl e, s')
      | (Inr x, s') \<Rightarrow>
          (case decode_many dec n s' of
             (Inl e, s'') \<Rightarrow> (Inl e, s'')
           | (Inr xs, s'') \<Rightarrow> (Inr (x # xs), s'')))"

locale frame_codec =
  fixes encode :: "'a \<Rightarrow> bytes"
    and decode :: "bytes \<Rightarrow> (error + 'a) \<times> bytes"
    and valid :: "'a \<Rightarrow> bool"
  assumes decode_encode: "valid x \<Longrightarrow> decode (encode x @ rest) = (Inr x, rest)"
begin

lemma decode_encode_Nil: "valid x \<Longrightarrow> decode (encode x) = (Inr x, [])"
  using decode_encode [of x "[]"] by simp

lemma encode_inj:
  assumes "valid x" "valid y" "encode x = encode y"
  shows "x = y"
  using decode_encode_Nil [OF assms(1)] decode_encode_Nil [OF assms(2)]
  unfolding assms(3) by simp

lemma encode_prefix_free:
  assumes "valid x" "valid y" "encode x @ s = encode y @ t"
  shows "x = y \<and> s = t"
  using decode_encode [OF assms(1), of s] decode_encode [OF assms(2), of t]
  unfolding assms(3) by simp

lemma decode_stream:
  "list_all valid xs \<Longrightarrow>
     decode_many decode (length xs) (concat (map encode xs) @ rest) = (Inr xs, rest)"
  by (induction xs) (simp_all add: decode_encode)

end

section \<open>Logs that keep their newest entries\<close>

text \<open>
  \<open>contents\<close> is the log as a reader sees it, oldest first. Whatever the
  representation (a slice cut at the front, a ring with a write position), after any
  number of additions the log holds the newest \<open>cap\<close> entries in order.
\<close>

locale bounded_log =
  fixes add :: "'a \<Rightarrow> 'l \<Rightarrow> 'l"
    and contents :: "'l \<Rightarrow> 'a list"
    and ok :: "'l \<Rightarrow> bool"
    and cap :: nat
  assumes contents_add: "ok l \<Longrightarrow> contents (add x l) = last_n cap (contents l @ [x])"
    and ok_add: "ok l \<Longrightarrow> ok (add x l)"
begin

lemma ok_adds: "ok l \<Longrightarrow> ok (fold add xs l)"
  by (induction xs arbitrary: l) (simp_all add: ok_add)

lemma contents_adds:
  "ok l \<Longrightarrow> length (contents l) \<le> cap \<Longrightarrow>
     contents (fold add xs l) = last_n cap (contents l @ xs)"
proof (induction xs arbitrary: l)
  case Nil
  then show ?case by simp
next
  case (Cons x xs)
  have one: "contents (add x l) = last_n cap (contents l @ [x])"
    using Cons.prems(1) by (rule contents_add)
  then have "length (contents (add x l)) \<le> cap" by simp
  with Cons.prems(1) have "contents (fold add xs (add x l)) = last_n cap (contents (add x l) @ xs)"
    by (intro Cons.IH ok_add)
  also have "\<dots> = last_n cap ((contents l @ [x]) @ xs)"
    by (simp only: one last_n_last_n_append)
  finally show ?case by simp
qed

lemma length_contents_adds:
  assumes "ok l" "length (contents l) \<le> cap"
  shows "length (contents (fold add xs l)) = min cap (length (contents l) + length xs)"
  using contents_adds [OF assms] by simp

end

section \<open>Tables looked up by host name with wildcards\<close>

text \<open>
  The contract of every per-host setting: an exact entry wins; otherwise the first
  candidate pattern with an entry; otherwise nothing. \<open>cands\<close> lists the patterns,
  most specific first.
\<close>

fun first_hit :: "('k \<rightharpoonup> 'v) \<Rightarrow> 'k list \<Rightarrow> ('k \<times> 'v) option" where
  "first_hit m [] = None"
| "first_hit m (k # ks) = (case m k of Some v \<Rightarrow> Some (k, v) | None \<Rightarrow> first_hit m ks)"

lemma first_hit_None_iff: "first_hit m ks = None \<longleftrightarrow> (\<forall>k\<in>set ks. m k = None)"
  by (induction ks) (auto split: option.splits)

lemma first_hit_SomeD:
  "first_hit m ks = Some (k, v) \<Longrightarrow>
     m k = Some v \<and> (\<exists>us vs. ks = us @ k # vs \<and> (\<forall>u\<in>set us. m u = None))"
proof (induction ks)
  case Nil
  then show ?case by simp
next
  case (Cons a ks)
  show ?case
  proof (cases "m a")
    case None
    with Cons obtain us vs where "ks = us @ k # vs" "\<forall>u\<in>set us. m u = None" "m k = Some v"
      by auto
    with None have "a # ks = (a # us) @ k # vs \<and> (\<forall>u\<in>set (a # us). m u = None)" by simp
    with \<open>m k = Some v\<close> show ?thesis by blast
  next
    case (Some w)
    with Cons.prems show ?thesis by (auto intro: exI [of _ "[]"])
  qed
qed

locale host_table =
  fixes look :: "(string \<rightharpoonup> 'v) \<Rightarrow> string \<Rightarrow> 'v option"
    and cands :: "string \<Rightarrow> string list"
  assumes look_exact: "m h = Some v \<Longrightarrow> look m h = Some v"
    and look_cands: "m h = None \<Longrightarrow> look m h = map_option snd (first_hit m (cands h))"
begin

lemma look_eq: "look m h = map_option snd (first_hit m (h # cands h))"
  by (cases "m h") (simp_all add: look_exact look_cands)

lemma look_None_iff: "look m h = None \<longleftrightarrow> m h = None \<and> (\<forall>c\<in>set (cands h). m c = None)"
  using first_hit_None_iff [of m "h # cands h"] by (auto simp: look_eq)

lemma look_irrelevant:
  assumes "k \<noteq> h" "k \<notin> set (cands h)"
  shows "look (m(k := v)) h = look m h"
proof -
  have "first_hit (m(k := v)) ks = first_hit m ks" if "k \<notin> set ks" for ks
    using that by (induction ks) (auto split: option.splits)
  with assms show ?thesis by (auto simp: look_eq split: option.splits)
qed

lemma look_unique:
  assumes "host_table look' cands"
  shows "look' = look"
  using host_table.look_eq [OF assms] look_eq by (intro ext) simp

end

section \<open>Choosing a member of a pool\<close>

text \<open>
  What the callers of a pool rely on, whatever the strategy: a member is always
  returned, and it is a live one as long as any member is alive.
\<close>

locale member_picker =
  fixes pick :: "'p \<Rightarrow> 'm"
    and members :: "'p \<Rightarrow> 'm list"
    and dead :: "'m \<Rightarrow> bool"
  assumes pick_member: "members p \<noteq> [] \<Longrightarrow> pick p \<in> set (members p)"
    and pick_live: "m \<in> set (members p) \<Longrightarrow> \<not> dead m \<Longrightarrow> \<not> dead (pick p)"
begin

lemma pick_dead_iff:
  assumes "members p \<noteq> []"
  shows "dead (pick p) \<longleftrightarrow> (\<forall>m\<in>set (members p). dead m)"
  using assms pick_member pick_live by blast

end

end
