(* ===== verification/Wire.thy ===== *)
theory Wire
  imports Contracts
begin

text \<open>
  The per-stream wire protocol of \<^verbatim>\<open>internal/mux/protocol.go\<close> and the server's own copy of
  it in \<^verbatim>\<open>cmd/server/main.go\<close>: the handshake marker, length-prefixed data frames, the
  zero-length half-close frame and the error frame.
\<close>

section \<open>The handshake marker\<close>

definition SYNC_HDR :: bytes where
  "SYNC_HDR = [0, 0] @ bytes_of_string ''SSHUTTLE0001''"

definition WriteSyncHeader :: "sink \<Rightarrow> error option \<times> sink" where
  "WriteSyncHeader w = sink_write SYNC_HDR w"

definition ReadSyncHeader :: "bytes \<Rightarrow> error option \<times> bytes" where
  "ReadSyncHeader r =
     (case read_full (length SYNC_HDR) r of
        (Inl e, r') \<Rightarrow> (Some (Wrapped ''mux: reading sync header'' e), r')
      | (Inr buf, r') \<Rightarrow>
          (if buf \<noteq> SYNC_HDR then (Some (Msg ''mux: unexpected sync header''), r') else (None, r')))"

section \<open>Data, half-close and error frames\<close>

definition BUF_SIZE :: nat where "BUF_SIZE = 65534"
definition errFrameMarker :: u16 where "errFrameMarker = 0xFFFF"
definition maxErrMsg :: nat where "maxErrMsg = 1024"

definition writeMsg :: "bytes \<Rightarrow> sink \<Rightarrow> error option \<times> sink" where
  "writeMsg payload w =
     (if length payload > BUF_SIZE then (Some (Msg ''mux: payload too large''), w)
      else
        let hdr = put_be16 (word_of_nat (length payload));
            buf = hdr @ payload
        in sink_write buf w)"

definition WriteErrorMsg :: "string \<Rightarrow> sink \<Rightarrow> error option \<times> sink" where
  "WriteErrorMsg msg w =
     (let msg = (if length msg > maxErrMsg then take maxErrMsg msg else msg);
          buf = put_be16 errFrameMarker @ put_be16 (word_of_nat (length msg)) @ bytes_of_string msg
      in sink_write buf w)"

definition readMsg :: "bytes \<Rightarrow> (error + bytes) \<times> bytes" where
  "readMsg r =
     (case read_full 2 r of
        (Inl e, r1) \<Rightarrow> (Inl e, r1)
      | (Inr hdr, r1) \<Rightarrow>
          let n = get_be16 (hdr ! 0) (hdr ! 1) in
          if n = 0 then (Inr [], r1)
          else if n = errFrameMarker then
            (case read_full 2 r1 of
               (Inl e, r2) \<Rightarrow> (Inl e, r2)
             | (Inr hdr2, r2) \<Rightarrow>
                 (case read_full (unat (get_be16 (hdr2 ! 0) (hdr2 ! 1))) r2 of
                    (Inl e, r3) \<Rightarrow> (Inl e, r3)
                  | (Inr msg, r3) \<Rightarrow> (Inl (Remote (string_of_bytes msg)), r3)))
          else
            (case read_full (unat n) r1 of
               (Inl e, r2) \<Rightarrow> (Inl e, r2)
             | (Inr buf, r2) \<Rightarrow> (Inr buf, r2)))"

text \<open>
  The server's copies: its \<open>writeMsg\<close> has no size check, and its reader takes the
  client's frames, among which there is no error frame. A \<^verbatim>\<open>nil\<close> payload, the
  half-close, is \<open>None\<close>.
\<close>

definition srv_writeMsg :: "bytes \<Rightarrow> sink \<Rightarrow> error option \<times> sink" where
  "srv_writeMsg payload w =
     (let buf = put_be16 (word_of_nat (length payload)) @ payload in sink_write buf w)"

definition readMsgBuf :: "bytes \<Rightarrow> (error + bytes option) \<times> bytes" where
  "readMsgBuf r =
     (case read_full 2 r of
        (Inl e, r1) \<Rightarrow> (Inl e, r1)
      | (Inr hdr, r1) \<Rightarrow>
          let n = get_be16 (hdr ! 0) (hdr ! 1) in
          if n = 0 then (Inr None, r1)
          else
            (case read_full (unat n) r1 of
               (Inl e, r2) \<Rightarrow> (Inl e, r2)
             | (Inr buf, r2) \<Rightarrow> (Inr (Some buf), r2)))"

section \<open>What the frames look like on the wire\<close>

text \<open>The bytes that reach the stream when the write succeeds.\<close>

definition sent :: "(sink \<Rightarrow> error option \<times> sink) \<Rightarrow> bytes" where
  "sent wr = sk_out (snd (wr (open_sink [])))"

lemma sent_writeMsg:
  "length p \<le> BUF_SIZE \<Longrightarrow> sent (writeMsg p) = put_be16 (word_of_nat (length p)) @ p"
  by (simp add: sent_def writeMsg_def Let_def)

lemma sent_srv_writeMsg: "sent (srv_writeMsg p) = put_be16 (word_of_nat (length p)) @ p"
  by (simp add: sent_def srv_writeMsg_def)

lemma sent_WriteErrorMsg:
  "sent (WriteErrorMsg m) =
     put_be16 errFrameMarker @ put_be16 (word_of_nat (length (take maxErrMsg m)))
       @ bytes_of_string (take maxErrMsg m)"
  by (simp add: sent_def WriteErrorMsg_def Let_def)

lemma writeMsg_appends:
  "sk_err w = None \<Longrightarrow> length p \<le> BUF_SIZE \<Longrightarrow>
     writeMsg p w = (None, w\<lparr>sk_out := sk_out w @ sent (writeMsg p)\<rparr>)"
  by (simp add: sent_writeMsg) (simp add: writeMsg_def Let_def sink_write_ok)

lemma readMsg_put:
  assumes "length p \<le> BUF_SIZE"
  shows "readMsg (put_be16 (word_of_nat (length p)) @ p @ rest) = (Inr p, rest)"
proof -
  have lt: "length p < 65535" using assms by (simp add: BUF_SIZE_def)
  have z: "(word_of_nat (length p) :: u16) = 0 \<longleftrightarrow> length p = 0"
    using lt by (intro u16_of_nat_eq_0_iff) simp
  have e: "(word_of_nat (length p) :: u16) \<noteq> errFrameMarker"
    using lt u16_of_nat_eq_iff [of "length p" 65535] by (simp add: errFrameMarker_def)
  have u: "unat (word_of_nat (length p) :: u16) = length p"
    using lt by (simp add: unat_u16_of_nat)
  show ?thesis
    using z e u by (simp add: readMsg_def put_be16_def Let_def)
qed

lemma readMsg_sent_writeMsg:
  assumes "length p \<le> BUF_SIZE"
  shows "readMsg (sent (writeMsg p) @ rest) = (Inr p, rest)"
  using readMsg_put [OF assms, of rest] assms by (simp add: sent_writeMsg)

lemma readMsg_sent_srv_writeMsg:
  assumes "length p \<le> BUF_SIZE"
  shows "readMsg (sent (srv_writeMsg p) @ rest) = (Inr p, rest)"
  using readMsg_put [OF assms, of rest] by (simp add: sent_srv_writeMsg)

lemma readMsg_error_frame:
  assumes "length m \<le> maxErrMsg"
  shows "readMsg (put_be16 errFrameMarker @ put_be16 (word_of_nat (length m))
            @ bytes_of_string m @ rest) = (Inl (Remote m), rest)"
proof -
  have u: "unat (word_of_nat (length m) :: u16) = length m"
    using assms by (simp add: unat_u16_of_nat maxErrMsg_def)
  show ?thesis
    by (simp add: readMsg_def put_be16_def u) (simp add: errFrameMarker_def Let_def)
qed

lemma readMsg_sent_WriteErrorMsg:
  "readMsg (sent (WriteErrorMsg m) @ rest) = (Inl (Remote (take maxErrMsg m)), rest)"
proof -
  have "length (take maxErrMsg m) \<le> maxErrMsg" by simp
  from readMsg_error_frame [OF this, of rest] show ?thesis
    by (simp only: sent_WriteErrorMsg append_assoc)
qed

lemma readMsgBuf_put:
  assumes "length p < 65536"
  shows "readMsgBuf (put_be16 (word_of_nat (length p)) @ p @ rest) =
     (Inr (if p = [] then None else Some p), rest)"
proof -
  have z: "(word_of_nat (length p) :: u16) = 0 \<longleftrightarrow> length p = 0"
    using assms by (simp only: u16_of_nat_eq_0_iff)
  have u: "unat (word_of_nat (length p) :: u16) = length p"
    using assms by (simp add: unat_u16_of_nat)
  show ?thesis
    using z u by (simp add: readMsgBuf_def put_be16_def)
qed

text \<open>Each pair of writer and reader is a frame codec.\<close>

interpretation client_frames: frame_codec
  "\<lambda>p. sent (writeMsg p)" readMsg "\<lambda>p. length p \<le> BUF_SIZE"
  by unfold_locales (rule readMsg_sent_writeMsg)

interpretation down_frames: frame_codec
  "\<lambda>p. sent (srv_writeMsg p)" readMsg "\<lambda>p. length p \<le> BUF_SIZE"
  by unfold_locales (rule readMsg_sent_srv_writeMsg)

definition up_payload :: "bytes option \<Rightarrow> bytes" where
  "up_payload p = (case p of None \<Rightarrow> [] | Some b \<Rightarrow> b)"

interpretation up_frames: frame_codec
  "\<lambda>p. sent (writeMsg (up_payload p))" readMsgBuf
  "\<lambda>p. p \<noteq> Some [] \<and> length (up_payload p) \<le> BUF_SIZE"
proof unfold_locales
  fix p rest
  assume v: "p \<noteq> Some [] \<and> length (up_payload p) \<le> BUF_SIZE"
  then have "readMsgBuf (sent (writeMsg (up_payload p)) @ rest) =
      (Inr (if up_payload p = [] then None else Some (up_payload p)), rest)"
    using readMsgBuf_put [of "up_payload p" rest] by (simp add: sent_writeMsg BUF_SIZE_def)
  with v show "readMsgBuf (sent (writeMsg (up_payload p)) @ rest) = (Inr p, rest)"
    by (cases p) (auto simp: up_payload_def)
qed


section \<open>Properties\<close>

text \<open>
  C2: round trip of a direction. Any sequence of messages written with \<open>writeMsg\<close> (empty
  ones are half-closes) followed by an error frame is read back message by message, in
  order, with exactly the bytes after them left on the stream, and the error frame then
  yields the server's text, cut to its cap.
\<close>

theorem wire_stream_roundtrip:
  assumes "list_all (\<lambda>p. length p \<le> BUF_SIZE) ps"
  shows "decode_many readMsg (length ps)
           (concat (map (\<lambda>p. sent (writeMsg p)) ps) @ sent (WriteErrorMsg m) @ rest)
           = (Inr ps, sent (WriteErrorMsg m) @ rest)
       \<and> readMsg (sent (WriteErrorMsg m) @ rest) = (Inl (Remote (take maxErrMsg m)), rest)"
  using client_frames.decode_stream [OF assms] readMsg_sent_WriteErrorMsg by simp

lemma wire_stream_roundtrip_witness:
  "decode_many readMsg (length [[1, 2], [], [3 :: byte]])
     (concat (map (\<lambda>p. sent (writeMsg p)) [[1, 2], [], [3]]) @ sent (WriteErrorMsg ''refused'') @ [9])
     = (Inr [[1, 2], [], [3]], sent (WriteErrorMsg ''refused'') @ [9])
   \<and> readMsg (sent (WriteErrorMsg ''refused'') @ [9]) = (Inl (Remote (take maxErrMsg ''refused'')), [9])"
  by (rule wire_stream_roundtrip) (simp add: BUF_SIZE_def)

text \<open>
  The server reads what the client writes. A client message reaches the server's reader
  unchanged, an empty one as the half-close, so that two different sequences of messages
  never look the same on the wire.
\<close>

lemma upstream_roundtrip:
  assumes "list_all (\<lambda>p. p \<noteq> Some [] \<and> length (up_payload p) \<le> BUF_SIZE) ps"
  shows "decode_many readMsgBuf (length ps)
           (concat (map (\<lambda>p. sent (writeMsg (up_payload p))) ps) @ rest) = (Inr ps, rest)"
  using assms by (rule up_frames.decode_stream)

text \<open>
  The server's \<open>writeMsg\<close> has no size check. A message of 65,535 bytes is announced
  with the marker of an error frame, and whatever follows it on the stream the client never
  receives the message.
\<close>

lemma srv_writeMsg_oversize_lost:
  assumes "length p = 65535"
  shows "fst (readMsg (sent (srv_writeMsg p) @ rest)) \<noteq> Inr p"
proof -
  have len: "(word_of_nat (length p) :: u16) = errFrameMarker"
    using assms by (simp add: errFrameMarker_def)
  have "readMsg (put_be16 errFrameMarker @ s) \<noteq> (Inr p, t)" for s t
    by (simp add: readMsg_def put_be16_def)
      (simp add: errFrameMarker_def Let_def split: prod.splits sum.splits)
  then have "readMsg (sent (srv_writeMsg p) @ rest) \<noteq> (Inr p, t)" for t
    using len by (simp add: sent_srv_writeMsg)
  then show ?thesis by (metis prod.collapse)
qed

text \<open>
  The handshake. The client accepts exactly a stream that begins with the marker the
  server writes, and then continues right behind it.
\<close>

lemma sync_header_iff:
  "ReadSyncHeader s = (None, rest) \<longleftrightarrow> s = sent WriteSyncHeader @ rest"
proof -
  have w: "sent WriteSyncHeader = SYNC_HDR" by (simp add: sent_def WriteSyncHeader_def)
  show ?thesis unfolding w
  proof
    assume "ReadSyncHeader s = (None, rest)"
    then show "s = SYNC_HDR @ rest"
      unfolding ReadSyncHeader_def
      by (auto split: prod.splits sum.splits if_splits dest: read_full_InrD)
  next
    assume "s = SYNC_HDR @ rest"
    then show "ReadSyncHeader s = (None, rest)" by (simp add: ReadSyncHeader_def)
  qed
qed

end
