(* ===== verification/FairSched.thy ===== *)
theory FairSched
  imports Wire
begin

text \<open>
  The deficit-round-robin frame scheduler of \<^verbatim>\<open>internal/mux/fair_writer.go\<close>. The drain
  goroutine is a function of the schedule of arrivals: the \<open>k\<close>-th element of the
  schedule is what the input channel holds at the \<open>k\<close>-th time the goroutine empties
  it. Every interleaving of the writers with the goroutine is one schedule. The
  connection underneath may break after any number of frames.
\<close>

section \<open>smux frames\<close>

definition smuxCmdSYN :: byte where "smuxCmdSYN = 0"
definition smuxCmdFIN :: byte where "smuxCmdFIN = 1"
definition smuxCmdPSH :: byte where "smuxCmdPSH = 2"
definition smuxCmdNOP :: byte where "smuxCmdNOP = 3"
definition smuxCmdUPD :: byte where "smuxCmdUPD = 4"
definition smuxHdrLen :: nat where "smuxHdrLen = 8"

lemmas smux_cmds = smuxCmdSYN_def smuxCmdFIN_def smuxCmdPSH_def smuxCmdNOP_def smuxCmdUPD_def

lemma smux_distinct [simp]: "smuxCmdFIN \<noteq> smuxCmdPSH" "smuxCmdPSH \<noteq> smuxCmdFIN"
    "smuxCmdSYN \<noteq> smuxCmdPSH" "smuxCmdSYN \<noteq> smuxCmdFIN" "smuxCmdFIN \<noteq> smuxCmdSYN"
    "smuxCmdPSH \<noteq> smuxCmdSYN"
  by (simp_all add: smux_cmds)

definition streamID :: "bytes \<Rightarrow> u32" where
  "streamID frame = get_le32 (frame ! 4) (frame ! 5) (frame ! 6) (frame ! 7)"

text \<open>
  A connection that carries whole frames; \<open>ln_budget\<close> counts the writes left until it
  breaks, and \<open>ln_fail\<close> is the error it then returns.
\<close>

record link =
  ln_frames :: "bytes list"
  ln_budget :: "nat option"
  ln_fail :: error

definition link_write :: "bytes \<Rightarrow> link \<Rightarrow> bool \<times> link" where
  "link_write f l =
     (case ln_budget l of
        Some 0 \<Rightarrow> (False, l)
      | Some (Suc n) \<Rightarrow> (True, l\<lparr>ln_frames := ln_frames l @ [f], ln_budget := Some n\<rparr>)
      | None \<Rightarrow> (True, l\<lparr>ln_frames := ln_frames l @ [f]\<rparr>))"

section \<open>The writer's side\<close>

record fair_frame =
  ff_data :: bytes
  ff_stream :: u32
  ff_cmd :: byte

definition mk_frame :: "bytes \<Rightarrow> fair_frame" where
  "mk_frame b =
     (if smuxHdrLen \<le> length b
      then \<lparr>ff_data = b, ff_stream = streamID b, ff_cmd = b ! 1\<rparr>
      else \<lparr>ff_data = b, ff_stream = 0, ff_cmd = 0\<rparr>)"

definition drrQuantum :: int where "drrQuantum = 131072"
definition fairWriterBufSize :: nat where "fairWriterBufSize = 64"

record fair_writer =
  fw_in :: "fair_frame list"
  fw_done :: bool
  fw_err :: "error option"

datatype write_result = Wrote nat | WriteErr error | WouldBlock

definition NewFairWriter :: fair_writer where
  "NewFairWriter = \<lparr>fw_in = [], fw_done = False, fw_err = None\<rparr>"

definition fw_Write :: "bytes \<Rightarrow> fair_writer \<Rightarrow> write_result \<times> fair_writer" where
  "fw_Write b fw =
     (if fw_done fw then
        (case fw_err fw of Some e \<Rightarrow> (WriteErr e, fw) | None \<Rightarrow> (WriteErr ClosedPipe, fw))
      else
        let f = mk_frame b in
        if length (fw_in fw) < fairWriterBufSize
        then (Wrote (length b), fw\<lparr>fw_in := fw_in fw @ [f]\<rparr>)
        else (WouldBlock, fw))"

definition fw_Close :: "fair_writer \<Rightarrow> fair_writer" where
  "fw_Close fw = fw\<lparr>fw_done := True\<rparr>"

section \<open>The drain goroutine\<close>

record stream_queue =
  sq_frames :: "bytes list"
  sq_deficit :: int

text \<open>
  \<open>d_active\<close> is the list \<open>classify\<close> appends new streams to: \<^verbatim>\<open>active\<close> between rounds,
  \<^verbatim>\<open>remaining\<close> during a round (the streams still to serve are then an argument).
\<close>

record drain =
  d_queues :: "u32 \<rightharpoonup> stream_queue"
  d_active :: "u32 list"
  d_set :: "u32 \<Rightarrow> bool"
  d_prio :: "bytes list"
  d_link :: link
  d_err :: "error option"
  d_done :: bool

definition init_drain :: "nat option \<Rightarrow> error \<Rightarrow> drain" where
  "init_drain budget e =
     \<lparr>d_queues = Map.empty, d_active = [], d_set = (\<lambda>_. False), d_prio = [],
      d_link = \<lparr>ln_frames = [], ln_budget = budget, ln_fail = e\<rparr>, d_err = None, d_done = False\<rparr>"

definition classify :: "fair_frame \<Rightarrow> drain \<Rightarrow> drain" where
  "classify f d =
     (let sid = ff_stream f in
      if ff_cmd f = smuxCmdPSH then
        let q = (case d_queues d sid of None \<Rightarrow> \<lparr>sq_frames = [], sq_deficit = 0\<rparr> | Some q \<Rightarrow> q);
            d1 = d\<lparr>d_queues := (d_queues d)(sid \<mapsto> q\<lparr>sq_frames := sq_frames q @ [ff_data f]\<rparr>)\<rparr>
        in if \<not> d_set d sid
           then d1\<lparr>d_active := d_active d @ [sid], d_set := (d_set d)(sid := True)\<rparr>
           else d1
      else if ff_cmd f = smuxCmdFIN then
        (case d_queues d sid of
           Some q \<Rightarrow>
             (if sq_frames q \<noteq> []
              then d\<lparr>d_queues := (d_queues d)(sid \<mapsto> q\<lparr>sq_frames := sq_frames q @ [ff_data f]\<rparr>)\<rparr>
              else d\<lparr>d_prio := d_prio d @ [ff_data f]\<rparr>)
         | None \<Rightarrow> d\<lparr>d_prio := d_prio d @ [ff_data f]\<rparr>)
      else d\<lparr>d_prio := d_prio d @ [ff_data f]\<rparr>)"

definition collectPending :: "bytes list \<Rightarrow> drain \<Rightarrow> drain" where
  "collectPending batch d = fold classify (map mk_frame batch) d"

definition writeFrame :: "bytes \<Rightarrow> drain \<Rightarrow> bool \<times> drain" where
  "writeFrame frame d =
     (case link_write frame (d_link d) of
        (True, l) \<Rightarrow> (True, d\<lparr>d_link := l\<rparr>)
      | (False, l) \<Rightarrow> (False, d\<lparr>d_link := l, d_err := Some (ln_fail l), d_done := True\<rparr>))"

fun write_frames :: "bytes list \<Rightarrow> drain \<Rightarrow> bool \<times> drain" where
  "write_frames [] d = (True, d)"
| "write_frames (f # fs) d =
     (case writeFrame f d of
        (False, d') \<Rightarrow> (False, d')
      | (True, d') \<Rightarrow> write_frames fs d')"

definition flushSlice :: "drain \<Rightarrow> bool \<times> drain" where
  "flushSlice d =
     (case write_frames (d_prio d) d of
        (False, d') \<Rightarrow> (False, d')
      | (True, d') \<Rightarrow> (True, d'\<lparr>d_prio := []\<rparr>))"

text \<open>The schedule: the next batch is what one \<open>collectPending\<close> finds; none left means nothing arrives.\<close>

fun next_batch :: "bytes list list \<Rightarrow> bytes list \<times> bytes list list" where
  "next_batch [] = ([], [])"
| "next_batch (b # bs) = (b, bs)"

text \<open>
  The turn of one stream. The measure of its loop: the frames in the stream's queue and in
  the schedule; each iteration takes one frame out and moves scheduled frames at most into
  the queue.
\<close>

definition queue_of :: "u32 \<Rightarrow> drain \<Rightarrow> bytes list" where
  "queue_of sid d = (case d_queues d sid of None \<Rightarrow> [] | Some q \<Rightarrow> sq_frames q)"

definition backlog :: "u32 \<Rightarrow> bytes list list \<Rightarrow> drain \<Rightarrow> nat" where
  "backlog sid sched d = length (queue_of sid d) + length (concat sched)"

lemma queue_of_classify: "length (queue_of sid (classify f d)) \<le> Suc (length (queue_of sid d))"
  by (auto simp: classify_def queue_of_def Let_def split: option.splits)

lemma queue_of_collect:
  "length (queue_of sid (collectPending batch d)) \<le> length (queue_of sid d) + length batch"
proof -
  have "length (queue_of sid (fold classify fs d)) \<le> length (queue_of sid d) + length fs" for fs
  proof (induction fs arbitrary: d)
    case (Cons f fs)
    have "length (queue_of sid (fold classify fs (classify f d)))
            \<le> length (queue_of sid (classify f d)) + length fs" by (rule Cons.IH)
    with queue_of_classify [of sid f d] show ?case by simp
  qed simp
  from this [of "map mk_frame batch"] show ?thesis by (simp add: collectPending_def)
qed

text \<open>What the link and the error flag do not touch.\<close>

definition same_sched :: "drain \<Rightarrow> drain \<Rightarrow> bool" where
  "same_sched d d' \<longleftrightarrow>
     d_queues d' = d_queues d \<and> d_active d' = d_active d \<and> d_set d' = d_set d"

lemma same_sched_refl [simp]: "same_sched d d"
  by (simp add: same_sched_def)

lemma same_sched_trans: "same_sched a b \<Longrightarrow> same_sched b c \<Longrightarrow> same_sched a c"
  by (simp add: same_sched_def)

lemma same_sched_queue_of: "same_sched d d' \<Longrightarrow> queue_of sid d' = queue_of sid d"
  by (simp add: same_sched_def queue_of_def)

lemma writeFrame_same: "writeFrame f d = (ok, d') \<Longrightarrow> same_sched d d' \<and> d_prio d' = d_prio d"
  by (auto simp: writeFrame_def same_sched_def split: prod.splits bool.splits)

lemma write_frames_same:
  "write_frames fs d = (ok, d') \<Longrightarrow> same_sched d d' \<and> d_prio d' = d_prio d"
proof (induction fs arbitrary: d)
  case (Cons f fs)
  obtain ok1 d1 where w: "writeFrame f d = (ok1, d1)" by fastforce
  with Cons writeFrame_same [OF w] show ?case
    by (cases ok1) (auto intro: same_sched_trans)
qed simp

lemma flushSlice_same: "flushSlice d = (ok, d') \<Longrightarrow> same_sched d d'"
  using write_frames_same [of "d_prio d" d]
  by (auto simp: flushSlice_def same_sched_def split: prod.splits bool.splits)

text \<open>
  The body of the stream's loop: the head frame is taken off the queue and charged to the
  deficit, newly arrived frames are classified, the bypass list is flushed, and then the
  frame is written.
\<close>

definition serve_body ::
    "u32 \<Rightarrow> stream_queue \<Rightarrow> bytes \<Rightarrow> bytes list \<Rightarrow> bytes list list \<Rightarrow> drain
       \<Rightarrow> bool \<times> bytes list list \<times> drain" where
  "serve_body sid q frame rest sched d =
     (let d1 = d\<lparr>d_queues := (d_queues d)(sid \<mapsto>
              q\<lparr>sq_frames := rest, sq_deficit := sq_deficit q - int (length frame)\<rparr>)\<rparr>;
          d2 = collectPending (fst (next_batch sched)) d1;
          sched' = snd (next_batch sched)
      in (case flushSlice d2 of
            (False, d3) \<Rightarrow> (False, sched', d3)
          | (True, d3) \<Rightarrow>
              (case writeFrame frame d3 of
                 (False, d4) \<Rightarrow> (False, sched', d4)
               | (True, d4) \<Rightarrow> (True, sched', d4))))"

lemma serve_body_cases:
  assumes "serve_body sid q frame rest sched d = (ok, sched', d')"
  obtains (steps) d1 d2 d3 ok3 where
    "d1 = d\<lparr>d_queues := (d_queues d)(sid \<mapsto>
       q\<lparr>sq_frames := rest, sq_deficit := sq_deficit q - int (length frame)\<rparr>)\<rparr>"
    "d2 = collectPending (fst (next_batch sched)) d1"
    "sched' = snd (next_batch sched)"
    "flushSlice d2 = (ok3, d3)"
    "\<not> ok3 \<Longrightarrow> \<not> ok \<and> d' = d3" "ok3 \<Longrightarrow> writeFrame frame d3 = (ok, d')"
    "same_sched d2 d'"
proof -
  obtain ok3 d3 where fl: "flushSlice (collectPending (fst (next_batch sched))
      (d\<lparr>d_queues := (d_queues d)(sid \<mapsto>
        q\<lparr>sq_frames := rest, sq_deficit := sq_deficit q - int (length frame)\<rparr>)\<rparr>)) = (ok3, d3)"
    by fastforce
  obtain ok4 d4 where wr: "writeFrame frame d3 = (ok4, d4)" by fastforce
  show thesis
  proof (rule steps [OF refl refl _ fl])
    show "sched' = snd (next_batch sched)" and 1: "\<not> ok3 \<Longrightarrow> \<not> ok \<and> d' = d3"
      and 2: "ok3 \<Longrightarrow> writeFrame frame d3 = (ok, d')"
      using assms fl wr by (cases ok3; cases ok4; simp add: serve_body_def Let_def)+
    show "same_sched (collectPending (fst (next_batch sched))
      (d\<lparr>d_queues := (d_queues d)(sid \<mapsto>
        q\<lparr>sq_frames := rest, sq_deficit := sq_deficit q - int (length frame)\<rparr>)\<rparr>)) d'"
      using 1 2 flushSlice_same [OF fl] writeFrame_same same_sched_trans by (cases ok3) blast+
  qed
qed

lemma backlog_step:
  assumes q: "d_queues d sid = Some q" "sq_frames q = frame # rest"
    and body: "serve_body sid q frame rest sched d = (ok, sched', d')"
  shows "backlog sid sched' d' < backlog sid sched d"
proof -
  from body show ?thesis
  proof (cases rule: serve_body_cases)
    case (steps d1 d2 d3 ok3)
    have "queue_of sid d' = queue_of sid d2" using steps(7) by (rule same_sched_queue_of)
    moreover have "queue_of sid d1 = rest" by (simp add: steps(1) queue_of_def)
    ultimately have "length (queue_of sid d') \<le> length rest + length (fst (next_batch sched))"
      using queue_of_collect [of sid "fst (next_batch sched)" d1] steps(2) by simp
    moreover have "length (concat sched)
        = length (fst (next_batch sched)) + length (concat sched')"
      using steps(3) by (cases sched) auto
    moreover have "queue_of sid d = frame # rest" using q by (simp add: queue_of_def)
    ultimately show ?thesis by (simp add: backlog_def)
  qed
qed

function serve ::
    "u32 \<Rightarrow> bytes list list \<Rightarrow> drain \<Rightarrow> bool \<times> bytes list list \<times> drain" where
  "serve sid sched d =
     (case d_queues d sid of
        None \<Rightarrow> (True, sched, d)
      | Some q \<Rightarrow>
         (case sq_frames q of
            [] \<Rightarrow> (True, sched, d)
          | frame # rest \<Rightarrow>
              if sq_deficit q < int (length frame) then (True, sched, d)
              else
                (case serve_body sid q frame rest sched d of
                   (False, r) \<Rightarrow> (False, r)
                 | (True, sched', d') \<Rightarrow> serve sid sched' d')))"
  by pat_completeness auto
termination
  by (relation "measure (\<lambda>(sid, sched, d). backlog sid sched d)") (auto intro: backlog_step [OF _ _ sym])

declare serve.simps [simp del]

text \<open>One round over the streams that were active when it began.\<close>

fun serve_all ::
    "u32 list \<Rightarrow> bytes list list \<Rightarrow> drain \<Rightarrow> bool \<times> bytes list list \<times> drain" where
  "serve_all [] sched d = (True, sched, d)"
| "serve_all (sid # sids) sched d =
     (let d0 = d\<lparr>d_queues := (d_queues d)(sid := map_option
                 (\<lambda>q. q\<lparr>sq_deficit := sq_deficit q + drrQuantum\<rparr>) (d_queues d sid))\<rparr>
      in (case serve sid sched d0 of
            (False, sched', d') \<Rightarrow> (False, sched', d')
          | (True, sched', d') \<Rightarrow>
              serve_all sids sched'
                (if queue_of sid d' \<noteq> [] then d'\<lparr>d_active := d_active d' @ [sid]\<rparr>
                 else d'\<lparr>d_queues := (d_queues d')(sid := None),
                         d_set := (d_set d')(sid := False)\<rparr>)))"

text \<open>
  One pass of the outer loop. When nothing is pending the goroutine blocks until a frame
  arrives; here the batch it then collects is the next one of the schedule, and an empty
  batch leaves the state as it is.
\<close>

definition drain_pass :: "bytes list list \<Rightarrow> drain \<Rightarrow> bool \<times> bytes list list \<times> drain" where
  "drain_pass sched d =
     (let d1 = collectPending (fst (next_batch sched)) d; sched1 = snd (next_batch sched)
      in (case flushSlice d1 of
            (False, d2) \<Rightarrow> (False, sched1, d2)
          | (True, d2) \<Rightarrow>
              if d_active d2 = [] then (True, sched1, d2)
              else serve_all (d_active d2) sched1 (d2\<lparr>d_active := []\<rparr>)))"

fun drain_loop :: "nat \<Rightarrow> bytes list list \<Rightarrow> drain \<Rightarrow> bool \<times> bytes list list \<times> drain" where
  "drain_loop 0 sched d = (True, sched, d)"
| "drain_loop (Suc n) sched d =
     (case drain_pass sched d of
        (False, r) \<Rightarrow> (False, r)
      | (True, sched', d') \<Rightarrow> drain_loop n sched' d')"

section \<open>Order of a stream's data frames\<close>

definition is_psh :: "u32 \<Rightarrow> bytes \<Rightarrow> bool" where
  "is_psh sid b \<longleftrightarrow> smuxHdrLen \<le> length b \<and> b ! 1 = smuxCmdPSH \<and> streamID b = sid"

abbreviation psh :: "u32 \<Rightarrow> bytes list \<Rightarrow> bytes list" where
  "psh sid fs \<equiv> filter (is_psh sid) fs"

text \<open>The data frames of a stream that are written, waiting in its queue, and still to arrive.\<close>

definition written :: "u32 \<Rightarrow> drain \<Rightarrow> bytes list" where
  "written sid d = psh sid (ln_frames (d_link d))"

definition waiting :: "u32 \<Rightarrow> drain \<Rightarrow> bytes list" where
  "waiting sid d = psh sid (queue_of sid d)"

definition upcoming :: "u32 \<Rightarrow> bytes list list \<Rightarrow> bytes list" where
  "upcoming sid sched = psh sid (concat sched)"

text \<open>No data frame sits in the bypass list, and a queue holds data frames of its own stream only.\<close>

definition sorted_in :: "drain \<Rightarrow> bool" where
  "sorted_in d \<longleftrightarrow>
     (\<forall>b\<in>set (d_prio d). \<forall>sid. \<not> is_psh sid b) \<and>
     (\<forall>s q b sid. d_queues d s = Some q \<longrightarrow> b \<in> set (sq_frames q) \<longrightarrow> is_psh sid b \<longrightarrow> sid = s)"

lemma mk_frame_psh: "ff_cmd (mk_frame b) = smuxCmdPSH \<Longrightarrow> is_psh sid b \<longleftrightarrow> ff_stream (mk_frame b) = sid"
  by (auto simp: mk_frame_def is_psh_def smux_cmds split: if_splits)

lemma mk_frame_not_psh: "ff_cmd (mk_frame b) \<noteq> smuxCmdPSH \<Longrightarrow> \<not> is_psh sid b"
  by (auto simp: mk_frame_def is_psh_def split: if_splits)

lemma ff_data_mk_frame [simp]: "ff_data (mk_frame b) = b"
  by (simp add: mk_frame_def)

lemma sorted_in_classify: "sorted_in d \<Longrightarrow> sorted_in (classify (mk_frame b) d)"
  using mk_frame_psh [of b] mk_frame_not_psh [of b]
  by (fastforce simp: sorted_in_def classify_def Let_def split: option.splits if_splits)

lemma waiting_classify:
  "waiting sid (classify (mk_frame b) d) = waiting sid d @ psh sid [b]"
  using mk_frame_psh [of b sid] mk_frame_not_psh [of b sid]
  by (auto simp: waiting_def queue_of_def classify_def Let_def split: option.splits)

lemma d_link_classify [simp]: "d_link (classify f d) = d_link d"
  by (auto simp: classify_def Let_def split: option.splits)

lemma collect_facts:
  assumes "sorted_in d"
  shows "sorted_in (collectPending bs d)"
    and "waiting sid (collectPending bs d) = waiting sid d @ psh sid bs"
    and "d_link (collectPending bs d) = d_link d"
  using assms
  by (induction bs arbitrary: d)
    (simp_all add: collectPending_def sorted_in_classify waiting_classify)

lemma writeFrame_link:
  "writeFrame f d = (True, d') \<Longrightarrow> ln_frames (d_link d') = ln_frames (d_link d) @ [f]"
  "writeFrame f d = (False, d') \<Longrightarrow> ln_frames (d_link d') = ln_frames (d_link d)"
  by (auto simp: writeFrame_def link_write_def split: prod.splits option.splits nat.splits)

lemma written_writeFrame:
  "writeFrame f d = (ok, d') \<Longrightarrow> written sid d' = written sid d @ (if ok then psh sid [f] else [])"
  using writeFrame_link [of f d d'] by (cases ok) (auto simp: written_def)

lemma written_write_frames:
  "write_frames fs d = (ok, d') \<Longrightarrow> \<forall>b\<in>set fs. \<not> is_psh sid b \<Longrightarrow> written sid d' = written sid d"
proof (induction fs arbitrary: d)
  case (Cons f fs)
  obtain ok1 d1 where w: "writeFrame f d = (ok1, d1)" by fastforce
  have "written sid d1 = written sid d"
    using written_writeFrame [OF w] Cons.prems by simp
  with w Cons show ?case by (cases ok1) auto
qed simp

lemma same_sched_waiting: "same_sched d d' \<Longrightarrow> waiting sid d' = waiting sid d"
  by (simp add: waiting_def same_sched_queue_of)

lemma flushSlice_facts:
  assumes "flushSlice d = (ok, d')" "sorted_in d"
  shows "sorted_in d'" "written sid d' = written sid d" "waiting sid d' = waiting sid d"
proof -
  obtain d1 where d1: "write_frames (d_prio d) d = (ok, d1)"
    "d' = (if ok then d1\<lparr>d_prio := []\<rparr> else d1)"
    using assms(1) by (auto simp: flushSlice_def split: prod.splits bool.splits)
  have np: "\<forall>b\<in>set (d_prio d). \<not> is_psh sid b" using assms(2) by (simp add: sorted_in_def)
  show "sorted_in d'"
    using write_frames_same [OF d1(1)] assms(2) d1(2) by (auto simp: sorted_in_def same_sched_def)
  show "written sid d' = written sid d"
    using written_write_frames [OF d1(1) np] d1(2) by (auto simp: written_def)
  show "waiting sid d' = waiting sid d"
    using assms(1) by (intro same_sched_waiting flushSlice_same)
qed

lemma sorted_in_writeFrame:
  "writeFrame f d = (ok, d') \<Longrightarrow> sorted_in d \<Longrightarrow> sorted_in d'"
  using writeFrame_same [of f d ok d'] by (simp add: sorted_in_def same_sched_def)

text \<open>
  The ledger of a stream over any part of the drain loop: what is written, waiting and to
  come, in this order, stays the same sequence; only a broken connection loses the one
  frame that was in flight.
\<close>

definition ledger :: "u32 \<Rightarrow> bytes list list \<Rightarrow> drain \<Rightarrow> bytes list" where
  "ledger sid sched d = written sid d @ waiting sid d @ upcoming sid sched"

definition keeps_ledger :: "u32 \<Rightarrow> bytes list list \<Rightarrow> drain \<Rightarrow> bool \<times> bytes list list \<times> drain \<Rightarrow> bool" where
  "keeps_ledger sid sched d r \<longleftrightarrow>
     (case r of (ok, sched', d') \<Rightarrow>
        sorted_in d' \<and>
        (\<exists>lost. (ok \<longrightarrow> lost = []) \<and>
           ledger sid sched d = written sid d' @ lost @ waiting sid d' @ upcoming sid sched'))"

lemma upcoming_next:
  "upcoming sid sched = psh sid (fst (next_batch sched)) @ upcoming sid (snd (next_batch sched))"
  by (cases sched) (simp_all add: upcoming_def)

lemma keeps_ledger_trans:
  assumes "keeps_ledger sid sched d (True, sched1, d1)" "keeps_ledger sid sched1 d1 r"
  shows "keeps_ledger sid sched d r"
  using assms by (auto simp: keeps_ledger_def ledger_def)

text \<open>Reasoning about the loop: one rule for whatever its body keeps.\<close>

definition stopped :: "u32 \<Rightarrow> drain \<Rightarrow> bool" where
  "stopped sid d \<longleftrightarrow>
     (case d_queues d sid of
        None \<Rightarrow> True
      | Some q \<Rightarrow> (case sq_frames q of [] \<Rightarrow> True | f # _ \<Rightarrow> sq_deficit q < int (length f)))"

lemma serve_rule [consumes 1, case_names stop body]:
  assumes "serve sid sched d = (ok, sched', d')"
    and stop: "\<And>sched d. stopped sid d \<Longrightarrow> R sched d (True, sched, d)"
    and body: "\<And>sched d q frame rest ok1 sched1 d1 r.
        d_queues d sid = Some q \<Longrightarrow> sq_frames q = frame # rest \<Longrightarrow>
        int (length frame) \<le> sq_deficit q \<Longrightarrow>
        serve_body sid q frame rest sched d = (ok1, sched1, d1) \<Longrightarrow>
        (if ok1 then R sched1 d1 r else r = (False, sched1, d1)) \<Longrightarrow> R sched d r"
  shows "R sched d (ok, sched', d')"
  using assms
proof (induction sid sched d rule: serve.induct)
  case (1 sid sched d)
  show ?case
  proof (cases "\<exists>q frame rest. d_queues d sid = Some q \<and> sq_frames q = frame # rest
                 \<and> int (length frame) \<le> sq_deficit q")
    case False
    then have "serve sid sched d = (True, sched, d)"
      by (subst serve.simps) (auto split: option.splits list.splits)
    moreover have "stopped sid d"
      using False by (auto simp: stopped_def not_le split: option.splits list.splits)
    ultimately show ?thesis using "1.prems"(1,2) by simp
  next
    case True
    then obtain q frame rest where q: "d_queues d sid = Some q" "sq_frames q = frame # rest"
      "int (length frame) \<le> sq_deficit q" by blast
    obtain ok1 sched1 d1 where b: "serve_body sid q frame rest sched d = (ok1, sched1, d1)"
      by (cases "serve_body sid q frame rest sched d") auto
    have e: "serve sid sched d = (if ok1 then serve sid sched1 d1 else (False, sched1, d1))"
      using q b by (subst serve.simps) auto
    have r: "if ok1 then R sched1 d1 (ok, sched', d') else (ok, sched', d') = (False, sched1, d1)"
    proof (cases ok1)
      case True
      have "\<not> sq_deficit q < int (length frame)" using q(3) by simp
      from "1.IH" [OF q(1,2) this b [symmetric] _ refl] True e "1.prems" show ?thesis by simp
    next
      case False
      then show ?thesis using e "1.prems"(1) by simp
    qed
    show ?thesis by (rule "1.prems"(3) [OF q b r])
  qed
qed


lemma sorted_in_take:
  assumes "sorted_in d" "d_queues d sid = Some q" "sq_frames q = frame # rest"
    and "q' = q\<lparr>sq_frames := rest, sq_deficit := x\<rparr>"
  shows "sorted_in (d\<lparr>d_queues := (d_queues d)(sid \<mapsto> q')\<rparr>)"
    and "waiting t d = psh t [frame] @ waiting t (d\<lparr>d_queues := (d_queues d)(sid \<mapsto> q')\<rparr>)"
proof -
  have "set (sq_frames q') \<subseteq> set (sq_frames q)" using assms(3,4) by auto
  with assms(1,2) show "sorted_in (d\<lparr>d_queues := (d_queues d)(sid \<mapsto> q')\<rparr>)"
    unfolding sorted_in_def by (fastforce split: if_splits)
  have "is_psh t frame \<longrightarrow> t = sid"
    using assms(1-3) unfolding sorted_in_def by (metis list.set_intros(1))
  then show "waiting t d = psh t [frame] @ waiting t (d\<lparr>d_queues := (d_queues d)(sid \<mapsto> q')\<rparr>)"
    using assms(2-4) by (cases "t = sid") (auto simp: waiting_def queue_of_def)
qed

lemma serve_body_ledger:
  assumes inv: "sorted_in d" and q: "d_queues d sid = Some q" "sq_frames q = frame # rest"
    and body: "serve_body sid q frame rest sched d = (ok, sched', d')"
  shows "keeps_ledger t sched d (ok, sched', d')"
  using body
proof (cases rule: serve_body_cases)
  case (steps d1 d2 d3 ok3)
  have s1: "sorted_in d1" and w1: "waiting t d = psh t [frame] @ waiting t d1"
    unfolding steps(1) by (rule sorted_in_take [OF inv q refl])+
  note c = collect_facts(1) [OF s1, of "fst (next_batch sched)", folded steps(2)]
    collect_facts(2) [OF s1, of t "fst (next_batch sched)", folded steps(2)]
    collect_facts(3) [OF s1, of "fst (next_batch sched)", folded steps(2)]
  note f = flushSlice_facts [OF steps(4) c(1)]
  have link: "written t d3 = written t d"
    using c(3) f(2) [of t] by (simp add: written_def steps(1))
  have wait: "waiting t d' = waiting t d1 @ psh t (fst (next_batch sched))"
    using same_sched_waiting [OF steps(7)] c(2) by simp
  have "sorted_in d' \<and> written t d' = written t d @ (if ok then psh t [frame] else [])"
  proof (cases ok3)
    case True
    then have w: "writeFrame frame d3 = (ok, d')" by (rule steps(6))
    show ?thesis using written_writeFrame [OF w] sorted_in_writeFrame [OF w f(1)] link by simp
  next
    case False
    with steps(5) f(1) link show ?thesis by auto
  qed
  then show ?thesis
    using w1 wait upcoming_next [of t sched] steps(3)
    by (auto simp: keeps_ledger_def ledger_def intro: exI [of _ "if ok then [] else psh t [frame]"])
qed

lemma keeps_ledger_refl: "sorted_in d \<Longrightarrow> keeps_ledger t sched d (True, sched, d)"
  by (simp add: keeps_ledger_def ledger_def)

lemma keeps_ledger_sorted: "keeps_ledger t sched d (ok, sched', d') \<Longrightarrow> sorted_in d'"
  by (simp add: keeps_ledger_def)

lemma serve_ledger:
  assumes "serve sid sched d = r" "sorted_in d"
  shows "keeps_ledger t sched d r"
proof -
  obtain ok sched' d' where r: "serve sid sched d = (ok, sched', d')" by (cases "serve sid sched d") auto
  then have "sorted_in d \<longrightarrow> keeps_ledger t sched d (ok, sched', d')"
  proof (rule serve_rule [where R = "\<lambda>sched d r. sorted_in d \<longrightarrow> keeps_ledger t sched d r"])
    show "sorted_in d \<longrightarrow> keeps_ledger t sched d (True, sched, d)" for sched d
      by (simp add: keeps_ledger_refl)
    fix sid sched d q frame rest ok1 sched1 d1 r
    assume h: "d_queues d sid = Some q" "sq_frames q = frame # rest"
      "serve_body sid q frame rest sched d = (ok1, sched1, d1)"
      "if ok1 then sorted_in d1 \<longrightarrow> keeps_ledger t sched1 d1 r else r = (False, sched1, d1)"
    show "sorted_in d \<longrightarrow> keeps_ledger t sched d r"
    proof
      assume "sorted_in d"
      from serve_body_ledger [OF this h(1-3)] have k: "keeps_ledger t sched d (ok1, sched1, d1)" .
      from k h(4) keeps_ledger_sorted [OF k] show "keeps_ledger t sched d r"
        by (cases ok1) (auto intro: keeps_ledger_trans)
    qed
  qed
  with assms r show ?thesis by simp
qed

text \<open>Deficits, the active list and emptied queues do not enter the ledger.\<close>

lemma keeps_ledger_cong:
  assumes "\<And>t. queue_of t d0 = queue_of t d" "d_link d0 = d_link d"
    and "keeps_ledger t sched d r"
  shows "keeps_ledger t sched d0 r"
  using assms by (simp add: keeps_ledger_def ledger_def waiting_def written_def)

lemma sorted_in_subset:
  assumes "sorted_in d" "d_prio d' = d_prio d" "\<And>t. set (queue_of t d') \<subseteq> set (queue_of t d)"
  shows "sorted_in d'"
proof -
  have "is_psh t b \<Longrightarrow> t = s" if "d_queues d' s = Some q" "b \<in> set (sq_frames q)" for s q b t
  proof -
    have "b \<in> set (queue_of s d')" using that by (simp add: queue_of_def)
    then have "b \<in> set (queue_of s d)" using assms(3) by blast
    then obtain q' where "d_queues d s = Some q'" "b \<in> set (sq_frames q')"
      by (cases "d_queues d s") (auto simp: queue_of_def)
    then show "is_psh t b \<Longrightarrow> t = s"
      using assms(1) unfolding sorted_in_def by blast
  qed
  with assms(1,2) show ?thesis by (auto simp: sorted_in_def)
qed

lemma serve_all_ledger: "sorted_in d \<Longrightarrow> keeps_ledger t sched d (serve_all sids sched d)"
proof (induction sids arbitrary: sched d)
  case Nil
  then show ?case by (simp add: keeps_ledger_refl)
next
  case (Cons sid sids)
  define d0 where "d0 = d\<lparr>d_queues := (d_queues d)(sid := map_option
     (\<lambda>q. q\<lparr>sq_deficit := sq_deficit q + drrQuantum\<rparr>) (d_queues d sid))\<rparr>"
  have q0: "queue_of s d0 = queue_of s d" for s
    by (auto simp: d0_def queue_of_def split: option.splits)
  have s0: "sorted_in d0"
    by (rule sorted_in_subset [OF Cons.prems]) (simp_all add: q0, simp add: d0_def)
  obtain ok1 sched1 d1 where r: "serve sid sched d0 = (ok1, sched1, d1)"
    by (cases "serve sid sched d0") auto
  define d2 where "d2 = (if queue_of sid d1 \<noteq> [] then d1\<lparr>d_active := d_active d1 @ [sid]\<rparr>
     else d1\<lparr>d_queues := (d_queues d1)(sid := None), d_set := (d_set d1)(sid := False)\<rparr>)"
  have k1: "keeps_ledger t sched d (ok1, sched1, d1)"
    by (rule keeps_ledger_cong [OF _ _ serve_ledger [OF r s0]]) (simp_all add: q0, simp add: d0_def)
  have q2: "queue_of s d2 = queue_of s d1" for s
    by (auto simp: d2_def queue_of_def split: option.splits)
  have l2: "d_link d2 = d_link d1" "d_prio d2 = d_prio d1" by (simp_all add: d2_def)
  have "sorted_in d2"
    by (rule sorted_in_subset [OF keeps_ledger_sorted [OF k1]]) (simp_all add: q2 l2)
  then have k2: "keeps_ledger t sched1 d1 (serve_all sids sched1 d2)"
    by (intro keeps_ledger_cong [OF _ _ Cons.IH]) (simp_all add: q2 l2)
  have "serve_all (sid # sids) sched d = (if ok1 then serve_all sids sched1 d2 else (False, sched1, d1))"
    using r by (simp add: d2_def flip: d0_def)
  with k1 k2 show ?case by (cases ok1) (auto intro: keeps_ledger_trans)
qed

lemma drain_pass_ledger:
  assumes "sorted_in d"
  shows "keeps_ledger t sched d (drain_pass sched d)"
proof -
  define d1 where "d1 = collectPending (fst (next_batch sched)) d"
  define sched1 where "sched1 = snd (next_batch sched)"
  note c = collect_facts(1) [OF assms, of "fst (next_batch sched)", folded d1_def]
    collect_facts(2) [OF assms, of t "fst (next_batch sched)", folded d1_def]
    collect_facts(3) [OF assms, of "fst (next_batch sched)", folded d1_def]
  obtain ok2 d2 where f2: "flushSlice d1 = (ok2, d2)" by fastforce
  note f = flushSlice_facts [OF f2 c(1)]
  have k1: "keeps_ledger t sched d (ok2, sched1, d2)"
    using f c upcoming_next [of t sched]
    by (simp add: keeps_ledger_def ledger_def written_def sched1_def)
  have "keeps_ledger t sched1 d2 (serve_all (d_active d2) sched1 (d2\<lparr>d_active := []\<rparr>))"
    by (rule keeps_ledger_cong [OF _ _ serve_all_ledger])
      (use f(1) in \<open>simp_all add: queue_of_def sorted_in_def\<close>)
  with k1 show ?thesis
    using f2 by (cases ok2) (auto simp: drain_pass_def Let_def keeps_ledger_refl f(1)
      simp flip: d1_def sched1_def intro: keeps_ledger_trans)
qed

lemma drain_loop_ledger: "sorted_in d \<Longrightarrow> keeps_ledger t sched d (drain_loop n sched d)"
proof (induction n arbitrary: sched d)
  case (Suc n)
  obtain ok1 sched1 d1 where r: "drain_pass sched d = (ok1, sched1, d1)"
    by (cases "drain_pass sched d") auto
  have k: "keeps_ledger t sched d (ok1, sched1, d1)"
    using drain_pass_ledger [OF Suc.prems, of t sched] r by simp
  show ?case using k r Suc.IH [OF keeps_ledger_sorted [OF k]]
    by (cases ok1) (auto intro: keeps_ledger_trans)
qed (simp add: keeps_ledger_refl)

lemma sorted_in_init [simp]: "sorted_in (init_drain b e)"
  by (simp add: sorted_in_def init_drain_def)


section \<open>Fairness and progress\<close>

text \<open>
  The bookkeeping between turns: \<open>S\<close> are the streams of the running round still to be
  served and \<open>c\<close> the one being served. A stream is registered exactly when it has a
  queue, and then it is once in \<open>S\<close> or in the active list; a waiting stream has a frame
  to send and carries less than a quantum.
\<close>

definition frame_fits :: "bytes \<Rightarrow> bool" where
  "frame_fits b \<longleftrightarrow> int (length b) \<le> drrQuantum"

definition fits_sched :: "bytes list list \<Rightarrow> bool" where
  "fits_sched sched \<longleftrightarrow> (\<forall>b\<in>set (concat sched). frame_fits b)"

definition queue_inv :: "bool \<Rightarrow> stream_queue \<Rightarrow> bool" where
  "queue_inv cur q \<longleftrightarrow>
     0 \<le> sq_deficit q \<and> (\<forall>b\<in>set (sq_frames q). frame_fits b) \<and>
     (cur \<or> sq_frames q \<noteq> [] \<and> sq_deficit q < drrQuantum)"

definition sched_inv :: "u32 list \<Rightarrow> u32 option \<Rightarrow> drain \<Rightarrow> bool" where
  "sched_inv S c d \<longleftrightarrow>
     distinct (S @ d_active d) \<and>
     (\<forall>t. d_set d t \<longleftrightarrow> t \<in> set (S @ d_active d)) \<and>
     (\<forall>t. d_set d t \<longleftrightarrow> d_queues d t \<noteq> None) \<and>
     (\<forall>t q. d_queues d t = Some q \<longrightarrow> queue_inv (c = Some t) q)"

lemma sched_inv_registered:
  assumes "sched_inv S c d"
  shows "d_set d t \<longleftrightarrow> t \<in> set S \<or> t \<in> set (d_active d)"
    and "d_set d t \<longleftrightarrow> d_queues d t \<noteq> None"
    and "d_queues d t = Some q \<Longrightarrow> queue_inv (c = Some t) q"
  using assms unfolding sched_inv_def set_append by blast+

lemma fits_sched_next:
  "fits_sched sched \<Longrightarrow>
     fits_sched (snd (next_batch sched)) \<and> (\<forall>b\<in>set (fst (next_batch sched)). frame_fits b)"
  by (cases sched) (auto simp: fits_sched_def)

lemma queue_inv_push:
  "queue_inv cur q \<Longrightarrow> frame_fits b \<Longrightarrow> queue_inv cur (q\<lparr>sq_frames := sq_frames q @ [b]\<rparr>)"
  by (auto simp: queue_inv_def)

lemma queue_inv_new:
  "frame_fits b \<Longrightarrow> queue_inv cur \<lparr>sq_frames = [b], sq_deficit = 0\<rparr>"
  by (auto simp: queue_inv_def drrQuantum_def)

lemma sched_inv_put:
  assumes "sched_inv S c d" "d_queues d t = Some q" "queue_inv (c = Some t) q'"
  shows "sched_inv S c (d\<lparr>d_queues := (d_queues d)(t \<mapsto> q')\<rparr>)"
  using assms by (auto simp: sched_inv_def)

lemma sched_inv_prio: "sched_inv S c (d\<lparr>d_prio := p\<rparr>) = sched_inv S c d"
  by (simp add: sched_inv_def)

lemma sched_inv_new:
  assumes "sched_inv S c d" "d_queues d t = None" "queue_inv (c = Some t) q'"
  shows "sched_inv S c (d\<lparr>d_queues := (d_queues d)(t \<mapsto> q'), d_active := d_active d @ [t],
           d_set := (d_set d)(t := True)\<rparr>)"
proof -
  have "t \<notin> set (S @ d_active d)"
    using sched_inv_registered(1,2) [OF assms(1), of t] assms(2) by simp
  with assms show ?thesis by (auto simp: sched_inv_def)
qed

lemma sched_inv_classify:
  assumes inv: "sched_inv S c d" and fit: "frame_fits (ff_data f)"
  shows "sched_inv S c (classify f d)"
proof (cases "d_queues d (ff_stream f)")
  case None
  then have "\<not> d_set d (ff_stream f)" using sched_inv_registered(2) [OF inv] by simp
  with None sched_inv_new [OF inv None queue_inv_new [OF fit]] inv show ?thesis
    by (simp add: classify_def Let_def sched_inv_prio)
next
  case (Some q)
  then have s: "d_set d (ff_stream f)" and "queue_inv (c = Some (ff_stream f)) q"
    using sched_inv_registered [OF inv] by auto
  from sched_inv_put [OF inv Some queue_inv_push [OF this(2) fit]] s Some inv show ?thesis
    by (simp add: classify_def Let_def sched_inv_prio)
qed

lemma sched_inv_collect:
  "sched_inv S c d \<Longrightarrow> \<forall>b\<in>set bs. frame_fits b \<Longrightarrow> sched_inv S c (collectPending bs d)"
  by (induction bs arbitrary: d) (simp_all add: collectPending_def sched_inv_classify)

lemma same_sched_inv: "same_sched d d' \<Longrightarrow> sched_inv S c d \<Longrightarrow> sched_inv S c d'"
  unfolding sched_inv_def same_sched_def by metis

lemma serve_body_inv:
  assumes inv: "sched_inv S (Some sid) d" and q: "d_queues d sid = Some q" "sq_frames q = frame # rest"
    "int (length frame) \<le> sq_deficit q" and fits: "fits_sched sched"
    and body: "serve_body sid q frame rest sched d = (ok, sched', d')"
  shows "sched_inv S (Some sid) d' \<and> fits_sched sched'"
  using body
proof (cases rule: serve_body_cases)
  case (steps d1 d2 d3 ok3)
  have "queue_inv True q" using sched_inv_registered(3) [OF inv q(1)] by simp
  then have "sched_inv S (Some sid) d1"
    unfolding steps(1) by (intro sched_inv_put [OF inv q(1)]) (use q in \<open>auto simp: queue_inv_def\<close>)
  then have "sched_inv S (Some sid) d2"
    unfolding steps(2) using fits_sched_next [OF fits] by (intro sched_inv_collect) auto
  then show ?thesis using same_sched_inv [OF steps(7)] fits_sched_next [OF fits] steps(3) by simp
qed


lemma collect_backlog:
  "backlog t (snd (next_batch sched)) (collectPending (fst (next_batch sched)) d) \<le> backlog t sched d"
  using queue_of_collect [of t "fst (next_batch sched)" d] by (cases sched) (simp_all add: backlog_def)

lemma backlog_cong: "queue_of t d = queue_of t d' \<Longrightarrow> backlog t sched d = backlog t sched d'"
  by (simp add: backlog_def)

lemma next_batch_length: "length (snd (next_batch sched)) \<le> length sched - 1"
  by (cases sched) simp_all

lemma writeFrame_unbroken:
  "writeFrame f d = (ok, d') \<Longrightarrow> ln_budget (d_link d) = None \<Longrightarrow> ok \<and> ln_budget (d_link d') = None"
  by (auto simp: writeFrame_def link_write_def)

lemma flushSlice_unbroken:
  assumes "flushSlice d = (ok, d')" "ln_budget (d_link d) = None"
  shows "ok \<and> ln_budget (d_link d') = None"
proof -
  have "ok \<and> ln_budget (d_link d') = None"
    if "write_frames fs d = (ok, d')" "ln_budget (d_link d) = None" for fs d ok d'
    using that
  proof (induction fs arbitrary: d)
    case (Cons f fs)
    obtain ok1 d1 where w: "writeFrame f d = (ok1, d1)" by fastforce
    with Cons writeFrame_unbroken [OF w] show ?case by auto
  qed simp
  with assms show ?thesis by (auto simp: flushSlice_def split: prod.splits bool.splits)
qed

text \<open>What one turn of stream \<open>sid\<close> does to the frames of every stream.\<close>

definition sent_bytes :: "bytes list \<Rightarrow> int" where
  "sent_bytes fs = sum_list (map (\<lambda>b. int (length b)) fs)"

definition deficit_of :: "u32 \<Rightarrow> drain \<Rightarrow> int" where
  "deficit_of sid d = (case d_queues d sid of None \<Rightarrow> 0 | Some q \<Rightarrow> sq_deficit q)"

definition turn_facts ::
    "u32 \<Rightarrow> u32 \<Rightarrow> bytes list list \<Rightarrow> drain \<Rightarrow> bool \<times> bytes list list \<times> drain \<Rightarrow> bool" where
  "turn_facts sid t sched d r \<longleftrightarrow>
     (case r of (ok, sched', d') \<Rightarrow>
        backlog t sched' d' \<le> backlog t sched d \<and>
        length sched' \<le> length sched \<and>
        (ln_budget (d_link d) = None \<longrightarrow> ok \<and> ln_budget (d_link d') = None) \<and>
        (\<exists>new. written t d' = written t d @ new \<and> (t \<noteq> sid \<longrightarrow> new = []) \<and>
               sent_bytes new \<le> deficit_of sid d - deficit_of sid d'))"

lemma collect_deficit:
  "d_queues d sid \<noteq> None \<Longrightarrow> deficit_of sid (collectPending bs d) = deficit_of sid d"
proof -
  have "d_queues (classify f d) sid \<noteq> None \<and> deficit_of sid (classify f d) = deficit_of sid d"
    if "d_queues d sid \<noteq> None" for f d
    using that by (auto simp: classify_def Let_def deficit_of_def split: option.splits)
  then show "d_queues d sid \<noteq> None \<Longrightarrow> deficit_of sid (collectPending bs d) = deficit_of sid d"
    by (induction bs arbitrary: d) (simp_all add: collectPending_def)
qed

lemma same_sched_deficit: "same_sched d d' \<Longrightarrow> deficit_of sid d' = deficit_of sid d"
  by (simp add: deficit_of_def same_sched_def)

lemma serve_body_facts:
  assumes inv: "sorted_in d" and q: "d_queues d sid = Some q" "sq_frames q = frame # rest"
    and body: "serve_body sid q frame rest sched d = (ok, sched', d')"
  shows "turn_facts sid t sched d (ok, sched', d')"
  using body
proof (cases rule: serve_body_cases)
  case (steps d1 d2 d3 ok3)
  have s1: "sorted_in d1" unfolding steps(1) by (rule sorted_in_take [OF inv q refl])
  have "d_queues d1 sid \<noteq> None" by (simp add: steps(1))
  then have "deficit_of sid d2 = deficit_of sid d1" unfolding steps(2) by (rule collect_deficit)
  moreover have "deficit_of sid d1 = deficit_of sid d - int (length frame)"
    by (simp add: steps(1) deficit_of_def q)
  ultimately have def': "deficit_of sid d' = deficit_of sid d - int (length frame)"
    using same_sched_deficit [OF steps(7)] by simp
  have s2: "sorted_in d2" and l2: "d_link d2 = d_link d"
    using collect_facts(1,3) [OF s1, of "fst (next_batch sched)"] by (simp_all add: steps(1,2))
  note f = flushSlice_facts [OF steps(4) s2]
  have own: "is_psh t frame \<Longrightarrow> t = sid"
    using inv q unfolding sorted_in_def by (metis list.set_intros(1))
  have w: "written t d' = written t d @ (if ok then psh t [frame] else [])"
    using steps(5,6) f(2) [of t] l2 written_writeFrame [of frame d3 ok d' t]
    by (cases ok3) (auto simp: written_def)
  have "ln_budget (d_link d) = None \<Longrightarrow> ok \<and> ln_budget (d_link d') = None"
    using flushSlice_unbroken [OF steps(4)] writeFrame_unbroken [of frame d3 ok d'] steps(6) l2 by simp
  moreover have "backlog t sched' d' \<le> backlog t sched d"
  proof -
    have "backlog t sched' d' = backlog t sched' d2"
      by (rule backlog_cong [OF same_sched_queue_of [OF steps(7)]])
    also have "\<dots> \<le> backlog t sched d1" unfolding steps(2,3) by (rule collect_backlog)
    also have "\<dots> \<le> backlog t sched d"
      using q by (simp add: backlog_def steps(1) queue_of_def)
    finally show ?thesis .
  qed
  moreover have "length sched' \<le> length sched"
    unfolding steps(3) using next_batch_length [of sched] by simp
  ultimately show ?thesis
    using w own def' by (auto simp: turn_facts_def sent_bytes_def)
qed

lemma turn_facts_refl: "turn_facts sid t sched d (True, sched, d)"
  by (simp add: turn_facts_def sent_bytes_def)

lemma turn_facts_trans:
  assumes "turn_facts sid t sched d (True, sched1, d1)" "turn_facts sid t sched1 d1 r"
  shows "turn_facts sid t sched d r"
proof -
  obtain ok sched2 d2 where r: "r = (ok, sched2, d2)" by (cases r)
  from assms(1) obtain n1 where
    1: "written t d1 = written t d @ n1" "t \<noteq> sid \<longrightarrow> n1 = []" "sent_bytes n1 \<le> deficit_of sid d - deficit_of sid d1"
    by (force simp: turn_facts_def)
  from assms(2) obtain n2 where
    2: "written t d2 = written t d1 @ n2" "t \<noteq> sid \<longrightarrow> n2 = []" "sent_bytes n2 \<le> deficit_of sid d1 - deficit_of sid d2"
    by (force simp: turn_facts_def r)
  from 1 2 have n: "written t d2 = written t d @ (n1 @ n2) \<and> (t \<noteq> sid \<longrightarrow> n1 @ n2 = []) \<and>
      sent_bytes (n1 @ n2) \<le> deficit_of sid d - deficit_of sid d2"
    by (simp add: sent_bytes_def)
  have "backlog t sched2 d2 \<le> backlog t sched d \<and> length sched2 \<le> length sched \<and>
      (ln_budget (d_link d) = None \<longrightarrow> ok \<and> ln_budget (d_link d2) = None)"
    using assms by (auto simp: turn_facts_def r)
  with n show ?thesis unfolding turn_facts_def r prod.case by blast
qed


lemma serve_turn:
  assumes "serve sid sched d = (ok, sched', d')"
    and "sorted_in d" "sched_inv S (Some sid) d" "fits_sched sched"
  shows "turn_facts sid t sched d (ok, sched', d')" "sched_inv S (Some sid) d'" "fits_sched sched'"
    "sorted_in d'" "ok \<Longrightarrow> stopped sid d'"
proof -
  let ?pre = "\<lambda>sched d. sorted_in d \<and> sched_inv S (Some sid) d \<and> fits_sched sched"
  let ?R = "\<lambda>sched d r. ?pre sched d \<longrightarrow> turn_facts sid t sched d r \<and> ?pre (fst (snd r)) (snd (snd r)) \<and>
      (fst r \<longrightarrow> stopped sid (snd (snd r)))"
  have "?R sched d (ok, sched', d')"
    using assms(1)
  proof (rule serve_rule [where R = ?R])
    show "?R sched d (True, sched, d)" if "stopped sid d" for sched d
      using that by (simp add: turn_facts_refl)
    fix sched d q frame rest ok1 sched1 d1 r
    assume h: "d_queues d sid = Some q" "sq_frames q = frame # rest" "int (length frame) \<le> sq_deficit q"
      "serve_body sid q frame rest sched d = (ok1, sched1, d1)"
      and r: "if ok1 then ?R sched1 d1 r else r = (False, sched1, d1)"
    show "?R sched d r"
    proof
      assume pre: "?pre sched d"
      have 1: "turn_facts sid t sched d (ok1, sched1, d1)"
        using pre serve_body_facts [OF _ h(1,2,4)] by blast
      have "keeps_ledger t sched d (ok1, sched1, d1)"
        using pre serve_body_ledger [OF _ h(1,2,4)] by blast
      then have "sorted_in d1" by (rule keeps_ledger_sorted)
      then have "?pre sched1 d1"
        using serve_body_inv [OF _ h(1-3) _ h(4)] pre by blast
      then show "turn_facts sid t sched d r \<and> ?pre (fst (snd r)) (snd (snd r)) \<and>
          (fst r \<longrightarrow> stopped sid (snd (snd r)))"
        using 1 r by (cases ok1) (auto intro: turn_facts_trans)
    qed
  qed
  with assms(2-4) show "turn_facts sid t sched d (ok, sched', d')" "sched_inv S (Some sid) d'"
    "fits_sched sched'" "sorted_in d'" "ok \<Longrightarrow> stopped sid d'" by simp_all
qed

lemma serve_progress:
  assumes r: "serve sid sched d = (True, sched', d')"
    and inv: "sorted_in d" "sched_inv S (Some sid) d" "fits_sched sched"
    and q: "d_queues d sid = Some q" "sq_frames q \<noteq> []" "drrQuantum \<le> sq_deficit q"
  shows "backlog sid sched' d' < backlog sid sched d"
proof -
  obtain frame rest where fr: "sq_frames q = frame # rest" using q(2) by (cases "sq_frames q") auto
  have "queue_inv True q" using sched_inv_registered(3) [OF inv(2) q(1)] by simp
  with fr q(3) have le: "int (length frame) \<le> sq_deficit q" by (simp add: queue_inv_def frame_fits_def)
  obtain ok1 sched1 d1 where b: "serve_body sid q frame rest sched d = (ok1, sched1, d1)"
    by (cases "serve_body sid q frame rest sched d") auto
  have r1: "serve sid sched1 d1 = (True, sched', d')" and "ok1"
    using r q(1) fr le b by (cases ok1; simp add: serve.simps [of sid sched d])+
  have "sorted_in d1" using serve_body_ledger [OF inv(1) q(1) fr b] by (rule keeps_ledger_sorted)
  then have "turn_facts sid sid sched1 d1 (True, sched', d')"
    using serve_turn(1) [OF r1] serve_body_inv [OF inv(2) q(1) fr le inv(3) b] by blast
  with backlog_step [OF q(1) fr b] show ?thesis by (simp add: turn_facts_def)
qed

text \<open>One round, seen by stream \<open>t\<close>.\<close>

definition round_facts ::
    "u32 \<Rightarrow> u32 list \<Rightarrow> bytes list list \<Rightarrow> drain \<Rightarrow> bool \<times> bytes list list \<times> drain \<Rightarrow> bool" where
  "round_facts t S sched d r \<longleftrightarrow>
     (case r of (ok, sched', d') \<Rightarrow>
        backlog t sched' d' \<le> backlog t sched d \<and> length sched' \<le> length sched \<and>
        (ln_budget (d_link d) = None \<longrightarrow> ok \<and> ln_budget (d_link d') = None) \<and>
        fits_sched sched' \<and> sorted_in d' \<and> (ok \<longrightarrow> sched_inv [] None d') \<and>
        (ok \<and> t \<in> set S \<longrightarrow> backlog t sched' d' < backlog t sched d) \<and>
        (\<exists>new. written t d' = written t d @ new \<and> sent_bytes new < 2 * drrQuantum \<and>
               (t \<notin> set S \<longrightarrow> new = [])))"

lemma sched_inv_boost:
  assumes inv: "sched_inv (sid # S) None d"
  obtains q where "d_queues d sid = Some q" "sq_frames q \<noteq> []" "0 \<le> sq_deficit q"
    "sq_deficit q < drrQuantum"
    "sched_inv (sid # S) (Some sid) (d\<lparr>d_queues := (d_queues d)(sid := map_option
       (\<lambda>q. q\<lparr>sq_deficit := sq_deficit q + drrQuantum\<rparr>) (d_queues d sid))\<rparr>)"
proof -
  have "d_queues d sid \<noteq> None" using sched_inv_registered(1,2) [OF inv, of sid] by simp
  then obtain q where q: "d_queues d sid = Some q" by blast
  have qi: "queue_inv False q" using sched_inv_registered(3) [OF inv q] by simp
  let ?q = "q\<lparr>sq_deficit := sq_deficit q + drrQuantum\<rparr>"
  have "queue_inv True ?q" using qi by (auto simp: queue_inv_def drrQuantum_def)
  then have "sched_inv (sid # S) (Some sid) (d\<lparr>d_queues := (d_queues d)(sid \<mapsto> ?q)\<rparr>)"
    using inv q unfolding sched_inv_def by (auto simp: queue_inv_def)
  with that q qi show thesis by (auto simp: queue_inv_def)
qed

lemma sched_inv_retire:
  assumes inv: "sched_inv (sid # S) (Some sid) d" and stop: "stopped sid d"
  shows "sched_inv S None (if queue_of sid d \<noteq> [] then d\<lparr>d_active := d_active d @ [sid]\<rparr>
     else d\<lparr>d_queues := (d_queues d)(sid := None), d_set := (d_set d)(sid := False)\<rparr>)"
proof -
  have "d_queues d sid \<noteq> None" using sched_inv_registered(1,2) [OF inv, of sid] by simp
  then obtain q where q: "d_queues d sid = Some q" by blast
  have qi: "queue_inv True q" using sched_inv_registered(3) [OF inv q] by simp
  show ?thesis
  proof (cases "sq_frames q")
    case Nil
    then have "queue_of sid d = []" by (simp add: queue_of_def q)
    moreover have "queue_inv False q'" if "d_queues d t = Some q'" "t \<noteq> sid" for t q'
      using sched_inv_registered(3) [OF inv that(1)] that(2) by simp
    ultimately show ?thesis using inv unfolding sched_inv_def by auto
  next
    case (Cons f fs)
    then have "queue_inv False q" using stop q qi by (auto simp: stopped_def queue_inv_def frame_fits_def)
    moreover have "queue_of sid d \<noteq> []" using Cons by (simp add: queue_of_def q)
    moreover have "queue_inv False q'" if "d_queues d t = Some q'" for t q'
      using sched_inv_registered(3) [OF inv that] that calculation(1) q by (cases "t = sid") auto
    ultimately show ?thesis using inv unfolding sched_inv_def by auto
  qed
qed


lemma serve_all_round:
  "sorted_in d \<Longrightarrow> sched_inv S None d \<Longrightarrow> fits_sched sched \<Longrightarrow>
     round_facts t S sched d (serve_all S sched d)"
proof (induction S arbitrary: sched d)
  case Nil
  then show ?case by (simp add: round_facts_def sent_bytes_def drrQuantum_def)
next
  case (Cons sid S)
  define d0 where "d0 = d\<lparr>d_queues := (d_queues d)(sid := map_option
     (\<lambda>q. q\<lparr>sq_deficit := sq_deficit q + drrQuantum\<rparr>) (d_queues d sid))\<rparr>"
  from sched_inv_boost [OF Cons.prems(2)] obtain q where
    q: "d_queues d sid = Some q" "sq_frames q \<noteq> []" "0 \<le> sq_deficit q" "sq_deficit q < drrQuantum"
    and inv0: "sched_inv (sid # S) (Some sid) d0" by (auto simp: d0_def)
  have qs: "queue_of s d0 = queue_of s d" for s
    by (auto simp: d0_def queue_of_def split: option.splits)
  have s0: "sorted_in d0"
    by (rule sorted_in_subset [OF Cons.prems(1)]) (simp_all add: qs, simp add: d0_def)
  have l0: "d_link d0 = d_link d" by (simp add: d0_def)
  obtain ok1 sched1 d1 where r: "serve sid sched d0 = (ok1, sched1, d1)"
    by (cases "serve sid sched d0") auto
  note turn = serve_turn [OF r s0 inv0 Cons.prems(3)]
  define d2 where "d2 = (if queue_of sid d1 \<noteq> [] then d1\<lparr>d_active := d_active d1 @ [sid]\<rparr>
     else d1\<lparr>d_queues := (d_queues d1)(sid := None), d_set := (d_set d1)(sid := False)\<rparr>)"
  have step: "serve_all (sid # S) sched d = (if ok1 then serve_all S sched1 d2 else (False, sched1, d1))"
    using r by (simp add: d2_def flip: d0_def)
  have b0: "backlog t sched d0 = backlog t sched d" for t by (rule backlog_cong) (simp add: qs)
  have w0: "written t d0 = written t d" by (simp add: written_def l0)
  have dq: "deficit_of sid d0 < 2 * drrQuantum" using q by (simp add: deficit_of_def d0_def)
  have dn: "0 \<le> deficit_of sid d1"
    using sched_inv_registered(3) [OF turn(2)]
    by (auto simp: deficit_of_def queue_inv_def split: option.splits)
  from turn(1) [of t] obtain new1 where
    t1: "backlog t sched1 d1 \<le> backlog t sched d" "length sched1 \<le> length sched"
      "ln_budget (d_link d) = None \<longrightarrow> ok1 \<and> ln_budget (d_link d1) = None"
      "written t d1 = written t d @ new1" "t \<noteq> sid \<longrightarrow> new1 = []" "sent_bytes new1 < 2 * drrQuantum"
    using dq dn by (force simp: turn_facts_def b0 w0 l0)
  show ?case
  proof (cases ok1)
    case False
    then show ?thesis using t1 step turn(3,4) by (auto simp: round_facts_def)
  next
    case True
    have prog: "backlog sid sched1 d1 < backlog sid sched d"
      using serve_progress [OF _ s0 inv0 Cons.prems(3), of sched1 d1] r True q
      by (simp add: b0) (simp add: d0_def)
    have q2: "queue_of s d2 = queue_of s d1" for s
      by (auto simp: d2_def queue_of_def split: option.splits)
    have l2: "d_link d2 = d_link d1" "d_prio d2 = d_prio d1" by (simp_all add: d2_def)
    have s2: "sorted_in d2"
      by (rule sorted_in_subset [OF turn(4)]) (simp_all add: q2 l2)
    have "sched_inv S None d2"
      unfolding d2_def using turn(2) turn(5) [OF True] by (rule sched_inv_retire)
    from Cons.IH [OF s2 this turn(3)]
    have R: "round_facts t S sched1 d2 (serve_all S sched1 d2)" .
    have notin: "sid \<notin> set S" using Cons.prems(2) by (simp add: sched_inv_def)
    obtain ok' sched' d' where r': "serve_all S sched1 d2 = (ok', sched', d')"
      by (cases "serve_all S sched1 d2") auto
    have b2: "backlog t sched1 d2 = backlog t sched1 d1" by (rule backlog_cong) (simp add: q2)
    have w2: "written t d2 = written t d1" by (simp add: written_def l2)
    from R obtain new2 where "written t d' = written t d2 @ new2" "sent_bytes new2 < 2 * drrQuantum"
      "t \<notin> set S \<longrightarrow> new2 = []"
      by (auto simp: round_facts_def r')
    then have "written t d' = written t d @ new1 @ new2" "sent_bytes (new1 @ new2) < 2 * drrQuantum"
      "t \<notin> set (sid # S) \<longrightarrow> new1 @ new2 = []"
      using t1(4-6) notin w2 by (cases "t = sid"; simp)+
    then show ?thesis
      using R t1 prog step True by (auto simp: round_facts_def r' b2 l2)
  qed
qed


text \<open>A pass that ends the goroutine leaves the connection's error for the writers.\<close>

definition broken :: "drain \<Rightarrow> bool" where
  "broken d \<longleftrightarrow> d_done d \<and> d_err d = Some (ln_fail (d_link d))"

lemma writeFrame_broken: "writeFrame f d = (False, d') \<Longrightarrow> broken d'"
  by (auto simp: writeFrame_def broken_def split: prod.splits bool.splits)

lemma flushSlice_broken:
  assumes "flushSlice d = (False, d')"
  shows "broken d'"
proof -
  have "broken d'" if "write_frames fs d = (False, d')" for fs d
    using that
  proof (induction fs arbitrary: d)
    case (Cons f fs)
    obtain ok1 d1 where w: "writeFrame f d = (ok1, d1)" by fastforce
    with Cons writeFrame_broken [of f d d1] show ?case by (cases ok1) auto
  qed simp
  with assms show ?thesis by (auto simp: flushSlice_def split: prod.splits bool.splits)
qed

lemma serve_body_broken: "serve_body sid q frame rest sched d = (False, sched', d') \<Longrightarrow> broken d'"
  by (auto simp: serve_body_def Let_def flushSlice_broken writeFrame_broken split: prod.splits bool.splits)

lemma serve_broken:
  assumes "serve sid sched d = (ok, sched', d')"
  shows "\<not> ok \<Longrightarrow> broken d'"
proof -
  have "\<not> fst (ok, sched', d') \<longrightarrow> broken (snd (snd (ok, sched', d')))"
    using assms
  proof (rule serve_rule [where R = "\<lambda>_ _ r. \<not> fst r \<longrightarrow> broken (snd (snd r))"])
    fix sched d q frame rest ok1 sched1 d1 and r :: "bool \<times> bytes list list \<times> drain"
    assume "serve_body sid q frame rest sched d = (ok1, sched1, d1)"
      "if ok1 then \<not> fst r \<longrightarrow> broken (snd (snd r)) else r = (False, sched1, d1)"
    then show "\<not> fst r \<longrightarrow> broken (snd (snd r))"
      using serve_body_broken by (cases ok1) auto
  qed simp
  then show "\<not> ok \<Longrightarrow> broken d'" by simp
qed

lemma serve_all_broken: "serve_all S sched d = (False, sched', d') \<Longrightarrow> broken d'"
proof (induction S arbitrary: sched d)
  case (Cons sid S)
  then show ?case
    by (auto simp: Let_def split: prod.splits bool.splits dest: serve_broken)
qed simp

lemma drain_pass_broken: "drain_pass sched d = (False, sched', d') \<Longrightarrow> broken d'"
  by (auto simp: drain_pass_def Let_def flushSlice_broken serve_all_broken
      split: prod.splits bool.splits if_splits)

lemma drain_loop_broken: "drain_loop n sched d = (False, sched', d') \<Longrightarrow> broken d'"
  by (induction n arbitrary: sched d) (auto split: prod.splits bool.splits dest: drain_pass_broken)

text \<open>One pass of the loop, seen by stream \<open>t\<close>.\<close>

lemma drain_pass_round:
  assumes inv: "sorted_in d" "sched_inv [] None d" "fits_sched sched"
  shows "round_facts t (d_active (collectPending (fst (next_batch sched)) d)) sched d (drain_pass sched d)"
    and "length (fst (snd (drain_pass sched d))) \<le> length sched - 1"
proof -
  define d1 where "d1 = collectPending (fst (next_batch sched)) d"
  define sched1 where "sched1 = snd (next_batch sched)"
  have fits: "fits_sched sched1" "\<forall>b\<in>set (fst (next_batch sched)). frame_fits b"
    using fits_sched_next [OF inv(3)] by (simp_all add: sched1_def)
  have c: "sorted_in d1" "d_link d1 = d_link d"
    using collect_facts(1,3) [OF inv(1), of "fst (next_batch sched)"] by (simp_all add: d1_def)
  have inv1: "sched_inv [] None d1" unfolding d1_def using inv(2) fits(2) by (rule sched_inv_collect)
  have b1: "backlog t sched1 d1 \<le> backlog t sched d" unfolding sched1_def d1_def by (rule collect_backlog)
  have len1: "length sched1 \<le> length sched - 1" unfolding sched1_def by (rule next_batch_length)
  obtain ok2 d2 where f2: "flushSlice d1 = (ok2, d2)" by fastforce
  note f = flushSlice_facts [OF f2 c(1)]
  have same: "same_sched d1 d2" using f2 by (rule flushSlice_same)
  have inv2: "sched_inv [] None d2" using same inv1 by (rule same_sched_inv)
  have b2: "backlog t sched1 d2 = backlog t sched1 d1"
    by (rule backlog_cong) (rule same_sched_queue_of [OF same])
  have act: "d_active d2 = d_active d1" using same by (simp add: same_sched_def)
  have w2: "written t d2 = written t d" using f(2) c(2) by (simp add: written_def)
  have unb: "ln_budget (d_link d) = None \<longrightarrow> ok2 \<and> ln_budget (d_link d2) = None"
    using flushSlice_unbroken [OF f2] c(2) by simp
  define d3 where "d3 = d2\<lparr>d_active := []\<rparr>"
  define r where "r = serve_all (d_active d2) sched1 d3"
  have q3: "queue_of s d3 = queue_of s d2" for s by (simp add: d3_def queue_of_def)
  have s3: "sorted_in d3" using f(1) by (simp add: sorted_in_def d3_def)
  have "sched_inv (d_active d2) None d3"
    using sched_inv_registered [OF inv2] inv2 by (auto simp: sched_inv_def [of "d_active d2"] d3_def)
      (simp add: sched_inv_def)
  from serve_all_round [OF s3 this fits(1), of t]
  have R: "round_facts t (d_active d2) sched1 d3 r" by (simp add: r_def)
  have b3: "backlog t sched1 d3 = backlog t sched1 d2" by (rule backlog_cong) (rule q3)
  have w3: "written t d3 = written t d2" "d_link d3 = d_link d2" by (simp_all add: d3_def written_def)
  have pass: "drain_pass sched d =
      (if \<not> ok2 then (False, sched1, d2) else if d_active d2 = [] then (True, sched1, d2) else r)"
    using f2 by (simp add: drain_pass_def r_def d3_def flip: d1_def sched1_def)
  have empty: "sent_bytes [] < 2 * drrQuantum" by (simp add: sent_bytes_def drrQuantum_def)
  show "round_facts t (d_active (collectPending (fst (next_batch sched)) d)) sched d (drain_pass sched d)"
    using R b1 b2 b3 w2 w3 unb len1 fits(1) f(1) inv2 act empty
    unfolding pass d1_def [symmetric] by (auto simp: round_facts_def)
  show "length (fst (snd (drain_pass sched d))) \<le> length sched - 1"
    using R len1 unfolding pass by (auto simp: round_facts_def)
qed


section \<open>The loop from its start\<close>

lemma sched_inv_init [simp]: "sched_inv [] None (init_drain b e)"
  by (simp add: sched_inv_def init_drain_def)

lemma drain_loop_inv:
  assumes "drain_loop n sched d = (True, sched', d')"
    and "sorted_in d" "sched_inv [] None d" "fits_sched sched"
  shows "sorted_in d' \<and> sched_inv [] None d' \<and> fits_sched sched'"
  using assms
proof (induction n arbitrary: sched d)
  case (Suc n)
  obtain ok1 sched1 d1 where r: "drain_pass sched d = (ok1, sched1, d1)"
    by (cases "drain_pass sched d") auto
  with drain_pass_round(1) [OF Suc.prems(2-4)] Suc show ?case
    by (cases ok1) (auto simp: round_facts_def)
qed simp

lemma drain_loop_delivers_gen:
  assumes "drain_loop n sched d = (ok, sched', d')"
    and "sorted_in d" "sched_inv [] None d" "fits_sched sched" "ln_budget (d_link d) = None"
    and "backlog t sched d + length sched \<le> n"
  shows "ok \<and> backlog t sched' d' = 0 \<and> sorted_in d'"
  using assms
proof (induction n arbitrary: sched d)
  case (Suc n)
  obtain ok1 sched1 d1 where r: "drain_pass sched d = (ok1, sched1, d1)"
    by (cases "drain_pass sched d") auto
  define dc where "dc = collectPending (fst (next_batch sched)) d"
  have R: "round_facts t (d_active dc) sched d (ok1, sched1, d1)" and len: "length sched1 \<le> length sched - 1"
    using drain_pass_round(1) [OF Suc.prems(2-4), of t] drain_pass_round(2) [OF Suc.prems(2-4)] r
    by (simp_all add: dc_def)
  then have 1: "ok1" "ln_budget (d_link d1) = None" "backlog t sched1 d1 \<le> backlog t sched d"
    "fits_sched sched1" "sorted_in d1" "sched_inv [] None d1"
    and strict: "t \<in> set (d_active dc) \<Longrightarrow> backlog t sched1 d1 < backlog t sched d"
    using Suc.prems(5) by (auto simp: round_facts_def)
  have "backlog t sched1 d1 + length sched1 \<le> n"
  proof (cases sched)
    case Nil
    then have "dc = d" by (simp add: dc_def collectPending_def)
    show ?thesis
    proof (cases "queue_of t d = []")
      case True
      with Nil 1(3) len show ?thesis by (simp add: backlog_def)
    next
      case False
      then have "t \<in> set (d_active d)"
        using sched_inv_registered(1,2) [OF Suc.prems(3), of t] by (auto simp: queue_of_def)
      with strict \<open>dc = d\<close> Nil len Suc.prems(6) show ?thesis by simp
    qed
  qed (use 1(3) len Suc.prems(6) in simp)
  with Suc.IH [OF _ 1(5,6,4,2)] Suc.prems(1) r 1(1) show ?case by simp
qed (simp add: backlog_def)

text \<open>
  C1: ordering. However frames arrive, the data frames of a stream reach the connection in
  the order they were submitted, each once: what is on the wire, then what is queued, then
  what has not arrived yet, is the submitted sequence; only when the connection breaks may
  the frames in flight be missing between what was written and what is still queued.
\<close>

theorem drain_stream_order:
  assumes "drain_loop n sched (init_drain budget e) = (ok, sched', d')"
  shows "\<exists>lost. (ok \<longrightarrow> lost = []) \<and>
           upcoming sid sched = written sid d' @ lost @ waiting sid d' @ upcoming sid sched'"
proof -
  have "keeps_ledger sid sched (init_drain budget e) (ok, sched', d')"
    using drain_loop_ledger [of "init_drain budget e" sid sched n] assms by simp
  moreover have "ledger sid sched (init_drain budget e) = upcoming sid sched"
    by (simp add: ledger_def written_def waiting_def queue_of_def init_drain_def)
  ultimately show ?thesis by (simp add: keeps_ledger_def)
qed

definition ex_psh :: bytes where "ex_psh = [1, 2, 3, 0, 7, 0, 0, 0, 65, 66, 67]"
definition ex_psh2 :: bytes where "ex_psh2 = [1, 2, 1, 0, 7, 0, 0, 0, 90]"
definition ex_fin :: bytes where "ex_fin = [1, 1, 0, 0, 7, 0, 0, 0]"

lemma drain_stream_order_witness:
  "\<exists>lost. (True \<longrightarrow> lost = []) \<and>
     upcoming 7 [[ex_psh, ex_psh2]] =
       written 7 (snd (snd (drain_loop 1 [[ex_psh, ex_psh2]] (init_drain None NetClosed)))) @ lost @
       waiting 7 (snd (snd (drain_loop 1 [[ex_psh, ex_psh2]] (init_drain None NetClosed)))) @
       upcoming 7 (fst (snd (drain_loop 1 [[ex_psh, ex_psh2]] (init_drain None NetClosed))))"
proof (rule drain_stream_order [of 1])
  have "fst (drain_loop 1 [[ex_psh, ex_psh2]] (init_drain None NetClosed))" by code_simp
  then show "drain_loop 1 [[ex_psh, ex_psh2]] (init_drain None NetClosed) =
      (True, fst (snd (drain_loop 1 [[ex_psh, ex_psh2]] (init_drain None NetClosed))),
         snd (snd (drain_loop 1 [[ex_psh, ex_psh2]] (init_drain None NetClosed))))"
    by (simp add: prod_eq_iff)
qed


text \<open>
  C3: liveness. On a connection that does not break, with frames no larger than the quantum
  (an smux frame has at most 65,535 bytes of payload), one pass per frame and per arrival
  suffices: the loop then has written every submitted data frame of every stream, in order.
\<close>

theorem drain_delivers:
  assumes "fits_sched sched" "length (concat sched) + length sched \<le> n"
  shows "case drain_loop n sched (init_drain None e) of
           (ok, sched', d') \<Rightarrow> ok \<and> written sid d' = upcoming sid sched"
proof -
  obtain ok sched' d' where r: "drain_loop n sched (init_drain None e) = (ok, sched', d')"
    by (cases "drain_loop n sched (init_drain None e)") auto
  let ?d = "init_drain None e"
  have "backlog sid sched ?d = length (concat sched)"
    by (simp add: backlog_def queue_of_def init_drain_def)
  with assms have le: "backlog sid sched ?d + length sched \<le> n" by simp
  have "ln_budget (d_link ?d) = None" by (simp add: init_drain_def)
  from drain_loop_delivers_gen [OF r _ _ assms(1) this le] have fin: "ok" "backlog sid sched' d' = 0"
    by simp_all
  have "keeps_ledger sid sched ?d (ok, sched', d')"
    using drain_loop_ledger [of ?d sid sched n] r by simp
  moreover have "ledger sid sched ?d = upcoming sid sched"
    by (simp add: ledger_def written_def waiting_def queue_of_def init_drain_def)
  moreover have "queue_of sid d' = []" "concat sched' = []"
    using fin(2) by (simp_all only: backlog_def add_is_0 length_0_conv)
  then have "waiting sid d' = []" "upcoming sid sched' = []"
    unfolding waiting_def upcoming_def by (simp_all only: filter.simps)
  ultimately show ?thesis using fin(1) r by (simp add: keeps_ledger_def)
qed

lemma drain_delivers_witness:
  "case drain_loop 5 [[ex_psh], [ex_fin, ex_psh2]] (init_drain None NetClosed) of
     (ok, sched', d') \<Rightarrow> ok \<and> written 7 d' = upcoming 7 [[ex_psh], [ex_fin, ex_psh2]]"
  by (rule drain_delivers) (simp_all add: fits_sched_def frame_fits_def drrQuantum_def
      ex_psh_def ex_psh2_def ex_fin_def)



text \<open>
  Errors. When the connection breaks, the goroutine stops with the connection's error
  recorded, and from then on every \<^verbatim>\<open>Write\<close> returns that error and accepts nothing.
\<close>

lemma drain_broken_reported:
  assumes "drain_loop n sched (init_drain budget e) = (False, sched', d')"
    and "fw_done fw = d_done d'" "fw_err fw = d_err d'"
  shows "fw_Write b fw = (WriteErr (ln_fail (d_link d')), fw)"
  using drain_loop_broken [OF assms(1)] assms(2,3) by (simp add: broken_def fw_Write_def)



section \<open>The invariant as an interface\<close>

definition drain_step :: "drain \<Rightarrow> bytes list list \<Rightarrow> drain" where
  "drain_step d sched = (if d_done d then d else snd (snd (drain_pass sched d)))"

definition drain_inv :: "drain \<Rightarrow> bool" where
  "drain_inv d \<longleftrightarrow> d_done d \<or> sorted_in d \<and> sched_inv [] None d"

interpretation drr: invariant_step drain_step drain_inv fits_sched
proof
  fix d sched
  assume "drain_inv d" "fits_sched sched"
  moreover obtain ok sched' d' where "drain_pass sched d = (ok, sched', d')"
    by (cases "drain_pass sched d") auto
  ultimately show "drain_inv (drain_step d sched)"
    using drain_pass_round(1) [of d sched 0] drain_pass_broken [of sched d sched' d']
    by (cases ok) (auto simp: drain_inv_def drain_step_def round_facts_def broken_def)
qed

end
