(* ===== verification/SplitLink.thy ===== *)
theory SplitLink
  imports FairSched
begin

text \<open>
  The split connection of \<^verbatim>\<open>internal/mux/split_conn.go\<close>: one smux session over two TCP
  connections. The writer sends each frame to the control connection at once or queues it
  for the data connection, whose goroutine empties the queues SYN first, FIN last; the
  reader merges the frames of both connections and learns which streams the peer routes
  over the control connection.
\<close>

section \<open>The writer\<close>

definition isDataCmd :: "byte \<Rightarrow> bool" where
  "isDataCmd cmd \<longleftrightarrow> cmd = smuxCmdSYN \<or> cmd = smuxCmdPSH \<or> cmd = smuxCmdFIN"

record split_conn =
  sw_data :: link
  sw_ctrl :: link
  sw_syn :: "bytes list"
  sw_psh :: "bytes list"
  sw_fin :: "bytes list"
  sw_done :: bool
  sw_wErr :: "error option"
  sc_ctrlStreams :: "u32 \<Rightarrow> bool"
  sc_routeNextSYN :: bool

definition newSplitWriter :: "link \<Rightarrow> link \<Rightarrow> split_conn" where
  "newSplitWriter data ctrl =
     \<lparr>sw_data = data, sw_ctrl = ctrl, sw_syn = [], sw_psh = [], sw_fin = [], sw_done = False,
      sw_wErr = None, sc_ctrlStreams = (\<lambda>_. False), sc_routeNextSYN = False\<rparr>"

datatype data_queue = SynQ | PshQ | FinQ

definition enqueueData :: "data_queue \<Rightarrow> bytes \<Rightarrow> split_conn \<Rightarrow> bool \<times> split_conn" where
  "enqueueData q frame s =
     (if sw_done s then (False, s)
      else (True, case q of
          SynQ \<Rightarrow> s\<lparr>sw_syn := sw_syn s @ [frame]\<rparr>
        | PshQ \<Rightarrow> s\<lparr>sw_psh := sw_psh s @ [frame]\<rparr>
        | FinQ \<Rightarrow> s\<lparr>sw_fin := sw_fin s @ [frame]\<rparr>))"

definition popData :: "split_conn \<Rightarrow> (bytes \<times> split_conn) option" where
  "popData s =
     (case sw_syn s of
        f # fs \<Rightarrow> Some (f, s\<lparr>sw_syn := fs\<rparr>)
      | [] \<Rightarrow>
          (case sw_psh s of
             f # fs \<Rightarrow> Some (f, s\<lparr>sw_psh := fs\<rparr>)
           | [] \<Rightarrow>
               (case sw_fin s of
                  f # fs \<Rightarrow> Some (f, s\<lparr>sw_fin := fs\<rparr>)
                | [] \<Rightarrow> None)))"

definition writeDataFrame :: "bytes \<Rightarrow> split_conn \<Rightarrow> bool \<times> split_conn" where
  "writeDataFrame frame s =
     (case link_write frame (sw_data s) of
        (True, l) \<Rightarrow> (True, s\<lparr>sw_data := l\<rparr>)
      | (False, l) \<Rightarrow> (False, s\<lparr>sw_data := l, sw_wErr := Some (ln_fail l), sw_done := True\<rparr>))"

text \<open>One iteration of \<open>drainData\<close>; with empty queues it waits, which changes nothing.\<close>

definition drainData :: "split_conn \<Rightarrow> split_conn" where
  "drainData s =
     (if sw_done s then s
      else
        (case popData s of
           None \<Rightarrow> s
         | Some (frame, s') \<Rightarrow> snd (writeDataFrame frame s')))"

definition sw_close :: "split_conn \<Rightarrow> split_conn" where
  "sw_close s = s\<lparr>sw_done := True\<rparr>"

definition closedErr :: "split_conn \<Rightarrow> write_result" where
  "closedErr s = (case sw_wErr s of Some e \<Rightarrow> WriteErr e | None \<Rightarrow> WriteErr ClosedPipe)"

definition ctrl_write :: "bytes \<Rightarrow> split_conn \<Rightarrow> write_result \<times> split_conn" where
  "ctrl_write b s =
     (case link_write b (sw_ctrl s) of
        (True, l) \<Rightarrow> (Wrote (length b), s\<lparr>sw_ctrl := l\<rparr>)
      | (False, l) \<Rightarrow> (WriteErr (ln_fail l), s\<lparr>sw_ctrl := l\<rparr>))"

definition sw_Write :: "bytes \<Rightarrow> split_conn \<Rightarrow> write_result \<times> split_conn" where
  "sw_Write b s =
     (if sw_done s then
        (case sw_wErr s of Some e \<Rightarrow> (WriteErr e, s) | None \<Rightarrow> (WriteErr ClosedPipe, s))
      else if length b < smuxHdrLen then ctrl_write b s
      else if isDataCmd (b ! 1) then
        let sid = streamID b in
        if b ! 1 = smuxCmdSYN then
          if sc_routeNextSYN s then
            ctrl_write b (s\<lparr>sc_routeNextSYN := False, sc_ctrlStreams := (sc_ctrlStreams s)(sid := True)\<rparr>)
          else
            (case enqueueData SynQ b s of
               (False, s') \<Rightarrow> (closedErr s', s')
             | (True, s') \<Rightarrow> ctrl_write b s')
        else if sc_ctrlStreams s sid then
          ctrl_write b (if b ! 1 = smuxCmdFIN
                        then s\<lparr>sc_ctrlStreams := (sc_ctrlStreams s)(sid := False)\<rparr> else s)
        else if b ! 1 = smuxCmdFIN then
          (case enqueueData FinQ b s of
             (False, s') \<Rightarrow> (closedErr s', s')
           | (True, s') \<Rightarrow> (Wrote (length b), s'))
        else
          (case enqueueData PshQ b s of
             (False, s') \<Rightarrow> (closedErr s', s')
           | (True, s') \<Rightarrow> (Wrote (length b), s'))
      else ctrl_write b s)"

section \<open>The reader\<close>

record merged =
  mr_ch :: "bytes list"
  mr_buf :: bytes
  mr_done :: bool
  mr_ctrlStreams :: "u32 \<Rightarrow> bool"

definition mergedChCap :: nat where "mergedChCap = 128"

definition newMergedReader :: "(u32 \<Rightarrow> bool) \<Rightarrow> merged" where
  "newMergedReader cs = \<lparr>mr_ch = [], mr_buf = [], mr_done = False, mr_ctrlStreams = cs\<rparr>"

definition read_frame :: "bytes \<Rightarrow> (error + bytes) \<times> bytes" where
  "read_frame r =
     (case read_full smuxHdrLen r of
        (Inl e, r1) \<Rightarrow> (Inl e, r1)
      | (Inr hdr, r1) \<Rightarrow>
          let size = unat (get_le16 (hdr ! 2) (hdr ! 3)) in
          if size > 0 then
            (case read_full size r1 of
               (Inl e, r2) \<Rightarrow> (Inl e, r2)
             | (Inr pay, r2) \<Rightarrow> (Inr (hdr @ pay), r2))
          else (Inr hdr, r1))"

definition mr_close :: "merged \<Rightarrow> merged" where
  "mr_close mr = mr\<lparr>mr_done := True\<rparr>"

definition auto_learn :: "string \<Rightarrow> bytes \<Rightarrow> (u32 \<Rightarrow> bool) \<Rightarrow> u32 \<Rightarrow> bool" where
  "auto_learn label frame cs =
     (if label = ''ctrl'' \<and> isDataCmd (frame ! 1) \<and> frame ! 1 \<noteq> smuxCmdSYN
      then cs(streamID frame := frame ! 1 \<noteq> smuxCmdFIN)
      else cs)"

text \<open>
  One iteration of \<open>pump\<close> on the rest of its connection. \<open>stop\<close> is the choice of the
  final \<^verbatim>\<open>select\<close> when \<^verbatim>\<open>done\<close> is closed and the channel has room as well; a full channel
  with \<^verbatim>\<open>done\<close> open blocks: the iteration is taken again later. The result says whether the pump goes on.
\<close>

definition pump :: "string \<Rightarrow> bool \<Rightarrow> bytes \<Rightarrow> merged \<Rightarrow> bool \<times> bytes \<times> merged" where
  "pump label stop r mr =
     (case read_frame r of
        (Inl e, r') \<Rightarrow> (False, r', mr_close mr)
      | (Inr frame, r') \<Rightarrow>
          let mr' = mr\<lparr>mr_ctrlStreams := auto_learn label frame (mr_ctrlStreams mr)\<rparr> in
          if mr_done mr \<and> (stop \<or> mergedChCap \<le> length (mr_ch mr)) then (False, r', mr')
          else if length (mr_ch mr) < mergedChCap then (True, r', mr'\<lparr>mr_ch := mr_ch mr @ [frame]\<rparr>)
          else (True, r, mr'))"

datatype read_result = ReadOk bytes | ReadEOF | ReadBlock

definition mr_take :: "nat \<Rightarrow> bytes \<Rightarrow> merged \<Rightarrow> read_result \<times> merged" where
  "mr_take k frame mr = (ReadOk (take k frame), mr\<lparr>mr_buf := drop k frame\<rparr>)"

text \<open>\<open>Read\<close> into a buffer of \<open>k\<close> bytes.\<close>

definition mr_Read :: "nat \<Rightarrow> merged \<Rightarrow> read_result \<times> merged" where
  "mr_Read k mr =
     (if mr_buf mr \<noteq> [] then mr_take k (mr_buf mr) mr
      else
        (case mr_ch mr of
           frame # rest \<Rightarrow> mr_take k frame (mr\<lparr>mr_ch := rest\<rparr>)
         | [] \<Rightarrow> if mr_done mr then (ReadEOF, mr) else (ReadBlock, mr)))"


section \<open>Every interleaving of the writers with the drain goroutine\<close>

text \<open>
  \<open>split_run data ctrl h s\<close>: the writer can reach state \<open>s\<close> after \<open>Write\<close> has sent the
  frames \<open>h\<close> to the data side. Between two calls of \<open>Write\<close> the goroutine may take any
  number of steps, \<open>OpenStream\<close> may ask for the next SYN to be routed, the reader may learn
  a route, and the connection may be closed.
\<close>

definition to_data :: "split_conn \<Rightarrow> bytes \<Rightarrow> bool" where
  "to_data s b \<longleftrightarrow>
     \<not> sw_done s \<and> smuxHdrLen \<le> length b \<and> isDataCmd (b ! 1) \<and>
     (if b ! 1 = smuxCmdSYN then \<not> sc_routeNextSYN s else \<not> sc_ctrlStreams s (streamID b))"

inductive split_run :: "link \<Rightarrow> link \<Rightarrow> bytes list \<Rightarrow> split_conn \<Rightarrow> bool" for data ctrl where
  start: "split_run data ctrl [] (newSplitWriter data ctrl)"
| send: "split_run data ctrl h s \<Longrightarrow> sw_Write b s = (r, s') \<Longrightarrow>
     split_run data ctrl (if to_data s b then h @ [b] else h) s'"
| drain: "split_run data ctrl h s \<Longrightarrow> split_run data ctrl h (drainData s)"
| route: "split_run data ctrl h s \<Longrightarrow> split_run data ctrl h (s\<lparr>sc_routeNextSYN := True\<rparr>)"
| learn: "split_run data ctrl h s \<Longrightarrow>
     split_run data ctrl h (s\<lparr>sc_ctrlStreams := auto_learn ''ctrl'' frame (sc_ctrlStreams s)\<rparr>)"
| close: "split_run data ctrl h s \<Longrightarrow> split_run data ctrl h (sw_close s)"

inductive_cases split_run_NilE: "split_run data ctrl [] s"

definition stream_frames :: "u32 \<Rightarrow> bytes list \<Rightarrow> bytes list" where
  "stream_frames sid bs = filter (\<lambda>b. smuxHdrLen \<le> length b \<and> streamID b = sid) bs"

definition cmd_rank :: "bytes \<Rightarrow> nat" where
  "cmd_rank b = (if b ! 1 = smuxCmdSYN then 0 else if b ! 1 = smuxCmdPSH then 1 else 2)"

text \<open>The life of a stream: opened before its data, closed after it.\<close>

definition in_order :: "bytes list \<Rightarrow> bool" where
  "in_order bs \<longleftrightarrow> sorted (map cmd_rank bs)"

lemma stream_frames_append [simp]:
  "stream_frames sid (xs @ ys) = stream_frames sid xs @ stream_frames sid ys"
  by (simp add: stream_frames_def)

lemma stream_frames_Nil [simp]: "stream_frames sid [] = []"
  by (simp add: stream_frames_def)

lemma stream_frames_Cons:
  "stream_frames sid (b # bs) = stream_frames sid [b] @ stream_frames sid bs"
  by (simp add: stream_frames_def)

lemma stream_frames_ranks: "\<forall>b\<in>set q. cmd_rank b = k \<Longrightarrow> \<forall>b\<in>set (stream_frames sid q). cmd_rank b = k"
  by (simp add: stream_frames_def)

lemma in_order_append: "in_order (xs @ ys) \<longleftrightarrow> in_order xs \<and> in_order ys \<and>
    (\<forall>x\<in>set xs. \<forall>y\<in>set ys. cmd_rank x \<le> cmd_rank y)"
  by (auto simp: in_order_def sorted_append)

definition queues_ok :: "split_conn \<Rightarrow> bool" where
  "queues_ok s \<longleftrightarrow>
     (\<forall>b\<in>set (sw_syn s). cmd_rank b = 0) \<and> (\<forall>b\<in>set (sw_psh s). cmd_rank b = 1) \<and>
     (\<forall>b\<in>set (sw_fin s). cmd_rank b = 2) \<and> (sw_wErr s \<noteq> None \<longrightarrow> sw_done s)"

definition split_ledger :: "u32 \<Rightarrow> bytes list \<Rightarrow> split_conn \<Rightarrow> bool" where
  "split_ledger sid h s \<longleftrightarrow>
     (\<exists>lost. (sw_wErr s = None \<longrightarrow> lost = []) \<and>
        stream_frames sid h =
          stream_frames sid (ln_frames (sw_data s)) @ lost @ stream_frames sid (sw_syn s) @
          stream_frames sid (sw_psh s) @ stream_frames sid (sw_fin s))"

text \<open>
  What the writer's operations do to the data side: append to one queue, move the head of
  the queues to the connection, or leave it alone.
\<close>

definition same_data :: "split_conn \<Rightarrow> split_conn \<Rightarrow> bool" where
  "same_data s s' \<longleftrightarrow>
     sw_data s' = sw_data s \<and> sw_syn s' = sw_syn s \<and> sw_psh s' = sw_psh s \<and> sw_fin s' = sw_fin s \<and>
     sw_wErr s' = sw_wErr s \<and> (sw_done s \<longrightarrow> sw_done s')"

lemma same_data_keeps:
  "same_data s s' \<Longrightarrow> queues_ok s \<Longrightarrow> queues_ok s'"
  "same_data s s' \<Longrightarrow> split_ledger sid h s \<Longrightarrow> split_ledger sid h s'"
  by (auto simp: same_data_def queues_ok_def split_ledger_def)

lemma ctrl_write_same: "ctrl_write b s = (r, s') \<Longrightarrow> same_data s s'"
  by (auto simp: ctrl_write_def same_data_def split: prod.splits bool.splits)

definition queue_for :: "bytes \<Rightarrow> data_queue" where
  "queue_for b = (if b ! 1 = smuxCmdSYN then SynQ else if b ! 1 = smuxCmdFIN then FinQ else PshQ)"

lemma sw_Write_cases:
  assumes "sw_Write b s = (r, s')"
  obtains (direct) "\<not> to_data s b" "same_data s s'"
  | (queued) "to_data s b" "same_data (snd (enqueueData (queue_for b) b s)) s'"
proof (cases "to_data s b")
  case True
  then have nd: "\<not> sw_done s" "smuxHdrLen \<le> length b" "isDataCmd (b ! 1)" by (simp_all add: to_data_def)
  have "same_data (snd (enqueueData (queue_for b) b s)) s'"
  proof (cases "b ! 1 = smuxCmdSYN")
    case syn: True
    with True have "\<not> sc_routeNextSYN s" by (simp add: to_data_def)
    with syn nd assms show ?thesis
      by (auto simp: sw_Write_def enqueueData_def queue_for_def intro: ctrl_write_same)
  next
    case False
    with True have "\<not> sc_ctrlStreams s (streamID b)" by (simp add: to_data_def)
    with False nd assms show ?thesis
      by (auto simp: sw_Write_def enqueueData_def queue_for_def Let_def same_data_def split: if_splits)
  qed
  with True show thesis by (rule queued)
next
  case False
  have "same_data (s\<lparr>sc_routeNextSYN := x, sc_ctrlStreams := y\<rparr>) s' \<Longrightarrow> same_data s s'"
    "same_data (s\<lparr>sc_ctrlStreams := y\<rparr>) s' \<Longrightarrow> same_data s s'" for x y
    by (simp_all add: same_data_def)
  moreover have "same_data s s" by (simp add: same_data_def)
  ultimately have "same_data s s'"
    using False assms unfolding sw_Write_def to_data_def
    by (auto simp: Let_def split: if_splits option.splits dest!: ctrl_write_same)
  with False show thesis by (rule direct)
qed


lemma data_cmd_rank:
  "isDataCmd (b ! 1) \<Longrightarrow> cmd_rank b = (case queue_for b of SynQ \<Rightarrow> 0 | PshQ \<Rightarrow> 1 | FinQ \<Rightarrow> 2)"
  by (auto simp: isDataCmd_def cmd_rank_def queue_for_def smux_cmds)

text \<open>A frame enqueued behind the frames of the queues that are emptied later does not occur.\<close>

lemma later_queues_empty:
  assumes "in_order (stream_frames sid h @ [b])" "split_ledger sid h s" "queues_ok s"
  shows "cmd_rank b = 0 \<Longrightarrow> stream_frames sid (sw_psh s) = [] \<and> stream_frames sid (sw_fin s) = []"
    and "cmd_rank b = 1 \<Longrightarrow> stream_frames sid (sw_fin s) = []"
proof -
  from assms(2) obtain pre where h: "stream_frames sid h =
      pre @ stream_frames sid (sw_psh s) @ stream_frames sid (sw_fin s)"
    unfolding split_ledger_def by (metis append_assoc)
  have r: "\<forall>x\<in>set (stream_frames sid (sw_psh s)). cmd_rank x = 1"
    "\<forall>x\<in>set (stream_frames sid (sw_fin s)). cmd_rank x = 2"
    using assms(3) unfolding queues_ok_def by (blast intro: stream_frames_ranks [rule_format])+
  have le: "\<forall>x\<in>set (stream_frames sid (sw_psh s)) \<union> set (stream_frames sid (sw_fin s)). cmd_rank x \<le> cmd_rank b"
    using assms(1) by (auto simp: h in_order_append)
  show "cmd_rank b = 0 \<Longrightarrow> stream_frames sid (sw_psh s) = [] \<and> stream_frames sid (sw_fin s) = []"
    using le r by (cases "stream_frames sid (sw_psh s)"; cases "stream_frames sid (sw_fin s)") auto
  show "cmd_rank b = 1 \<Longrightarrow> stream_frames sid (sw_fin s) = []"
    using le r by (cases "stream_frames sid (sw_fin s)") auto
qed

lemma enqueue_keeps:
  assumes ok: "queues_ok s" and td: "to_data s b"
  defines "s' \<equiv> snd (enqueueData (queue_for b) b s)"
  shows "queues_ok s'"
    and "split_ledger sid h s \<Longrightarrow> in_order (stream_frames sid (h @ [b])) \<Longrightarrow> split_ledger sid (h @ [b]) s'"
proof -
  have cmd: "isDataCmd (b ! 1)" and nd: "\<not> sw_done s" using td by (simp_all add: to_data_def)
  note rank = data_cmd_rank [OF cmd]
  show "queues_ok s'"
    using ok rank nd by (cases "queue_for b") (auto simp: s'_def enqueueData_def queues_ok_def)
  assume L: "split_ledger sid h s" and ord: "in_order (stream_frames sid (h @ [b]))"
  show "split_ledger sid (h @ [b]) s'"
  proof (cases "stream_frames sid [b] = []")
    case True
    then show ?thesis
      using L nd by (cases "queue_for b") (simp_all add: s'_def enqueueData_def split_ledger_def)
  next
    case False
    then have fb: "stream_frames sid [b] = [b]" by (simp add: stream_frames_def split: if_splits)
    then have "in_order (stream_frames sid h @ [b])" using ord by simp
    note later = later_queues_empty [OF this L ok]
    show ?thesis
      using L nd later rank fb
      by (cases "queue_for b") (auto simp: s'_def enqueueData_def split_ledger_def)
  qed
qed

lemma drainData_keeps:
  assumes ok: "queues_ok s"
  shows "queues_ok (drainData s)" and "split_ledger sid h s \<Longrightarrow> split_ledger sid h (drainData s)"
proof -
  have "queues_ok (drainData s) \<and> (split_ledger sid h s \<longrightarrow> split_ledger sid h (drainData s))"
  proof (cases "sw_done s \<or> popData s = None")
    case True
    then show ?thesis using ok by (auto simp: drainData_def)
  next
    case False
    then obtain f s1 where p: "popData s = Some (f, s1)" and nd: "\<not> sw_done s" by auto
    have e: "sw_wErr s = None" using ok nd by (auto simp: queues_ok_def)
    have s1: "queues_ok s1" "sw_data s1 = sw_data s" "sw_wErr s1 = None"
      using p ok e by (auto simp: popData_def queues_ok_def split: list.splits)
    have heads: "stream_frames sid (sw_syn s) @ stream_frames sid (sw_psh s) @ stream_frames sid (sw_fin s) =
        stream_frames sid [f] @ stream_frames sid (sw_syn s1) @ stream_frames sid (sw_psh s1) @
        stream_frames sid (sw_fin s1)"
      using p by (auto simp: popData_def stream_frames_Cons [of sid _ "_ # _"] split: list.splits)
        (simp_all add: stream_frames_def)
    obtain ok2 l where w: "link_write f (sw_data s) = (ok2, l)" by fastforce
    have l: "ln_frames l = ln_frames (sw_data s) @ (if ok2 then [f] else [])"
      using w by (auto simp: link_write_def split: option.splits nat.splits)
    have d: "drainData s = (if ok2 then s1\<lparr>sw_data := l\<rparr>
        else s1\<lparr>sw_data := l, sw_wErr := Some (ln_fail l), sw_done := True\<rparr>)"
      using p nd w s1(2) by (simp add: drainData_def writeDataFrame_def)
    have "queues_ok (drainData s)" using s1 d by (simp add: queues_ok_def)
    moreover have "split_ledger sid h (drainData s)" if "split_ledger sid h s"
    proof -
      have "stream_frames sid h = stream_frames sid (ln_frames (sw_data s)) @ stream_frames sid [f] @
          stream_frames sid (sw_syn s1) @ stream_frames sid (sw_psh s1) @ stream_frames sid (sw_fin s1)"
        using that heads e by (simp add: split_ledger_def)
      then show ?thesis
        unfolding split_ledger_def by (intro exI [of _ "if ok2 then [] else stream_frames sid [f]"])
          (simp add: d l s1(3))
    qed
    ultimately show ?thesis by blast
  qed
  then show "queues_ok (drainData s)" and "split_ledger sid h s \<Longrightarrow> split_ledger sid h (drainData s)"
    by blast+
qed

lemma split_run_ledger:
  assumes "split_run data ctrl h s" "ln_frames data = []"
  shows "queues_ok s \<and> (in_order (stream_frames sid h) \<longrightarrow> split_ledger sid h s)"
  using assms
proof (induction rule: split_run.induct)
  case start
  then show ?case by (simp add: queues_ok_def split_ledger_def newSplitWriter_def)
next
  case (send h s b r s')
  from send.hyps(2) show ?case
  proof (cases rule: sw_Write_cases)
    case direct
    with send.IH send.prems show ?thesis using same_data_keeps [OF direct(2)] by auto
  next
    case queued
    note q = enqueue_keeps [OF _ queued(1)] same_data_keeps [OF queued(2)]
    have "in_order (stream_frames sid (h @ [b])) \<Longrightarrow> in_order (stream_frames sid h)"
      by (simp add: in_order_append)
    with q send.IH send.prems queued(1) show ?thesis by auto
  qed
next
  case (drain h s)
  then show ?case using drainData_keeps by blast
next
  case (route h s)
  then show ?case by (simp add: queues_ok_def split_ledger_def)
next
  case (learn h s frame)
  then show ?case by (simp add: queues_ok_def split_ledger_def)
next
  case (close h s)
  then show ?case by (simp add: queues_ok_def split_ledger_def sw_close_def)
qed


text \<open>
  C10: order across the two connections. However \<open>Write\<close> and the drain goroutine interleave,
  the frames of a stream that is opened before its data and closed after it reach the data
  connection in the order they were written: what is on the wire, then what is queued (SYN,
  data, FIN), is the written sequence. A frame is missing only after the data connection
  failed.
\<close>

theorem split_stream_order:
  assumes "split_run data ctrl h s" "ln_frames data = []" "in_order (stream_frames sid h)"
  shows "\<exists>lost. (sw_wErr s = None \<longrightarrow> lost = []) \<and>
           stream_frames sid h =
             stream_frames sid (ln_frames (sw_data s)) @ lost @ stream_frames sid (sw_syn s) @
             stream_frames sid (sw_psh s) @ stream_frames sid (sw_fin s)"
  using split_run_ledger [OF assms(1,2), of sid] assms(3) by (simp add: split_ledger_def)

definition ex_syn :: bytes where "ex_syn = [2, 0, 0, 0, 7, 0, 0, 0]"
definition ex_link :: link where
  "ex_link = \<lparr>ln_frames = [], ln_budget = None, ln_fail = NetClosed\<rparr>"

definition ex_split :: split_conn where
  "ex_split = drainData (snd (sw_Write ex_psh (drainData (snd (sw_Write ex_syn
     (newSplitWriter ex_link ex_link))))))"

lemma split_stream_order_witness:
  "\<exists>lost. (sw_wErr ex_split = None \<longrightarrow> lost = []) \<and>
     stream_frames 7 [ex_syn, ex_psh] =
       stream_frames 7 (ln_frames (sw_data ex_split)) @ lost @ stream_frames 7 (sw_syn ex_split) @
       stream_frames 7 (sw_psh ex_split) @ stream_frames 7 (sw_fin ex_split)"
proof (rule split_stream_order)
  let ?s0 = "newSplitWriter ex_link ex_link"
  have w: "split_run ex_link ex_link (if to_data s b then h @ [b] else h) (snd (sw_Write b s))"
    if "split_run ex_link ex_link h s" for s h b
    using that by (rule split_run.send) (rule prod.collapse [symmetric])
  have 1: "split_run ex_link ex_link [ex_syn] (snd (sw_Write ex_syn ?s0))"
    using w [OF split_run.start, of ex_syn] by (simp add: to_data_def newSplitWriter_def smuxHdrLen_def
        ex_syn_def isDataCmd_def smux_cmds)
  have "to_data (drainData (snd (sw_Write ex_syn ?s0))) ex_psh" by code_simp
  then show "split_run ex_link ex_link [ex_syn, ex_psh] ex_split"
    using split_run.drain [OF w [OF split_run.drain [OF 1], of ex_psh]] by (simp add: ex_split_def)
  show "ln_frames ex_link = []" by (simp add: ex_link_def)
  show "in_order (stream_frames 7 [ex_syn, ex_psh])" by code_simp
qed

text \<open>
  C0: control routing. Once \<open>routeNextSYN\<close> is set, the next SYN and then every data frame of
  its stream travel on the control connection, in order; the data connection and its queues
  never see them, however full they are.
\<close>

definition write_frames_to :: "bytes list \<Rightarrow> split_conn \<Rightarrow> split_conn" where
  "write_frames_to bs s = fold (\<lambda>b s. snd (sw_Write b s)) bs s"

lemma routed_psh:
  assumes "\<not> sw_done s" "sc_ctrlStreams s sid" "ln_budget (sw_ctrl s) = None" "is_psh sid b"
  shows "snd (sw_Write b s) = s\<lparr>sw_ctrl := (sw_ctrl s)\<lparr>ln_frames := ln_frames (sw_ctrl s) @ [b]\<rparr>\<rparr>"
  using assms by (simp add: sw_Write_def is_psh_def isDataCmd_def ctrl_write_def link_write_def)

lemma routed_pshs:
  "\<not> sw_done s \<Longrightarrow> sc_ctrlStreams s sid \<Longrightarrow> ln_budget (sw_ctrl s) = None \<Longrightarrow> list_all (is_psh sid) bs \<Longrightarrow>
     write_frames_to bs s = s\<lparr>sw_ctrl := (sw_ctrl s)\<lparr>ln_frames := ln_frames (sw_ctrl s) @ bs\<rparr>\<rparr>"
  by (induction bs arbitrary: s) (simp_all add: write_frames_to_def routed_psh)

theorem split_routed_stream:
  assumes "\<not> sw_done s" "sc_routeNextSYN s" "ln_budget (sw_ctrl s) = None"
    and "smuxHdrLen \<le> length syn" "syn ! 1 = smuxCmdSYN" "streamID syn = sid" "list_all (is_psh sid) bs"
  shows "write_frames_to (syn # bs) s =
           s\<lparr>sw_ctrl := (sw_ctrl s)\<lparr>ln_frames := ln_frames (sw_ctrl s) @ syn # bs\<rparr>,
             sc_routeNextSYN := False, sc_ctrlStreams := (sc_ctrlStreams s)(sid := True)\<rparr>"
proof -
  let ?s = "s\<lparr>sc_routeNextSYN := False, sc_ctrlStreams := (sc_ctrlStreams s)(sid := True),
      sw_ctrl := (sw_ctrl s)\<lparr>ln_frames := ln_frames (sw_ctrl s) @ [syn]\<rparr>\<rparr>"
  have "write_frames_to (syn # bs) s = write_frames_to bs (snd (sw_Write syn s))"
    by (simp add: write_frames_to_def)
  also have "snd (sw_Write syn s) = ?s"
    using assms by (simp add: sw_Write_def isDataCmd_def ctrl_write_def link_write_def)
  also have "write_frames_to bs ?s =
      ?s\<lparr>sw_ctrl := (sw_ctrl ?s)\<lparr>ln_frames := ln_frames (sw_ctrl ?s) @ bs\<rparr>\<rparr>"
    by (rule routed_pshs [of _ sid]) (use assms in simp_all)
  finally show ?thesis by simp
qed

section \<open>The merged reader\<close>

definition whole_frame :: "bytes \<Rightarrow> bool" where
  "whole_frame b \<longleftrightarrow>
     smuxHdrLen \<le> length b \<and> length b = smuxHdrLen + unat (get_le16 (b ! 2) (b ! 3))"

lemma read_frame_whole:
  assumes "whole_frame b"
  shows "read_frame (b @ rest) = (Inr b, rest)"
proof -
  define hdr where "hdr = take smuxHdrLen b"
  define pay where "pay = drop smuxHdrLen b"
  have b: "b = hdr @ pay" and lh: "length hdr = smuxHdrLen"
    using assms by (simp_all add: hdr_def pay_def whole_frame_def)
  have "hdr ! 2 = b ! 2" "hdr ! 3 = b ! 3" by (simp_all add: hdr_def smuxHdrLen_def)
  then have lp: "length pay = unat (get_le16 (hdr ! 2) (hdr ! 3))"
    using assms by (simp add: whole_frame_def pay_def)
  have "read_full smuxHdrLen (hdr @ pay @ rest) = (Inr hdr, pay @ rest)" using lh by simp
  then show ?thesis using lp by (auto simp: b read_frame_def Let_def)
qed

interpretation smux_frames: frame_codec "\<lambda>b. b" read_frame whole_frame
  by unfold_locales (rule read_frame_whole)

fun pump_many :: "nat \<Rightarrow> string \<Rightarrow> bytes \<Rightarrow> merged \<Rightarrow> bytes \<times> merged" where
  "pump_many 0 label r mr = (r, mr)"
| "pump_many (Suc n) label r mr =
     (case pump label False r mr of
        (True, r', mr') \<Rightarrow> pump_many n label r' mr'
      | (False, r', mr') \<Rightarrow> (r', mr'))"

fun read_many :: "nat list \<Rightarrow> merged \<Rightarrow> bytes \<times> merged" where
  "read_many [] mr = ([], mr)"
| "read_many (k # ks) mr =
     (case mr_Read k mr of
        (ReadOk bs, mr') \<Rightarrow> (case read_many ks mr' of (out, mr'') \<Rightarrow> (bs @ out, mr''))
      | (_, mr') \<Rightarrow> read_many ks mr')"

definition mr_pending :: "merged \<Rightarrow> bytes" where
  "mr_pending mr = mr_buf mr @ concat (mr_ch mr)"

lemma mr_Read_pending:
  "mr_Read k mr = (ReadOk bs, mr') \<Longrightarrow> mr_pending mr = bs @ mr_pending mr'"
  "mr_Read k mr = (ReadEOF, mr') \<Longrightarrow> mr_pending mr = [] \<and> mr' = mr"
  "mr_Read k mr = (ReadBlock, mr') \<Longrightarrow> mr_pending mr = [] \<and> mr' = mr"
  by (auto simp: mr_Read_def mr_take_def mr_pending_def split: list.splits if_splits)

lemma read_many_pending: "read_many ks mr = (out, mr') \<Longrightarrow> mr_pending mr = out @ mr_pending mr'"
proof (induction ks arbitrary: mr out)
  case (Cons k ks)
  obtain r mr1 where r: "mr_Read k mr = (r, mr1)" by fastforce
  with Cons show ?case
    by (cases r) (auto split: prod.splits dest: mr_Read_pending)
qed simp

lemma pump_many_frames:
  "list_all whole_frame fs \<Longrightarrow> \<not> mr_done mr \<Longrightarrow> length (mr_ch mr) + length fs \<le> mergedChCap \<Longrightarrow>
     \<exists>cs. pump_many (length fs) label (concat fs @ rest) mr =
       (rest, mr\<lparr>mr_ch := mr_ch mr @ fs, mr_ctrlStreams := cs\<rparr>)"
proof (induction fs arbitrary: mr)
  case Nil
  then show ?case by (auto intro: exI [of _ "mr_ctrlStreams mr"])
next
  case (Cons f fs)
  let ?mr = "mr\<lparr>mr_ctrlStreams := auto_learn label f (mr_ctrlStreams mr), mr_ch := mr_ch mr @ [f]\<rparr>"
  have p: "pump label False (f @ concat fs @ rest) mr = (True, concat fs @ rest, ?mr)"
    using Cons.prems by (simp add: pump_def read_frame_whole Let_def)
  have "length (mr_ch ?mr) + length fs \<le> mergedChCap" using Cons.prems(3) by simp
  with Cons.IH [of ?mr] Cons.prems p show ?case by auto
qed

text \<open>
  The reader side. Whole frames that arrive on a connection are split exactly at their
  boundaries by the pump, and any sequence of reads, whatever the buffer sizes, returns
  their bytes in arrival order without losing or repeating any.
\<close>

lemma split_reader_roundtrip:
  assumes "list_all whole_frame fs" "length fs \<le> mergedChCap"
  shows "\<exists>mr. pump_many (length fs) label (concat fs @ rest) (newMergedReader cs) = (rest, mr) \<and>
           mr_ch mr = fs \<and>
           (case read_many ks mr of (out, mr') \<Rightarrow> concat fs = out @ mr_pending mr')"
proof -
  obtain cs' where p: "pump_many (length fs) label (concat fs @ rest) (newMergedReader cs) =
      (rest, (newMergedReader cs)\<lparr>mr_ch := fs, mr_ctrlStreams := cs'\<rparr>)"
    using pump_many_frames [of fs "newMergedReader cs" label rest] assms
    by (auto simp: newMergedReader_def)
  let ?mr = "(newMergedReader cs)\<lparr>mr_ch := fs, mr_ctrlStreams := cs'\<rparr>"
  have "mr_pending ?mr = concat fs" by (simp add: mr_pending_def newMergedReader_def)
  with read_many_pending [of ks ?mr]
  have "case read_many ks ?mr of (out, mr') \<Rightarrow> concat fs = out @ mr_pending mr'"
    by (cases "read_many ks ?mr") simp
  with p show ?thesis by (intro exI [of _ ?mr]) simp
qed

end
