(* ===== verification/Meters.thy ===== *)
theory Meters
  imports Contracts
begin

text \<open>
  The counters of \<^verbatim>\<open>internal/stats/stats.go\<close> that carry no connection: the RTT window of a
  pool member and the totals of the tunnel. Times are nanoseconds; \<open>now\<close> is the clock
  reading the code takes. The atomic updates are steps of one thread at a time; their
  compare-and-swap loops end when the stored maximum is at least the new value.
\<close>

section \<open>Per-tunnel counters\<close>

datatype tunnel_state = TunnelAlive | TunnelReconnecting | TunnelDead

definition rttWindowSize :: nat where "rttWindowSize = 10"

record tunnel_counters =
  tc_RxTotal :: int
  tc_TxTotal :: int
  tc_ActiveTCP :: int
  tc_TotalTCP :: int
  tc_state :: tunnel_state
  tc_lastRTTNs :: int
  tc_maxRTTNs :: int
  tc_rttRing :: "int list"
  tc_rttRingPos :: nat
  tc_rttCount :: nat
  tc_prevRTTNs :: int
  tc_jitterNs :: int

definition new_tunnel_counters :: tunnel_counters where
  "new_tunnel_counters =
     \<lparr>tc_RxTotal = 0, tc_TxTotal = 0, tc_ActiveTCP = 0, tc_TotalTCP = 0, tc_state = TunnelAlive,
      tc_lastRTTNs = 0, tc_maxRTTNs = 0, tc_rttRing = replicate rttWindowSize 0, tc_rttRingPos = 0,
      tc_rttCount = 0, tc_prevRTTNs = 0, tc_jitterNs = 0\<rparr>"

definition tc_AddRx :: "int \<Rightarrow> tunnel_counters \<Rightarrow> tunnel_counters" where
  "tc_AddRx n tc = tc\<lparr>tc_RxTotal := tc_RxTotal tc + n\<rparr>"

definition tc_AddTx :: "int \<Rightarrow> tunnel_counters \<Rightarrow> tunnel_counters" where
  "tc_AddTx n tc = tc\<lparr>tc_TxTotal := tc_TxTotal tc + n\<rparr>"

definition tc_SetState :: "tunnel_state \<Rightarrow> tunnel_counters \<Rightarrow> tunnel_counters" where
  "tc_SetState s tc = tc\<lparr>tc_state := s\<rparr>"

text \<open>The ring and jitter update of \<open>ObserveRTT\<close>, done under the lock.\<close>

definition rtt_push :: "int \<Rightarrow> tunnel_counters \<Rightarrow> tunnel_counters" where
  "rtt_push ns tc =
     (let tc1 = tc\<lparr>tc_rttRing := (tc_rttRing tc)[tc_rttRingPos tc := ns],
                   tc_rttRingPos := (tc_rttRingPos tc + 1) mod rttWindowSize,
                   tc_rttCount := tc_rttCount tc + 1\<rparr>;
          tc2 = (if tc_prevRTTNs tc1 > 0
                 then let diff = ns - tc_prevRTTNs tc1;
                          diff = (if diff < 0 then - diff else diff)
                      in tc1\<lparr>tc_jitterNs := diff\<rparr>
                 else tc1)
      in tc2\<lparr>tc_prevRTTNs := ns\<rparr>)"

definition ObserveRTT :: "int \<Rightarrow> tunnel_counters \<Rightarrow> tunnel_counters" where
  "ObserveRTT rtt tc =
     (if rtt \<le> 0 then tc
      else
        let ns = rtt;
            tc1 = tc\<lparr>tc_lastRTTNs := ns\<rparr>;
            tc2 = (if ns \<le> tc_maxRTTNs tc1 then tc1 else tc1\<lparr>tc_maxRTTNs := ns\<rparr>)
        in rtt_push ns tc2)"

definition tc_LastRTT :: "tunnel_counters \<Rightarrow> int" where
  "tc_LastRTT tc = tc_lastRTTNs tc"

definition MinRTT :: "tunnel_counters \<Rightarrow> int" where
  "MinRTT tc =
     (let n = min (tc_rttCount tc) rttWindowSize in
      if n = 0 then 0
      else fold (\<lambda>i minNs. if tc_rttRing tc ! i < minNs then tc_rttRing tc ! i else minNs)
             [1..<n] (tc_rttRing tc ! 0))"

definition Jitter :: "tunnel_counters \<Rightarrow> int" where
  "Jitter tc = tc_jitterNs tc"

definition tunnelStateString :: "tunnel_state \<Rightarrow> string" where
  "tunnelStateString s =
     (case s of TunnelReconnecting \<Rightarrow> ''reconnecting'' | TunnelDead \<Rightarrow> ''dead'' | TunnelAlive \<Rightarrow> ''alive'')"

text \<open>The pool members in order of registration; registering twice returns the first entry.\<close>

definition RegisterTunnel ::
    "int \<Rightarrow> (int \<times> tunnel_counters) list \<Rightarrow> tunnel_counters \<times> (int \<times> tunnel_counters) list" where
  "RegisterTunnel idx ts =
     (case find (\<lambda>e. fst e = idx) ts of
        Some e \<Rightarrow> (snd e, ts)
      | None \<Rightarrow> (new_tunnel_counters, ts @ [(idx, new_tunnel_counters)]))"

section \<open>The RTT window\<close>

definition ring_ok :: "tunnel_counters \<Rightarrow> bool" where
  "ring_ok tc \<longleftrightarrow>
     length (tc_rttRing tc) = rttWindowSize \<and> tc_rttRingPos tc = tc_rttCount tc mod rttWindowSize"

definition rtt_window :: "tunnel_counters \<Rightarrow> int list" where
  "rtt_window tc =
     (if tc_rttCount tc < rttWindowSize then take (tc_rttCount tc) (tc_rttRing tc)
      else drop (tc_rttRingPos tc) (tc_rttRing tc) @ take (tc_rttRingPos tc) (tc_rttRing tc))"

lemma rtt_push_ring:
  "tc_rttRing (rtt_push ns tc) = (tc_rttRing tc)[tc_rttRingPos tc := ns]"
  "tc_rttRingPos (rtt_push ns tc) = (tc_rttRingPos tc + 1) mod rttWindowSize"
  "tc_rttCount (rtt_push ns tc) = tc_rttCount tc + 1"
  by (simp_all add: rtt_push_def Let_def)

lemma ring_ok_push: "ring_ok tc \<Longrightarrow> ring_ok (rtt_push ns tc)"
  by (simp add: ring_ok_def rtt_push_ring mod_Suc_eq)

lemma take_Suc_update: "i < length xs \<Longrightarrow> take (Suc i) (xs[i := x]) = take i xs @ [x]"
  by (simp add: take_Suc_conv_app_nth)

lemma drop_Suc_rotate: "i < length xs \<Longrightarrow> tl (drop i xs @ take i xs) = drop (Suc i) xs @ take i xs"
  by (simp add: tl_append2 drop_Suc tl_drop)

lemma rtt_window_push:
  assumes "ring_ok tc"
  shows "rtt_window (rtt_push ns tc) = last_n rttWindowSize (rtt_window tc @ [ns])"
proof (cases "tc_rttCount tc < rttWindowSize")
  case True
  define i where "i = tc_rttCount tc"
  have len: "length (tc_rttRing tc) = rttWindowSize" and pos: "tc_rttRingPos tc = i"
    using assms True by (simp_all add: ring_ok_def i_def)
  have "rtt_window (rtt_push ns tc) = take (Suc i) ((tc_rttRing tc)[i := ns])"
  proof (cases "Suc i < rttWindowSize")
    case True
    then show ?thesis by (simp add: rtt_window_def rtt_push_ring pos flip: i_def)
  next
    case False
    then have "Suc i = rttWindowSize" using True by (simp add: i_def)
    then show ?thesis
      using len by (simp add: rtt_window_def rtt_push_ring pos flip: i_def)
  qed
  also have "\<dots> = take i (tc_rttRing tc) @ [ns]"
    using True len by (intro take_Suc_update) (simp add: i_def)
  also have "\<dots> = rtt_window tc @ [ns]" using True by (simp add: rtt_window_def i_def)
  finally show ?thesis
    using True len by (simp add: rtt_window_def)
next
  case False
  define i where "i = tc_rttRingPos tc"
  define r where "r = tc_rttRing tc"
  have len: "length r = rttWindowSize" using assms by (simp add: ring_ok_def r_def)
  have i: "i < length r" using assms len by (simp add: ring_ok_def i_def rttWindowSize_def)
  have w: "rtt_window tc = drop i r @ take i r" using False by (simp add: rtt_window_def i_def r_def)
  have "rtt_window (rtt_push ns tc) = drop (Suc i) r @ take i r @ [ns]"
  proof (cases "Suc i < rttWindowSize")
    case True
    then show ?thesis
      using False i by (simp add: rtt_window_def rtt_push_ring take_Suc_update flip: i_def r_def)
  next
    case last: False
    then have "Suc i = length r" using i len by simp
    then show ?thesis
      using False len take_Suc_update [OF i, of ns]
      by (simp add: rtt_window_def rtt_push_ring flip: i_def r_def)
  qed
  also have "\<dots> = tl (rtt_window tc) @ [ns]" using drop_Suc_rotate [OF i] w by simp
  also have "\<dots> = last_n rttWindowSize (rtt_window tc @ [ns])"
    using i len by (intro last_n_snoc [symmetric]) (simp_all add: w rttWindowSize_def)
  finally show ?thesis .
qed

interpretation rtt_log: bounded_log rtt_push rtt_window ring_ok rttWindowSize
  by unfold_locales (simp_all add: rtt_window_push ring_ok_push)

lemma set_rtt_window:
  assumes "ring_ok tc"
  shows "set (rtt_window tc) = set (take (min (tc_rttCount tc) rttWindowSize) (tc_rttRing tc))"
proof (cases "tc_rttCount tc < rttWindowSize")
  case False
  have "set (drop i xs @ take i xs) = set xs" for i and xs :: "int list"
    by (metis append_take_drop_id set_append sup_commute)
  with False assms show ?thesis by (simp add: rtt_window_def ring_ok_def min_def)
qed (simp add: rtt_window_def min_def)

lemma fold_min:
  "fold (\<lambda>i m. if xs ! i < m then xs ! i else m) is a = Min (insert a ((!) (xs :: int list) ` set is))"
proof (induction "is" arbitrary: a)
  case (Cons i "is")
  have "Min (insert (if xs ! i < a then xs ! i else a) ((!) xs ` set is)) =
        Min (insert a (insert (xs ! i) ((!) xs ` set is)))"
    by (cases "set is = {}") (auto simp: min_def)
  with Cons show ?case by simp
qed simp

lemma MinRTT_window:
  assumes "ring_ok tc" "0 < tc_rttCount tc"
  shows "MinRTT tc = Min (set (rtt_window tc))"
proof -
  define n where "n = min (tc_rttCount tc) rttWindowSize"
  define r where "r = tc_rttRing tc"
  have n: "0 < n" "n \<le> length r"
    using assms by (simp_all add: n_def r_def ring_ok_def rttWindowSize_def)
  have "MinRTT tc = Min (insert (r ! 0) ((!) r ` {1..<n}))"
    using n(1) fold_min [of r "[1..<n]" "r ! 0"]
    unfolding MinRTT_def Let_def n_def [symmetric] r_def [symmetric] by simp
  also have "insert (r ! 0) ((!) r ` {1..<n}) = (!) r ` {0..<n}"
    using n(1) by (auto simp: image_iff Ball_def) (metis One_nat_def Suc_leI not_gr0)+
  also have "\<dots> = set (take n r)" using nth_image [OF n(2)] by simp
  finally show ?thesis using set_rtt_window [OF assms(1)] by (simp add: n_def r_def)
qed


definition positive_rtts :: "int list \<Rightarrow> int list" where
  "positive_rtts rtts = filter (\<lambda>r. 0 < r) rtts"

lemma ObserveRTT_push:
  "ObserveRTT rtt tc = (if 0 < rtt
     then rtt_push rtt (tc\<lparr>tc_lastRTTNs := rtt, tc_maxRTTNs := max rtt (tc_maxRTTNs tc)\<rparr>) else tc)"
  by (auto simp: ObserveRTT_def Let_def max_def intro: arg_cong [of _ _ "rtt_push rtt"])

text \<open>What the window, the count and the extremes know after a sequence of measurements.\<close>

definition rtt_inv :: "int list \<Rightarrow> tunnel_counters \<Rightarrow> bool" where
  "rtt_inv seen tc \<longleftrightarrow>
     ring_ok tc \<and> tc_rttCount tc = length seen \<and> rtt_window tc = last_n rttWindowSize seen \<and>
     tc_maxRTTNs tc = Max (set (0 # seen)) \<and> (seen \<noteq> [] \<longrightarrow> tc_lastRTTNs tc = last seen) \<and>
     tc_prevRTTNs tc = (if seen = [] then 0 else last seen) \<and>
     (2 \<le> length seen \<longrightarrow> tc_jitterNs tc = \<bar>last seen - last (butlast seen)\<bar>) \<and>
     (\<forall>r\<in>set seen. 0 < r)"

lemma rtt_inv_new: "rtt_inv [] new_tunnel_counters"
  by (simp add: rtt_inv_def ring_ok_def rtt_window_def new_tunnel_counters_def rttWindowSize_def)

lemma rtt_inv_observe:
  assumes "rtt_inv seen tc"
  shows "rtt_inv (seen @ positive_rtts [rtt]) (ObserveRTT rtt tc)"
proof (cases "0 < rtt")
  case True
  let ?tc = "tc\<lparr>tc_lastRTTNs := rtt, tc_maxRTTNs := max rtt (tc_maxRTTNs tc)\<rparr>"
  have "rtt_window ?tc = rtt_window tc" "ring_ok ?tc = ring_ok tc"
    by (simp_all add: rtt_window_def ring_ok_def)
  then have ok: "ring_ok ?tc" and w: "rtt_window ?tc = last_n rttWindowSize seen"
    using assms by (simp_all add: rtt_inv_def)
  have "rtt_window (rtt_push rtt ?tc) = last_n rttWindowSize (seen @ [rtt])"
    by (simp only: rtt_window_push [OF ok] w last_n_last_n_append)
  moreover have "ring_ok (rtt_push rtt ?tc)" using ok by (rule ring_ok_push)
  moreover have "tc_maxRTTNs (rtt_push rtt ?tc) = max rtt (tc_maxRTTNs tc)"
    "tc_lastRTTNs (rtt_push rtt ?tc) = rtt" "tc_prevRTTNs (rtt_push rtt ?tc) = rtt"
    by (simp_all add: rtt_push_def Let_def)
  moreover have "tc_jitterNs (rtt_push rtt ?tc) = \<bar>rtt - last seen\<bar>" if "1 \<le> length seen"
  proof -
    have "seen \<noteq> []" using that by auto
    then have "0 < last seen" "tc_prevRTTNs tc = last seen" using assms by (auto simp: rtt_inv_def)
    then show ?thesis by (simp add: rtt_push_def Let_def)
  qed
  moreover have "Max (set (0 # seen @ [rtt])) = max rtt (Max (set (0 # seen)))"
    using Max_insert [of "set (0 # seen)" rtt] by (simp add: insert_commute del: Max_insert)
  ultimately show ?thesis
    using assms True by (auto simp: ObserveRTT_push rtt_inv_def positive_rtts_def rtt_push_ring(3))
next
  case False
  then show ?thesis using assms by (simp add: ObserveRTT_push positive_rtts_def)
qed

lemma rtt_inv_observes:
  "rtt_inv seen tc \<Longrightarrow> rtt_inv (seen @ positive_rtts rtts) (fold ObserveRTT rtts tc)"
proof (induction rtts arbitrary: seen tc)
  case (Cons r rtts)
  from Cons.IH [OF rtt_inv_observe [OF Cons.prems, of r]] show ?case
    by (simp add: positive_rtts_def split: if_splits)
qed (simp add: positive_rtts_def)

text \<open>
  RTT statistics of a pool member. After any sequence of measurements, of which the
  non-positive ones are ignored, the minimum is that of the ten most recent ones, the
  maximum that of all, the last is the last, and the jitter is the distance of the last
  two, although the window is a ring overwritten in place.
\<close>

lemma rtt_statistics:
  assumes "seen = positive_rtts rtts" "seen \<noteq> []"
  defines "tc \<equiv> fold ObserveRTT rtts new_tunnel_counters"
  shows "MinRTT tc = Min (set (last_n rttWindowSize seen)) \<and> tc_maxRTTNs tc = Max (set seen) \<and>
         tc_LastRTT tc = last seen \<and>
         (2 \<le> length seen \<longrightarrow> Jitter tc = \<bar>last seen - last (butlast seen)\<bar>)"
proof -
  have inv: "rtt_inv seen tc"
    using rtt_inv_observes [OF rtt_inv_new, of rtts] by (simp add: assms(1) tc_def)
  then have "MinRTT tc = Min (set (last_n rttWindowSize seen))"
    using MinRTT_window [of tc] assms(2) by (auto simp: rtt_inv_def)
  moreover have "Max (set (0 # seen)) = Max (set seen)"
  proof -
    have "0 < Max (set seen)" using inv assms(2) by (auto simp: rtt_inv_def Max_gr_iff neq_Nil_conv)
    then show ?thesis using assms(2) by simp
  qed
  ultimately show ?thesis
    using inv assms(2) by (simp add: rtt_inv_def tc_LastRTT_def Jitter_def)
qed

section \<open>Totals of the tunnel\<close>

record meters =
  ct_RxTotal :: int
  ct_TxTotal :: int
  ct_ActiveTCP :: int
  ct_TotalTCP :: int
  ct_DNSTotal :: int
  ct_peakActive :: int
  ct_lastRxAt :: int
  ct_lastTxAt :: int
  ct_lastDNSAt :: int
  ct_lastKeepaliveRTTNs :: int
  ct_maxKeepaliveRTTNs :: int
  ct_lastCtrlKeepaliveRTTNs :: int
  ct_maxCtrlKeepaliveRTTNs :: int

definition new_meters :: "int \<Rightarrow> meters" where
  "new_meters now =
     \<lparr>ct_RxTotal = 0, ct_TxTotal = 0, ct_ActiveTCP = 0, ct_TotalTCP = 0, ct_DNSTotal = 0,
      ct_peakActive = 0, ct_lastRxAt = now, ct_lastTxAt = now, ct_lastDNSAt = now,
      ct_lastKeepaliveRTTNs = 0, ct_maxKeepaliveRTTNs = 0, ct_lastCtrlKeepaliveRTTNs = 0,
      ct_maxCtrlKeepaliveRTTNs = 0\<rparr>"

definition ct_AddRx :: "int \<Rightarrow> int \<Rightarrow> meters \<Rightarrow> meters" where
  "ct_AddRx now n m =
     (if n \<le> 0 then m else m\<lparr>ct_RxTotal := ct_RxTotal m + n, ct_lastRxAt := now\<rparr>)"

definition ct_AddTx :: "int \<Rightarrow> int \<Rightarrow> meters \<Rightarrow> meters" where
  "ct_AddTx now n m =
     (if n \<le> 0 then m else m\<lparr>ct_TxTotal := ct_TxTotal m + n, ct_lastTxAt := now\<rparr>)"

definition AddDNS :: "int \<Rightarrow> meters \<Rightarrow> meters" where
  "AddDNS now m = m\<lparr>ct_DNSTotal := ct_DNSTotal m + 1, ct_lastDNSAt := now\<rparr>"

definition NoteActiveConns :: "int \<Rightarrow> meters \<Rightarrow> meters" where
  "NoteActiveConns active m =
     (let cur = ct_peakActive m in if active \<le> cur then m else m\<lparr>ct_peakActive := active\<rparr>)"

definition ObserveKeepaliveRTT :: "int \<Rightarrow> meters \<Rightarrow> meters" where
  "ObserveKeepaliveRTT rtt m =
     (if rtt \<le> 0 then m
      else let m1 = m\<lparr>ct_lastKeepaliveRTTNs := rtt\<rparr>; cur = ct_maxKeepaliveRTTNs m1 in
           if rtt \<le> cur then m1 else m1\<lparr>ct_maxKeepaliveRTTNs := rtt\<rparr>)"

definition ObserveCtrlKeepaliveRTT :: "int \<Rightarrow> meters \<Rightarrow> meters" where
  "ObserveCtrlKeepaliveRTT rtt m =
     (if rtt \<le> 0 then m
      else let m1 = m\<lparr>ct_lastCtrlKeepaliveRTTNs := rtt\<rparr>; cur = ct_maxCtrlKeepaliveRTTNs m1 in
           if rtt \<le> cur then m1 else m1\<lparr>ct_maxCtrlKeepaliveRTTNs := rtt\<rparr>)"

definition EffectiveKeepaliveRTT :: "meters \<Rightarrow> int" where
  "EffectiveKeepaliveRTT m =
     (let ctrl = ct_lastCtrlKeepaliveRTTNs m in if ctrl > 0 then ctrl else ct_lastKeepaliveRTTNs m)"

text \<open>\<open>lastActivityTime\<close>; \<open>None\<close> is the zero time.\<close>

definition lastActivityTime :: "meters \<Rightarrow> int option" where
  "lastActivityTime m =
     (let at = ct_lastRxAt m;
          at = (if ct_lastTxAt m > at then ct_lastTxAt m else at);
          at = (if ct_lastDNSAt m > at then ct_lastDNSAt m else at)
      in if at = 0 then None else Some at)"

definition LastActivityAgo :: "int \<Rightarrow> meters \<Rightarrow> int" where
  "LastActivityAgo now m = (case lastActivityTime m of None \<Rightarrow> 0 | Some at \<Rightarrow> now - at)"

definition secs :: "int \<Rightarrow> int" where "secs n = n * 1000000000"

definition idleWarnAfter :: int where "idleWarnAfter = secs 45"
definition highActiveConnThreshold :: int where "highActiveConnThreshold = 128"
definition highConnOpenRateThreshold :: int where "highConnOpenRateThreshold = 200"
definition highDNSRateThreshold :: int where "highDNSRateThreshold = 200"
definition highKeepaliveRTT :: int where "highKeepaliveRTT = secs 2"

datatype health_warning = PressureConns | PressureChurn | PressureDNS | Stalled | HighRTT

text \<open>The warning \<open>logHealth\<close> prints, if any.\<close>

definition logHealth :: "int \<Rightarrow> int \<Rightarrow> int \<Rightarrow> meters \<Rightarrow> health_warning option" where
  "logHealth now openedPerWindow dnsPerWindow m =
     (let idle = LastActivityAgo now m; active = ct_ActiveTCP m in
      if active \<ge> highActiveConnThreshold then Some PressureConns
      else if openedPerWindow \<ge> highConnOpenRateThreshold then Some PressureChurn
      else if dnsPerWindow \<ge> highDNSRateThreshold then Some PressureDNS
      else if active > 0 \<and> idle \<ge> idleWarnAfter then Some Stalled
      else if EffectiveKeepaliveRTT m \<ge> highKeepaliveRTT then Some HighRTT
      else None)"

text \<open>The unit and divisor \<open>formatBytesPerSec\<close> chooses: \<open>None\<close> prints plain bytes.\<close>

function scale_bytes :: "int \<Rightarrow> int \<Rightarrow> nat \<Rightarrow> int \<times> nat" where
  "scale_bytes n divisor e = (if n \<ge> 1024 then scale_bytes (n div 1024) (divisor * 1024) (e + 1) else (divisor, e))"
  by pat_completeness auto
termination by (relation "measure (\<lambda>(n, _, _). nat n)") auto

declare scale_bytes.simps [simp del]

definition formatBytesPerSec :: "int \<Rightarrow> (int \<times> char) option" where
  "formatBytesPerSec v =
     (if v < 1024 then None
      else (case scale_bytes (v div 1024) 1024 0 of (divisor, e) \<Rightarrow> Some (divisor, ''KMGTPE'' ! e)))"

lemma scale_bytes_spec:
  assumes "scale_bytes n 1 0 = (d, e)" "1 \<le> n"
  shows "d = 1024 ^ e \<and> d \<le> n \<and> n < 1024 * d"
proof -
  have "d = c * 1024 ^ (e - k) \<and> k \<le> e \<and> 1024 ^ (e - k) \<le> n \<and> n < 1024 * 1024 ^ (e - k)"
    if "scale_bytes n c k = (d, e)" "1 \<le> n" for n c k
    using that
  proof (induction n c k rule: scale_bytes.induct)
    case (1 n c k)
    show ?case
    proof (cases "n \<ge> 1024")
      case True
      then have r: "scale_bytes (n div 1024) (c * 1024) (k + 1) = (d, e)"
        using "1.prems"(1) by (subst (asm) scale_bytes.simps) simp
      have IH: "d = (c * 1024) * 1024 ^ (e - Suc k)" "Suc k \<le> e" "1024 ^ (e - Suc k) \<le> n div 1024"
        "n div 1024 < 1024 * 1024 ^ (e - Suc k)"
        using "1.IH" [OF True r] True by simp_all
      obtain j where j: "e = Suc k + j" using IH(2) le_Suc_ex by blast
      from IH(3,4) have "1024 * 1024 ^ j \<le> n" "n < 1024 * (1024 * 1024 ^ j)"
        by (simp_all add: j)
      with IH(1) show ?thesis by (simp add: j)
    next
      case False
      then show ?thesis using "1.prems" by (subst (asm) scale_bytes.simps) simp
    qed
  qed
  from this [OF assms] show ?thesis by simp
qed


text \<open>
  Formatting a rate. For every 64-bit rate of at least 1,024 bytes the loop ends with a
  unit of the table (the index never runs past ``E''), and the printed value is at least 1
  and below 1,024 in that unit.
\<close>

lemma formatBytes_unit:
  assumes "1024 \<le> v" "v \<le> int64_max"
  shows "\<exists>e. e < 6 \<and> formatBytesPerSec v = Some (1024 ^ (e + 1), ''KMGTPE'' ! e) \<and>
           1024 ^ (e + 1) \<le> v \<and> v < 1024 * 1024 ^ (e + 1)"
proof -
  have gen: "fst (scale_bytes n (c * m) k) = c * fst (scale_bytes n m k) \<and>
      snd (scale_bytes n (c * m) k) = snd (scale_bytes n m k)" for n c m k
  proof (induction n m k rule: scale_bytes.induct)
    case (1 n m k)
    show ?case
      using 1 by (subst (1 2 3 4) scale_bytes.simps) (simp add: mult.assoc)
  qed
  obtain d e where s: "scale_bytes (v div 1024) 1 0 = (d, e)" by fastforce
  have v1: "1 \<le> v div 1024" using assms(1) by linarith
  note spec = scale_bytes_spec [OF s v1]
  have f: "formatBytesPerSec v = Some (1024 * d, ''KMGTPE'' ! e)"
  proof -
    have "scale_bytes (v div 1024) 1024 0 = (1024 * d, e)"
      using gen [of "v div 1024" 1024 1 0] s by (simp add: prod_eq_iff)
    then show ?thesis using assms(1) by (simp add: formatBytesPerSec_def)
  qed
  have b: "1024 * 1024 ^ e \<le> v" "v < 1024 * (1024 * 1024 ^ e)" using spec by linarith+
  have "e < 6"
  proof (rule ccontr)
    assume "\<not> e < 6"
    then have "(1024 :: int) ^ 6 \<le> 1024 ^ e" by (intro power_increasing) simp_all
    with b(1) assms(2) show False by (simp add: int64_max_def)
  qed
  with f b spec show ?thesis by (intro exI [of _ e]) simp
qed

end
