(* ===== verification/MuxStream.thy ===== *)
theory MuxStream
  imports SplitLink Meters
begin

text \<open>
  The client's streams, \<^verbatim>\<open>internal/mux/client.go\<close>: opening TCP, DNS and UDP streams, the TCP
  connection \<open>ClientConn\<close> over a stream, the UDP channel, and the route list the server
  pushes. The smux session is not under the sources: what its \<^verbatim>\<open>OpenStream\<close> returns, an error or
  a stream (the bytes that will arrive, the sink that takes what is written), is an argument
  of the operations.
\<close>

section \<open>The client\<close>

type_synonym mux_stream = "bytes \<times> sink"

record mux_client =
  mc_done :: bool
  mc_counters :: "meters option"
  mc_tunnelIdx :: int
  mc_tunnelCtrs :: "tunnel_counters option"
  mc_numStreams :: nat

definition IsClosed :: "mux_client \<Rightarrow> bool" where
  "IsClosed c = mc_done c"

definition NumStreams :: "mux_client \<Rightarrow> nat" where
  "NumStreams c = mc_numStreams c"

definition mc_LastRTT :: "mux_client \<Rightarrow> int" where
  "mc_LastRTT c = (case mc_tunnelCtrs c of None \<Rightarrow> 0 | Some tc \<Rightarrow> tc_LastRTT tc)"

definition on_counters :: "(meters \<Rightarrow> meters) \<Rightarrow> mux_client \<Rightarrow> mux_client" where
  "on_counters f c = c\<lparr>mc_counters := map_option f (mc_counters c)\<rparr>"

definition on_tunnel :: "(tunnel_counters \<Rightarrow> tunnel_counters) \<Rightarrow> mux_client \<Rightarrow> mux_client" where
  "on_tunnel f c = c\<lparr>mc_tunnelCtrs := map_option f (mc_tunnelCtrs c)\<rparr>"

text \<open>\<open>ActiveTCP.Add(d)\<close> and the peak that follows it.\<close>

definition add_active :: "int \<Rightarrow> meters \<Rightarrow> meters" where
  "add_active d m =
     (let active = ct_ActiveTCP m + d in NoteActiveConns active (m\<lparr>ct_ActiveTCP := active\<rparr>))"

definition openStreamOnCtrl ::
    "(error + mux_stream) \<Rightarrow> split_conn option \<Rightarrow> (error + mux_stream) \<times> split_conn option" where
  "openStreamOnCtrl opened sc =
     (case sc of
        None \<Rightarrow> (opened, None)
      | Some s \<Rightarrow>
          (case opened of
             Inl e \<Rightarrow> (Inl e, Some (s\<lparr>sc_routeNextSYN := False\<rparr>))
           | Inr st \<Rightarrow> (Inr st, Some (s\<lparr>sc_routeNextSYN := True\<rparr>))))"

section \<open>TCP connections\<close>

record client_conn =
  cc_in :: bytes
  cc_out :: sink
  cc_stream_open :: bool
  cc_readBuf :: bytes
  cc_readEOF :: bool
  cc_closed :: bool
  cc_done :: bool
  cc_TunnelIndex :: int

definition tcp_header :: "int \<Rightarrow> string \<Rightarrow> int \<Rightarrow> string" where
  "tcp_header family ip port = ''TCP '' @ itoa family @ '' '' @ ip @ '' '' @ itoa port @ [CHR 0x0A]"

definition OpenTCP ::
    "(error + mux_stream) \<Rightarrow> int \<Rightarrow> string \<Rightarrow> int \<Rightarrow> mux_client \<Rightarrow> (error + client_conn) \<times> mux_client" where
  "OpenTCP opened family dstIP dstPort c =
     (if mc_done c then (Inl (Msg ''mux: client closed''), c)
      else
        (case opened of
           Inl e \<Rightarrow> (Inl (Wrapped ''mux: open stream'' e), c)
         | Inr (arriving, out) \<Rightarrow>
             (case sink_write (bytes_of_string (tcp_header family dstIP dstPort)) out of
                (Some e, _) \<Rightarrow> (Inl (Wrapped ''mux: write TCP header'' e), c)
              | (None, out') \<Rightarrow>
                  let c1 = on_counters (\<lambda>m. let m1 = m\<lparr>ct_ActiveTCP := ct_ActiveTCP m + 1,
                                                      ct_TotalTCP := ct_TotalTCP m + 1\<rparr>
                                            in NoteActiveConns (ct_ActiveTCP m1) m1) c;
                      c2 = on_tunnel (\<lambda>t. t\<lparr>tc_ActiveTCP := tc_ActiveTCP t + 1,
                                            tc_TotalTCP := tc_TotalTCP t + 1\<rparr>) c1
                  in (Inr \<lparr>cc_in = arriving, cc_out = out', cc_stream_open = True, cc_readBuf = [],
                          cc_readEOF = False, cc_closed = False, cc_done = False,
                          cc_TunnelIndex = mc_tunnelIdx c\<rparr>, c2))))"

text \<open>
  \<open>Read\<close> into \<open>k\<close> bytes. Its loop runs at most once: it reads a message only while the
  buffer is empty, and a message is an error, the half-close, or not empty.
\<close>

definition cc_deliver ::
    "int \<Rightarrow> nat \<Rightarrow> bytes \<Rightarrow> client_conn \<Rightarrow> mux_client \<Rightarrow> (error + bytes) \<times> client_conn \<times> mux_client" where
  "cc_deliver now k buf cc c =
     (let b = take k buf; n = length b; cc1 = cc\<lparr>cc_readBuf := drop n buf\<rparr> in
      if n > 0
      then (Inr b, cc1, on_tunnel (tc_AddRx (int n)) (on_counters (ct_AddRx now (int n)) c))
      else (Inr b, cc1, c))"

definition cc_Read ::
    "int \<Rightarrow> nat \<Rightarrow> client_conn \<Rightarrow> mux_client \<Rightarrow> (error + bytes) \<times> client_conn \<times> mux_client" where
  "cc_Read now k cc c =
     (if cc_readEOF cc then (Inl EOF, cc, c)
      else if cc_readBuf cc = [] then
        (case readMsg (cc_in cc) of
           (Inl e, r) \<Rightarrow> (Inl e, cc\<lparr>cc_in := r\<rparr>, c)
         | (Inr payload, r) \<Rightarrow>
             if payload = [] then (Inl EOF, cc\<lparr>cc_in := r, cc_readEOF := True\<rparr>, c)
             else cc_deliver now k payload (cc\<lparr>cc_in := r\<rparr>) c)
      else cc_deliver now k (cc_readBuf cc) cc c)"

function write_chunks :: "bytes \<Rightarrow> nat \<Rightarrow> sink \<Rightarrow> nat \<times> error option \<times> sink" where
  "write_chunks b tot out =
     (if b = [] then (tot, None, out)
      else
        let chunk = (if length b > BUF_SIZE then take BUF_SIZE b else b) in
        (case writeMsg chunk out of
           (Some e, out') \<Rightarrow> (tot, Some e, out')
         | (None, out') \<Rightarrow> write_chunks (drop (length chunk) b) (tot + length chunk) out'))"
  by pat_completeness auto
termination
  by (relation "measure (\<lambda>(b, _, _). length b)") (auto simp: BUF_SIZE_def)

declare write_chunks.simps [simp del]

definition cc_Write ::
    "int \<Rightarrow> bytes \<Rightarrow> client_conn \<Rightarrow> mux_client \<Rightarrow> (nat \<times> error option) \<times> client_conn \<times> mux_client" where
  "cc_Write now b cc c =
     (if cc_done cc then ((0, Some NetClosed), cc, c)
      else
        (case write_chunks b 0 (cc_out cc) of
           (tot, Some e, out) \<Rightarrow> ((tot, Some e), cc\<lparr>cc_out := out\<rparr>, c)
         | (tot, None, out) \<Rightarrow>
             let cc1 = cc\<lparr>cc_out := out\<rparr> in
             if tot > 0
             then ((tot, None), cc1,
                   on_tunnel (tc_AddTx (int tot)) (on_counters (ct_AddTx now (int tot)) c))
             else ((tot, None), cc1, c)))"

definition CloseWrite :: "client_conn \<Rightarrow> error option \<times> client_conn" where
  "CloseWrite cc =
     (if cc_done cc then (Some NetClosed, cc)
      else (case writeMsg [] (cc_out cc) of (e, out) \<Rightarrow> (e, cc\<lparr>cc_out := out\<rparr>)))"

definition cc_Close :: "client_conn \<Rightarrow> mux_client \<Rightarrow> client_conn \<times> mux_client" where
  "cc_Close cc c =
     (if cc_closed cc then (cc, c)
      else
        let out = snd (writeMsg [] (cc_out cc));
            c1 = on_counters (add_active (- 1)) c;
            c2 = on_tunnel (\<lambda>t. t\<lparr>tc_ActiveTCP := tc_ActiveTCP t - 1\<rparr>) c1
        in (cc\<lparr>cc_closed := True, cc_done := True, cc_out := out, cc_stream_open := False\<rparr>, c2))"

section \<open>DNS requests\<close>

definition dns_message :: "bytes \<Rightarrow> bytes" where
  "dns_message data =
     bytes_of_string (''DNS'' @ [CHR 0x0A]) @ put_be16 (word_of_nat (length data)) @ data"

definition dnsRequest ::
    "(error + mux_stream) \<Rightarrow> bytes \<Rightarrow> mux_client \<Rightarrow> split_conn option \<Rightarrow> (error + bytes) \<times> split_conn option" where
  "dnsRequest opened data c sc =
     (if mc_done c then (Inl (Msg ''mux: client closed''), sc)
      else
        (case openStreamOnCtrl opened sc of
           (Inl e, sc') \<Rightarrow> (Inl (Wrapped ''mux: open stream'' e), sc')
         | (Inr (arriving, out), sc') \<Rightarrow>
             (case sink_write (dns_message data) out of
                (Some e, _) \<Rightarrow> (Inl (Wrapped ''mux: dns write'' e), sc')
              | (None, _) \<Rightarrow>
                  (case readMsg arriving of
                     (Inl e, _) \<Rightarrow> (Inl (Wrapped ''mux: dns read'' e), sc')
                   | (Inr resp, _) \<Rightarrow>
                       if resp = [] then
                         (Inl (Msg ''mux: dns: empty response (stream rejected by server)''), sc')
                       else (Inr resp, sc')))))"

section \<open>UDP channels\<close>

record udp_channel =
  uc_in :: bytes
  uc_out :: sink
  uc_closed :: bool

record udp_datagram =
  dg_IP :: string
  dg_Port :: int
  dg_Data :: bytes

definition udp_header :: "int \<Rightarrow> string" where
  "udp_header family = ''UDP '' @ itoa family @ [CHR 0x0A]"

definition OpenUDP ::
    "(error + mux_stream) \<Rightarrow> int \<Rightarrow> mux_client \<Rightarrow> (error + udp_channel) \<times> mux_client" where
  "OpenUDP opened family c =
     (if mc_done c then (Inl (Msg ''mux: client closed''), c)
      else
        (case opened of
           Inl e \<Rightarrow> (Inl (Wrapped ''mux: open stream'' e), c)
         | Inr (arriving, out) \<Rightarrow>
             (case sink_write (bytes_of_string (udp_header family)) out of
                (Some e, _) \<Rightarrow> (Inl (Wrapped ''mux: write UDP header'' e), c)
              | (None, out') \<Rightarrow>
                  (Inr \<lparr>uc_in = arriving, uc_out = out', uc_closed = False\<rparr>,
                   on_counters (add_active 1) c))))"

definition udp_payload :: "string \<Rightarrow> int \<Rightarrow> bytes \<Rightarrow> bytes" where
  "udp_payload ip port data = bytes_of_string (ip @ '','' @ itoa port @ '','') @ data"

definition SendTo ::
    "int \<Rightarrow> string \<Rightarrow> int \<Rightarrow> bytes \<Rightarrow> udp_channel \<Rightarrow> mux_client \<Rightarrow> error option \<times> udp_channel \<times> mux_client" where
  "SendTo now dstIP dstPort data uc c =
     (case writeMsg (udp_payload dstIP dstPort data) (uc_out uc) of
        (Some e, out) \<Rightarrow> (Some e, uc\<lparr>uc_out := out\<rparr>, c)
      | (None, out) \<Rightarrow>
          (None, uc\<lparr>uc_out := out\<rparr>, on_counters (ct_AddTx now (int (length data))) c))"

definition indexByte :: "string \<Rightarrow> char \<Rightarrow> int" where
  "indexByte s ch = (case index_char ch s of None \<Rightarrow> - 1 | Some i \<Rightarrow> int i)"

definition parse_datagram :: "bytes \<Rightarrow> error + udp_datagram" where
  "parse_datagram payload =
     (let s = string_of_bytes payload; i1 = indexByte s (CHR '','') in
      if i1 < 0 then Inl (Msg ''mux: bad udp datagram'')
      else
        let i2 = indexByte (drop (nat (i1 + 1)) s) (CHR '','') + i1 + 1 in
        if i2 \<le> i1 then Inl (Msg ''mux: bad udp datagram'')
        else Inr \<lparr>dg_IP = take (nat i1) s,
                  dg_Port = sscanf_d (take (nat (i2 - (i1 + 1))) (drop (nat (i1 + 1)) s)),
                  dg_Data = drop (nat (i2 + 1)) payload\<rparr>)"

definition Recv ::
    "int \<Rightarrow> udp_channel \<Rightarrow> mux_client \<Rightarrow> (error + udp_datagram) \<times> udp_channel \<times> mux_client" where
  "Recv now uc c =
     (case readMsg (uc_in uc) of
        (Inl e, r) \<Rightarrow> (Inl e, uc\<lparr>uc_in := r\<rparr>, c)
      | (Inr payload, r) \<Rightarrow>
          let uc' = uc\<lparr>uc_in := r\<rparr> in
          if payload = [] then (Inl (Msg ''mux: udp channel closed by remote''), uc', c)
          else
            (case parse_datagram payload of
               Inl e \<Rightarrow> (Inl e, uc', c)
             | Inr d \<Rightarrow> (Inr d, uc', on_counters (ct_AddRx now (int (length (dg_Data d)))) c)))"

definition uc_Close :: "udp_channel \<Rightarrow> mux_client \<Rightarrow> udp_channel \<times> mux_client" where
  "uc_Close uc c =
     (if uc_closed uc then (uc, c)
      else (uc\<lparr>uc_closed := True, uc_out := snd (writeMsg [] (uc_out uc))\<rparr>,
            on_counters (add_active (- 1)) c))"

section \<open>Routes pushed by the server\<close>

fun splitComma_loop :: "nat \<Rightarrow> string \<Rightarrow> string \<Rightarrow> string list" where
  "splitComma_loop k cur [] = [cur]"
| "splitComma_loop k cur (ch # s) =
     (if 0 < k \<and> ch = CHR '','' then cur # splitComma_loop (k - 1) [] s
      else splitComma_loop k (cur @ [ch]) s)"

definition splitComma :: "string \<Rightarrow> nat \<Rightarrow> string list" where
  "splitComma s n = splitComma_loop (n - 1) [] s"

definition parse_route_line :: "string \<Rightarrow> string list" where
  "parse_route_line line =
     (if line = [] then []
      else
        let parts = splitComma line 3 in
        if length parts = 3 then [parts ! 1 @ ''/'' @ itoa (sscanf_d (parts ! 2))] else [])"

definition parseRoutes :: "bytes \<Rightarrow> string list" where
  "parseRoutes data = concat (map parse_route_line (split_on (CHR 0x0A) (string_of_bytes data)))"

text \<open>\<^verbatim>\<open>bufio.Reader.ReadString('\n')\<close> and the trimming of the newline it ends with.\<close>

definition read_line :: "bytes \<Rightarrow> (error + string) \<times> bytes" where
  "read_line r =
     (let s = string_of_bytes r in
      case index_char (CHR 0x0A) s of
        None \<Rightarrow> (Inl EOF, [])
      | Some i \<Rightarrow> (Inr (trim_right_by (\<lambda>ch. ch = CHR 0x0A) (take (Suc i) s)), drop (Suc i) r))"

definition handleServerStream :: "bytes \<Rightarrow> string list option" where
  "handleServerStream arriving =
     (case read_line arriving of
        (Inl _, _) \<Rightarrow> None
      | (Inr hdr, r) \<Rightarrow> if hdr = ''ROUTES'' then Some (parseRoutes r) else None)"


section \<open>Lemmas on streams\<close>

lemma write_chunks_spec:
  assumes "sk_err out = None"
  obtains ps where "concat ps = b" "\<forall>p\<in>set ps. p \<noteq> [] \<and> length p \<le> BUF_SIZE"
    "write_chunks b tot out =
       (tot + length b, None, out\<lparr>sk_out := sk_out out @ concat (map (\<lambda>p. sent (writeMsg p)) ps)\<rparr>)"
proof -
  have "\<exists>ps. concat ps = b \<and> (\<forall>p\<in>set ps. p \<noteq> [] \<and> length p \<le> BUF_SIZE) \<and>
      write_chunks b tot out =
        (tot + length b, None, out\<lparr>sk_out := sk_out out @ concat (map (\<lambda>p. sent (writeMsg p)) ps)\<rparr>)"
    using assms
  proof (induction b tot out rule: write_chunks.induct)
    case (1 b tot out)
    show ?case
    proof (cases "b = []")
      case True
      then show ?thesis by (intro exI [of _ "[]"]) (simp add: write_chunks.simps)
    next
      case False
      define chunk where "chunk = (if length b > BUF_SIZE then take BUF_SIZE b else b)"
      have ch: "length chunk \<le> BUF_SIZE" "chunk \<noteq> []" "b = chunk @ drop (length chunk) b"
        using False by (simp_all add: chunk_def BUF_SIZE_def)
      define out' where "out' = out\<lparr>sk_out := sk_out out @ sent (writeMsg chunk)\<rparr>"
      have w: "writeMsg chunk out = (None, out')"
        unfolding out'_def using "1.prems" ch(1) by (rule writeMsg_appends)
      have "sk_err out' = None" using "1.prems" by (simp add: out'_def)
      from "1.IH" [OF False chunk_def w [symmetric] refl this] obtain ps where
        ps: "concat ps = drop (length chunk) b" "\<forall>p\<in>set ps. p \<noteq> [] \<and> length p \<le> BUF_SIZE"
        "write_chunks (drop (length chunk) b) (tot + length chunk) out' =
          (tot + length chunk + length (drop (length chunk) b), None,
           out'\<lparr>sk_out := sk_out out' @ concat (map (\<lambda>p. sent (writeMsg p)) ps)\<rparr>)" by blast
      have "write_chunks b tot out = write_chunks (drop (length chunk) b) (tot + length chunk) out'"
        using False w by (subst write_chunks.simps) (simp add: chunk_def [symmetric] Let_def)
      moreover have "length chunk \<le> length b" by (simp add: chunk_def)
      ultimately show ?thesis
        using ps ch by (intro exI [of _ "chunk # ps"]) (simp add: out'_def)
    qed
  qed
  with that show thesis by blast
qed

text \<open>A connection whose remaining input is the messages \<open>ps\<close> and then the half-close.\<close>

definition cc_expects :: "bytes list \<Rightarrow> bytes \<Rightarrow> client_conn \<Rightarrow> bool" where
  "cc_expects ps rest cc \<longleftrightarrow>
     \<not> cc_readEOF cc \<and> (\<forall>p\<in>set ps. p \<noteq> [] \<and> length p \<le> BUF_SIZE) \<and>
     cc_in cc = concat (map (\<lambda>p. sent (srv_writeMsg p)) ps) @ sent (srv_writeMsg []) @ rest"

lemma take_drop_min [simp]: "take k xs @ drop (min (length xs) k) xs = xs"
  by (cases "k \<le> length xs") (simp_all add: min_def)

lemma cc_Read_expects:
  assumes "cc_expects ps rest cc" "0 < k" "cc_readBuf cc @ concat ps \<noteq> []"
  obtains b ps' cc' c' where "cc_Read now k cc c = (Inr b, cc', c')" "b \<noteq> []" "cc_expects ps' rest cc'"
    "cc_readBuf cc @ concat ps = b @ cc_readBuf cc' @ concat ps'"
    "c' = on_tunnel (tc_AddRx (int (length b))) (on_counters (ct_AddRx now (int (length b))) c)"
proof (cases "cc_readBuf cc")
  case (Cons x xs)
  have "cc_Read now k cc c = cc_deliver now k (cc_readBuf cc) cc c"
    using assms(1) Cons by (simp add: cc_Read_def cc_expects_def)
  with assms(1-3) show thesis
    using Cons take_drop_min [of k "cc_readBuf cc"]
    by (intro that [of "take k (cc_readBuf cc)" "cc\<lparr>cc_readBuf := drop (length (take k (cc_readBuf cc))) (cc_readBuf cc)\<rparr>" _ ps])
      (auto simp: cc_deliver_def Let_def cc_expects_def simp del: take_drop_min)
next
  case Nil
  with assms(3) have "ps \<noteq> []" by auto
  then obtain p ps' where ps: "ps = p # ps'" by (cases ps) auto
  have p: "p \<noteq> []" "length p \<le> BUF_SIZE" using assms(1) by (simp_all add: cc_expects_def ps)
  define r where "r = concat (map (\<lambda>p. sent (srv_writeMsg p)) ps') @ sent (srv_writeMsg []) @ rest"
  have "readMsg (cc_in cc) = (Inr p, r)"
    using assms(1) readMsg_sent_srv_writeMsg [OF p(2), of r] by (simp add: cc_expects_def ps r_def)
  then have "cc_Read now k cc c = cc_deliver now k p (cc\<lparr>cc_in := r\<rparr>) c"
    using assms(1) Nil p(1) by (simp add: cc_Read_def cc_expects_def)
  with assms Nil p show thesis
    using take_drop_min [of k p]
    by (intro that [of "take k p" "cc\<lparr>cc_in := r, cc_readBuf := drop (length (take k p)) p\<rparr>" _ ps'])
      (auto simp: cc_deliver_def Let_def cc_expects_def ps r_def simp del: take_drop_min)
qed

lemma cc_Read_end:
  assumes "cc_expects [] rest cc" "cc_readBuf cc = []"
  shows "cc_Read now k cc c = (Inl EOF, cc\<lparr>cc_in := rest, cc_readEOF := True\<rparr>, c)"
  using assms readMsg_sent_srv_writeMsg [of "[]" rest] by (simp add: cc_Read_def cc_expects_def)

text \<open>A run of reads, until the first error.\<close>

fun cc_reads ::
    "int \<Rightarrow> nat list \<Rightarrow> client_conn \<Rightarrow> mux_client \<Rightarrow> bytes \<times> error option \<times> client_conn \<times> mux_client" where
  "cc_reads now [] cc c = ([], None, cc, c)"
| "cc_reads now (k # ks) cc c =
     (case cc_Read now k cc c of
        (Inl e, cc', c') \<Rightarrow> ([], Some e, cc', c')
      | (Inr b, cc', c') \<Rightarrow>
          (case cc_reads now ks cc' c' of (out, e, cc'', c'') \<Rightarrow> (b @ out, e, cc'', c'')))"

definition rx_total :: "mux_client \<Rightarrow> int" where
  "rx_total c = (case mc_counters c of None \<Rightarrow> 0 | Some m \<Rightarrow> ct_RxTotal m)"

lemma rx_total_AddRx:
  "mc_counters c \<noteq> None \<Longrightarrow>
     rx_total (on_tunnel g (on_counters (ct_AddRx now (int n)) c)) = rx_total c + int n \<and>
     mc_counters (on_tunnel g (on_counters (ct_AddRx now (int n)) c)) \<noteq> None"
  by (auto simp: rx_total_def on_tunnel_def on_counters_def ct_AddRx_def)

lemma cc_reads_expects:
  assumes "cc_expects ps rest cc" "list_all (\<lambda>k. 0 < k) ks" "mc_counters c \<noteq> None"
    and "data = cc_readBuf cc @ concat ps" "cc_reads now ks cc c = (out, e, cc', c')"
  shows "\<exists>left. data = out @ left \<and> (e = None \<or> e = Some EOF \<and> left = []) \<and>
           (length data < length ks \<longrightarrow> e = Some EOF) \<and> rx_total c' = rx_total c + int (length out)"
  using assms
proof (induction ks arbitrary: ps cc c data out e cc' c')
  case Nil
  then show ?case by auto
next
  case (Cons k ks)
  show ?case
  proof (cases "data = []")
    case True
    then have "ps = []" using Cons.prems(1,4) by (cases ps) (auto simp: cc_expects_def)
    with True Cons.prems have "cc_reads now (k # ks) cc c =
        ([], Some EOF, cc\<lparr>cc_in := rest, cc_readEOF := True\<rparr>, c)"
      by (simp add: cc_Read_end)
    with True Cons.prems(5) show ?thesis by auto
  next
    case False
    have "0 < k" using Cons.prems(2) by simp
    have ne: "cc_readBuf cc @ concat ps \<noteq> []" using False Cons.prems(4) by simp
    from cc_Read_expects [OF Cons.prems(1) \<open>0 < k\<close> ne, of now c] Cons.prems(4)
    obtain b ps' cc1 c1 where r: "cc_Read now k cc c = (Inr b, cc1, c1)" "b \<noteq> []" "cc_expects ps' rest cc1"
      "data = b @ cc_readBuf cc1 @ concat ps'"
      "c1 = on_tunnel (tc_AddRx (int (length b))) (on_counters (ct_AddRx now (int (length b))) c)"
      by metis
    obtain out2 e2 cc2 c2 where r2: "cc_reads now ks cc1 c1 = (out2, e2, cc2, c2)"
      by (cases "cc_reads now ks cc1 c1") auto
    have out: "out = b @ out2" "e = e2" "cc' = cc2" "c' = c2" using Cons.prems(5) r(1) r2 by auto
    have cnt: "rx_total c1 = rx_total c + int (length b)" "mc_counters c1 \<noteq> None"
      using rx_total_AddRx [OF Cons.prems(3)] r(5) by auto
    have "list_all (\<lambda>k. 0 < k) ks" using Cons.prems(2) by simp
    from Cons.IH [OF r(3) this cnt(2) refl r2] obtain left where
      l: "cc_readBuf cc1 @ concat ps' = out2 @ left" "e2 = None \<or> e2 = Some EOF \<and> left = []"
      "length (cc_readBuf cc1 @ concat ps') < length ks \<longrightarrow> e2 = Some EOF"
      "rx_total c2 = rx_total c1 + int (length out2)" by blast
    have "0 < length b" using r(2) by simp
    then have "length data < length (k # ks) \<longrightarrow> length (cc_readBuf cc1 @ concat ps') < length ks"
      using r(4) by (simp del: length_greater_0_conv)
    then have "length data < length (k # ks) \<longrightarrow> e2 = Some EOF" using l(3) by blast
    with l r(4) out cnt(1) show ?thesis by (intro exI [of _ left]) auto
  qed
qed


section \<open>Properties\<close>

text \<open>
  C14: downloads. When the server sends the bytes it reads from the remote in messages of at
  most its buffer size and then the half-close, any sequence of reads with non-empty
  buffers returns those bytes in order, reports the end only when all were returned, reaches
  it within one read more than there are bytes, and counts each byte once.
\<close>

theorem tcp_download:
  assumes "\<forall>p\<in>set ps. p \<noteq> [] \<and> length p \<le> BUF_SIZE" "list_all (\<lambda>k. 0 < k) ks"
    and "cc_in cc = concat (map (\<lambda>p. sent (srv_writeMsg p)) ps) @ sent (srv_writeMsg []) @ rest"
    and "cc_readBuf cc = []" "\<not> cc_readEOF cc" "mc_counters c \<noteq> None"
  shows "case cc_reads now ks cc c of (out, e, cc', c') \<Rightarrow>
           \<exists>left. concat ps = out @ left \<and> (e = None \<or> e = Some EOF \<and> left = []) \<and>
             (length (concat ps) < length ks \<longrightarrow> e = Some EOF) \<and>
             rx_total c' = rx_total c + int (length out)"
proof -
  have ex: "cc_expects ps rest cc" using assms by (simp add: cc_expects_def)
  obtain out e cc' c' where r: "cc_reads now ks cc c = (out, e, cc', c')"
    by (cases "cc_reads now ks cc c") auto
  show ?thesis using cc_reads_expects [OF ex assms(2,6) refl r] assms(4) r by simp
qed

definition ex_client :: mux_client where
  "ex_client = \<lparr>mc_done = False, mc_counters = Some (new_meters 0), mc_tunnelIdx = 0,
     mc_tunnelCtrs = Some new_tunnel_counters, mc_numStreams = 0\<rparr>"

definition ex_conn :: "bytes \<Rightarrow> client_conn" where
  "ex_conn arriving = \<lparr>cc_in = arriving, cc_out = open_sink [], cc_stream_open = True, cc_readBuf = [],
     cc_readEOF = False, cc_closed = False, cc_done = False, cc_TunnelIndex = 0\<rparr>"

lemma tcp_download_witness:
  "case cc_reads 0 [1, 5, 5, 5] (ex_conn (concat (map (\<lambda>p. sent (srv_writeMsg p)) [[1, 2], [3]]) @
       sent (srv_writeMsg []) @ [])) ex_client of (out, e, cc', c') \<Rightarrow>
     \<exists>left. concat [[1, 2], [3]] = out @ left \<and> (e = None \<or> e = Some EOF \<and> left = []) \<and>
       (length (concat [[1, 2], [3 :: byte]]) < length [1, 5, 5, 5 :: nat] \<longrightarrow> e = Some EOF) \<and>
       rx_total c' = rx_total ex_client + int (length out)"
  by (rule tcp_download) (simp_all add: ex_conn_def ex_client_def BUF_SIZE_def)

text \<open>
  C0: bookkeeping of connections. Opening a connection raises the active count by one and
  closing it any number of times brings it back, for the tunnel and for the pool member;
  the peak is never below the active count.
\<close>

definition active_of :: "mux_client \<Rightarrow> int option \<times> int option" where
  "active_of c = (map_option ct_ActiveTCP (mc_counters c), map_option tc_ActiveTCP (mc_tunnelCtrs c))"

definition peak_ok :: "mux_client \<Rightarrow> bool" where
  "peak_ok c \<longleftrightarrow> (case mc_counters c of None \<Rightarrow> True | Some m \<Rightarrow> ct_ActiveTCP m \<le> ct_peakActive m)"

definition close_times :: "nat \<Rightarrow> client_conn \<Rightarrow> mux_client \<Rightarrow> client_conn \<times> mux_client" where
  "close_times n cc c = ((\<lambda>(cc, c). cc_Close cc c) ^^ n) (cc, c)"

lemma close_again: "cc_closed cc \<Longrightarrow> close_times n cc c = (cc, c)"
  by (induction n) (simp_all add: close_times_def cc_Close_def)

lemma close_times_Suc: "close_times (Suc n) cc c = cc_Close cc c" if "\<not> cc_closed cc"
proof -
  have "close_times (Suc n) cc c = close_times n (fst (cc_Close cc c)) (snd (cc_Close cc c))"
    by (simp add: close_times_def funpow_Suc_right del: funpow.simps)
  also have "\<dots> = cc_Close cc c" using that by (subst close_again) (simp_all add: cc_Close_def Let_def)
  finally show ?thesis .
qed

theorem tcp_active_balanced:
  assumes "OpenTCP opened family ip port c = (Inr cc, c1)" "close_times (Suc n) cc c1 = (cc2, c2)" "peak_ok c"
  shows "active_of c2 = active_of c \<and> peak_ok c1 \<and> peak_ok c2 \<and>
         (\<forall>m. mc_counters c = Some m \<longrightarrow> (\<exists>m1. mc_counters c1 = Some m1 \<and>
            ct_ActiveTCP m1 = ct_ActiveTCP m + 1 \<and> ct_TotalTCP m1 = ct_TotalTCP m + 1))"
proof -
  have cc: "\<not> cc_closed cc"
    using assms(1) by (auto simp: OpenTCP_def Let_def split: if_splits sum.splits prod.splits option.splits)
  have c2: "(cc2, c2) = cc_Close cc c1" using assms(2) close_times_Suc [OF cc] by simp
  have c1: "c1 = on_tunnel (\<lambda>t. t\<lparr>tc_ActiveTCP := tc_ActiveTCP t + 1, tc_TotalTCP := tc_TotalTCP t + 1\<rparr>)
      (on_counters (\<lambda>m. let m1 = m\<lparr>ct_ActiveTCP := ct_ActiveTCP m + 1, ct_TotalTCP := ct_TotalTCP m + 1\<rparr>
         in NoteActiveConns (ct_ActiveTCP m1) m1) c)"
    using assms(1) by (auto simp: OpenTCP_def Let_def split: if_splits sum.splits prod.splits option.splits)
  show ?thesis
    using c2 cc assms(3)
    by (cases "mc_counters c"; cases "mc_tunnelCtrs c")
      (auto simp: c1 cc_Close_def Let_def active_of_def peak_ok_def on_counters_def on_tunnel_def
        add_active_def NoteActiveConns_def)
qed

end
