(* ===== verification/GoNet.thy ===== *)
theory GoNet
  imports GoText
begin

text \<open>
  What the modelled code uses of Go's \<^verbatim>\<open>net\<close> package: \<^verbatim>\<open>ParseIP\<close> (by way of
  \<^verbatim>\<open>netip.ParseAddr\<close>, with its rejection of zones), \<^verbatim>\<open>To4\<close>, \<^verbatim>\<open>JoinHostPort\<close> and
  \<^verbatim>\<open>SplitHostPort\<close>. An address is its sixteen bytes, an IPv4 address in mapped form.
\<close>

section \<open>IP addresses\<close>

definition v4_mapped :: "nat list \<Rightarrow> nat list" where
  "v4_mapped q = replicate 10 0 @ [255, 255] @ q"

definition parse_octet :: "string \<Rightarrow> nat option" where
  "parse_octet p =
     (if p = [] \<or> \<not> list_all is_digit p \<or> (length p > 1 \<and> hd p = CHR ''0'') \<or> length p > 3
         \<or> dec_val p > 255
      then None else Some (dec_val p))"

definition parse_ipv4_fields :: "string \<Rightarrow> nat list option" where
  "parse_ipv4_fields s =
     (let ps = map parse_octet (split_on (CHR ''.'') s) in
      if length ps = 4 \<and> None \<notin> set ps then Some (map the ps) else None)"

definition hex_val :: "char \<Rightarrow> nat option" where
  "hex_val c =
     (let n = of_char c :: nat in
      if 48 \<le> n \<and> n \<le> 57 then Some (n - 48)
      else if 97 \<le> n \<and> n \<le> 102 then Some (n - 87)
      else if 65 \<le> n \<and> n \<le> 70 then Some (n - 55) else None)"

definition hex_digits :: "string \<Rightarrow> string" where
  "hex_digits s = takeWhile (\<lambda>c. hex_val c \<noteq> None) s"

definition hex_num :: "string \<Rightarrow> nat" where
  "hex_num s = foldl (\<lambda>a c. a * 16 + (case hex_val c of Some n \<Rightarrow> n | None \<Rightarrow> 0)) 0 s"

text \<open>
  The loop of \<^verbatim>\<open>parseIPv6\<close> with \<open>fuel\<close> groups left of eight: the bytes so far, the position of
  the ellipsis, the rest of the string.
\<close>

fun parse_ipv6_loop ::
    "nat \<Rightarrow> nat list \<Rightarrow> nat option \<Rightarrow> string \<Rightarrow> (nat list \<times> nat option) option" where
  "parse_ipv6_loop 0 ip ell s = (if s = [] then Some (ip, ell) else None)"
| "parse_ipv6_loop (Suc fuel) ip ell s =
     (let h = hex_digits s; off = length h in
      if off = 0 \<or> off > 4 then None
      else if off < length s \<and> s ! off = CHR ''.'' then
        (if (ell = None \<and> length ip \<noteq> 12) \<or> length ip + 4 > 16 then None
         else map_option (\<lambda>q. (ip @ q, ell)) (parse_ipv4_fields s))
      else
        let ip' = ip @ [hex_num h div 256, hex_num h mod 256]; s1 = drop off s in
        if s1 = [] then Some (ip', ell)
        else if hd s1 \<noteq> CHR '':'' \<or> length s1 = 1 then None
        else
          let s2 = tl s1 in
          if hd s2 = CHR '':'' then
            (if ell \<noteq> None then None
             else if tl s2 = [] then Some (ip', Some (length ip'))
             else parse_ipv6_loop fuel ip' (Some (length ip')) (tl s2))
          else parse_ipv6_loop fuel ip' ell s2)"

definition parse_ipv6 :: "string \<Rightarrow> nat list option" where
  "parse_ipv6 s =
     (if s = ''::'' then Some (replicate 16 0)
      else
        let lead = has_prefix s ''::'' in
        (case parse_ipv6_loop 8 [] (if lead then Some 0 else None) (if lead then drop 2 s else s) of
           None \<Rightarrow> None
         | Some (ip, ell) \<Rightarrow>
             if length ip < 16 then
               (case ell of
                  None \<Rightarrow> None
                | Some e \<Rightarrow> Some (take e ip @ replicate (16 - length ip) 0 @ drop e ip))
             else if ell \<noteq> None then None else Some ip))"

text \<open>\<^verbatim>\<open>net.ParseIP\<close>; an address with a zone is refused.\<close>

definition ParseIP :: "string \<Rightarrow> nat list option" where
  "ParseIP s =
     (case find (\<lambda>c. c = CHR ''.'' \<or> c = CHR '':'' \<or> c = CHR ''%'') s of
        None \<Rightarrow> None
      | Some c \<Rightarrow>
          if c = CHR ''.'' then map_option v4_mapped (parse_ipv4_fields s)
          else if c = CHR '':'' then (if CHR ''%'' \<in> set s then None else parse_ipv6 s)
          else None)"

definition To4 :: "nat list \<Rightarrow> nat list option" where
  "To4 ip = (if take 12 ip = replicate 10 0 @ [255, 255] then Some (drop 12 ip) else None)"

lemma To4_v4_mapped [simp]: "To4 (v4_mapped q) = Some q"
  by (simp add: To4_def v4_mapped_def numeral_eq_Suc)

text \<open>The text of an IPv4 address, \<^verbatim>\<open>netip.Addr.String\<close>.\<close>

definition ipv4_string :: "nat list \<Rightarrow> string" where
  "ipv4_string q = join_with ''.'' (map nat_digits q)"

lemma nat_digits_small:
  "n < 256 \<Longrightarrow> length (nat_digits n) \<le> 3"
proof -
  assume n: "n < 256"
  show ?thesis
  proof (cases "n < 100")
    case True
    then have "n div 10 < 10" by simp
    then show ?thesis by (subst nat_digits.simps) (simp add: nat_digits.simps [of "n div 10"])
  next
    case False
    have "n div 10 div 10 < 10" using n by simp
    then show ?thesis
      by (subst nat_digits.simps, subst nat_digits.simps) (simp add: nat_digits.simps [of "n div 10 div 10"])
  qed
qed

lemma hd_nat_digits: "0 < n \<Longrightarrow> hd (nat_digits n) \<noteq> CHR ''0''"
proof (induction n rule: nat_digits.induct)
  case (1 n)
  show ?case
  proof (cases "n < 10")
    case True
    have "of_char (digit_char n) = (48 + n :: nat)" using True by (simp add: digit_char_def)
    moreover have "of_char (CHR ''0'') = (48 :: nat)" by simp
    ultimately have "digit_char n \<noteq> CHR ''0''" using "1.prems" by (metis add_cancel_left_right not_gr0)
    with True show ?thesis by (subst nat_digits.simps) simp
  next
    case False
    then show ?thesis using "1.IH" by (subst nat_digits.simps) simp
  qed
qed

lemma parse_octet_digits: "n < 256 \<Longrightarrow> parse_octet (nat_digits n) = Some n"
proof -
  assume n: "n < 256"
  have "\<not> (length (nat_digits n) > 1 \<and> hd (nat_digits n) = CHR ''0'')"
  proof (cases "n = 0")
    case True
    then show ?thesis by (subst nat_digits.simps) simp
  next
    case False
    then show ?thesis using hd_nat_digits [of n] by simp
  qed
  then show ?thesis
    using n nat_digits_small [OF n] by (auto simp: parse_octet_def nat_digits_digits)
qed

lemma ParseIP_ipv4_string:
  assumes "length q = 4" "\<forall>n\<in>set q. n < 256"
  shows "ParseIP (ipv4_string q) = Some (v4_mapped q)"
proof -
  have dots: "CHR ''.'' \<notin> set p" "CHR '':'' \<notin> set p" "CHR ''%'' \<notin> set p" if "p \<in> set (map nat_digits q)" for p
    using that nat_digits_digits digits_no_char
    by (auto simp: is_digit_def)
  have ne: "map nat_digits q \<noteq> []" using assms(1) by auto
  have split: "split_on (CHR ''.'') (ipv4_string q) = map nat_digits q"
    unfolding ipv4_string_def using ne dots(1) by (rule split_on_join)
  have "map parse_octet (map nat_digits q) = map Some q"
    using assms(2) by (simp add: parse_octet_digits)
  moreover have "map the (map Some q) = q" by (simp add: comp_def)
  ultimately have f: "parse_ipv4_fields (ipv4_string q) = Some q"
    unfolding parse_ipv4_fields_def split Let_def using assms(1) by (simp add: comp_def image_iff del: map_map)
  obtain a b c d where q: "q = [a, b, c, d]"
    using assms(1) by (auto simp: length_Suc_conv numeral_eq_Suc)
  have "find (\<lambda>c. c = CHR ''.'' \<or> c = CHR '':'' \<or> c = CHR ''%'') (p @ CHR ''.'' # t) = Some (CHR ''.'')"
    if "CHR ''.'' \<notin> set p" "CHR '':'' \<notin> set p" "CHR ''%'' \<notin> set p" for p t
    using that by (induction p) auto
  from this [OF dots, of "nat_digits a"]
  have "find (\<lambda>c. c = CHR ''.'' \<or> c = CHR '':'' \<or> c = CHR ''%'') (ipv4_string q) = Some (CHR ''.'')"
    by (simp add: ipv4_string_def q)
  then show ?thesis by (simp add: ParseIP_def f)
qed

text \<open>
  \<^verbatim>\<open>net.ParseCIDR\<close>: the address, the length of the prefix and the length of the address in bits.
\<close>

definition ParseCIDR :: "string \<Rightarrow> (nat list \<times> nat \<times> nat) option" where
  "ParseCIDR s =
     (case index_char (CHR ''/'') s of
        None \<Rightarrow> None
      | Some i \<Rightarrow>
          let addr = take i s; mask = drop (Suc i) s; bits = (if CHR '':'' \<in> set addr then 128 else 32) in
          (case ParseIP addr of
             None \<Rightarrow> None
           | Some ip \<Rightarrow>
               if mask = [] \<or> \<not> list_all is_digit mask \<or> dec_val mask > bits then None
               else Some (ip, dec_val mask, bits)))"

section \<open>Host and port\<close>

definition JoinHostPort :: "string \<Rightarrow> string \<Rightarrow> string" where
  "JoinHostPort host port =
     (if CHR '':'' \<in> set host then ''['' @ host @ '']:'' @ port else host @ '':'' @ port)"

text \<open>\<^verbatim>\<open>net.SplitHostPort\<close>; \<open>None\<close> stands for its \<^verbatim>\<open>AddrError\<close>.\<close>

definition SplitHostPort :: "string \<Rightarrow> (string \<times> string) option" where
  "SplitHostPort hp =
     (case last_index_char (CHR '':'') hp of
        None \<Rightarrow> None
      | Some i \<Rightarrow>
          if has_prefix hp ''['' then
            (case index_char (CHR '']'') hp of
               None \<Rightarrow> None
             | Some e \<Rightarrow>
                 if e + 1 \<noteq> i then None
                 else
                   let host = drop 1 (take e hp) in
                   if CHR ''['' \<in> set (drop 1 hp) \<or> CHR '']'' \<in> set (drop (e + 1) hp) then None
                   else Some (host, drop (i + 1) hp))
          else
            let host = take i hp in
            if CHR '':'' \<in> set host then None
            else if CHR ''['' \<in> set hp \<or> CHR '']'' \<in> set hp then None
            else Some (host, drop (i + 1) hp))"

lemma last_index_char_append:
  "c \<notin> set t \<Longrightarrow> last_index_char c (s @ c # t) = Some (length s)"
  using index_char_append_hit [of c "rev t" "rev s"] by (simp add: last_index_char_def)

lemma itoa_no_colon [simp]: "CHR '':'' \<notin> set (itoa n)" "CHR ''['' \<notin> set (itoa n)" "CHR '']'' \<notin> set (itoa n)"
  using nat_digits_digits digits_no_char by (auto simp: itoa_def is_digit_def)

lemma Split_JoinHostPort:
  assumes "CHR '':'' \<notin> set port" "CHR ''['' \<notin> set port" "CHR '']'' \<notin> set port"
    and "CHR ''['' \<notin> set host" "CHR '']'' \<notin> set host"
  shows "SplitHostPort (JoinHostPort host port) = Some (host, port)"
proof (cases "CHR '':'' \<in> set host")
  case True
  have "last_index_char (CHR '':'') ((''['' @ host @ '']'') @ CHR '':'' # port) = Some (length host + 2)"
    using last_index_char_append [OF assms(1), of "''['' @ host @ '']''"] by simp
  moreover have "index_char (CHR '']'') ((''['' @ host) @ CHR '']'' # '':'' @ port) = Some (length host + 1)"
    using assms(5) index_char_append_hit [of "CHR '']''" "''['' @ host"] by simp
  ultimately show ?thesis
    using True assms by (simp add: SplitHostPort_def JoinHostPort_def has_prefix_def)
next
  case False
  have "last_index_char (CHR '':'') (host @ CHR '':'' # port) = Some (length host)"
    using assms(1) by (rule last_index_char_append)
  moreover have "\<not> has_prefix (host @ CHR '':'' # port) ''[''"
    using assms(4) by (cases host) (auto simp: has_prefix_def)
  ultimately show ?thesis
    using False assms by (simp add: SplitHostPort_def JoinHostPort_def)
qed

end
