(* ===== verification/RelayServer.thy ===== *)
theory RelayServer
  imports MuxStream GoNet
begin

text \<open>
  The remote side, \<^verbatim>\<open>cmd/server/main.go\<close>: arguments, dispatch of a stream by its header, the
  TCP, DNS and UDP handlers, name server selection, route discovery and the limit on
  concurrent streams. The network (dialing, the remote connection's data, the DNS upstream)
  and the output of the route commands are arguments.
\<close>

section \<open>Arguments\<close>

text \<open>The two rates are kept as the text \<^verbatim>\<open>strconv.ParseFloat\<close> is given.\<close>

record server_args =
  sa_autoNets :: bool
  sa_toNameserver :: string
  sa_verbose :: bool
  sa_sessionID :: string
  sa_role :: string
  sa_fectunMode :: string
  sa_target :: string
  sa_restart :: bool
  sa_port :: int
  sa_rate :: string
  sa_rateMin :: string
  sa_version :: bool

definition default_args :: "string \<Rightarrow> server_args" where
  "default_args target =
     \<lparr>sa_autoNets = False, sa_toNameserver = [], sa_verbose = False, sa_sessionID = [], sa_role = ''main'',
      sa_fectunMode = [], sa_target = target, sa_restart = False, sa_port = 0, sa_rate = [],
      sa_rateMin = [], sa_version = False\<rparr>"

definition value_option :: "string \<Rightarrow> (string \<Rightarrow> server_args \<Rightarrow> server_args) option" where
  "value_option a =
     (if a = ''--fectun-port'' then Some (\<lambda>v s. s\<lparr>sa_port := atoi_val v\<rparr>)
      else if a = ''--fectun-rate'' then Some (\<lambda>v s. s\<lparr>sa_rate := v\<rparr>)
      else if a = ''--fectun-rate-min'' then Some (\<lambda>v s. s\<lparr>sa_rateMin := v\<rparr>)
      else if a = ''--fectun-target'' then Some (\<lambda>v s. s\<lparr>sa_target := v\<rparr>)
      else if a = ''--to-ns'' then Some (\<lambda>v s. s\<lparr>sa_toNameserver := v\<rparr>)
      else if a = ''--session-id'' then Some (\<lambda>v s. s\<lparr>sa_sessionID := v\<rparr>)
      else if a = ''--role'' then Some (\<lambda>v s. s\<lparr>sa_role := v\<rparr>)
      else None)"

definition flag_option :: "string \<Rightarrow> server_args \<Rightarrow> server_args" where
  "flag_option a s =
     (if a = ''--fectun-up'' \<or> a = ''--fectun-serve'' then s\<lparr>sa_fectunMode := a\<rparr>
      else if a = ''--fectun-restart'' then s\<lparr>sa_restart := True\<rparr>
      else if a = ''--auto-nets'' then s\<lparr>sa_autoNets := True\<rparr>
      else if a = ''--verbose'' \<or> a = ''-v'' then s\<lparr>sa_verbose := True\<rparr>
      else if a = ''--version'' then s\<lparr>sa_version := True\<rparr>
      else s)"

text \<open>\<open>--version\<close> prints and exits at once, so nothing after it is looked at.\<close>

fun parse_args :: "string list \<Rightarrow> server_args \<Rightarrow> server_args" where
  "parse_args [] s = s"
| "parse_args (a # as) s =
     (case value_option a of
        Some store \<Rightarrow> (case as of [] \<Rightarrow> s | v # as' \<Rightarrow> parse_args as' (store v s))
      | None \<Rightarrow>
          let s' = flag_option a s in if sa_version s' then s' else parse_args as s')"

section \<open>Dispatch of a stream\<close>

datatype stream_request = ReqTCP int string int | ReqDNS | ReqUDP int | ReqBad

definition parse_request :: "string \<Rightarrow> stream_request" where
  "parse_request hdr =
     (let parts = split_n (CHR '' '') 4 hdr in
      if parts ! 0 = ''TCP'' then
        (if length parts \<noteq> 4 then ReqBad
         else ReqTCP (atoi_val (parts ! 1)) (parts ! 2) (atoi_val (parts ! 3)))
      else if parts ! 0 = ''DNS'' then ReqDNS
      else if parts ! 0 = ''UDP'' then
        (if length parts \<noteq> 2 then ReqBad else ReqUDP (atoi_val (parts ! 1)))
      else ReqBad)"

text \<open>The request of a stream and the bytes its handler then reads; nothing when the header never ends.\<close>

definition handleStream :: "bytes \<Rightarrow> (stream_request \<times> bytes) option" where
  "handleStream arriving =
     (case read_line arriving of
        (Inl _, _) \<Rightarrow> None
      | (Inr hdr, r) \<Rightarrow> Some (parse_request hdr, r))"

section \<open>TCP\<close>

definition dial_target :: "int \<Rightarrow> string \<Rightarrow> int \<Rightarrow> string \<times> string" where
  "dial_target family dstIP dstPort =
     (let netFamily = ''tcp4'';
          netFamily = (if ParseIP dstIP = None then ''tcp''
                       else if family \<noteq> 2 then ''tcp6'' else netFamily)
      in (netFamily, JoinHostPort dstIP (itoa dstPort)))"

lemma readMsgBuf_shorter: "readMsgBuf r = (Inr p, r') \<Longrightarrow> length r' < length r"
  by (auto simp: readMsgBuf_def Let_def split: prod.splits sum.splits if_splits dest!: read_full_InrD)

text \<open>
  The goroutine that copies client messages to the remote connection: how it ended, what
  the connection took, and whether its write side was closed.
\<close>

function copy_up :: "bytes \<Rightarrow> sink \<Rightarrow> error option \<times> sink \<times> bool" where
  "copy_up r conn =
     (case readMsgBuf r of
        (Inl e, _) \<Rightarrow> (Some e, conn, False)
      | (Inr None, _) \<Rightarrow> (None, conn, True)
      | (Inr (Some payload), r') \<Rightarrow>
          (case sink_write payload conn of
             (Some e, conn') \<Rightarrow> (Some e, conn', False)
           | (None, conn') \<Rightarrow> copy_up r' conn'))"
  by pat_completeness auto

termination
  by (relation "measure (\<lambda>(r, _). length r)") (auto dest!: sym [of _ "readMsgBuf _"] readMsgBuf_shorter)

declare copy_up.simps [simp del]

text \<open>
  The goroutine that copies the remote's data to the client: \<open>reads\<close> are the results of
  its reads, each of at most \<open>BUF_SIZE\<close> bytes, and \<open>err\<close> the error that ends them.
\<close>

fun copy_down :: "bytes list \<Rightarrow> error \<Rightarrow> sink \<Rightarrow> error \<times> sink" where
  "copy_down [] err out = (err, snd (srv_writeMsg [] out))"
| "copy_down (b # bs) err out =
     (if b = [] then copy_down bs err out
      else
        (case srv_writeMsg b out of
           (Some werr, out') \<Rightarrow> (werr, out')
         | (None, out') \<Rightarrow> copy_down bs err out'))"

definition handleTCP ::
    "(string \<Rightarrow> string \<Rightarrow> (string + bytes list \<times> error)) \<Rightarrow> int \<Rightarrow> string \<Rightarrow> int \<Rightarrow> bytes \<Rightarrow> sink
       \<Rightarrow> (error option \<times> sink \<times> bool) option \<times> sink" where
  "handleTCP dial family dstIP dstPort r out =
     (case dial_target family dstIP dstPort of (netFamily, addr) \<Rightarrow>
        (case dial netFamily addr of
           Inl msg \<Rightarrow> (None, snd (WriteErrorMsg msg out))
         | Inr (reads, err) \<Rightarrow> (Some (copy_up r (open_sink [])), snd (copy_down reads err out))))"

section \<open>DNS\<close>

definition servfail :: "bytes \<Rightarrow> bytes" where
  "servfail query =
     (if length query < 12 then []
      else
        let flags = (push_bit 8 (ucast (query ! 2)) OR ucast (query ! 3) :: u16);
            opcode = flags AND 0x7800
        in [query ! 0, query ! 1, ucast (drop_bit 8 (0x8002 OR opcode)), ucast ((0x8002 OR opcode) AND 0xff)]
             @ replicate 8 0)"

text \<open>What the exchange with the upstream resolver ends with.\<close>

datatype dns_outcome = DialFailed error | DeadlineFailed error | WriteFailed error | ReadFailed error | Answered bytes

definition forwardDNSWithDial :: "(string \<Rightarrow> bytes \<Rightarrow> dns_outcome) \<Rightarrow> bytes \<Rightarrow> string \<Rightarrow> bytes \<times> error option" where
  "forwardDNSWithDial dial query nameserver =
     (case dial nameserver query of
        DialFailed e \<Rightarrow> (servfail query, Some (Wrapped ''dial'' e))
      | DeadlineFailed e \<Rightarrow> (servfail query, Some (Wrapped ''set deadline'' e))
      | WriteFailed e \<Rightarrow> (servfail query, Some (Wrapped ''write'' e))
      | ReadFailed e \<Rightarrow> (servfail query, Some (Wrapped ''read'' e))
      | Answered b \<Rightarrow> (take 65535 b, None))"

definition nameserver_of_line :: "string \<Rightarrow> string list" where
  "nameserver_of_line line =
     (let line = takeWhile (\<lambda>c. c \<noteq> CHR ''#'' \<and> c \<noteq> CHR '';'') line; line = trim_space line in
      if has_prefix line ''nameserver '' then
        let ip = trim_space (drop 11 line) in if ParseIP ip \<noteq> None then [ip] else []
      else [])"

definition readResolvConf :: "string option \<Rightarrow> string list" where
  "readResolvConf file =
     (case file of None \<Rightarrow> [] | Some data \<Rightarrow> concat (map nameserver_of_line (split_on (CHR 0x0A) data)))"

definition resolveNameserver :: "string option \<Rightarrow> string \<Rightarrow> string" where
  "resolveNameserver resolv toNameserver =
     (if toNameserver \<noteq> [] then
        let parts = split_n (CHR ''@'') 2 toNameserver;
            port = (if length parts = 2 then parts ! 1 else ''53'')
        in JoinHostPort (parts ! 0) port
      else
        (case readResolvConf resolv of
           s # _ \<Rightarrow> JoinHostPort s ''53''
         | [] \<Rightarrow> ''127.0.0.1:53''))"

definition handleDNS ::
    "(string \<Rightarrow> bytes \<Rightarrow> dns_outcome) \<Rightarrow> string option \<Rightarrow> string \<Rightarrow> bytes \<Rightarrow> sink \<Rightarrow> sink" where
  "handleDNS dial resolv toNameserver r out =
     (case readMsgBuf r of
        (Inr (Some query), _) \<Rightarrow>
          let ns = resolveNameserver resolv toNameserver;
              response = fst (forwardDNSWithDial dial query ns)
          in snd (srv_writeMsg response out)
      | _ \<Rightarrow> out)"

section \<open>UDP\<close>

definition parse_up_datagram :: "bytes \<Rightarrow> udp_datagram option" where
  "parse_up_datagram payload =
     (let s = string_of_bytes payload in
      case index_char (CHR '','') s of
        None \<Rightarrow> None
      | Some i1 \<Rightarrow>
          let rest = drop (i1 + 1) s in
          (case index_char (CHR '','') rest of
             None \<Rightarrow> None
           | Some i2 \<Rightarrow>
               Some \<lparr>dg_IP = take i1 s, dg_Port = atoi_val (take i2 rest),
                     dg_Data = drop (i1 + 1 + i2 + 1) payload\<rparr>))"

text \<open>The datagrams the server sends on, until the client closes or the stream ends.\<close>

function udp_up :: "bytes \<Rightarrow> udp_datagram list" where
  "udp_up r =
     (case readMsgBuf r of
        (Inr (Some payload), r') \<Rightarrow>
          (case parse_up_datagram payload of None \<Rightarrow> udp_up r' | Some d \<Rightarrow> d # udp_up r')
      | _ \<Rightarrow> [])"
  by pat_completeness auto
termination
  by (relation "measure length") (auto dest!: sym [of _ "readMsgBuf _"] readMsgBuf_shorter)

declare udp_up.simps [simp del]

definition udp_down :: "udp_datagram \<Rightarrow> sink \<Rightarrow> error option \<times> sink" where
  "udp_down d out = srv_writeMsg (udp_payload (dg_IP d) (dg_Port d) (dg_Data d)) out"

section \<open>Routes\<close>

definition route_line :: "string \<Rightarrow> int \<Rightarrow> string" where
  "route_line ip width =
     (case ParseIP ip of
        None \<Rightarrow> []
      | Some addr \<Rightarrow>
          let family = (if To4 addr = None then 10 else 2 :: int) in
          itoa family @ '','' @ ip @ '','' @ itoa width)"

definition parseIPRoute :: "string \<Rightarrow> string" where
  "parseIPRoute line =
     (let fs = go_fields line in
      if fs = [] \<or> CHR ''/'' \<notin> set (fs ! 0) \<or> fs ! 0 = ''default'' then []
      else
        let parts = split_n (CHR ''/'') 2 (fs ! 0); ip = parts ! 0 in
        (case atoi (parts ! 1) of
           None \<Rightarrow> []
         | Some width \<Rightarrow>
             if has_prefix ip ''0.'' \<or> has_prefix ip ''127.'' then [] else route_line ip width))"

definition parseNetstatRoute :: "string \<Rightarrow> string" where
  "parseNetstatRoute line =
     (let cols = go_fields line in
      if length cols < 3 then []
      else
        let dest = cols ! 0 in
        if dest = ''Destination'' \<or> dest = ''default'' \<or> dest = ''Network'' then []
        else
          let ipw = (if CHR ''/'' \<in> set dest then
                       let parts = split_n (CHR ''/'') 2 dest in
                       map_option (\<lambda>w. (parts ! 0, w)) (atoi (parts ! 1))
                     else Some (dest, 32))
          in (case ipw of
                None \<Rightarrow> []
              | Some (ip, width) \<Rightarrow>
                  if has_prefix ip ''0.'' \<or> has_prefix ip ''127.'' then [] else route_line ip width))"

text \<open>The output of \<^verbatim>\<open>ip route\<close>, when there is one, and of \<^verbatim>\<open>netstat -rn\<close>.\<close>

definition listRoutes :: "string option \<Rightarrow> string option \<Rightarrow> string list" where
  "listRoutes ip_route netstat =
     (case ip_route of
        Some out \<Rightarrow> filter (\<lambda>rt. rt \<noteq> []) (map parseIPRoute (split_on (CHR 0x0A) out))
      | None \<Rightarrow>
          (case netstat of
             None \<Rightarrow> []
           | Some out \<Rightarrow> filter (\<lambda>rt. rt \<noteq> []) (map parseNetstatRoute (split_on (CHR 0x0A) out))))"

definition buildRoutePacket :: "string list \<Rightarrow> bool \<Rightarrow> bytes" where
  "buildRoutePacket routes autoNets =
     (if \<not> autoNets then [] else bytes_of_string (concat (map (\<lambda>rt. rt @ [CHR 0x0A]) routes)))"

definition pushRoutes :: "string list \<Rightarrow> bool \<Rightarrow> bytes" where
  "pushRoutes routes autoNets =
     bytes_of_string (''ROUTES'' @ [CHR 0x0A]) @ buildRoutePacket routes autoNets"

section \<open>The limit on concurrent streams\<close>

definition maxStreamConcurrency :: nat where "maxStreamConcurrency = 256"

datatype accept_event = StreamAccepted nat | StreamFinished nat

text \<open>The streams being handled, and those rejected with an empty message.\<close>

record accept_state =
  as_handling :: "nat list"
  as_rejected :: "nat list"

definition accept_step :: "accept_state \<Rightarrow> accept_event \<Rightarrow> accept_state" where
  "accept_step s ev =
     (case ev of
        StreamAccepted sid \<Rightarrow>
          (if length (as_handling s) < maxStreamConcurrency
           then s\<lparr>as_handling := as_handling s @ [sid]\<rparr>
           else s\<lparr>as_rejected := as_rejected s @ [sid]\<rparr>)
      | StreamFinished sid \<Rightarrow> s\<lparr>as_handling := remove1 sid (as_handling s)\<rparr>)"

interpretation accept_loop: invariant_step
  accept_step "\<lambda>s. length (as_handling s) \<le> maxStreamConcurrency" "\<lambda>_. True"
  by unfold_locales
    (auto simp: accept_step_def length_remove1 split: accept_event.splits)


section \<open>Headers\<close>

lemma read_line_append:
  assumes "CHR 0x0A \<notin> set s"
  shows "read_line (bytes_of_string (s @ [CHR 0x0A]) @ rest) = (Inr s, rest)"
proof -
  have i: "index_char (CHR 0x0A) (s @ CHR 0x0A # string_of_bytes rest) = Some (length s)"
    using assms by (rule index_char_append_hit)
  have "trim_right_by (\<lambda>ch. ch = CHR 0x0A) (s @ [CHR 0x0A]) = s"
    using assms by (cases s rule: rev_cases) (auto simp: trim_right_by_def)
  then show ?thesis by (simp add: read_line_def i)
qed

lemma split_n_first: "c \<notin> set s \<Longrightarrow> split_n c (Suc (Suc n)) (s @ c # t) = s # split_n c (Suc n) t"
  by simp

lemma split_n_none: "c \<notin> set s \<Longrightarrow> split_n c (Suc n) s = [s]"
  by (cases n) (simp_all add: index_char_None_iff [symmetric])

lemma itoa_clean [simp]: "CHR '' '' \<notin> set (itoa n)" "CHR 0x0A \<notin> set (itoa n)" "CHR '','' \<notin> set (itoa n)"
  by (rule itoa_no_char; simp add: is_digit_def)+

definition int64 :: "int \<Rightarrow> bool" where
  "int64 n \<longleftrightarrow> int64_min \<le> n \<and> n \<le> int64_max"

lemma handleStream_dns:
  "handleStream (dns_message query) = Some (ReqDNS, put_be16 (word_of_nat (length query)) @ query)"
proof -
  have "read_line (bytes_of_string (''DNS'' @ [CHR 0x0A]) @ (put_be16 (word_of_nat (length query)) @ query)) =
      (Inr ''DNS'', put_be16 (word_of_nat (length query)) @ query)"
    by (rule read_line_append) simp
  moreover have "parse_request ''DNS'' = ReqDNS"
    by (simp add: parse_request_def numeral_eq_Suc)
  ultimately show ?thesis
    by (simp only: dns_message_def handleStream_def prod.case sum.case)
qed

lemma handleStream_tcp:
  assumes "int64 family" "int64 port" "CHR '' '' \<notin> set ip" "CHR 0x0A \<notin> set ip"
  shows "handleStream (bytes_of_string (tcp_header family ip port) @ rest) = Some (ReqTCP family ip port, rest)"
proof -
  have 4: "(4 :: nat) = Suc (Suc (Suc (Suc 0)))" by simp
  let ?h = "''TCP'' @ CHR '' '' # itoa family @ CHR '' '' # ip @ CHR '' '' # itoa port"
  have h: "tcp_header family ip port = ?h @ [CHR 0x0A]" by (simp add: tcp_header_def)
  have "split_n (CHR '' '') 4 ?h = [''TCP'', itoa family, ip, itoa port]"
    unfolding 4 by (subst split_n_first, simp add: assms(3))+ (simp add: split_n_none del: split_n.simps)
  then have "parse_request ?h = ReqTCP family ip port"
    using assms(1,2) by (simp add: parse_request_def int64_def)
  moreover have "read_line (bytes_of_string (?h @ [CHR 0x0A]) @ rest) = (Inr ?h, rest)"
    by (rule read_line_append) (use assms(4) in simp)
  ultimately show "handleStream (bytes_of_string (tcp_header family ip port) @ rest) =
      Some (ReqTCP family ip port, rest)"
    by (simp only: h handleStream_def prod.case sum.case)
qed

text \<open>
  Stream headers. The server dispatches every stream the client opens to the handler it
  was opened for, with the arguments the client gave, and the handler starts reading right
  behind the header.
\<close>

lemma stream_header_roundtrip:
  assumes "int64 family" "int64 port" "CHR '' '' \<notin> set ip" "CHR 0x0A \<notin> set ip"
  shows "handleStream (bytes_of_string (tcp_header family ip port) @ rest) = Some (ReqTCP family ip port, rest)
       \<and> handleStream (bytes_of_string (udp_header family) @ rest) = Some (ReqUDP family, rest)
       \<and> handleStream (dns_message query) =
           Some (ReqDNS, put_be16 (word_of_nat (length query)) @ query)"
proof (intro conjI)
  show "handleStream (bytes_of_string (tcp_header family ip port) @ rest) = Some (ReqTCP family ip port, rest)"
    using assms by (rule handleStream_tcp)
next
  let ?h = "''UDP'' @ CHR '' '' # itoa family"
  have 4: "(4 :: nat) = Suc (Suc (Suc (Suc 0)))" by simp
  have "split_n (CHR '' '') 4 ?h = [''UDP'', itoa family]"
    unfolding 4 by (subst split_n_first, simp) (simp add: split_n_none del: split_n.simps)
  then have "parse_request ?h = ReqUDP family" using assms(1) by (simp add: parse_request_def int64_def)
  moreover have "read_line (bytes_of_string (?h @ [CHR 0x0A]) @ rest) = (Inr ?h, rest)"
    by (rule read_line_append) simp
  moreover have "udp_header family = ?h @ [CHR 0x0A]" by (simp add: udp_header_def)
  ultimately show "handleStream (bytes_of_string (udp_header family) @ rest) = Some (ReqUDP family, rest)"
    by (simp only: handleStream_def prod.case sum.case)
next
  show "handleStream (dns_message query) =
      Some (ReqDNS, put_be16 (word_of_nat (length query)) @ query)" by (rule handleStream_dns)
qed

section \<open>TCP from end to end\<close>

lemma readMsgBuf_sent:
  "length p \<le> BUF_SIZE \<Longrightarrow>
     readMsgBuf (sent (writeMsg p) @ rest) = (Inr (if p = [] then None else Some p), rest)"
  using readMsgBuf_put [of p rest] by (simp add: sent_writeMsg BUF_SIZE_def)

lemma copy_up_messages:
  "\<forall>p\<in>set ps. p \<noteq> [] \<and> length p \<le> BUF_SIZE \<Longrightarrow>
     copy_up (concat (map (\<lambda>p. sent (writeMsg p)) ps) @ r) (open_sink out) = copy_up r (open_sink (out @ concat ps))"
  by (induction ps arbitrary: out) (simp_all add: copy_up.simps [of "sent _ @ _"] readMsgBuf_sent)

lemma copy_up_half_close: "copy_up (sent (writeMsg []) @ rest) conn = (None, conn, True)"
  by (subst copy_up.simps) (simp add: readMsgBuf_sent)

definition cc_writes :: "int \<Rightarrow> bytes list \<Rightarrow> client_conn \<Rightarrow> mux_client \<Rightarrow> client_conn \<times> mux_client" where
  "cc_writes now bs cc c = fold (\<lambda>b (cc, c). snd (cc_Write now b cc c)) bs (cc, c)"

lemma cc_writes_spec:
  assumes "\<not> cc_done cc" "sk_err (cc_out cc) = None"
  shows "\<exists>ps. concat ps = concat bs \<and> (\<forall>p\<in>set ps. p \<noteq> [] \<and> length p \<le> BUF_SIZE) \<and>
    fst (cc_writes now bs cc c) =
      cc\<lparr>cc_out := (cc_out cc)\<lparr>sk_out := sk_out (cc_out cc) @ concat (map (\<lambda>p. sent (writeMsg p)) ps)\<rparr>\<rparr>"
  using assms
proof (induction bs arbitrary: cc c)
  case Nil
  then show ?case by (intro exI [of _ "[]"]) (simp add: cc_writes_def)
next
  case (Cons b bs)
  obtain ps where ps: "concat ps = b" "\<forall>p\<in>set ps. p \<noteq> [] \<and> length p \<le> BUF_SIZE"
    "write_chunks b 0 (cc_out cc) = (0 + length b, None,
       (cc_out cc)\<lparr>sk_out := sk_out (cc_out cc) @ concat (map (\<lambda>p. sent (writeMsg p)) ps)\<rparr>)"
    using write_chunks_spec [OF Cons.prems(2), of b 0] by blast
  define cc1 where
    "cc1 = cc\<lparr>cc_out := (cc_out cc)\<lparr>sk_out := sk_out (cc_out cc) @ concat (map (\<lambda>p. sent (writeMsg p)) ps)\<rparr>\<rparr>"
  have "fst (snd (cc_Write now b cc c)) = cc1"
    using Cons.prems(1) ps(3) by (simp add: cc_Write_def Let_def cc1_def)
  then obtain r c1 where w: "cc_Write now b cc c = (r, cc1, c1)" by (metis prod.collapse)
  have "\<not> cc_done cc1" "sk_err (cc_out cc1) = None" using Cons.prems by (simp_all add: cc1_def)
  from Cons.IH [OF this, of c1] obtain qs where
    qs: "concat qs = concat bs" "\<forall>p\<in>set qs. p \<noteq> [] \<and> length p \<le> BUF_SIZE"
    "fst (cc_writes now bs cc1 c1) =
       cc1\<lparr>cc_out := (cc_out cc1)\<lparr>sk_out := sk_out (cc_out cc1) @ concat (map (\<lambda>p. sent (writeMsg p)) qs)\<rparr>\<rparr>"
    by blast
  have "cc_writes now (b # bs) cc c = cc_writes now bs cc1 c1" using w by (simp add: cc_writes_def)
  with ps qs show ?case by (intro exI [of _ "ps @ qs"]) (auto simp: cc1_def)
qed

text \<open>
  C12: uploads. Whatever the sizes of the writes, the remote connection receives exactly the
  bytes written to the client's connection, in order, and then the end of the stream when
  the client closes its write side.
\<close>

theorem tcp_upload:
  assumes "\<not> cc_done cc" "sk_err (cc_out cc) = None"
    and "cc_writes now bs cc c = (cc1, c1)" "CloseWrite cc1 = (e, cc2)"
  shows "e = None \<and> (\<exists>up. sk_out (cc_out cc2) = sk_out (cc_out cc) @ up \<and>
           copy_up (up @ rest) (open_sink []) = (None, open_sink (concat bs), True))"
proof -
  obtain ps where ps: "concat ps = concat bs" "\<forall>p\<in>set ps. p \<noteq> [] \<and> length p \<le> BUF_SIZE"
    "cc1 = cc\<lparr>cc_out := (cc_out cc)\<lparr>sk_out := sk_out (cc_out cc) @ concat (map (\<lambda>p. sent (writeMsg p)) ps)\<rparr>\<rparr>"
    using cc_writes_spec [OF assms(1,2), of bs now c] assms(3) by auto
  let ?up = "concat (map (\<lambda>p. sent (writeMsg p)) ps) @ sent (writeMsg [])"
  have "sk_err (cc_out cc1) = None" "\<not> cc_done cc1" using assms(1,2) ps(3) by simp_all
  then have "e = None" "sk_out (cc_out cc2) = sk_out (cc_out cc) @ ?up"
    using assms(4) ps(3) writeMsg_appends [of "cc_out cc1" "[]"] by (auto simp: CloseWrite_def)
  moreover have "copy_up (?up @ rest) (open_sink []) = (None, open_sink (concat bs), True)"
    using copy_up_messages [OF ps(2), of "sent (writeMsg []) @ rest" "[]"] ps(1)
    by (simp add: copy_up_half_close)
  ultimately show ?thesis by blast
qed

lemma tcp_upload_witness:
  "None = (None :: error option) \<and> (\<exists>up. sk_out (cc_out (snd (CloseWrite (fst (cc_writes 0 [[1], [], [2, 3]] (ex_conn []) ex_client))))) =
      sk_out (cc_out (ex_conn [])) @ up \<and>
    copy_up (up @ [9]) (open_sink []) = (None, open_sink (concat [[1], [], [2, 3]]), True))"
proof (rule tcp_upload [of "ex_conn []" 0 _ ex_client _ "snd (cc_writes 0 [[1], [], [2, 3]] (ex_conn []) ex_client)"])
  show "cc_writes 0 [[1], [], [2, 3]] (ex_conn []) ex_client =
    (fst (cc_writes 0 [[1], [], [2, 3]] (ex_conn []) ex_client),
     snd (cc_writes 0 [[1], [], [2, 3]] (ex_conn []) ex_client))" by simp
  obtain ps where "fst (cc_writes 0 [[1], [], [2, 3]] (ex_conn []) ex_client) =
      (ex_conn [])\<lparr>cc_out := (cc_out (ex_conn []))\<lparr>sk_out := sk_out (cc_out (ex_conn [])) @
         concat (map (\<lambda>p. sent (writeMsg p)) ps)\<rparr>\<rparr>"
    using cc_writes_spec [of "ex_conn []" "[[1], [], [2, 3]]" 0 ex_client] by (auto simp: ex_conn_def)
  then have "fst (CloseWrite (fst (cc_writes 0 [[1], [], [2, 3]] (ex_conn []) ex_client))) = None"
    by (simp add: CloseWrite_def ex_conn_def writeMsg_def Let_def sink_write_def)
  then show "CloseWrite (fst (cc_writes 0 [[1], [], [2, 3]] (ex_conn []) ex_client)) =
    (None, snd (CloseWrite (fst (cc_writes 0 [[1], [], [2, 3]] (ex_conn []) ex_client))))"
    by (simp add: prod_eq_iff)
qed (simp_all add: ex_conn_def)


section \<open>UDP from end to end\<close>

definition datagram_ok :: "udp_datagram \<Rightarrow> bool" where
  "datagram_ok d \<longleftrightarrow>
     CHR '','' \<notin> set (dg_IP d) \<and> int64 (dg_Port d) \<and>
     length (udp_payload (dg_IP d) (dg_Port d) (dg_Data d)) \<le> BUF_SIZE"

abbreviation dg_payload :: "udp_datagram \<Rightarrow> bytes" where
  "dg_payload d \<equiv> udp_payload (dg_IP d) (dg_Port d) (dg_Data d)"

lemma udp_payload_not_Nil [simp]: "udp_payload ip port data \<noteq> []"
  by (simp add: udp_payload_def bytes_of_string_def)

lemma udp_payload_string:
  "string_of_bytes (udp_payload ip port data) =
     ip @ CHR '','' # itoa port @ CHR '','' # string_of_bytes data"
  by (simp add: udp_payload_def)

lemma parse_up_payload: "datagram_ok d \<Longrightarrow> parse_up_datagram (dg_payload d) = Some d"
proof -
  assume ok: "datagram_ok d"
  have 1: "index_char (CHR '','') (dg_IP d @ CHR '','' # itoa (dg_Port d) @ CHR '','' # string_of_bytes (dg_Data d)) =
      Some (length (dg_IP d))"
    using ok by (intro index_char_append_hit) (simp add: datagram_ok_def)
  have 2: "index_char (CHR '','') (itoa (dg_Port d) @ CHR '','' # string_of_bytes (dg_Data d)) =
      Some (length (itoa (dg_Port d)))"
    by (rule index_char_append_hit) simp
  have "int64 (dg_Port d)" using ok by (simp add: datagram_ok_def)
  then show ?thesis
    unfolding parse_up_datagram_def udp_payload_string Let_def 1 option.case
    by (simp add: 2 udp_payload_def int64_def)
qed

lemma parse_down_payload: "datagram_ok d \<Longrightarrow> parse_datagram (dg_payload d) = Inr d"
proof -
  assume ok: "datagram_ok d"
  have 1: "index_char (CHR '','') (dg_IP d @ CHR '','' # itoa (dg_Port d) @ CHR '','' # string_of_bytes (dg_Data d)) =
      Some (length (dg_IP d))"
    using ok by (intro index_char_append_hit) (simp add: datagram_ok_def)
  have 2: "index_char (CHR '','') (itoa (dg_Port d) @ CHR '','' # string_of_bytes (dg_Data d)) =
      Some (length (itoa (dg_Port d)))"
    by (rule index_char_append_hit) simp
  let ?a = "length (dg_IP d)" and ?b = "length (itoa (dg_Port d))"
  have n: "nat (int ?a + 1) = Suc ?a" "nat (int ?b + int ?a + 1 - (int ?a + 1)) = ?b"
    "nat (int ?b + int ?a + 1 + 1) = ?a + Suc (Suc ?b)" by simp_all
  have "int64 (dg_Port d)" using ok by (simp add: datagram_ok_def)
  then show ?thesis
    unfolding parse_datagram_def udp_payload_string Let_def indexByte_def 1 option.case
    by (simp add: n 2 udp_payload_def int64_def)
qed

definition decode_up :: "bytes \<Rightarrow> (error + udp_datagram) \<times> bytes" where
  "decode_up r =
     (case readMsgBuf r of
        (Inl e, r') \<Rightarrow> (Inl e, r')
      | (Inr None, r') \<Rightarrow> (Inl EOF, r')
      | (Inr (Some p), r') \<Rightarrow>
          (case parse_up_datagram p of None \<Rightarrow> (Inl (Msg ''skipped''), r') | Some d \<Rightarrow> (Inr d, r')))"

interpretation udp_up_frames: frame_codec "\<lambda>d. sent (writeMsg (dg_payload d))" decode_up datagram_ok
  by unfold_locales (simp add: decode_up_def readMsgBuf_sent parse_up_payload, simp add: datagram_ok_def readMsgBuf_sent parse_up_payload)

definition decode_down :: "bytes \<Rightarrow> (error + udp_datagram) \<times> bytes" where
  "decode_down r =
     (case readMsg r of
        (Inl e, r') \<Rightarrow> (Inl e, r')
      | (Inr p, r') \<Rightarrow> if p = [] then (Inl EOF, r') else (parse_datagram p, r'))"

interpretation udp_down_frames: frame_codec "\<lambda>d. sent (udp_down d)" decode_down datagram_ok
proof unfold_locales
  fix d rest assume ok: "datagram_ok d"
  then have "readMsg (sent (srv_writeMsg (dg_payload d)) @ rest) = (Inr (dg_payload d), rest)"
    by (intro readMsg_sent_srv_writeMsg) (simp add: datagram_ok_def)
  then show "decode_down (sent (udp_down d) @ rest) = (Inr d, rest)"
    using ok by (simp add: decode_down_def udp_down_def [abs_def] parse_down_payload)
qed

lemma udp_up_messages:
  "list_all datagram_ok ds \<Longrightarrow>
     udp_up (concat (map (\<lambda>d. sent (writeMsg (dg_payload d))) ds) @ r) = ds @ udp_up r"
  by (induction ds)
    (simp_all add: udp_up.simps [of "sent _ @ _"] readMsgBuf_sent parse_up_payload datagram_ok_def)

text \<open>
  UDP in both directions. The datagrams a client sends over a channel, whatever bytes
  their payloads hold, are the datagrams the server sends on, in order, until the channel
  is closed; and those the server receives are returned one by one by the client.
\<close>

lemma udp_relay:
  assumes "list_all datagram_ok ds"
  shows "udp_up (concat (map (\<lambda>d. sent (writeMsg (dg_payload d))) ds) @ sent (writeMsg []) @ rest) = ds
       \<and> decode_many decode_down (length ds) (concat (map (\<lambda>d. sent (udp_down d)) ds) @ rest) = (Inr ds, rest)"
proof -
  have "udp_up (sent (writeMsg []) @ rest) = []"
    by (subst udp_up.simps) (simp add: readMsgBuf_sent)
  then show ?thesis
    using udp_up_messages [OF assms] udp_down_frames.decode_stream [OF assms] by simp
qed

definition ex_datagrams :: "udp_datagram list" where
  "ex_datagrams = [\<lparr>dg_IP = ''10.0.0.1'', dg_Port = 53, dg_Data = [44, 0, 44]\<rparr>,
                   \<lparr>dg_IP = ''::1'', dg_Port = 9, dg_Data = []\<rparr>]"

section \<open>DNS from end to end\<close>

lemma get_be16_bytes: "get_be16 (ucast (drop_bit 8 (w :: u16))) (ucast (w AND 0xff)) = w"
proof -
  have "ucast (w AND 0xff) = (ucast w :: byte)"
  proof -
    have m: "(0xff :: u16) = mask 8" by (simp add: mask_eq_decr_exp)
    show ?thesis unfolding m by (rule bit_word_eqI) (auto simp: bit_simps)
  qed
  then show ?thesis by simp
qed

text \<open>
  The answer to a failed lookup. For a query with a full header the server's SERVFAIL is
  a 12-byte header with the query's identifier and opcode, the response bit, response code
  2 and all counts zero.
\<close>

lemma servfail_header:
  assumes "12 \<le> length q"
  shows "length (servfail q) = 12 \<and> take 2 (servfail q) = take 2 q \<and>
         get_be16 (servfail q ! 2) (servfail q ! 3) = 0x8002 OR (get_be16 (q ! 2) (q ! 3) AND 0x7800) \<and>
         drop 4 (servfail q) = replicate 8 0"
proof -
  define w :: u16 where "w = 0x8002 OR (get_be16 (q ! 2) (q ! 3) AND 0x7800)"
  have s: "servfail q = [q ! 0, q ! 1, ucast (drop_bit 8 w), ucast (w AND 0xff)] @ replicate 8 0"
    using assms by (simp add: servfail_def w_def get_be16_def Let_def)
  have "take 2 q = [q ! 0, q ! 1]" using assms by (cases q; cases "tl q") auto
  then show ?thesis using get_be16_bytes [of w] by (simp add: s w_def)
qed

text \<open>
  DNS from end to end. A query sent through the tunnel comes back with the upstream's
  answer when there is one, and with the SERVFAIL of the query when the upstream could not
  be reached, written to or read from; a stream the server rejects is an error, never an
  empty answer.
\<close>

lemma dns_end_to_end:
  assumes "\<not> mc_done c" "12 \<le> length query" "length query < 65536"
    and "\<And>b. dial (resolveNameserver resolv ns) query = Answered b \<Longrightarrow> b \<noteq> [] \<and> length b \<le> BUF_SIZE"
    and "handleStream (dns_message query) = Some (ReqDNS, r)"
  shows "fst (dnsRequest (Inr (sk_out (handleDNS dial resolv ns r (open_sink [])), open_sink [])) query c sc) =
           Inr (case dial (resolveNameserver resolv ns) query of Answered b \<Rightarrow> b | _ \<Rightarrow> servfail query)
       \<and> (\<exists>e. fst (dnsRequest (Inr (sent (srv_writeMsg []), open_sink [])) query c sc) = Inl e)"
proof
  define resp where "resp = fst (forwardDNSWithDial dial query (resolveNameserver resolv ns))"
  have "servfail query \<noteq> []" "length (servfail query) \<le> BUF_SIZE"
    using assms(2) by (auto simp: servfail_def Let_def BUF_SIZE_def)
  then have resp: "resp = (case dial (resolveNameserver resolv ns) query of Answered b \<Rightarrow> b | _ \<Rightarrow> servfail query)"
    "resp \<noteq> []" "length resp \<le> BUF_SIZE"
    using assms(4) by (auto simp: resp_def forwardDNSWithDial_def BUF_SIZE_def split: dns_outcome.splits)
  have r: "r = put_be16 (word_of_nat (length query)) @ query @ []"
    using assms(5) by (simp add: handleStream_dns)
  have "query \<noteq> []" using assms(2) by auto
  then have "readMsgBuf r = (Inr (Some query), [])"
    unfolding r using readMsgBuf_put [OF assms(3), of "[]"] by simp
  then have out: "sk_out (handleDNS dial resolv ns r (open_sink [])) = sent (srv_writeMsg resp)"
    by (simp add: handleDNS_def resp_def sent_def)
  have read: "readMsg (sent (srv_writeMsg p)) = (Inr p, [])" if "length p \<le> BUF_SIZE" for p
    using readMsg_sent_srv_writeMsg [OF that, of "[]"] by simp
  show "fst (dnsRequest (Inr (sk_out (handleDNS dial resolv ns r (open_sink [])), open_sink [])) query c sc) =
      Inr (case dial (resolveNameserver resolv ns) query of Answered b \<Rightarrow> b | _ \<Rightarrow> servfail query)"
    unfolding out resp(1) [symmetric]
    using assms(1) resp(2) read [OF resp(3)]
    by (cases sc) (simp_all add: dnsRequest_def openStreamOnCtrl_def)
  show "\<exists>e. fst (dnsRequest (Inr (sent (srv_writeMsg []), open_sink [])) query c sc) = Inl e"
    using assms(1) read [of "[]"] by (cases sc) (simp_all add: dnsRequest_def openStreamOnCtrl_def)
qed


section \<open>Routes from end to end\<close>

lemma parse_octet_chars: "parse_octet p = Some n \<Longrightarrow> list_all is_digit p"
  by (auto simp: parse_octet_def split: if_splits)

lemma split_on_chars: "(\<And>p. p \<in> set (split_on c s) \<Longrightarrow> set p \<subseteq> A) \<Longrightarrow> set s \<subseteq> insert c A"
proof (induction s)
  case (Cons x s)
  obtain q qs where q: "split_on c s = q # qs" by (cases "split_on c s") auto
  show ?case
  proof (cases "x = c")
    case True
    then have "set s \<subseteq> insert c A" using Cons by auto
    with True show ?thesis by auto
  next
    case False
    then have 1: "set (x # q) \<subseteq> A" using Cons.prems [of "x # q"] q by simp
    have 2: "set p \<subseteq> A" if "p \<in> set qs" for p using Cons.prems [of p] False that q by simp
    have "set s \<subseteq> insert c A" by (rule Cons.IH) (use 1 2 q in auto)
    with 1 show ?thesis by auto
  qed
qed simp

definition addr_char :: "char \<Rightarrow> bool" where
  "addr_char c \<longleftrightarrow> is_digit c \<or> hex_val c \<noteq> None \<or> c = CHR ''.'' \<or> c = CHR '':''"

lemma addr_char_seps [simp]: "addr_char CHR ''.''" "addr_char CHR '':''"
  by (simp_all add: addr_char_def)

lemma ipv4_fields_chars:
  assumes "parse_ipv4_fields s = Some q"
  shows "list_all addr_char s"
proof -
  have "set p \<subseteq> {c. is_digit c}" if "p \<in> set (split_on (CHR ''.'') s)" for p
  proof -
    have "None \<notin> parse_octet ` set (split_on (CHR ''.'') s)"
      using assms by (simp add: parse_ipv4_fields_def Let_def split: if_splits)
    then have "parse_octet p \<noteq> None" using that by (metis image_eqI)
    then show ?thesis using parse_octet_chars by (auto simp: list_all_iff)
  qed
  then have "set s \<subseteq> insert (CHR ''.'') {c. is_digit c}" by (rule split_on_chars)
  then show ?thesis by (auto simp: list_all_iff addr_char_def)
qed

lemma ipv6_loop_chars: "parse_ipv6_loop n ip ell s = Some r \<Longrightarrow> list_all addr_char s"
proof (induction n ip ell s rule: parse_ipv6_loop.induct)
  case (1 ip ell s)
  then show ?case by (simp split: if_splits)
next
  case (2 fuel ip ell s)
  define h where "h = hex_digits s"
  define s1 where "s1 = drop (length h) s"
  have sp: "s = h @ s1"
    unfolding h_def s1_def hex_digits_def by (metis takeWhile_eq_take append_take_drop_id)
  have h: "list_all addr_char h"
    by (auto simp: list_all_iff h_def hex_digits_def addr_char_def dest: set_takeWhileD)
  show ?case
  proof (cases "length h < length s \<and> s ! length h = CHR ''.''")
    case True
    then show ?thesis
      using "2.prems" ipv4_fields_chars [of s] by (auto simp: Let_def simp flip: h_def split: if_splits)
  next
    case nodot: False
    show ?thesis
    proof (cases "s1 = []")
      case True
      then show ?thesis using h sp by simp
    next
      case False
      then obtain c s2 where s1: "s1 = c # s2" by (cases s1) auto
      have c: "c = CHR '':''" "s2 \<noteq> []"
        using "2.prems" nodot s1 by (auto simp: Let_def simp flip: h_def s1_def split: if_splits)
      have "list_all addr_char s2"
      proof (cases "hd s2 = CHR '':''")
        case True
        then show ?thesis
          using "2.prems" "2.IH"(1) nodot s1 c
          by (cases s2) (auto simp: Let_def simp flip: h_def s1_def split: if_splits)
      next
        case False
        then show ?thesis
          using "2.prems" "2.IH"(2) nodot s1 c
          by (auto simp: Let_def simp flip: h_def s1_def split: if_splits)
      qed
      then show ?thesis using h sp s1 c(1) by simp
    qed
  qed
qed

lemma ParseIP_chars: "ParseIP s \<noteq> None \<Longrightarrow> list_all addr_char s"
proof -
  assume p: "ParseIP s \<noteq> None"
  have "list_all addr_char s" if "parse_ipv6 s = Some r" for r
  proof (cases "has_prefix s ''::''")
    case True
    then obtain t where s: "s = ''::'' @ t" by (auto simp: has_prefix_iff)
    show ?thesis
    proof (cases "t = []")
      case False
      then have "list_all addr_char t"
        using that s True by (auto simp: parse_ipv6_def Let_def split: option.splits dest: ipv6_loop_chars)
      then show ?thesis by (simp add: s addr_char_def)
    qed (simp add: s addr_char_def)
  next
    case False
    then have "s \<noteq> ''::''" by (auto simp: has_prefix_def)
    then show ?thesis
      using that False by (auto simp: parse_ipv6_def Let_def split: option.splits dest: ipv6_loop_chars)
  qed
  then show ?thesis
    using p ipv4_fields_chars by (auto simp: ParseIP_def split: option.splits if_splits)
qed


lemma ParseIP_clean:
  assumes "ParseIP ip \<noteq> None"
  shows "CHR '','' \<notin> set ip" "CHR 0x0A \<notin> set ip" "ip \<noteq> []"
proof -
  have "\<not> addr_char CHR '',''" "\<not> addr_char CHR 0x0A" by (simp_all add: addr_char_def hex_val_def is_digit_def)
  then show "CHR '','' \<notin> set ip" "CHR 0x0A \<notin> set ip"
    using ParseIP_chars [OF assms] by (auto simp: list_all_iff)
  show "ip \<noteq> []" using assms by (auto simp: ParseIP_def)
qed

lemma splitComma_first:
  "CHR '','' \<notin> set s \<Longrightarrow> splitComma_loop (Suc k) cur (s @ CHR '','' # t) = (cur @ s) # splitComma_loop k [] t"
  by (induction s arbitrary: cur) auto

lemma splitComma_rest: "splitComma_loop 0 cur s = [cur @ s]"
  by (induction s arbitrary: cur) auto

lemma atoi_int64: "atoi s = Some n \<Longrightarrow> int64 n"
  by (auto simp: atoi_def parse_int64_def clamp_parse_def int64_def Let_def split: int_parse.splits if_splits)

lemma parse_route_line_server:
  assumes "ParseIP ip \<noteq> None" "int64 w"
  shows "parse_route_line (route_line ip w) = [ip @ ''/'' @ itoa w]" "CHR 0x0A \<notin> set (route_line ip w)"
    "route_line ip w \<noteq> []"
proof -
  obtain addr where a: "ParseIP ip = Some addr" using assms(1) by blast
  define fam :: int where "fam = (if To4 addr = None then 10 else 2)"
  have r: "route_line ip w = itoa fam @ CHR '','' # ip @ CHR '','' # itoa w"
    by (simp add: route_line_def a fam_def)
  note clean = ParseIP_clean [OF assms(1)]
  have "splitComma (route_line ip w) 3 = [itoa fam, ip, itoa w]"
    unfolding splitComma_def r by (simp add: splitComma_first clean splitComma_rest numeral_eq_Suc)
  then show "parse_route_line (route_line ip w) = [ip @ ''/'' @ itoa w]"
    using assms(2) by (simp add: parse_route_line_def r int64_def)
  show "CHR 0x0A \<notin> set (route_line ip w)" "route_line ip w \<noteq> []" using clean by (simp_all add: r)
qed

lemma route_line_cases:
  "route_line ip w \<noteq> [] \<Longrightarrow> int64 w \<Longrightarrow>
     \<exists>ip' w'. route_line ip w = route_line ip' w' \<and> ParseIP ip' \<noteq> None \<and> int64 w'"
proof (cases "ParseIP ip")
  case None
  then show "route_line ip w \<noteq> [] \<Longrightarrow> ?thesis" by (simp add: route_line_def)
next
  case (Some a)
  then show "int64 w \<Longrightarrow> ?thesis" by blast
qed

lemma parseIPRoute_line:
  assumes "parseIPRoute line \<noteq> []"
  shows "\<exists>ip w. parseIPRoute line = route_line ip w \<and> ParseIP ip \<noteq> None \<and> int64 w"
  using assms
  by (auto simp: parseIPRoute_def Let_def split: if_splits option.splits intro!: route_line_cases [simplified] dest: atoi_int64)

lemma parseNetstatRoute_line:
  assumes "parseNetstatRoute line \<noteq> []"
  shows "\<exists>ip w. parseNetstatRoute line = route_line ip w \<and> ParseIP ip \<noteq> None \<and> int64 w"
proof -
  have "int64 32" by (simp add: int64_def int64_min_def int64_max_def)
  then show ?thesis
    using assms
    by (auto simp: parseNetstatRoute_def Let_def split: if_splits option.splits intro!: route_line_cases [simplified]
        dest: atoi_int64)
qed

lemma listRoutes_lines:
  "rt \<in> set (listRoutes a b) \<Longrightarrow> \<exists>ip w. rt = route_line ip w \<and> ParseIP ip \<noteq> None \<and> int64 w"
  using parseIPRoute_line parseNetstatRoute_line
  by (fastforce simp: listRoutes_def split: option.splits)

lemma list_all_pairs:
  "(\<And>x. x \<in> set xs \<Longrightarrow> \<exists>a b. x = f a b \<and> P a b) \<Longrightarrow> \<exists>ps. xs = map (\<lambda>(a, b). f a b) ps \<and> list_all (\<lambda>(a, b). P a b) ps"
proof (induction xs)
  case (Cons x xs)
  then obtain ps where "xs = map (\<lambda>(a, b). f a b) ps" "list_all (\<lambda>(a, b). P a b) ps" by auto
  moreover obtain a b where "x = f a b" "P a b" using Cons.prems by force
  ultimately show ?case by (intro exI [of _ "(a, b) # ps"]) simp
qed simp

lemma split_on_lines:
  "(\<And>l. l \<in> set ls \<Longrightarrow> CHR 0x0A \<notin> set l) \<Longrightarrow>
     split_on (CHR 0x0A) (concat (map (\<lambda>l. l @ [CHR 0x0A]) ls)) = ls @ [[]]"
  by (induction ls) (simp_all add: split_on_append_sep)

text \<open>
  Routes. With automatic networks on, every route the server lists, whichever command it
  was read from, reaches the client as ``address/width'', in order, and nothing else does.
\<close>

lemma routes_reach_client:
  "\<exists>rs. listRoutes ip_route netstat = map (\<lambda>(ip, w). route_line ip w) rs \<and>
     list_all (\<lambda>(ip, w). ParseIP ip \<noteq> None) rs \<and>
     handleServerStream (pushRoutes (listRoutes ip_route netstat) True) =
       Some (map (\<lambda>(ip, w). ip @ ''/'' @ itoa w) rs)"
proof -
  obtain rs where rs: "listRoutes ip_route netstat = map (\<lambda>(ip, w). route_line ip w) rs"
    "list_all (\<lambda>(ip, w). ParseIP ip \<noteq> None \<and> int64 w) rs"
    using list_all_pairs [of "listRoutes ip_route netstat" route_line "\<lambda>ip w. ParseIP ip \<noteq> None \<and> int64 w"]
      listRoutes_lines by blast
  let ?ls = "map (\<lambda>(ip, w). route_line ip w) rs"
  have nl: "CHR 0x0A \<notin> set l" if "l \<in> set ?ls" for l
    using rs(2) that parse_route_line_server(2) by (auto simp: list_all_iff)
  have "concat (map parse_route_line ?ls) = map (\<lambda>(ip, w). ip @ ''/'' @ itoa w) rs"
    using rs(2) by (induction rs) (auto simp: parse_route_line_server(1))
  then have "parseRoutes (buildRoutePacket ?ls True) = map (\<lambda>(ip, w). ip @ ''/'' @ itoa w) rs"
    unfolding parseRoutes_def buildRoutePacket_def
    by (simp only: not_True_eq_False if_False string_of_bytes_of_string split_on_lines [OF nl])
      (simp add: parse_route_line_def)
  moreover have "read_line (bytes_of_string (''ROUTES'' @ [CHR 0x0A]) @ buildRoutePacket ?ls True) =
      (Inr ''ROUTES'', buildRoutePacket ?ls True)"
    by (rule read_line_append) simp
  ultimately have "handleServerStream (pushRoutes (listRoutes ip_route netstat) True) =
      Some (map (\<lambda>(ip, w). ip @ ''/'' @ itoa w) rs)"
    unfolding handleServerStream_def pushRoutes_def rs(1) by simp
  with rs show ?thesis by (intro exI [of _ rs]) (auto simp: list_all_iff)
qed

end
