(* ===== verification/MuxPool.thy ===== *)
theory MuxPool
  imports MuxStream "HOL-Library.Multiset"
begin

text \<open>
  The pool of tunnels, \<^verbatim>\<open>internal/mux/pool.go\<close>. Clients are shared pointers in the code, so
  the pickers return a position in the pool. The congestion score is kept exact and scaled
  by 50, as \<open>streams * (50 + rtt_ms)\<close>; the floating-point score of the code orders members
  with different exact scores the same way. The reading of the clock and the outcome of a
  DNS attempt over one tunnel are arguments.
\<close>

datatype lb_strategy = LBRoundRobin | LBLeastLoaded

record mux_pool =
  mp_clients :: "mux_client list"
  mp_next :: u64
  mp_tcpStrategy :: lb_strategy

text \<open>\<open>None\<close> is the panic on an empty pool.\<close>

definition NewMuxPoolWithStrategy :: "mux_client list \<Rightarrow> lb_strategy \<Rightarrow> mux_pool option" where
  "NewMuxPoolWithStrategy clients strategy =
     (if clients = [] then None
      else Some \<lparr>mp_clients = clients, mp_next = 0, mp_tcpStrategy = strategy\<rparr>)"

definition NewMuxPool :: "mux_client list \<Rightarrow> mux_pool option" where
  "NewMuxPool clients = NewMuxPoolWithStrategy clients LBRoundRobin"

section \<open>Choosing a member\<close>

fun pick_from :: "mux_client list \<Rightarrow> u64 \<Rightarrow> nat list \<Rightarrow> nat" where
  "pick_from clients start [] = 0"
| "pick_from clients start (i # is) =
     (let k = unat (start + word_of_nat i) mod length clients in
      if \<not> IsClosed (clients ! k) then k else pick_from clients start is)"

definition pick :: "mux_pool \<Rightarrow> nat \<times> mux_pool" where
  "pick p =
     (let start = mp_next p in
      (pick_from (mp_clients p) start [0..<length (mp_clients p)], p\<lparr>mp_next := start + 1\<rparr>))"

text \<open>\<open>None\<close> is the panic of an index out of range.\<close>

definition ReplaceClient :: "nat \<Rightarrow> mux_client \<Rightarrow> mux_pool \<Rightarrow> mux_pool option" where
  "ReplaceClient idx c p =
     (if idx < length (mp_clients p) then Some (p\<lparr>mp_clients := (mp_clients p)[idx := c]\<rparr>) else None)"

definition congestionScore :: "mux_client \<Rightarrow> int" where
  "congestionScore c = (let rttMs = mc_LastRTT c div 1000000 in int (NumStreams c) * (50 + rttMs))"

definition pickLeastLoaded :: "mux_pool \<Rightarrow> nat" where
  "pickLeastLoaded p =
     (let upd = (\<lambda>(i, c) best.
            if IsClosed c then best
            else (case best of
                    None \<Rightarrow> Some (i, congestionScore c)
                  | Some (j, s) \<Rightarrow> if congestionScore c < s then Some (i, congestionScore c) else best))
      in (case fold upd (enumerate 0 (mp_clients p)) None of None \<Rightarrow> 0 | Some (i, _) \<Rightarrow> i))"

text \<open>Its best score starts at -1, below every score.\<close>

definition pickMostLoaded :: "mux_pool \<Rightarrow> nat" where
  "pickMostLoaded p =
     (let upd = (\<lambda>(i, c) (best, bestScore).
            if IsClosed c then (best, bestScore)
            else if congestionScore c > bestScore then (Some i, congestionScore c)
            else (best, bestScore))
      in (case fst (fold upd (enumerate 0 (mp_clients p)) (None, - 50)) of None \<Rightarrow> 0 | Some i \<Rightarrow> i))"

definition choose_tcp :: "int \<Rightarrow> mux_pool \<Rightarrow> nat \<times> mux_pool" where
  "choose_tcp priority p =
     (if priority \<ge> 4 then (pickLeastLoaded p, p)
      else if priority \<le> 2 then (pickMostLoaded p, p)
      else (case mp_tcpStrategy p of
              LBLeastLoaded \<Rightarrow> (pickLeastLoaded p, p)
            | LBRoundRobin \<Rightarrow> pick p))"

definition on_member :: "(mux_client \<Rightarrow> 'a \<times> mux_client) \<Rightarrow> nat \<Rightarrow> mux_pool \<Rightarrow> 'a \<times> mux_pool" where
  "on_member f i p =
     (case f (mp_clients p ! i) of (x, c) \<Rightarrow> (x, p\<lparr>mp_clients := (mp_clients p)[i := c]\<rparr>))"

definition mp_OpenTCP ::
    "(nat \<Rightarrow> error + mux_stream) \<Rightarrow> int \<Rightarrow> string \<Rightarrow> int \<Rightarrow> int \<Rightarrow> mux_pool \<Rightarrow> (error + client_conn) \<times> mux_pool" where
  "mp_OpenTCP opened family dstIP dstPort priority p =
     (case choose_tcp priority p of
        (i, p') \<Rightarrow> on_member (OpenTCP (opened i) family dstIP dstPort) i p')"

definition mp_OpenUDP :: "(nat \<Rightarrow> error + mux_stream) \<Rightarrow> int \<Rightarrow> mux_pool \<Rightarrow> (error + udp_channel) \<times> mux_pool" where
  "mp_OpenUDP opened family p =
     (let i = pickLeastLoaded p in on_member (OpenUDP (opened i) family) i p)"

section \<open>DNS over the pool\<close>

definition dnsTotalTimeout :: int where "dnsTotalTimeout = secs 5"
definition DNSFirstAttemptTimeout :: int where "DNSFirstAttemptTimeout = secs 2"
definition dnsMaxAttempts :: nat where "dnsMaxAttempts = 2"

record dns_candidate =
  dc_client :: nat
  dc_score :: int
  dc_order :: nat
  dc_tunnel :: int

definition candidate :: "nat \<times> mux_client \<Rightarrow> dns_candidate" where
  "candidate ic =
     (case ic of (i, c) \<Rightarrow>
        let tunnel = (if mc_tunnelIdx c = 0 then int i + 1 else mc_tunnelIdx c)
        in \<lparr>dc_client = i, dc_score = congestionScore c, dc_order = i, dc_tunnel = tunnel\<rparr>)"

definition dnsCandidates :: "mux_pool \<Rightarrow> dns_candidate list" where
  "dnsCandidates p =
     sort_key dc_score
       (map candidate (filter (\<lambda>(i, c). \<not> IsClosed c) (enumerate 0 (mp_clients p))))"

text \<open>
  One attempt over a tunnel, given its timeout: the outcome and the time it took. The loop
  carries the attempt's number, the time left and the last error.
\<close>

fun dns_attempts ::
    "(dns_candidate \<Rightarrow> int \<Rightarrow> (error + bytes) \<times> int) \<Rightarrow> nat \<Rightarrow> nat \<Rightarrow> int \<Rightarrow> error option
       \<Rightarrow> dns_candidate list \<Rightarrow> error + bytes" where
  "dns_attempts attempt tries k remaining lastErr [] =
     Inl (case lastErr of
            None \<Rightarrow> Wrapped ''mux: DNS failed'' (Msg ''overall timeout exceeded'')
          | Some e \<Rightarrow> Wrapped ''mux: DNS failed'' e)"
| "dns_attempts attempt tries k remaining lastErr (c # cs) =
     (if remaining \<le> 0 then dns_attempts attempt tries k remaining lastErr []
      else
        let attemptTimeout =
              (if k = 0 \<and> tries > 1 \<and> remaining > DNSFirstAttemptTimeout
               then DNSFirstAttemptTimeout else remaining)
        in (case attempt c attemptTimeout of
              (Inr resp, _) \<Rightarrow> Inr resp
            | (Inl e, elapsed) \<Rightarrow>
                dns_attempts attempt tries (k + 1) (remaining - elapsed) (Some e) cs))"

definition mp_DNSRequest ::
    "(dns_candidate \<Rightarrow> int \<Rightarrow> (error + bytes) \<times> int) \<Rightarrow> mux_pool \<Rightarrow> error + bytes" where
  "mp_DNSRequest attempt p =
     (let candidates = dnsCandidates p in
      if candidates = [] then Inl (Msg ''mux: DNS request: no live tunnel'')
      else
        let candidates = take dnsMaxAttempts candidates
        in dns_attempts attempt (length candidates) 0 dnsTotalTimeout None candidates)"

section \<open>What the pickers choose\<close>

abbreviation live :: "mux_pool \<Rightarrow> nat \<Rightarrow> bool" where
  "live p i \<equiv> i < length (mp_clients p) \<and> \<not> IsClosed (mp_clients p ! i)"

abbreviation score_at :: "mux_pool \<Rightarrow> nat \<Rightarrow> int" where
  "score_at p i \<equiv> congestionScore (mp_clients p ! i)"

lemma pick_from_cases:
  "pick_from clients start is = 0 \<and> (\<forall>i\<in>set is. IsClosed (clients ! (unat (start + word_of_nat i) mod length clients)))
   \<or> (\<exists>i\<in>set is. pick_from clients start is = unat (start + word_of_nat i) mod length clients \<and>
        \<not> IsClosed (clients ! (unat (start + word_of_nat i) mod length clients)))"
  by (induction "is") (auto simp: Let_def)

text \<open>The positions tried: all of the pool, when the counter is not about to wrap.\<close>

lemma unat_add_small:
  assumes "unat (s :: u64) + n < 2 ^ 64"
  shows "unat (s + word_of_nat n) = unat s + n"
proof -
  have "n < 2 ^ 64" using assms by simp
  then have "unat (word_of_nat n :: u64) = n" by (simp add: unat_of_nat)
  then show ?thesis using assms by (simp add: unat_word_ariths)
qed

lemma rotation_covers:
  assumes "0 < (n :: nat)" "j < n"
  shows "\<exists>i<n. (s + i) mod n = j"
proof -
  have "(s + (j + (n - s mod n)) mod n) mod n = (s mod n + (j + (n - s mod n))) mod n"
    by (simp add: mod_simps)
  also have "s mod n + (j + (n - s mod n)) = j + n"
    using mod_less_divisor [OF assms(1), of s] by linarith
  finally have "(s + (j + (n - s mod n)) mod n) mod n = j" using assms(2) by simp
  then show ?thesis using assms(1) by (intro exI [of _ "(j + (n - s mod n)) mod n"]) simp
qed


definition no_wrap :: "mux_pool \<Rightarrow> bool" where
  "no_wrap p \<longleftrightarrow> unat (mp_next p) + length (mp_clients p) < 2 ^ 64"

lemma pick_position:
  assumes "no_wrap p" "i < length (mp_clients p)"
  shows "unat (mp_next p + word_of_nat i) mod length (mp_clients p) =
         (unat (mp_next p) + i) mod length (mp_clients p)"
  using assms unat_add_small [of "mp_next p" i] by (simp add: no_wrap_def)

lemma pick_in_range:
  assumes "mp_clients p \<noteq> []"
  shows "fst (pick p) < length (mp_clients p)"
  using pick_from_cases [of "mp_clients p" "mp_next p" "[0..<length (mp_clients p)]"] assms
  by (auto simp: pick_def Let_def)

lemma pick_live_if_any:
  assumes "no_wrap p" "live p j"
  shows "live p (fst (pick p))"
proof -
  let ?n = "length (mp_clients p)"
  have n: "0 < ?n" using assms(2) by auto
  obtain i where i: "i < ?n" "(unat (mp_next p) + i) mod ?n = j"
    using rotation_covers [OF n] assms(2) by blast
  have "\<not> IsClosed (mp_clients p ! (unat (mp_next p + word_of_nat i) mod ?n))"
    using i assms pick_position [OF assms(1) i(1)] by simp
  then show ?thesis
    using pick_from_cases [of "mp_clients p" "mp_next p" "[0..<?n]"] i(1) n
    by (auto simp: pick_def Let_def)
qed

text \<open>The two scans, as folds over the live members.\<close>

lemma scan_least:
  fixes cs :: "mux_client list"
  defines "upd \<equiv> (\<lambda>(i, c) best.
            if IsClosed c then best
            else (case best of
                    None \<Rightarrow> Some (i, congestionScore c)
                  | Some (j, s) \<Rightarrow> if congestionScore c < s then Some (i, congestionScore c) else best))"
  shows "case fold upd (enumerate 0 cs) None of
           None \<Rightarrow> \<forall>i < length cs. IsClosed (cs ! i)
         | Some (j, s) \<Rightarrow> j < length cs \<and> \<not> IsClosed (cs ! j) \<and> s = congestionScore (cs ! j) \<and>
             (\<forall>i < length cs. \<not> IsClosed (cs ! i) \<longrightarrow> s \<le> congestionScore (cs ! i) \<and> (i < j \<longrightarrow> s < congestionScore (cs ! i)))"
proof (induction cs rule: rev_induct)
  case (snoc c cs)
  let ?r = "fold upd (enumerate 0 cs) None"
  have step: "fold upd (enumerate 0 (cs @ [c])) None = upd (length cs, c) ?r"
    by (simp add: enumerate_append_eq)
  show ?case
  proof (cases ?r)
    case None
    with snoc step show ?thesis by (auto simp: upd_def nth_append less_Suc_eq)
  next
    case (Some js)
    with snoc step show ?thesis
      by (cases js) (fastforce simp: upd_def nth_append less_Suc_eq)
  qed
qed simp

lemma pickLeastLoaded_spec:
  assumes "live p j"
  shows "live p (pickLeastLoaded p)" "live p i \<Longrightarrow> score_at p (pickLeastLoaded p) \<le> score_at p i"
    "live p i \<Longrightarrow> i < pickLeastLoaded p \<Longrightarrow> score_at p (pickLeastLoaded p) < score_at p i"
  using scan_least [of "mp_clients p"] assms
  by (auto simp: pickLeastLoaded_def Let_def split: option.splits)

lemma pickLeastLoaded_none: "\<forall>i < length (mp_clients p). IsClosed (mp_clients p ! i) \<Longrightarrow> pickLeastLoaded p = 0"
  using scan_least [of "mp_clients p"] by (auto simp: pickLeastLoaded_def Let_def split: option.splits)

definition rtt_ok :: "mux_client \<Rightarrow> bool" where
  "rtt_ok c \<longleftrightarrow> 0 \<le> mc_LastRTT c"

lemma score_nonneg: "rtt_ok c \<Longrightarrow> 0 \<le> congestionScore c"
  by (simp add: rtt_ok_def congestionScore_def Let_def pos_imp_zdiv_nonneg_iff)

lemma scan_most:
  fixes cs :: "mux_client list"
  defines "upd \<equiv> (\<lambda>(i, c) (best, bestScore).
            if IsClosed c then (best, bestScore)
            else if congestionScore c > bestScore then (Some i, congestionScore c)
            else (best, bestScore))"
  assumes "\<forall>c\<in>set cs. rtt_ok c"
  shows "case fold upd (enumerate 0 cs) (None, - 50) of
           (None, s) \<Rightarrow> s = - 50 \<and> (\<forall>i < length cs. IsClosed (cs ! i))
         | (Some j, s) \<Rightarrow> j < length cs \<and> \<not> IsClosed (cs ! j) \<and> s = congestionScore (cs ! j) \<and>
             (\<forall>i < length cs. \<not> IsClosed (cs ! i) \<longrightarrow> congestionScore (cs ! i) \<le> s \<and> (i < j \<longrightarrow> congestionScore (cs ! i) < s))"
  using assms(2)
proof (induction cs rule: rev_induct)
  case (snoc c cs)
  let ?r = "fold upd (enumerate 0 cs) (None, - 50)"
  have step: "fold upd (enumerate 0 (cs @ [c])) (None, - 50) = upd (length cs, c) ?r"
    by (simp add: enumerate_append_eq)
  have c: "- 50 < congestionScore c" using score_nonneg [of c] snoc.prems by simp
  obtain b s where r: "?r = (b, s)" by fastforce
  show ?case
  proof (cases b)
    case None
    with snoc step r c show ?thesis by (auto simp: upd_def nth_append less_Suc_eq)
  next
    case (Some j)
    have IH: "j < length cs" "\<not> IsClosed (cs ! j)" "s = congestionScore (cs ! j)"
      "\<And>i. i < length cs \<Longrightarrow> \<not> IsClosed (cs ! i) \<Longrightarrow> congestionScore (cs ! i) \<le> s \<and> (i < j \<longrightarrow> congestionScore (cs ! i) < s)"
      using snoc.IH snoc.prems r Some by auto
    show ?thesis
    proof (cases "IsClosed c \<or> \<not> congestionScore c > s")
      case True
      then have "fold upd (enumerate 0 (cs @ [c])) (None, - 50) = (Some j, s)"
        using step r Some by (auto simp: upd_def)
      with True IH show ?thesis by (auto simp: nth_append less_Suc_eq)
    next
      case False
      then have "fold upd (enumerate 0 (cs @ [c])) (None, - 50) = (Some (length cs), congestionScore c)"
        using step r Some by (auto simp: upd_def)
      with False IH(4) show ?thesis by (fastforce simp: nth_append less_Suc_eq)
    qed
  qed
qed simp

lemma pickMostLoaded_spec:
  assumes "live p j" "\<forall>c\<in>set (mp_clients p). rtt_ok c"
  shows "live p (pickMostLoaded p)" "live p i \<Longrightarrow> score_at p i \<le> score_at p (pickMostLoaded p)"
  using scan_most [OF assms(2)] assms(1)
  by (auto simp: pickMostLoaded_def Let_def split: option.splits prod.splits)

lemma pickMostLoaded_none:
  assumes "\<forall>i < length (mp_clients p). IsClosed (mp_clients p ! i)" "\<forall>c\<in>set (mp_clients p). rtt_ok c"
  shows "pickMostLoaded p = 0"
  using scan_most [OF assms(2)] assms(1)
  by (auto simp: pickMostLoaded_def Let_def split: option.splits prod.splits)


text \<open>All three strategies are pickers in the sense of the interface.\<close>

interpretation round_robin: member_picker
  "\<lambda>p. mp_clients p ! fst (pick p)" "\<lambda>p. if no_wrap p then mp_clients p else []" IsClosed
proof
  show "(if no_wrap p then mp_clients p else []) \<noteq> [] \<Longrightarrow>
      mp_clients p ! fst (pick p) \<in> set (if no_wrap p then mp_clients p else [])" for p
    using pick_in_range [where p = p] by (auto split: if_splits)
  show "m \<in> set (if no_wrap p then mp_clients p else []) \<Longrightarrow> \<not> IsClosed m \<Longrightarrow>
      \<not> IsClosed (mp_clients p ! fst (pick p))" for m p
    using pick_live_if_any [where p = p] by (auto simp: in_set_conv_nth split: if_splits)
qed

lemma pickLeastLoaded_range: "mp_clients p \<noteq> [] \<Longrightarrow> pickLeastLoaded p < length (mp_clients p)"
  using pickLeastLoaded_spec(1) [where p = p] pickLeastLoaded_none [where p = p] by fastforce

lemma pickMostLoaded_range:
  "mp_clients p \<noteq> [] \<Longrightarrow> \<forall>c\<in>set (mp_clients p). rtt_ok c \<Longrightarrow> pickMostLoaded p < length (mp_clients p)"
  using pickMostLoaded_spec(1) [where p = p] pickMostLoaded_none [where p = p] by fastforce

interpretation least_loaded: member_picker "\<lambda>p. mp_clients p ! pickLeastLoaded p" mp_clients IsClosed
proof
  show "mp_clients p \<noteq> [] \<Longrightarrow> mp_clients p ! pickLeastLoaded p \<in> set (mp_clients p)" for p
    using pickLeastLoaded_range by simp
  show "m \<in> set (mp_clients p) \<Longrightarrow> \<not> IsClosed m \<Longrightarrow> \<not> IsClosed (mp_clients p ! pickLeastLoaded p)" for m p
    using pickLeastLoaded_spec(1) [where p = p] by (auto simp: in_set_conv_nth)
qed

interpretation most_loaded: member_picker "\<lambda>p. mp_clients p ! pickMostLoaded p"
  "\<lambda>p. if \<forall>c\<in>set (mp_clients p). rtt_ok c then mp_clients p else []" IsClosed
proof
  show "(if \<forall>c\<in>set (mp_clients p). rtt_ok c then mp_clients p else []) \<noteq> [] \<Longrightarrow>
      mp_clients p ! pickMostLoaded p \<in> set (if \<forall>c\<in>set (mp_clients p). rtt_ok c then mp_clients p else [])" for p
    using pickMostLoaded_range [of p] by (simp split: if_splits)
  show "m \<in> set (if \<forall>c\<in>set (mp_clients p). rtt_ok c then mp_clients p else []) \<Longrightarrow> \<not> IsClosed m \<Longrightarrow>
      \<not> IsClosed (mp_clients p ! pickMostLoaded p)" for m p
    using pickMostLoaded_spec(1) [where p = p] by (auto simp: in_set_conv_nth split: if_splits)
qed

section \<open>Properties\<close>

fun pick_seq :: "nat \<Rightarrow> mux_pool \<Rightarrow> nat list" where
  "pick_seq 0 p = []"
| "pick_seq (Suc m) p = (case pick p of (i, p') \<Rightarrow> i # pick_seq m p')"

lemma pick_all_live:
  assumes "no_wrap p" "mp_clients p \<noteq> []" "\<forall>c\<in>set (mp_clients p). \<not> IsClosed c"
  shows "pick p = (unat (mp_next p) mod length (mp_clients p), p\<lparr>mp_next := mp_next p + 1\<rparr>)"
proof -
  let ?n = "length (mp_clients p)"
  have r: "[0..<?n] = 0 # [1..<?n]" using assms(2) by (simp add: upt_rec)
  have "unat (mp_next p + word_of_nat 0) mod ?n = unat (mp_next p) mod ?n" by simp
  moreover have "unat (mp_next p) mod ?n < ?n" using assms(2) by simp
  ultimately show ?thesis using assms(3) by (simp add: pick_def r Let_def)
qed

lemma pick_seq_live:
  assumes "unat (mp_next p) + m + length (mp_clients p) < 2 ^ 64" "mp_clients p \<noteq> []"
    and "\<forall>c\<in>set (mp_clients p). \<not> IsClosed c"
  shows "pick_seq m p = map (\<lambda>k. (unat (mp_next p) + k) mod length (mp_clients p)) [0..<m]"
  using assms
proof (induction m arbitrary: p)
  case (Suc m)
  let ?p = "p\<lparr>mp_next := mp_next p + 1\<rparr>"
  have u: "unat (mp_next p + 1) = unat (mp_next p) + 1"
    using unat_add_small [of "mp_next p" 1] Suc.prems(1) by simp
  have "pick_seq m ?p = map (\<lambda>k. (unat (mp_next p) + 1 + k) mod length (mp_clients p)) [0..<m]"
    using Suc.IH [of ?p] Suc.prems u by simp
  moreover have "no_wrap p" using Suc.prems(1) by (simp add: no_wrap_def)
  ultimately show ?case
    using pick_all_live [of p] Suc.prems
    by (simp add: upt_conv_Cons map_Suc_upt [symmetric] comp_def del: upt_Suc)
qed simp

text \<open>
  Round robin. With every tunnel alive, consecutive picks walk through the pool in order,
  so that in any round of as many picks as there are tunnels each one is used exactly once.
\<close>

lemma pool_round_robin:
  assumes "unat (mp_next p) + length (mp_clients p) + length (mp_clients p) < 2 ^ 64"
    and "mp_clients p \<noteq> []" "\<forall>c\<in>set (mp_clients p). \<not> IsClosed c"
  shows "distinct (pick_seq (length (mp_clients p)) p) \<and>
         set (pick_seq (length (mp_clients p)) p) = {0..<length (mp_clients p)}"
proof -
  let ?n = "length (mp_clients p)"
  have n: "0 < ?n" using assms(2) by simp
  have seq: "pick_seq ?n p = map (\<lambda>k. (unat (mp_next p) + k) mod ?n) [0..<?n]"
    using assms by (rule pick_seq_live)
  have cover: "{0..<?n} \<subseteq> set (pick_seq ?n p)"
  proof
    fix j assume "j \<in> {0..<?n}"
    then obtain k where "k < ?n" "(unat (mp_next p) + k) mod ?n = j"
      using rotation_covers [OF n, of j "unat (mp_next p)"] by auto
    then show "j \<in> set (pick_seq ?n p)" by (auto simp: seq)
  qed
  moreover have "set (pick_seq ?n p) \<subseteq> {0..<?n}" using n by (auto simp: seq)
  ultimately have eq: "set (pick_seq ?n p) = {0..<?n}" by blast
  then have "card (set (pick_seq ?n p)) = length (pick_seq ?n p)" by (simp add: seq)
  with eq show ?thesis using card_distinct by blast
qed

definition ex_pool :: mux_pool where
  "ex_pool = \<lparr>mp_clients = [ex_client, ex_client\<lparr>mc_numStreams := 3\<rparr>, ex_client\<lparr>mc_numStreams := 1\<rparr>],
     mp_next = 5, mp_tcpStrategy = LBRoundRobin\<rparr>"

text \<open>
  C33: choice of a tunnel. While any tunnel is alive a new connection gets a live one,
  whatever its priority; high priorities get one of least load, low priorities one of
  greatest load.
\<close>

theorem pool_tcp_choice:
  assumes "live p j" "no_wrap p" "\<forall>c\<in>set (mp_clients p). rtt_ok c" "fst (choose_tcp priority p) = i"
  shows "live p i \<and>
         (4 \<le> priority \<or> (2 < priority \<and> mp_tcpStrategy p = LBLeastLoaded) \<longrightarrow>
            (\<forall>k. live p k \<longrightarrow> score_at p i \<le> score_at p k)) \<and>
         (priority \<le> 2 \<longrightarrow> (\<forall>k. live p k \<longrightarrow> score_at p k \<le> score_at p i))"
proof -
  note least = pickLeastLoaded_spec [OF assms(1)] and most = pickMostLoaded_spec [OF assms(1,3)]
  consider "4 \<le> priority" | "priority \<le> 2" | "2 < priority" "priority < 4" by linarith
  then show ?thesis
  proof cases
    case 1
    then show ?thesis using least assms(4) by (auto simp: choose_tcp_def)
  next
    case 2
    then show ?thesis using most assms(4) by (auto simp: choose_tcp_def)
  next
    case 3
    then show ?thesis
      using least pick_live_if_any [OF assms(2,1)] assms(4)
      by (cases "mp_tcpStrategy p") (auto simp: choose_tcp_def)
  qed
qed

lemma pool_tcp_choice_witness:
  "fst (choose_tcp 5 ex_pool) = 0 \<and> score_at ex_pool 0 \<le> score_at ex_pool 2"
proof -
  have f: "fst (choose_tcp 5 ex_pool) = 0" by code_simp
  have rtt: "\<forall>c\<in>set (mp_clients ex_pool). rtt_ok c"
    by (simp add: ex_pool_def ex_client_def rtt_ok_def mc_LastRTT_def tc_LastRTT_def new_tunnel_counters_def)
  have l: "live ex_pool 2" and nw: "no_wrap ex_pool"
    by (simp_all add: ex_pool_def ex_client_def IsClosed_def no_wrap_def)
  from pool_tcp_choice [OF l nw rtt f] l f show ?thesis by simp
qed

lemma sorted_dns: "sorted (map dc_score (dnsCandidates p))"
  by (simp add: dnsCandidates_def)

text \<open>
  Order of DNS attempts. The candidates are the live tunnels, each once, in order of
  their congestion score.
\<close>

lemma dns_candidates_live:
  "sorted (map dc_score (dnsCandidates p)) \<and> distinct (map dc_client (dnsCandidates p)) \<and>
   set (map dc_client (dnsCandidates p)) = {i. live p i}"
proof -
  let ?ics = "filter (\<lambda>(i, c). \<not> IsClosed c) (enumerate 0 (mp_clients p))"
  have c: "dc_client (candidate ic) = fst ic" for ic
    by (cases ic) (simp add: candidate_def Let_def)
  have "distinct (map fst (enumerate 0 (mp_clients p)))" by simp
  then have "distinct (map fst ?ics)" by (rule distinct_map_filter)
  then have d: "distinct (map dc_client (map candidate ?ics))" by (simp add: comp_def c)
  have "mset (map dc_client (dnsCandidates p)) = mset (map dc_client (map candidate ?ics))"
    by (simp add: dnsCandidates_def image_mset.compositionality)
  then have "distinct (map dc_client (dnsCandidates p))" "set (map dc_client (dnsCandidates p)) = set (map fst ?ics)"
    using d mset_eq_imp_distinct_iff mset_eq_setD by (fastforce simp: comp_def c)+
  moreover have "set (map fst ?ics) = {i. live p i}"
    by (auto simp: in_set_enumerate_eq image_iff)
  ultimately show ?thesis using sorted_dns by blast
qed


text \<open>
  Failover of a DNS request. When the best tunnel fails within the time it was given,
  the second best one is tried, with at least three of the five seconds left; the first
  answer of either is returned, and no third tunnel is asked.
\<close>

lemma dns_failover:
  assumes "dnsCandidates p = c1 # c2 # cs"
    and "attempt c1 DNSFirstAttemptTimeout = (Inl e, elapsed)" "0 \<le> elapsed" "elapsed \<le> DNSFirstAttemptTimeout"
  shows "mp_DNSRequest attempt p =
           (case fst (attempt c2 (dnsTotalTimeout - elapsed)) of
              Inr resp \<Rightarrow> Inr resp
            | Inl e' \<Rightarrow> Inl (Wrapped ''mux: DNS failed'' e'))
         \<and> secs 3 \<le> dnsTotalTimeout - elapsed"
  using assms
  by (auto simp: mp_DNSRequest_def dnsMaxAttempts_def dnsTotalTimeout_def DNSFirstAttemptTimeout_def secs_def
      numeral_eq_Suc Let_def split: prod.splits sum.splits)

end
