(* ===== verification/DomainRules.thy ===== *)
theory DomainRules
  imports Contracts
begin

text \<open>
  Host names and rule scopes: \<^verbatim>\<open>internal/store/rules.go\<close>, the route kinds of
  \<^verbatim>\<open>internal/store/groups.go\<close> and \<^verbatim>\<open>internal/stats/routes.go\<close>, and the wildcard candidates of
  \<^verbatim>\<open>internal/stats/stats.go\<close>. The public suffix list is a third-party package:
  \<open>etld\<close>, its \<^verbatim>\<open>EffectiveTLDPlusOne\<close>, is an argument.
\<close>

section \<open>Route kinds\<close>

definition RouteTunnel :: string where "RouteTunnel = ''tunnel''"
definition RouteDirect :: string where "RouteDirect = ''direct''"
definition RouteBlocked :: string where "RouteBlocked = ''blocked''"

lemmas route_kinds = RouteTunnel_def RouteDirect_def RouteBlocked_def

definition NormalizeRouteKind :: "string \<Rightarrow> string" where
  "NormalizeRouteKind kind =
     (let k = to_lower (trim_space kind) in
      if k = RouteDirect \<or> k = RouteBlocked then k else RouteTunnel)"

text \<open>The copy in \<^verbatim>\<open>internal/stats\<close>.\<close>

definition stats_NormalizeRouteKind :: "string \<Rightarrow> string" where
  "stats_NormalizeRouteKind s =
     (let k = to_lower (trim_space s) in
      if k = RouteDirect then RouteDirect else if k = RouteBlocked then RouteBlocked else RouteTunnel)"

definition NormalizeFinalRoute :: "string \<Rightarrow> string" where
  "NormalizeFinalRoute m = (if NormalizeRouteKind m = RouteDirect then RouteDirect else RouteTunnel)"

definition stats_normalizeFinal :: "string \<Rightarrow> string" where
  "stats_normalizeFinal m = (if stats_NormalizeRouteKind m = RouteDirect then RouteDirect else RouteTunnel)"

lemma stats_kind_eq: "stats_NormalizeRouteKind = NormalizeRouteKind"
  by (rule ext) (auto simp: stats_NormalizeRouteKind_def NormalizeRouteKind_def Let_def)

lemma stats_final_eq: "stats_normalizeFinal = NormalizeFinalRoute"
  by (rule ext) (simp add: stats_normalizeFinal_def NormalizeFinalRoute_def stats_kind_eq)

lemma kind_cases: "NormalizeRouteKind k \<in> {RouteTunnel, RouteDirect, RouteBlocked}"
  by (auto simp: NormalizeRouteKind_def Let_def)

lemma kind_fixed [simp]:
  "NormalizeRouteKind RouteTunnel = RouteTunnel" "NormalizeRouteKind RouteDirect = RouteDirect"
  "NormalizeRouteKind RouteBlocked = RouteBlocked"
  by code_simp+

lemma kind_idem [simp]: "NormalizeRouteKind (NormalizeRouteKind k) = NormalizeRouteKind k"
  using kind_cases [of k] by auto

section \<open>Scopes\<close>

definition domain_char :: "char \<Rightarrow> bool" where
  "domain_char c \<longleftrightarrow>
     (let n = of_char c :: nat in 97 \<le> n \<and> n \<le> 122 \<or> 48 \<le> n \<and> n \<le> 57 \<or> c = CHR ''.'' \<or> c = CHR ''-'')"

definition bad_label :: "string \<Rightarrow> bool" where
  "bad_label l \<longleftrightarrow> l = [] \<or> length l > 63 \<or> has_prefix l ''-'' \<or> has_suffix l ''-''"

definition NormalizeDomain :: "(string \<Rightarrow> string option) \<Rightarrow> string \<Rightarrow> string option" where
  "NormalizeDomain etld input =
     (let raw = trim_suffix (to_lower (trim_space input)) ''.'';
          exact = has_prefix raw ''='';
          host = (if exact then drop 1 raw else raw)
      in if host = [] \<or> length host > 253 \<or> contains_sub host ''..'' then None
         else if \<not> list_all domain_char host then None
         else if list_ex bad_label (split_on (CHR ''.'') host) then None
         else if \<not> exact then (case etld host of None \<Rightarrow> None | Some _ \<Rightarrow> Some host)
         else Some (''='' @ host))"

definition MatchesDomain :: "(string \<Rightarrow> string option) \<Rightarrow> string \<Rightarrow> string \<Rightarrow> bool" where
  "MatchesDomain etld host domain =
     (case NormalizeDomain etld domain of
        None \<Rightarrow> False
      | Some normalized \<Rightarrow>
          let exact = has_prefix normalized ''='';
              value = trim_prefix normalized ''='';
              key = trim_suffix (to_lower host) ''.''
          in key = value \<or> (\<not> exact \<and> has_suffix key (''.'' @ value)))"

record rule_group =
  rg_ID :: string
  rg_Name :: string
  rg_Domains :: "string list"
  rg_Route :: string

definition RuleGroupFor :: "(string \<Rightarrow> string option) \<Rightarrow> rule_group list \<Rightarrow> string \<Rightarrow> rule_group option" where
  "RuleGroupFor etld groups host =
     find (\<lambda>g. list_ex (MatchesDomain etld host) (rg_Domains g)) groups"

definition RegistrableDomain :: "(string \<Rightarrow> string option) \<Rightarrow> string \<Rightarrow> string" where
  "RegistrableDomain etld host =
     (case etld (trim_suffix (to_lower host) ''.'') of None \<Rightarrow> [] | Some d \<Rightarrow> d)"

text \<open>Whether a normalized scope covers a host, \<open>scopeMatches\<close> of \<^verbatim>\<open>internal/tui/dest_model.go\<close>.\<close>

definition scopeMatches :: "string \<Rightarrow> string \<Rightarrow> bool" where
  "scopeMatches host scope =
     (let key = trim_suffix (to_lower host) ''.'' in
      if has_prefix scope ''='' then key = drop 1 scope
      else key = scope \<or> has_suffix key (''.'' @ scope))"

section \<open>Wildcards\<close>

fun suffixes_of :: "'a list \<Rightarrow> 'a list list" where
  "suffixes_of [] = []"
| "suffixes_of (x # xs) = (x # xs) # suffixes_of xs"

definition wildcardCandidates :: "string \<Rightarrow> string list" where
  "wildcardCandidates host =
     (if host = [] \<or> has_prefix host ''*.'' then []
      else
        let labels = split_on (CHR ''.'') host in
        if length labels < 2 then []
        else map (\<lambda>ls. ''*.'' @ join_with ''.'' ls) (suffixes_of (tl labels)))"

section \<open>Lemmas\<close>

lemma domain_char_lower: "domain_char c \<Longrightarrow> lower_char c = c"
  by (auto simp: domain_char_def lower_char_def Let_def)

lemma domain_char_not_space: "domain_char c \<Longrightarrow> \<not> is_space c"
  by (auto simp: domain_char_def is_space_def Let_def)

lemma domain_char_not_eq [simp]: "\<not> domain_char CHR ''=''" "\<not> domain_char CHR ''*''"
  by (simp_all add: domain_char_def)

lemma to_lower_domain: "list_all domain_char s \<Longrightarrow> to_lower s = s"
  by (induction s) (simp_all add: to_lower_def domain_char_lower)

lemma trim_space_domain: "list_all domain_char s \<Longrightarrow> trim_space s = s"
  by (rule trim_space_fixed) (auto simp: list_all_iff dest!: domain_char_not_space)

lemma has_suffix_dot_split: "has_suffix s ''.'' \<Longrightarrow> [] \<in> set (split_on (CHR ''.'') s)"
proof -
  assume "has_suffix s ''.''"
  then obtain t where s: "s = t @ ''.''" by (auto simp: has_suffix_iff)
  have "[] \<in> set (tl (split_on (CHR ''.'') (t @ ''.'')))"
    by (induction t) (auto intro: list.set_sel(2) [rotated])
  then show ?thesis by (simp add: s list.set_sel(2))
qed

text \<open>A valid host: what is left of a scope without its equals sign.\<close>

definition valid_host :: "string \<Rightarrow> bool" where
  "valid_host h \<longleftrightarrow>
     h \<noteq> [] \<and> length h \<le> 253 \<and> \<not> contains_sub h ''..'' \<and> list_all domain_char h \<and>
     \<not> list_ex bad_label (split_on (CHR ''.'') h)"

lemma valid_host_trim: "valid_host h \<Longrightarrow> trim_suffix h ''.'' = h"
proof -
  assume v: "valid_host h"
  have "\<not> has_suffix h ''.''"
  proof
    assume "has_suffix h ''.''"
    then have "[] \<in> set (split_on (CHR ''.'') h)" by (rule has_suffix_dot_split)
    then have "list_ex bad_label (split_on (CHR ''.'') h)"
      by (auto simp: list_ex_iff bad_label_def intro!: bexI [of _ "[]"])
    with v show False by (simp add: valid_host_def)
  qed
  then show ?thesis by (simp add: trim_suffix_def)
qed

lemma valid_host_no_eq: "valid_host h \<Longrightarrow> \<not> has_prefix h ''=''"
  by (cases h) (auto simp: valid_host_def has_prefix_def)

lemma NormalizeDomain_SomeD:
  assumes "NormalizeDomain etld d = Some n"
  obtains (exact) h where "n = ''='' @ h" "valid_host h"
  | (bare) a where "valid_host n" "etld n = Some a"
  using assms
  by (auto simp: NormalizeDomain_def Let_def valid_host_def split: if_splits option.splits)

lemma NormalizeDomain_bare: "valid_host h \<Longrightarrow> etld h = Some a \<Longrightarrow> NormalizeDomain etld h = Some h"
  using valid_host_trim [of h] valid_host_no_eq [of h]
  by (auto simp: NormalizeDomain_def valid_host_def to_lower_domain trim_space_domain Let_def)

lemma NormalizeDomain_exact: "valid_host h \<Longrightarrow> NormalizeDomain etld (''='' @ h) = Some (''='' @ h)"
proof -
  assume v: "valid_host h"
  then have ne: "h \<noteq> []" and dc: "list_all domain_char h" by (simp_all add: valid_host_def)
  have "\<not> is_space (last h)" using dc ne last_in_set domain_char_not_space by (auto simp: list_all_iff)
  then have t: "trim_space (''='' @ h) = ''='' @ h"
    using ne by (intro trim_space_fixed) (simp add: is_space_def)
  have l: "to_lower (''='' @ h) = ''='' @ h"
    using to_lower_domain [OF dc] by (simp add: to_lower_def lower_char_def)
  have s: "trim_suffix (''='' @ h) ''.'' = ''='' @ h"
  proof -
    have "has_suffix (''='' @ h) ''.'' \<longleftrightarrow> has_suffix h ''.''"
      using ne by (cases h rule: rev_cases) (auto simp: has_suffix_def)
    then show ?thesis using valid_host_trim [OF v] by (auto simp: trim_suffix_def has_suffix_def split: if_splits)
  qed
  show ?thesis
    unfolding NormalizeDomain_def t l s Let_def
    using v by (simp add: has_prefix_def valid_host_def)
qed


text \<open>
  Scopes have a canonical form. Normalizing a scope that was accepted gives it back
  unchanged, and a host falls inside the scope as the user typed it exactly when it matches
  the canonical form.
\<close>

lemma scope_canonical:
  assumes "NormalizeDomain etld d = Some n"
  shows "NormalizeDomain etld n = Some n \<and> MatchesDomain etld host d = MatchesDomain etld host n
       \<and> MatchesDomain etld host d = scopeMatches host n"
proof -
  have n: "NormalizeDomain etld n = Some n"
    using assms by (cases rule: NormalizeDomain_SomeD) (simp_all add: NormalizeDomain_exact [simplified] NormalizeDomain_bare)
  have m: "MatchesDomain etld host d = MatchesDomain etld host n"
    by (simp add: MatchesDomain_def assms n)
  have "MatchesDomain etld host n = scopeMatches host n"
    using assms
  proof (cases rule: NormalizeDomain_SomeD)
    case (exact h)
    then show ?thesis using n by (simp add: MatchesDomain_def scopeMatches_def trim_prefix_def has_prefix_def Let_def)
  next
    case (bare a)
    then show ?thesis
      using n valid_host_no_eq [OF bare(1)] by (simp add: MatchesDomain_def scopeMatches_def trim_prefix_def Let_def)
  qed
  with n m show ?thesis by simp
qed

definition ex_etld :: "string \<Rightarrow> string option" where
  "ex_etld h = (if has_suffix h ''example.com'' then Some ''example.com'' else None)"

text \<open>
  What a scope covers. An exact scope covers its own host only; a bare scope covers the
  host itself and the hosts below it, at a label boundary.
\<close>

lemma scope_coverage:
  assumes "valid_host h" "etld h = Some a" "trim_suffix (to_lower host) ''.'' = host"
  shows "(MatchesDomain etld host (''='' @ h) \<longleftrightarrow> host = h) \<and>
         (MatchesDomain etld host h \<longleftrightarrow> host = h \<or> (\<exists>sub. host = sub @ ''.'' @ h))"
  using NormalizeDomain_exact [OF assms(1), of etld] NormalizeDomain_bare [OF assms(1), of etld a] assms(2)
    valid_host_no_eq [OF assms(1)] assms(3)
  by (simp add: MatchesDomain_def trim_prefix_def has_suffix_iff has_prefix_def Let_def)

end
