(* ===== verification/RuleStore.thy ===== *)
theory RuleStore
  imports DomainRules "HOL-Library.AList"
begin

text \<open>
  The persisted state: \<^verbatim>\<open>internal/store\<close> (\<^verbatim>\<open>ruleset.go\<close>, \<^verbatim>\<open>groups.go\<close>, \<^verbatim>\<open>migrate.go\<close>,
  \<^verbatim>\<open>settings.go\<close>, \<^verbatim>\<open>priorities.go\<close>) and the profile list of \<^verbatim>\<open>profiles.go\<close>. A JSON file is
  the value that the decoder returns for it, or the way it cannot be read; a Go map in a file
  is the list of its entries, with distinct keys; a missing route is the empty kind. The data
  directory itself exists. \<open>dk_fails\<close> tells the paths where a write or a removal fails.
\<close>

section \<open>Files\<close>

datatype 'a node = Missing | Directory | Unreadable | Blank | Broken | Holds 'a

datatype store_error = ReadFail | ParseFail | WriteFail | BadGroupID

type_synonym 'a outcome = "store_error + 'a"

record rule_set =
  rs_Rules :: "(string \<times> string) list"
  rs_RuleGroups :: "rule_group list"
  rs_FinalRoute :: string
  rs_KnownHosts :: "string list"

record global_settings =
  gs_AutoConnectProfileID :: string
  gs_TrayDisplayMode :: string
  gs_ActiveGroupID :: string
  gs_LanSocks5Port :: "u16 option"
  gs_LanHTTPPort :: "u16 option"

text \<open>
  The content of a group file: the fields of \<open>Group\<close> and, in an old file, the profiles it
  embeds (their ids) and the rule fields of \<open>legacyGroupRules\<close>.
\<close>

record group_file =
  gf_ID :: string
  gf_Name :: string
  gf_ChildrenIDs :: "string list"
  gf_Children :: "string list"
  gf_Priorities :: "(string \<times> int) list"
  gf_Rules :: "(string \<times> string) list"
  gf_RuleGroups :: "rule_group list"
  gf_FinalRoute :: "string option"
  gf_KnownHosts :: "string list"

record profile_group =
  pg_ID :: string
  pg_Name :: string
  pg_ChildrenIDs :: "string list"
  pg_LegacyChildren :: "string list"
  pg_Priorities :: "(string \<times> int) list"

record jump_host =
  jh_Remote :: string
  jh_IdentityFile :: string
  jh_IdentityKey :: string

text \<open>The fields of a profile the modelled code looks at. A nil slice or pointer is \<open>None\<close>.\<close>

record profile =
  pf_ID :: string
  pf_Name :: string
  pf_Remote :: string
  pf_IdentityFile :: string
  pf_IdentityKey :: string
  pf_JumpHosts :: "jump_host list"
  pf_Subnets :: "string list option"
  pf_Dns :: string
  pf_ExcludeSubnets :: "string list option"
  pf_Method :: string
  pf_BlockUDP :: "bool option"
  pf_AutoExcludeLAN :: "bool option"
  pf_PoolSize :: int
  pf_LatencyBufferSize :: "u32 option"
  pf_Imported :: bool

record disk =
  dk_rules :: "rule_set node"
  dk_settings :: "global_settings node"
  dk_profiles :: "profile list node"
  dk_priorities :: "(string \<times> int) list node"
  dk_routes :: "(string \<times> string) list node"
  dk_groups :: "(string \<times> group_file node) list"
  dk_fails :: "string \<Rightarrow> bool"

text \<open>\<open>writeJSONAtomic\<close>: a temporary file renamed over the path, so all or nothing.\<close>

definition writeJSONAtomic :: "bool \<Rightarrow> 'a \<Rightarrow> 'a node \<Rightarrow> 'a node option" where
  "writeJSONAtomic fails v old =
     (if fails then None else case old of Directory \<Rightarrow> None | _ \<Rightarrow> Some (Holds v))"

text \<open>The shape of every loader: defaults for a missing or blank file.\<close>

definition load_node :: "'a \<Rightarrow> ('a \<Rightarrow> 'a) \<Rightarrow> 'a node \<Rightarrow> 'a outcome" where
  "load_node dflt fix n =
     (case n of
        Missing \<Rightarrow> Inr dflt
      | Directory \<Rightarrow> Inl ReadFail
      | Unreadable \<Rightarrow> Inl ReadFail
      | Blank \<Rightarrow> Inr dflt
      | Broken \<Rightarrow> Inl ParseFail
      | Holds v \<Rightarrow> Inr (fix v))"

section \<open>Settings, priorities and legacy routes\<close>

definition DefaultGlobalSettings :: global_settings where
  "DefaultGlobalSettings =
     \<lparr>gs_AutoConnectProfileID = [], gs_TrayDisplayMode = ''speed'', gs_ActiveGroupID = [],
      gs_LanSocks5Port = None, gs_LanHTTPPort = None\<rparr>"

definition LoadSettings :: "disk \<Rightarrow> global_settings outcome" where
  "LoadSettings d =
     load_node DefaultGlobalSettings
       (\<lambda>s. if gs_TrayDisplayMode s = [] then s\<lparr>gs_TrayDisplayMode := ''speed''\<rparr> else s) (dk_settings d)"

definition SaveSettings :: "global_settings \<Rightarrow> disk \<Rightarrow> disk \<times> unit outcome" where
  "SaveSettings s d =
     (case writeJSONAtomic (dk_fails d ''settings.json'') s (dk_settings d) of
        None \<Rightarrow> (d, Inl WriteFail)
      | Some n \<Rightarrow> (d\<lparr>dk_settings := n\<rparr>, Inr ()))"

definition LoadPriorities :: "disk \<Rightarrow> (string \<times> int) list outcome" where
  "LoadPriorities d = load_node [] id (dk_priorities d)"

definition SavePriorities :: "(string \<times> int) list \<Rightarrow> disk \<Rightarrow> disk \<times> unit outcome" where
  "SavePriorities p d =
     (case writeJSONAtomic (dk_fails d ''priorities.json'') p (dk_priorities d) of
        None \<Rightarrow> (d, Inl WriteFail)
      | Some n \<Rightarrow> (d\<lparr>dk_priorities := n\<rparr>, Inr ()))"

definition LoadRoutes :: "disk \<Rightarrow> (string \<times> string) list outcome" where
  "LoadRoutes d = load_node [] id (dk_routes d)"

section \<open>The rule set\<close>

definition MaxKnownHosts :: nat where "MaxKnownHosts = 1000"

definition EmptyRuleSet :: rule_set where
  "EmptyRuleSet = \<lparr>rs_Rules = [], rs_RuleGroups = [], rs_FinalRoute = RouteTunnel, rs_KnownHosts = []\<rparr>"

definition capKnownHosts :: "string list \<Rightarrow> string list" where
  "capKnownHosts h = (if length h > MaxKnownHosts then drop (length h - MaxKnownHosts) h else h)"

definition normalize_rules :: "rule_set \<Rightarrow> rule_set" where
  "normalize_rules r =
     r\<lparr>rs_FinalRoute := NormalizeFinalRoute (rs_FinalRoute r), rs_KnownHosts := capKnownHosts (rs_KnownHosts r)\<rparr>"

text \<open>What \<open>RouteMode.UnmarshalJSON\<close> does to the kinds of a decoded rule set.\<close>

definition decode_route_group :: "rule_group \<Rightarrow> rule_group" where
  "decode_route_group g = g\<lparr>rg_Route := NormalizeRouteKind (rg_Route g)\<rparr>"

definition decode_rules :: "rule_set \<Rightarrow> rule_set" where
  "decode_rules r =
     r\<lparr>rs_Rules := map (\<lambda>(h, k). (h, NormalizeRouteKind k)) (rs_Rules r),
       rs_RuleGroups := map decode_route_group (rs_RuleGroups r),
       rs_FinalRoute := NormalizeRouteKind (rs_FinalRoute r)\<rparr>"

definition SaveRules :: "rule_set \<Rightarrow> disk \<Rightarrow> disk \<times> unit outcome" where
  "SaveRules rs d =
     (case writeJSONAtomic (dk_fails d ''rules.json'') (normalize_rules rs) (dk_rules d) of
        None \<Rightarrow> (d, Inl WriteFail)
      | Some n \<Rightarrow> (d\<lparr>dk_rules := n\<rparr>, Inr ()))"

section \<open>Migration of the rules of the group files\<close>

record legacy_rules =
  lg_ID :: string
  lg_Rules :: "(string \<times> string) list"
  lg_RuleGroups :: "rule_group list"
  lg_FinalRoute :: "string option"
  lg_KnownHosts :: "string list"

definition legacy_of :: "string \<Rightarrow> group_file \<Rightarrow> legacy_rules" where
  "legacy_of name gf =
     \<lparr>lg_ID = (if gf_ID gf = [] then trim_suffix name ''.json'' else gf_ID gf),
      lg_Rules = map (\<lambda>(h, k). (h, NormalizeRouteKind k)) (gf_Rules gf),
      lg_RuleGroups = map decode_route_group (gf_RuleGroups gf),
      lg_FinalRoute = map_option NormalizeRouteKind (gf_FinalRoute gf),
      lg_KnownHosts = gf_KnownHosts gf\<rparr>"

fun read_legacy :: "(string \<times> group_file node) list \<Rightarrow> legacy_rules list outcome" where
  "read_legacy [] = Inr []"
| "read_legacy ((name, n) # es) =
     (if n = Directory \<or> \<not> has_suffix name ''.json'' then read_legacy es
      else
        (case n of
           Blank \<Rightarrow> read_legacy es
         | Broken \<Rightarrow> Inl ParseFail
         | Holds gf \<Rightarrow>
             (case read_legacy es of Inl e \<Rightarrow> Inl e | Inr gs \<Rightarrow> Inr (legacy_of name gf # gs))
         | _ \<Rightarrow> Inl ReadFail))"

fun split_active :: "string \<Rightarrow> legacy_rules list \<Rightarrow> legacy_rules option \<times> legacy_rules list" where
  "split_active aid [] = (None, [])"
| "split_active aid (g # gs) =
     (if aid \<noteq> [] \<and> lg_ID g = aid then (Some g, gs)
      else (case split_active aid gs of (a, others) \<Rightarrow> (a, g # others)))"

definition merge_rules :: "legacy_rules \<Rightarrow> (string \<times> string) list \<Rightarrow> (string \<times> string) list" where
  "merge_rules g rules = fold (\<lambda>(host, mode). AList.update host (NormalizeRouteKind mode)) (lg_Rules g) rules"

text \<open>Appending what is not there yet, by a key: the \<open>seenGroup\<close> and \<open>seenHost\<close> loops.\<close>

definition add_unseen :: "('a \<Rightarrow> 'b) \<Rightarrow> 'a \<Rightarrow> 'a list \<Rightarrow> 'a list" where
  "add_unseen key x xs = (if key x \<in> key ` set xs then xs else xs @ [x])"

definition addGroups :: "legacy_rules \<Rightarrow> rule_group list \<Rightarrow> rule_group list" where
  "addGroups g rgs = fold (\<lambda>rg. add_unseen rg_ID (decode_route_group rg)) (lg_RuleGroups g) rgs"

definition merge_legacy :: "legacy_rules option \<Rightarrow> legacy_rules list \<Rightarrow> rule_set" where
  "merge_legacy active others0 =
     (let others = sort_key lg_ID others0;
          act = (case active of None \<Rightarrow> [] | Some a \<Rightarrow> [a]);
          ordered = others @ act
      in \<lparr>rs_Rules = fold merge_rules ordered [],
          rs_RuleGroups = fold addGroups (act @ others) [],
          rs_FinalRoute =
            (case active of
               Some a \<Rightarrow> (case lg_FinalRoute a of Some m \<Rightarrow> NormalizeFinalRoute m | None \<Rightarrow> RouteTunnel)
             | None \<Rightarrow> RouteTunnel),
          rs_KnownHosts =
            capKnownHosts (fold (\<lambda>g. fold (add_unseen id) (lg_KnownHosts g)) ordered [])\<rparr>)"

definition migrateRules :: "disk \<Rightarrow> rule_set outcome" where
  "migrateRules d =
     (case read_legacy (dk_groups d) of
        Inl e \<Rightarrow> Inl e
      | Inr gs \<Rightarrow>
          if gs = [] then Inr EmptyRuleSet
          else
            (let settings = (case LoadSettings d of Inl _ \<Rightarrow> DefaultGlobalSettings | Inr s \<Rightarrow> s);
                 (active, others) = split_active (gs_ActiveGroupID settings) gs
             in Inr (merge_legacy active others)))"

definition LoadRules :: "disk \<Rightarrow> disk \<times> rule_set outcome" where
  "LoadRules d =
     (case dk_rules d of
        Missing \<Rightarrow>
          (case migrateRules d of
             Inl e \<Rightarrow> (d, Inl e)
           | Inr rs \<Rightarrow>
               (case SaveRules rs d of
                  (d', Inl e) \<Rightarrow> (d', Inl e)
                | (d', Inr _) \<Rightarrow> (d', Inr rs)))
      | Directory \<Rightarrow> (d, Inl ReadFail)
      | Unreadable \<Rightarrow> (d, Inl ReadFail)
      | Blank \<Rightarrow> (d, Inr EmptyRuleSet)
      | Broken \<Rightarrow> (d, Inl ParseFail)
      | Holds rs \<Rightarrow> (d, Inr (normalize_rules (decode_rules rs))))"

definition ensureRulesMigrated :: "disk \<Rightarrow> disk \<times> unit outcome" where
  "ensureRulesMigrated d =
     (if dk_rules d \<noteq> Missing then (d, Inr ())
      else (case LoadRules d of (d', Inl e) \<Rightarrow> (d', Inl e) | (d', Inr _) \<Rightarrow> (d', Inr ())))"

section \<open>Group files\<close>

definition group_of_file :: "group_file \<Rightarrow> profile_group" where
  "group_of_file gf =
     \<lparr>pg_ID = gf_ID gf, pg_Name = gf_Name gf, pg_ChildrenIDs = gf_ChildrenIDs gf,
      pg_LegacyChildren = gf_Children gf, pg_Priorities = gf_Priorities gf\<rparr>"

definition NormalizeLegacy :: "profile_group \<Rightarrow> profile_group \<times> bool" where
  "NormalizeLegacy g =
     (let migrated = pg_ChildrenIDs g = [] \<and> pg_LegacyChildren g \<noteq> [];
          ids = (if migrated then pg_LegacyChildren g else pg_ChildrenIDs g);
          hadLegacy = pg_LegacyChildren g \<noteq> []
      in (g\<lparr>pg_ChildrenIDs := ids, pg_LegacyChildren := []\<rparr>, migrated \<or> hadLegacy))"

text \<open>The slim shape that is written: no embedded profiles, no rules.\<close>

definition marshalForDisk :: "profile_group \<Rightarrow> group_file" where
  "marshalForDisk g =
     \<lparr>gf_ID = pg_ID g, gf_Name = pg_Name g, gf_ChildrenIDs = pg_ChildrenIDs g, gf_Children = [],
      gf_Priorities = pg_Priorities g, gf_Rules = [], gf_RuleGroups = [], gf_FinalRoute = None,
      gf_KnownHosts = []\<rparr>"

definition validateGroupID :: "string \<Rightarrow> bool" where
  "validateGroupID gid \<longleftrightarrow> \<not> (gid = [] \<or> CHR ''/'' \<in> set gid \<or> CHR 0x5C \<in> set gid)"

definition group_node :: "disk \<Rightarrow> string \<Rightarrow> group_file node" where
  "group_node d name = (case map_of (dk_groups d) name of None \<Rightarrow> Missing | Some n \<Rightarrow> n)"

text \<open>The directory listing is sorted by name.\<close>

fun put_entry :: "string \<Rightarrow> 'a \<Rightarrow> (string \<times> 'a) list \<Rightarrow> (string \<times> 'a) list" where
  "put_entry k v [] = [(k, v)]"
| "put_entry k v ((k', v') # es) =
     (if k = k' then (k, v) # es
      else if k < k' then (k, v) # (k', v') # es
      else (k', v') # put_entry k v es)"

definition SaveGroup :: "profile_group \<Rightarrow> disk \<Rightarrow> disk \<times> unit outcome" where
  "SaveGroup g d =
     (if \<not> validateGroupID (pg_ID g) then (d, Inl BadGroupID)
      else
        (case ensureRulesMigrated d of
           (d1, Inl e) \<Rightarrow> (d1, Inl e)
         | (d1, Inr _) \<Rightarrow>
             (let name = pg_ID g @ ''.json'' in
              case writeJSONAtomic (dk_fails d1 name) (marshalForDisk g) (group_node d1 name) of
                None \<Rightarrow> (d1, Inl WriteFail)
              | Some n \<Rightarrow> (d1\<lparr>dk_groups := put_entry name n (dk_groups d1)\<rparr>, Inr ()))))"

definition DeleteGroup :: "string \<Rightarrow> disk \<Rightarrow> disk \<times> unit outcome" where
  "DeleteGroup gid d =
     (if \<not> validateGroupID gid then (d, Inl BadGroupID)
      else
        (case ensureRulesMigrated d of
           (d1, Inl e) \<Rightarrow> (d1, Inl e)
         | (d1, Inr _) \<Rightarrow>
             (let name = gid @ ''.json'' in
              if group_node d1 name = Missing then (d1, Inr ())
              else if dk_fails d1 name then (d1, Inl WriteFail)
              else (d1\<lparr>dk_groups := filter (\<lambda>e. fst e \<noteq> name) (dk_groups d1)\<rparr>, Inr ()))))"

definition LoadGroup :: "string \<Rightarrow> disk \<Rightarrow> disk \<times> profile_group option outcome" where
  "LoadGroup gid d =
     (if \<not> validateGroupID gid then (d, Inl BadGroupID)
      else
        (case group_node d (gid @ ''.json'') of
           Missing \<Rightarrow> (d, Inr None)
         | Directory \<Rightarrow> (d, Inl ReadFail)
         | Unreadable \<Rightarrow> (d, Inl ReadFail)
         | Blank \<Rightarrow> (d, Inr None)
         | Broken \<Rightarrow> (d, Inl ParseFail)
         | Holds gf \<Rightarrow>
             (let (g, changed) = NormalizeLegacy (group_of_file gf) in
              (if changed then fst (SaveGroup g d) else d, Inr (Some g)))))"

text \<open>The loop of \<open>ListGroups\<close> over the directory listing; a rewrite of a legacy group may fail unnoticed.\<close>

fun list_entries :: "(string \<times> group_file node) list \<Rightarrow> disk \<Rightarrow> profile_group list \<Rightarrow> disk \<times> profile_group list outcome" where
  "list_entries [] d acc = (d, Inr acc)"
| "list_entries ((name, n) # es) d acc =
     (if n = Directory \<or> \<not> has_suffix name ''.json'' then list_entries es d acc
      else
        (case group_node d name of
           Blank \<Rightarrow> list_entries es d acc
         | Broken \<Rightarrow> (d, Inl ParseFail)
         | Holds gf \<Rightarrow>
             (let (g, changed) = NormalizeLegacy (group_of_file gf) in
              list_entries es (if changed then fst (SaveGroup g d) else d) (acc @ [g]))
         | _ \<Rightarrow> (d, Inl ReadFail)))"

definition ListGroups :: "disk \<Rightarrow> disk \<times> profile_group list outcome" where
  "ListGroups d =
     (case list_entries (dk_groups d) d [] of
        (d', Inl e) \<Rightarrow> (d', Inl e)
      | (d', Inr gs) \<Rightarrow> (d', Inr (sort_key pg_Name gs)))"

section \<open>The first group\<close>

definition outcome_or :: "'a \<Rightarrow> 'a outcome \<Rightarrow> 'a" where
  "outcome_or dflt r = (case r of Inl _ \<Rightarrow> dflt | Inr x \<Rightarrow> x)"

definition LoadProfiles :: "disk \<Rightarrow> profile list outcome" where
  "LoadProfiles d = load_node [] id (dk_profiles d)"

definition default_group_file :: "disk \<Rightarrow> group_file" where
  "default_group_file d =
     (let fresh = (dk_rules d = Missing) in
      \<lparr>gf_ID = ''default'', gf_Name = ''Default'',
       gf_ChildrenIDs = map pf_ID (outcome_or [] (LoadProfiles d)), gf_Children = [],
       gf_Priorities = outcome_or [] (LoadPriorities d),
       gf_Rules = (if fresh then map (\<lambda>(h, m). (h, NormalizeRouteKind m)) (outcome_or [] (LoadRoutes d)) else []),
       gf_RuleGroups = [], gf_FinalRoute = (if fresh then Some RouteTunnel else None), gf_KnownHosts = []\<rparr>)"

definition MigrateV2 :: "disk \<Rightarrow> disk \<times> unit outcome" where
  "MigrateV2 d =
     (let node = group_node d ''default.json''; settings = outcome_or DefaultGlobalSettings (LoadSettings d) in
      if node \<noteq> Missing then (d, Inr ())
      else
        (case writeJSONAtomic (dk_fails d ''default.json'') (default_group_file d) node of
           None \<Rightarrow> (d, Inl WriteFail)
         | Some n \<Rightarrow>
             (let d1 = d\<lparr>dk_groups := put_entry ''default.json'' n (dk_groups d)\<rparr> in
              if gs_ActiveGroupID settings = [] then SaveSettings (settings\<lparr>gs_ActiveGroupID := ''default''\<rparr>) d1
              else (d1, Inr ()))))"

section \<open>The profile list\<close>

definition NormalizeProfile :: "profile \<Rightarrow> profile" where
  "NormalizeProfile p =
     p\<lparr>pf_Subnets := Some (case pf_Subnets p of None \<Rightarrow> [] | Some xs \<Rightarrow> xs),
       pf_ExcludeSubnets := Some (case pf_ExcludeSubnets p of None \<Rightarrow> [] | Some xs \<Rightarrow> xs),
       pf_Dns := (if pf_Dns p = [] then ''off'' else pf_Dns p),
       pf_Method := (if pf_Method p = [] then ''auto'' else pf_Method p)\<rparr>"

definition SaveProfiles :: "profile list \<Rightarrow> disk \<Rightarrow> disk \<times> unit outcome" where
  "SaveProfiles ps d =
     (case writeJSONAtomic (dk_fails d ''profiles.json'') (map NormalizeProfile ps) (dk_profiles d) of
        None \<Rightarrow> (d, Inl WriteFail)
      | Some n \<Rightarrow> (d\<lparr>dk_profiles := n\<rparr>, Inr ()))"

fun upsert :: "profile \<Rightarrow> profile list \<Rightarrow> profile list" where
  "upsert p [] = [p]"
| "upsert p (q # qs) = (if pf_ID q = pf_ID p then p # qs else q # upsert p qs)"

definition save_and_return :: "profile list \<Rightarrow> disk \<Rightarrow> disk \<times> profile list outcome" where
  "save_and_return ps d =
     (case SaveProfiles ps d of (d', Inl e) \<Rightarrow> (d', Inl e) | (d', Inr _) \<Rightarrow> (d', Inr ps))"

definition UpsertProfile :: "profile \<Rightarrow> disk \<Rightarrow> disk \<times> profile list outcome" where
  "UpsertProfile p d =
     (case LoadProfiles d of Inl e \<Rightarrow> (d, Inl e) | Inr ps \<Rightarrow> save_and_return (upsert p ps) d)"

definition RemoveProfile :: "string \<Rightarrow> disk \<Rightarrow> disk \<times> profile list outcome" where
  "RemoveProfile pid d =
     (case LoadProfiles d of
        Inl e \<Rightarrow> (d, Inl e)
      | Inr ps \<Rightarrow> save_and_return (filter (\<lambda>p. pf_ID p \<noteq> pid) ps) d)"

definition FindProfile :: "profile list \<Rightarrow> string \<Rightarrow> profile option" where
  "FindProfile ps pid = find (\<lambda>p. pf_ID p = pid) ps"

section \<open>Lemmas on the merge\<close>

lemma final_kind [simp]: "NormalizeRouteKind (NormalizeFinalRoute m) = NormalizeFinalRoute m"
  "NormalizeFinalRoute (NormalizeRouteKind m) = NormalizeFinalRoute m"
  "NormalizeFinalRoute (NormalizeFinalRoute m) = NormalizeFinalRoute m"
  "NormalizeFinalRoute RouteTunnel = RouteTunnel"
  by (simp_all add: NormalizeFinalRoute_def)

lemma capKnownHosts_eq: "capKnownHosts h = last_n MaxKnownHosts h"
  by (simp add: capKnownHosts_def last_n_def)

lemma capKnownHosts_idem [simp]: "capKnownHosts (capKnownHosts h) = capKnownHosts h"
  by (simp add: capKnownHosts_eq)

lemma fold_add_unseen_distinct:
  "(\<And>x. key (f x) = key x) \<Longrightarrow> distinct (map key acc) \<Longrightarrow>
     distinct (map key (fold (\<lambda>x. add_unseen key (f x)) xs acc))"
  by (induction xs arbitrary: acc) (auto simp: add_unseen_def)

lemma fold_add_unseen_keys:
  "(\<And>x. key (f x) = key x) \<Longrightarrow>
     key ` set (fold (\<lambda>x. add_unseen key (f x)) xs acc) = key ` set acc \<union> key ` set xs"
  by (induction xs arbitrary: acc) (auto simp: add_unseen_def)

lemma fold_add_unseen_prefix: "\<exists>t. fold (\<lambda>x. add_unseen key (f x)) xs acc = acc @ t"
proof (induction xs arbitrary: acc)
  case (Cons x xs)
  from Cons [of "add_unseen key (f x) acc"] show ?case by (auto simp: add_unseen_def)
qed simp

lemma fold_add_unseen_new:
  "(\<And>x. key (f x) = key x) \<Longrightarrow> distinct (map key (acc @ xs)) \<Longrightarrow>
     fold (\<lambda>x. add_unseen key (f x)) xs acc = acc @ map f xs"
proof (induction xs arbitrary: acc)
  case (Cons x xs)
  then have "key (f x) \<notin> key ` set acc" by auto
  moreover have "distinct (map key ((acc @ [f x]) @ xs))" using Cons.prems by auto
  ultimately show ?case using Cons.IH [OF Cons.prems(1), of "acc @ [f x]"] by (simp add: add_unseen_def)
qed simp

lemma decode_route_group_ID [simp]: "rg_ID (decode_route_group g) = rg_ID g"
  by (simp add: decode_route_group_def)

lemma decode_route_group_idem [simp]: "decode_route_group (decode_route_group g) = decode_route_group g"
  by (simp add: decode_route_group_def)

lemma addGroups_distinct: "distinct (map rg_ID rgs) \<Longrightarrow> distinct (map rg_ID (addGroups g rgs))"
  unfolding addGroups_def by (rule fold_add_unseen_distinct) simp_all

lemma addGroups_keys: "rg_ID ` set (addGroups g rgs) = rg_ID ` set rgs \<union> rg_ID ` set (lg_RuleGroups g)"
  unfolding addGroups_def by (rule fold_add_unseen_keys) simp

lemma addGroups_prefix: "\<exists>t. addGroups g rgs = rgs @ t"
  unfolding addGroups_def by (rule fold_add_unseen_prefix)

lemma fold_addGroups_prefix: "\<exists>t. fold addGroups gs rgs = rgs @ t"
proof (induction gs arbitrary: rgs)
  case (Cons g gs)
  obtain t where t: "addGroups g rgs = rgs @ t" using addGroups_prefix by blast
  obtain u where "fold addGroups gs (addGroups g rgs) = addGroups g rgs @ u" using Cons by blast
  with t show ?case by simp
qed simp

lemma fold_addGroups_distinct: "distinct (map rg_ID rgs) \<Longrightarrow> distinct (map rg_ID (fold addGroups gs rgs))"
  by (induction gs arbitrary: rgs) (simp_all add: addGroups_distinct)

lemma fold_addGroups_keys:
  "rg_ID ` set (fold addGroups gs rgs) = rg_ID ` set rgs \<union> (\<Union>g\<in>set gs. rg_ID ` set (lg_RuleGroups g))"
  by (induction gs arbitrary: rgs) (simp_all add: addGroups_keys Un_assoc)

definition kind_ok :: "string \<Rightarrow> bool" where
  "kind_ok k \<longleftrightarrow> NormalizeRouteKind k = k"

lemma kind_ok_normalize [simp]: "kind_ok (NormalizeRouteKind k)"
  by (simp add: kind_ok_def)

lemma decode_route_group_ok [simp]: "kind_ok (rg_Route (decode_route_group g))"
  by (simp add: decode_route_group_def)

lemma decode_groups_fixed: "list_all (\<lambda>g. kind_ok (rg_Route g)) gs \<Longrightarrow> map decode_route_group gs = gs"
  by (induction gs) (simp_all add: kind_ok_def decode_route_group_def)

lemma decode_kinds_fixed: "list_all (\<lambda>e. kind_ok (snd e)) es \<Longrightarrow> map (\<lambda>(h, k). (h, NormalizeRouteKind k)) es = es"
  by (induction es) (auto simp: kind_ok_def)

lemma add_unseen_ok:
  "list_all (\<lambda>g. kind_ok (rg_Route g)) acc \<Longrightarrow>
     list_all (\<lambda>g. kind_ok (rg_Route g)) (fold (\<lambda>rg. add_unseen rg_ID (decode_route_group rg)) xs acc)"
  by (induction xs arbitrary: acc) (simp_all add: add_unseen_def)

lemma fold_addGroups_ok:
  "list_all (\<lambda>g. kind_ok (rg_Route g)) acc \<Longrightarrow> list_all (\<lambda>g. kind_ok (rg_Route g)) (fold addGroups gs acc)"
  by (induction gs arbitrary: acc) (simp_all add: addGroups_def add_unseen_ok)

text \<open>The override map: a later group's entry replaces an earlier one's.\<close>

lemma map_of_merge_rules:
  "distinct (map fst (lg_Rules g)) \<Longrightarrow>
     map_of (merge_rules g rules) = map_of rules ++ (\<lambda>h. map_option NormalizeRouteKind (map_of (lg_Rules g) h))"
  unfolding merge_rules_def
proof (induction "lg_Rules g" arbitrary: rules g)
  case Nil
  then show ?case by (simp add: map_add_def)
next
  case (Cons kv kvs)
  obtain k v where kv: "kv = (k, v)" by fastforce
  define g' where "g' = g\<lparr>lg_Rules := kvs\<rparr>"
  have "map_of kvs k = None" using Cons kv by (metis distinct.simps(2) fst_conv list.simps(9) map_of_eq_None_iff set_map)
  then show ?case
    using Cons.hyps(1) [of g'] Cons.prems
    by (auto simp: Cons.hyps(2) [symmetric] g'_def kv update_conv' fun_eq_iff map_add_def split: option.splits)
qed

lemma map_of_merge_all:
  "\<forall>g\<in>set gs. distinct (map fst (lg_Rules g)) \<Longrightarrow>
     map_of (fold merge_rules gs rules) =
       foldl (++) (map_of rules) (map (\<lambda>g h. map_option NormalizeRouteKind (map_of (lg_Rules g) h)) gs)"
  by (induction gs arbitrary: rules) (simp_all add: map_of_merge_rules)

lemma merge_rules_ok:
  "list_all (\<lambda>e. kind_ok (snd e)) rules \<Longrightarrow> list_all (\<lambda>e. kind_ok (snd e)) (merge_rules g rules)"
proof -
  have upd: "list_all (\<lambda>e. kind_ok (snd e)) (AList.update a b al)"
    if "list_all (\<lambda>e. kind_ok (snd e)) al" "kind_ok b" for a b al
    using that by (induction al) auto
  have "list_all (\<lambda>e. kind_ok (snd e)) (fold (\<lambda>(host, mode). AList.update host (NormalizeRouteKind mode)) kvs rules)"
    if "list_all (\<lambda>e. kind_ok (snd e)) rules" for kvs rules
    using that by (induction kvs arbitrary: rules) (simp_all add: case_prod_beta upd)
  then show "list_all (\<lambda>e. kind_ok (snd e)) rules \<Longrightarrow> ?thesis" by (simp add: merge_rules_def)
qed

lemma fold_merge_ok:
  "list_all (\<lambda>e. kind_ok (snd e)) rules \<Longrightarrow> list_all (\<lambda>e. kind_ok (snd e)) (fold merge_rules gs rules)"
  by (induction gs arbitrary: rules) (simp_all add: merge_rules_ok)

text \<open>What a migration produces is already in the form that reading it back gives.\<close>

definition rules_clean :: "rule_set \<Rightarrow> bool" where
  "rules_clean rs \<longleftrightarrow> normalize_rules (decode_rules (normalize_rules rs)) = rs"

lemma merge_legacy_clean: "rules_clean (merge_legacy active others)"
proof -
  have r: "map (\<lambda>(h, k). (h, NormalizeRouteKind k)) (fold merge_rules gs []) = fold merge_rules gs []" for gs
    by (rule decode_kinds_fixed, rule fold_merge_ok) simp
  have g: "map decode_route_group (fold addGroups gs []) = fold addGroups gs []" for gs
    by (rule decode_groups_fixed, rule fold_addGroups_ok) simp
  show ?thesis
    unfolding rules_clean_def merge_legacy_def Let_def normalize_rules_def decode_rules_def
    by (simp add: r g del: fold_append fold_simps split: option.split)
qed

lemma migrateRules_clean:
  assumes "migrateRules d = Inr rs"
  shows "rules_clean rs"
proof -
  have "rules_clean EmptyRuleSet"
    by (simp add: rules_clean_def EmptyRuleSet_def normalize_rules_def decode_rules_def capKnownHosts_def)
  moreover have "\<exists>a os. rs = EmptyRuleSet \<or> rs = merge_legacy a os"
    using assms unfolding migrateRules_def Let_def case_prod_beta
    by (auto simp del: split_active.simps split: sum.splits if_splits)
  ultimately show ?thesis using merge_legacy_clean by blast
qed

section \<open>Group files never lose rules\<close>

lemma LoadRules_Holds: "dk_rules d = Holds rs \<Longrightarrow> LoadRules d = (d, Inr (normalize_rules (decode_rules rs)))"
  by (simp add: LoadRules_def)

lemma LoadRules_not_Missing: "dk_rules d \<noteq> Missing \<Longrightarrow> fst (LoadRules d) = d"
  by (cases "dk_rules d") (simp_all add: LoadRules_def)

lemma LoadRules_only_rules:
  "dk_rules d \<noteq> Missing \<Longrightarrow> dk_rules d' = dk_rules d \<Longrightarrow> snd (LoadRules d') = snd (LoadRules d)"
  by (cases "dk_rules d") (simp_all add: LoadRules_def)

lemma LoadRules_Missing:
  assumes "dk_rules d = Missing"
  shows "(\<exists>e. LoadRules d = (d, Inl e)) \<or>
    (\<exists>rs. migrateRules d = Inr rs \<and> LoadRules d = (d\<lparr>dk_rules := Holds (normalize_rules rs)\<rparr>, Inr rs))"
  using assms by (auto simp: LoadRules_def SaveRules_def writeJSONAtomic_def split: sum.splits)

lemma LoadRules_again: "snd (LoadRules (fst (LoadRules d))) = snd (LoadRules d)"
proof (cases "dk_rules d = Missing")
  case True
  from LoadRules_Missing [OF True] show ?thesis
  proof
    assume "\<exists>rs. migrateRules d = Inr rs \<and> LoadRules d = (d\<lparr>dk_rules := Holds (normalize_rules rs)\<rparr>, Inr rs)"
    then obtain rs where rs: "migrateRules d = Inr rs"
      "LoadRules d = (d\<lparr>dk_rules := Holds (normalize_rules rs)\<rparr>, Inr rs)" by blast
    then show ?thesis using migrateRules_clean [OF rs(1)] by (simp add: LoadRules_Holds rules_clean_def)
  qed auto
qed (simp add: LoadRules_not_Missing)

lemma ensure_cases:
  "(\<exists>e. ensureRulesMigrated d = (d, Inl e)) \<or>
   (\<exists>d1. ensureRulesMigrated d = (d1, Inr ()) \<and> d1 = fst (LoadRules d) \<and> dk_rules d1 \<noteq> Missing)"
proof (cases "dk_rules d = Missing")
  case True
  then show ?thesis using LoadRules_Missing [OF True] by (auto simp: ensureRulesMigrated_def)
qed (simp add: ensureRulesMigrated_def LoadRules_not_Missing)

lemma rules_kept_after_ensure:
  assumes "d1 = fst (LoadRules d)" "dk_rules d1 \<noteq> Missing" "dk_rules d2 = dk_rules d1"
  shows "snd (LoadRules d2) = snd (LoadRules d)"
  using LoadRules_only_rules [OF assms(2,3)] LoadRules_again [of d] assms(1) by simp

lemma SaveGroup_keeps_rules: "snd (LoadRules (fst (SaveGroup g d))) = snd (LoadRules d)"
  using ensure_cases [of d]
proof
  assume "\<exists>e. ensureRulesMigrated d = (d, Inl e)"
  then show ?thesis by (auto simp: SaveGroup_def)
next
  assume "\<exists>d1. ensureRulesMigrated d = (d1, Inr ()) \<and> d1 = fst (LoadRules d) \<and> dk_rules d1 \<noteq> Missing"
  then obtain d1 where d1: "ensureRulesMigrated d = (d1, Inr ())" "d1 = fst (LoadRules d)" "dk_rules d1 \<noteq> Missing"
    by blast
  note kept = rules_kept_after_ensure [OF d1(2,3)]
  show ?thesis by (auto simp: SaveGroup_def Let_def d1(1) intro!: kept split: option.splits)
qed

lemma DeleteGroup_keeps_rules: "snd (LoadRules (fst (DeleteGroup gid d))) = snd (LoadRules d)"
  using ensure_cases [of d]
proof
  assume "\<exists>e. ensureRulesMigrated d = (d, Inl e)"
  then show ?thesis by (auto simp: DeleteGroup_def)
next
  assume "\<exists>d1. ensureRulesMigrated d = (d1, Inr ()) \<and> d1 = fst (LoadRules d) \<and> dk_rules d1 \<noteq> Missing"
  then obtain d1 where d1: "ensureRulesMigrated d = (d1, Inr ())" "d1 = fst (LoadRules d)" "dk_rules d1 \<noteq> Missing"
    by blast
  note kept = rules_kept_after_ensure [OF d1(2,3)]
  show ?thesis by (auto simp: DeleteGroup_def Let_def d1(1) intro!: kept)
qed

lemma LoadGroup_keeps_rules: "snd (LoadRules (fst (LoadGroup gid d))) = snd (LoadRules d)"
  by (auto simp: LoadGroup_def case_prod_beta SaveGroup_keeps_rules split: node.splits)

lemma list_entries_keeps_rules: "snd (LoadRules (fst (list_entries es d acc))) = snd (LoadRules d)"
proof (induction es d acc rule: list_entries.induct)
  case (2 name n es d acc)
  then show ?case
    by (auto simp: case_prod_beta SaveGroup_keeps_rules Let_def split: node.splits)
qed simp

lemma ListGroups_fst: "fst (ListGroups d) = fst (list_entries (dk_groups d) d [])"
  by (simp add: ListGroups_def case_prod_beta split: sum.split)

datatype group_op = OpSave profile_group | OpDelete string | OpLoad string | OpList | OpRules

definition group_step :: "disk \<Rightarrow> group_op \<Rightarrow> disk" where
  "group_step d op =
     (case op of
        OpSave g \<Rightarrow> fst (SaveGroup g d)
      | OpDelete gid \<Rightarrow> fst (DeleteGroup gid d)
      | OpLoad gid \<Rightarrow> fst (LoadGroup gid d)
      | OpList \<Rightarrow> fst (ListGroups d)
      | OpRules \<Rightarrow> fst (LoadRules d))"

interpretation rules_kept: invariant_step group_step "\<lambda>d. snd (LoadRules d) = r" "\<lambda>_. True" for r
  by unfold_locales
    (auto simp: group_step_def SaveGroup_keeps_rules DeleteGroup_keeps_rules LoadGroup_keeps_rules
       ListGroups_fst list_entries_keeps_rules LoadRules_again split: group_op.split)

text \<open>
  C6: work on the group files never loses a routing rule. The rules an old installation keeps
  in its group files, as the first load would migrate them, are what a load returns after any
  sequence of saving, deleting, reading and listing groups, in any order, with the rules file
  there or not and with files that fail to be read or written on the way.
\<close>

theorem group_files_keep_rules: "snd (LoadRules (foldl group_step d ops)) = snd (LoadRules d)"
  using rules_kept.run_inv [of d "snd (LoadRules d)" ops] by (simp add: list_all_iff)

text \<open>The legacy rules that a migration reads.\<close>

definition ex_old_group :: "string \<Rightarrow> (string \<times> string) list \<Rightarrow> rule_group list \<Rightarrow> string list \<Rightarrow> group_file" where
  "ex_old_group gid rules rgs hosts =
     \<lparr>gf_ID = gid, gf_Name = gid, gf_ChildrenIDs = [], gf_Children = [''p1''], gf_Priorities = [],
      gf_Rules = rules, gf_RuleGroups = rgs, gf_FinalRoute = Some ''direct'', gf_KnownHosts = hosts\<rparr>"

definition ex_rg :: "string \<Rightarrow> string \<Rightarrow> rule_group" where
  "ex_rg gid d = \<lparr>rg_ID = gid, rg_Name = gid, rg_Domains = [d], rg_Route = ''direct''\<rparr>"

definition ex_disk :: disk where
  "ex_disk =
     \<lparr>dk_rules = Missing,
      dk_settings = Holds (DefaultGlobalSettings\<lparr>gs_ActiveGroupID := ''b''\<rparr>),
      dk_profiles = Missing, dk_priorities = Blank, dk_routes = Missing,
      dk_groups =
        [(''a.json'', Holds (ex_old_group ''a'' [(''x'', ''direct''), (''y'', ''blocked'')] [ex_rg ''1'' ''d1''] [''h1'', ''h2''])),
         (''b.json'', Holds (ex_old_group ''b'' [(''x'', ''default'')] [ex_rg ''2'' ''d2'', ex_rg ''1'' ''d3''] [''h2'', ''h3'']))],
      dk_fails = (\<lambda>_. False)\<rparr>"

text \<open>
  C0: the precedence of the migration. The active group's override for a host wins; otherwise
  the one of the other group with the greatest id that has one. The active group's rule groups
  come first and no group id occurs twice, though every one occurs; known hosts are distinct,
  at most a thousand; the fallback is the active group's.
\<close>


lemma split_active_set:
  "split_active aid gs = (a, others) \<Longrightarrow> set gs = set others \<union> set_option a"
proof (induction gs arbitrary: others)
  case (Cons g gs)
  show ?case
  proof (cases "aid \<noteq> [] \<and> lg_ID g = aid")
    case True
    then show ?thesis using Cons.prems by auto
  next
    case False
    obtain b os where r: "split_active aid gs = (b, os)" by fastforce
    then have "a = b" "others = g # os" using Cons.prems False by auto
    then show ?thesis using Cons.IH [of os] r by simp
  qed
qed simp

lemma foldl_override:
  "foldl (++) m (map f gs) h = (case first_hit (\<lambda>g. f g h) (rev gs) of Some (_, v) \<Rightarrow> Some v | None \<Rightarrow> m h)"
proof (induction gs rule: rev_induct)
  case (snoc g gs)
  then show ?case by (auto simp: map_add_def split: option.splits)
qed simp

lemma first_hit_map_option:
  "first_hit (\<lambda>g. map_option f (m g)) gs = map_option (\<lambda>(g, v). (g, f v)) (first_hit m gs)"
  by (induction gs) (auto split: option.splits)

lemma migrated_cases:
  assumes "migrateRules d = Inr rs" "read_legacy (dk_groups d) = Inr gs" "gs \<noteq> []" "LoadSettings d = Inr st"
    and "split_active (gs_ActiveGroupID st) gs = (Some a, others)"
  shows "rs = merge_legacy (Some a) others"
  using assms by (simp add: migrateRules_def)

lemma fold_unseen_hosts_distinct: "distinct acc \<Longrightarrow> distinct (fold (\<lambda>g. fold (add_unseen id) (f g)) gs acc)"
proof (induction gs arbitrary: acc)
  case (Cons g gs)
  have "distinct (map id (fold (\<lambda>x. add_unseen id (id x)) (f g) acc))"
    by (rule fold_add_unseen_distinct) (simp_all add: Cons.prems)
  then have "distinct (fold (add_unseen id) (f g) acc)" by (simp add: id_def)
  from Cons.IH [OF this] show ?case by (simp only: fold_simps)
qed simp

text \<open>
  The precedence of the migration. The active group's override for a host wins; otherwise
  the one of the other group with the greatest id that has one. The active group's rule groups
  come first and no group id occurs twice, though every one occurs; known hosts are distinct,
  at most a thousand; the fallback is the active group's.
\<close>

lemma migration_precedence:
  assumes "read_legacy (dk_groups d) = Inr gs" "gs \<noteq> []" "LoadSettings d = Inr st"
    and "split_active (gs_ActiveGroupID st) gs = (Some a, others)"
    and "\<forall>g\<in>set gs. distinct (map fst (lg_Rules g))" "distinct (map rg_ID (lg_RuleGroups a))"
    and "migrateRules d = Inr rs"
  shows "map_of (rs_Rules rs) host =
         map_option (\<lambda>(_, kind). NormalizeRouteKind kind)
           (first_hit (\<lambda>g. map_of (lg_Rules g) host) (a # rev (sort_key lg_ID others)))
       \<and> (\<exists>rest. rs_RuleGroups rs = map decode_route_group (lg_RuleGroups a) @ rest)
       \<and> distinct (map rg_ID (rs_RuleGroups rs))
       \<and> rg_ID ` set (rs_RuleGroups rs) = (\<Union>g\<in>set gs. rg_ID ` set (lg_RuleGroups g))
       \<and> distinct (rs_KnownHosts rs) \<and> length (rs_KnownHosts rs) \<le> MaxKnownHosts
       \<and> rs_FinalRoute rs = (case lg_FinalRoute a of Some m \<Rightarrow> NormalizeFinalRoute m | None \<Rightarrow> RouteTunnel)"
    (is "?rules \<and> ?front \<and> ?ids \<and> ?all \<and> ?hosts \<and> ?final")
proof -
  have rs: "rs = merge_legacy (Some a) others" using migrated_cases [OF assms(7,1-4)] .
  have gs: "set gs = insert a (set others)" using split_active_set [OF assms(4)] by auto
  have m: "rs_Rules rs = fold merge_rules (sort_key lg_ID others @ [a]) []"
    "rs_RuleGroups rs = fold addGroups (a # sort_key lg_ID others) []"
    "rs_KnownHosts rs =
      capKnownHosts (fold (\<lambda>g. fold (add_unseen id) (lg_KnownHosts g)) (sort_key lg_ID others @ [a]) [])"
    by (simp_all add: rs merge_legacy_def Let_def)
  have "map_of (rs_Rules rs) =
      foldl (++) (map_of []) (map (\<lambda>g h. map_option NormalizeRouteKind (map_of (lg_Rules g) h)) (sort_key lg_ID others @ [a]))"
    unfolding m(1) by (rule map_of_merge_all) (use assms(5) gs in auto)
  then have ?rules
    by (simp only: foldl_override first_hit_map_option rev_append rev.simps append_Nil append_Cons)
      (auto split: option.splits)
  moreover have "addGroups a [] = map decode_route_group (lg_RuleGroups a)"
    unfolding addGroups_def
    using fold_add_unseen_new [where key = rg_ID and f = decode_route_group and acc = "[]" and xs = "lg_RuleGroups a"]
      assms(6) by simp
  then have ?front
    using fold_addGroups_prefix [of "sort_key lg_ID others" "addGroups a []"] by (simp add: m)
  moreover have ?ids
    unfolding m(2) by (rule fold_addGroups_distinct) simp
  moreover have ?all
    unfolding m(2) fold_addGroups_keys by (simp add: gs)
  moreover have "distinct (last_n n xs)" if "distinct xs" for n and xs :: "string list"
    using that by (simp add: last_n_def)
  from this [OF fold_unseen_hosts_distinct [of "[]" lg_KnownHosts "sort_key lg_ID others @ [a]"]]
  have ?hosts
    unfolding m(3) capKnownHosts_eq by (simp only: distinct.simps simp_thms)
  moreover have ?final
    by (simp add: rs merge_legacy_def Let_def capKnownHosts_eq split: option.split)
  ultimately show ?thesis by blast
qed

definition ex_migrated :: rule_set where
  "ex_migrated = \<lparr>rs_Rules = [(''x'', ''tunnel''), (''y'', ''blocked'')],
     rs_RuleGroups = [ex_rg ''2'' ''d2'', ex_rg ''1'' ''d3''], rs_FinalRoute = ''direct'',
     rs_KnownHosts = [''h1'', ''h2'', ''h3'']\<rparr>"

end
