(* ===== verification/RouteTable.thy ===== *)
theory RouteTable
  imports DomainRules
begin

text \<open>
  Routing decisions: the compiled table of \<^verbatim>\<open>internal/stats/routes.go\<close> that the proxy asks,
  and the page model of \<^verbatim>\<open>internal/tui/dest_model.go\<close> that shows the user the same decision
  from the stored rules. A Go map that is iterated is the list of its entries in the order
  of the iteration; a map that is only looked up is a partial function.
\<close>

section \<open>The compiled table\<close>

record route_grp =
  rgp_Domains :: "string list"
  rgp_Route :: string

record route_table =
  rt_Overrides :: "(string \<times> string) list"
  rt_Groups :: "route_grp list"
  rt_Final :: string

record norm_table =
  nt_Overrides :: "string \<rightharpoonup> string"
  nt_Groups :: "route_grp list"
  nt_Final :: string

record compiled_routes =
  cr_table :: norm_table
  cr_overrides :: "string \<rightharpoonup> string"
  cr_exact :: "string \<rightharpoonup> nat"
  cr_suffix :: "string \<rightharpoonup> nat"

definition normalizeHost :: "string \<Rightarrow> string" where
  "normalizeHost h = trim_suffix (to_lower (trim_space h)) ''.''"

definition compile_override :: "string \<times> string \<Rightarrow> (string \<rightharpoonup> string) \<Rightarrow> string \<rightharpoonup> string" where
  "compile_override kv m =
     (case kv of (k, v) \<Rightarrow>
        let key = normalizeHost k in
        if key = [] then m else m(key \<mapsto> stats_NormalizeRouteKind v))"

type_synonym scope_index = "(string \<rightharpoonup> nat) \<times> (string \<rightharpoonup> nat)"

definition first_write :: "string \<Rightarrow> nat \<Rightarrow> (string \<rightharpoonup> nat) \<Rightarrow> string \<rightharpoonup> nat" where
  "first_write k i m = (if m k = None then m(k \<mapsto> i) else m)"

definition index_scope :: "nat \<Rightarrow> string \<Rightarrow> scope_index \<Rightarrow> scope_index" where
  "index_scope i nd ix =
     (case ix of (exact, suffix) \<Rightarrow>
        if has_prefix nd ''='' then (first_write (drop 1 nd) i exact, suffix)
        else (exact, first_write nd i suffix))"

definition norm_domains :: "(string \<Rightarrow> string option) \<Rightarrow> string list \<Rightarrow> string list" where
  "norm_domains etld ds = List.map_filter (NormalizeDomain etld) ds"

definition compile_group ::
    "(string \<Rightarrow> string option) \<Rightarrow> nat \<times> route_grp \<Rightarrow> route_grp list \<times> scope_index \<Rightarrow> route_grp list \<times> scope_index" where
  "compile_group etld ig acc =
     (case (ig, acc) of ((i, g), (groups, ix)) \<Rightarrow>
        let nds = norm_domains etld (rgp_Domains g) in
        (groups @ [\<lparr>rgp_Domains = nds, rgp_Route = stats_NormalizeRouteKind (rgp_Route g)\<rparr>],
         fold (index_scope i) nds ix))"

definition compileRouteTable :: "(string \<Rightarrow> string option) \<Rightarrow> route_table \<Rightarrow> compiled_routes" where
  "compileRouteTable etld t =
     (let ov = fold compile_override (rt_Overrides t) Map.empty;
          (groups, (exact, suffix)) =
            fold (compile_group etld) (enumerate 0 (rt_Groups t)) ([], (Map.empty, Map.empty))
      in \<lparr>cr_table = \<lparr>nt_Overrides = ov, nt_Groups = groups, nt_Final = stats_normalizeFinal (rt_Final t)\<rparr>,
          cr_overrides = ov, cr_exact = exact, cr_suffix = suffix\<rparr>)"

text \<open>The keys of the \<open>rest\<close> loop: the host and its suffixes behind each dot.\<close>

function rests :: "string \<Rightarrow> string list" where
  "rests key =
     (if key = [] then []
      else key # (case index_char (CHR ''.'') key of None \<Rightarrow> [] | Some dot \<Rightarrow> rests (drop (Suc dot) key)))"
  by pat_completeness auto
termination
  by (relation "measure length") auto

declare rests.simps [simp del]

definition consider_hit :: "nat option \<Rightarrow> nat option \<Rightarrow> nat option" where
  "consider_hit hit best =
     (case hit of
        None \<Rightarrow> best
      | Some idx \<Rightarrow>
          (case best of None \<Rightarrow> Some idx | Some b \<Rightarrow> if idx < b then Some idx else best))"

definition override_lookup :: "(string \<rightharpoonup> 'v) \<Rightarrow> string \<Rightarrow> 'v option" where
  "override_lookup m key =
     (case m key of
        Some v \<Rightarrow> Some v
      | None \<Rightarrow> map_option snd (first_hit m (wildcardCandidates key)))"

definition cr_lookup :: "compiled_routes \<Rightarrow> string \<Rightarrow> string" where
  "cr_lookup cr key =
     (case override_lookup (cr_overrides cr) key of
        Some m \<Rightarrow> m
      | None \<Rightarrow>
          (case fold consider_hit (cr_exact cr key # map (cr_suffix cr) (rests key)) None of
             Some best \<Rightarrow> rgp_Route (nt_Groups (cr_table cr) ! best)
           | None \<Rightarrow> nt_Final (cr_table cr)))"

text \<open>The destination of a connection: its host name, or its address without the port.\<close>

definition destKey :: "string \<Rightarrow> string \<Rightarrow> string" where
  "destKey dstAddr host =
     (if host \<noteq> [] then host
      else
        (case last_index_char (CHR '':'') dstAddr of
           Some idx \<Rightarrow> if idx > 0 then take idx dstAddr else dstAddr
         | None \<Rightarrow> dstAddr))"

definition LookupRouteMode :: "string \<Rightarrow> string \<Rightarrow> compiled_routes \<Rightarrow> string" where
  "LookupRouteMode dstAddr host cr = cr_lookup cr (normalizeHost (destKey dstAddr host))"

section \<open>The page model\<close>

definition resolveOverride :: "string \<Rightarrow> (string \<rightharpoonup> 'v) \<Rightarrow> ('v \<times> string) option" where
  "resolveOverride host rules =
     (case rules host of
        Some m \<Rightarrow> Some (m, [])
      | None \<Rightarrow> map_option (\<lambda>(c, m). (m, c)) (first_hit rules (wildcardCandidates host)))"

definition DefaultPriority :: int where "DefaultPriority = 3"

definition resolvePriority :: "string \<Rightarrow> (string \<rightharpoonup> int) \<Rightarrow> int" where
  "resolvePriority host prios =
     (case prios host of
        Some v \<Rightarrow> v
      | None \<Rightarrow>
          (case first_hit prios (wildcardCandidates host) of
             Some (_, v) \<Rightarrow> v
           | None \<Rightarrow> DefaultPriority))"

text \<open>The priority of \<^verbatim>\<open>internal/stats\<close>, \<open>lookupPriorityLocked\<close>.\<close>

definition lookupPriority :: "(string \<rightharpoonup> int) \<Rightarrow> string \<Rightarrow> int" where
  "lookupPriority prios key =
     (case override_lookup prios key of Some p \<Rightarrow> p | None \<Rightarrow> DefaultPriority)"

record group_matcher =
  gm_groups :: "rule_group list"
  gm_scopes :: "string list list"

definition newGroupMatcher :: "(string \<Rightarrow> string option) \<Rightarrow> rule_group list \<Rightarrow> group_matcher" where
  "newGroupMatcher etld groups =
     \<lparr>gm_groups = groups, gm_scopes = map (\<lambda>g. norm_domains etld (rg_Domains g)) groups\<rparr>"

fun find_index :: "('a \<Rightarrow> bool) \<Rightarrow> 'a list \<Rightarrow> nat option" where
  "find_index P [] = None"
| "find_index P (x # xs) = (if P x then Some 0 else map_option Suc (find_index P xs))"

definition gm_group :: "group_matcher \<Rightarrow> string \<Rightarrow> nat option" where
  "gm_group m host = find_index (list_ex (scopeMatches host)) (gm_scopes m)"

definition gm_inGroup :: "group_matcher \<Rightarrow> nat \<Rightarrow> string \<Rightarrow> bool" where
  "gm_inGroup m i host = list_ex (scopeMatches host) (gm_scopes m ! i)"

text \<open>The parts of \<open>destModel\<close> its routing uses.\<close>

record dest_model =
  dm_ruleGroups :: "rule_group list"
  dm_matcher :: group_matcher
  dm_rules :: "string \<rightharpoonup> string"
  dm_final :: string

definition dm_route :: "dest_model \<Rightarrow> string \<Rightarrow> string \<times> string" where
  "dm_route m host =
     (case resolveOverride host (dm_rules m) of
        Some (r, via) \<Rightarrow> (NormalizeRouteKind r, via)
      | None \<Rightarrow>
          (case gm_group (dm_matcher m) host of
             Some gi \<Rightarrow> (NormalizeRouteKind (rg_Route (dm_ruleGroups m ! gi)), [])
           | None \<Rightarrow> (dm_final m, [])))"

section \<open>The interface of host tables\<close>

interpretation overrides: host_table override_lookup wildcardCandidates
  by unfold_locales (simp_all add: override_lookup_def)

interpretation page_overrides: host_table "\<lambda>m h. map_option fst (resolveOverride h m)" wildcardCandidates
  by unfold_locales
    (auto simp: resolveOverride_def option.map_comp comp_def case_prod_unfold)

lemma resolveOverride_eq: "map_option fst (resolveOverride h m) = override_lookup m h"
  using overrides.look_unique [OF page_overrides.host_table_axioms] by (auto simp: fun_eq_iff)

lemma lookupPriority_eq: "lookupPriority prios key = resolvePriority key prios"
  by (cases "first_hit prios (wildcardCandidates key)")
    (auto simp: lookupPriority_def resolvePriority_def override_lookup_def split: option.splits)


section \<open>The index answers for the groups\<close>

lemma find_index_append:
  "find_index P (xs @ [x]) =
     (case find_index P xs of Some i \<Rightarrow> Some i | None \<Rightarrow> if P x then Some (length xs) else None)"
  by (induction xs) (auto split: option.splits)

lemma find_index_SomeD: "find_index P xs = Some i \<Longrightarrow> i < length xs \<and> P (xs ! i) \<and> (\<forall>j<i. \<not> P (xs ! j))"
proof (induction xs arbitrary: i)
  case (Cons x xs)
  then show ?case by (cases i) (auto split: if_splits simp: nth_Cons' less_Suc_eq_0_disj)
qed simp

lemma find_index_map: "find_index P (map f xs) = find_index (\<lambda>x. P (f x)) xs"
  by (induction xs) simp_all

lemma find_find_index: "find P xs = map_option ((!) xs) (find_index P xs)"
  by (induction xs) (auto simp: option.map_comp comp_def)

lemma rests_hit:
  assumes "v \<noteq> []"
  shows "v \<in> set (rests key) \<longleftrightarrow> key = v \<or> has_suffix key (''.'' @ v)"
proof (induction key rule: rests.induct)
  case (1 key)
  show ?case
  proof (cases "key = []")
    case True
    then show ?thesis using assms by (simp add: rests.simps has_suffix_def)
  next
    case ne: False
    show ?thesis
    proof (cases "index_char (CHR ''.'') key")
      case None
      then have "CHR ''.'' \<notin> set key" by (simp add: index_char_None_iff)
      then have "\<not> has_suffix key (''.'' @ v)" by (auto simp: has_suffix_iff)
      then show ?thesis using ne None by (subst rests.simps) auto
    next
      case (Some dot)
      define rest where "rest = drop (Suc dot) key"
      define hd where "hd = take dot key"
      have key: "key = hd @ CHR ''.'' # rest" "CHR ''.'' \<notin> set hd"
        using index_char_SomeD [OF Some] by (simp_all add: hd_def rest_def)
      have "rests key = key # rests rest"
        using ne Some by (subst rests.simps) (simp add: rest_def)
      moreover have "v \<in> set (rests rest) \<longleftrightarrow> rest = v \<or> has_suffix rest (''.'' @ v)"
        using "1.IH" [OF ne Some] by (simp add: rest_def)
      moreover have "has_suffix key (''.'' @ v) \<longleftrightarrow> rest = v \<or> has_suffix rest (''.'' @ v)"
      proof
        assume "has_suffix key (''.'' @ v)"
        then obtain t where t: "hd @ CHR ''.'' # rest = t @ CHR ''.'' # v" by (auto simp: has_suffix_iff key(1))
        then have "(\<exists>u. hd @ u = t \<and> CHR ''.'' # rest = u @ CHR ''.'' # v) \<or>
            (\<exists>u. hd = t @ u \<and> u @ CHR ''.'' # rest = CHR ''.'' # v)"
          by (auto simp: append_eq_append_conv2)
        then show "rest = v \<or> has_suffix rest (''.'' @ v)"
        proof
          assume "\<exists>u. hd @ u = t \<and> CHR ''.'' # rest = u @ CHR ''.'' # v"
          then obtain u where "CHR ''.'' # rest = u @ CHR ''.'' # v" by blast
          then show ?thesis by (cases u) (auto simp: has_suffix_iff)
        next
          assume "\<exists>u. hd = t @ u \<and> u @ CHR ''.'' # rest = CHR ''.'' # v"
          then obtain u where "hd = t @ u" "u @ CHR ''.'' # rest = CHR ''.'' # v" by blast
          with key(2) show ?thesis by (cases u) auto
        qed
      next
        assume "rest = v \<or> has_suffix rest (''.'' @ v)"
        then show "has_suffix key (''.'' @ v)"
          by (auto simp: has_suffix_iff key(1))
      qed
      ultimately show ?thesis by auto
    qed
  qed
qed

text \<open>A fold of \<open>consider_hit\<close> is the least hit.\<close>

lemma consider_fold:
  "fold consider_hit hs best =
     (let S = {i. Some i \<in> insert best (set hs)} in if S = {} then None else Some (Min S))"
proof (induction hs arbitrary: best)
  case Nil
  then show ?case by (cases best) (simp_all add: Let_def)
next
  case (Cons h hs)
  have fin: "finite {i. Some i \<in> insert best (set hs)}" for best :: "nat option"
  proof -
    have "{i. Some i \<in> insert best (set hs)} = the ` {x \<in> insert best (set hs). x \<noteq> None}"
      by (force simp: image_iff)
    then show ?thesis by simp
  qed
  have "{i. Some i \<in> insert best (set (h # hs))} \<noteq> {} \<longrightarrow>
      Min {i. Some i \<in> insert best (set (h # hs))} = Min {i. Some i \<in> insert (consider_hit h best) (set hs)}
      \<and> {i. Some i \<in> insert (consider_hit h best) (set hs)} \<noteq> {}"
  proof (cases h)
    case None
    then show ?thesis by (simp add: consider_hit_def)
  next
    case (Some a)
    show ?thesis
    proof (cases best)
      case None
      with Some show ?thesis by (auto simp: consider_hit_def)
    next
      case (Some b)
      let ?T = "{i. Some i \<in> set hs}"
      have finT: "finite ?T" using fin [of None] by simp
      have "{i. Some i \<in> insert best (set (h # hs))} = insert a (insert b ?T)"
        using Some \<open>h = Some a\<close> by auto
      moreover have "{i. Some i \<in> insert (consider_hit h best) (set hs)} = insert (min a b) ?T"
        using Some \<open>h = Some a\<close> by (auto simp: consider_hit_def)
      moreover have "Min (insert a (insert b ?T)) = Min (insert (min a b) ?T)"
        using finT by (cases "?T = {}") (simp_all add: min.assoc)
      ultimately show ?thesis by simp
    qed
  qed
  moreover have "{i. Some i \<in> insert best (set (h # hs))} = {} \<longrightarrow>
      {i. Some i \<in> insert (consider_hit h best) (set hs)} = {}"
    by (auto simp: consider_hit_def split: option.splits if_splits)
  ultimately show ?case
    using Cons.IH [of "consider_hit h best"] by (auto simp: Let_def)
qed


definition hit_set :: "scope_index \<Rightarrow> string \<Rightarrow> nat set" where
  "hit_set ix key = {i. fst ix key = Some i \<or> (\<exists>v\<in>set (rests key). snd ix v = Some i)}"

lemma consider_hits:
  "fold consider_hit (fst ix key # map (snd ix) (rests key)) None =
     (if hit_set ix key = {} then None else Some (Min (hit_set ix key)))"
proof -
  have "{i. Some i \<in> insert None (set (fst ix key # map (snd ix) (rests key)))} = hit_set ix key"
    by (auto simp: hit_set_def image_iff) metis
  then show ?thesis by (simp only: consider_fold Let_def)
qed

lemma index_scopes:
  "fold (index_scope i) nds (ex, sf) =
     ((\<lambda>v. case ex v of Some j \<Rightarrow> Some j | None \<Rightarrow> if ''='' @ v \<in> set nds then Some i else None),
      (\<lambda>v. case sf v of Some j \<Rightarrow> Some j | None \<Rightarrow> if v \<in> set nds \<and> \<not> has_prefix v ''='' then Some i else None))"
proof (induction nds arbitrary: ex sf)
  case Nil
  then show ?case by (auto split: option.splits)
next
  case (Cons nd nds)
  show ?case
  proof (cases "has_prefix nd ''=''")
    case True
    then obtain h where nd: "nd = CHR ''='' # h" by (auto simp: has_prefix_iff)
    then have "index_scope i nd (ex, sf) = (first_write h i ex, sf)"
      using True by (simp add: index_scope_def)
    then show ?thesis
      using True nd by (auto simp: Cons first_write_def fun_eq_iff split: option.splits)
  next
    case False
    then have "\<And>v. nd \<noteq> CHR ''='' # v" by (auto simp: has_prefix_def)
    moreover have "index_scope i nd (ex, sf) = (ex, first_write nd i sf)"
      using False by (simp add: index_scope_def)
    ultimately show ?thesis
      using False by (auto simp: Cons first_write_def fun_eq_iff split: option.splits)
  qed
qed

lemma norm_domains_scope:
  assumes "n \<in> set (norm_domains etld ds)"
  shows "(\<exists>h. n = ''='' @ h) \<or> (n \<noteq> [] \<and> \<not> has_prefix n ''='')"
proof -
  obtain d where "NormalizeDomain etld d = Some n"
    using assms by (auto simp: norm_domains_def List.map_filter_def)
  then show ?thesis
    by (cases rule: NormalizeDomain_SomeD) (auto simp: valid_host_no_eq, auto simp: valid_host_def)
qed

lemma list_ex_scope:
  assumes key: "trim_suffix (to_lower key) ''.'' = key"
  shows "list_ex (scopeMatches key) (norm_domains etld ds) \<longleftrightarrow>
     ''='' @ key \<in> set (norm_domains etld ds) \<or>
     (\<exists>v\<in>set (rests key). v \<in> set (norm_domains etld ds) \<and> \<not> has_prefix v ''='')"
proof -
  have 1: "scopeMatches key n \<longleftrightarrow> n = ''='' @ key \<or> (n \<in> set (rests key) \<and> \<not> has_prefix n ''='')"
    if n: "n \<in> set (norm_domains etld ds)" for n
  proof (cases "has_prefix n ''=''")
    case True
    then obtain h where "n = ''='' @ h" by (auto simp: has_prefix_iff)
    then show ?thesis using key by (auto simp: scopeMatches_def has_prefix_def Let_def)
  next
    case False
    then have "n \<noteq> []" using norm_domains_scope [OF n] by auto
    moreover have "n \<noteq> ''='' @ key" using False by (auto simp: has_prefix_def)
    ultimately show ?thesis
      using rests_hit [of n key] False key by (simp add: scopeMatches_def Let_def)
  qed
  then show ?thesis by (auto simp: list_ex_iff)
qed

lemma compile_groups_index:
  assumes key: "trim_suffix (to_lower key) ''.'' = key"
  shows "case fold (compile_group etld) (enumerate 0 gs) ([], (Map.empty, Map.empty)) of
      (groups, ix) \<Rightarrow>
        groups = map (\<lambda>g. \<lparr>rgp_Domains = norm_domains etld (rgp_Domains g),
                            rgp_Route = stats_NormalizeRouteKind (rgp_Route g)\<rparr>) gs \<and>
        hit_set ix key \<subseteq> {..<length gs} \<and>
        (if hit_set ix key = {} then None else Some (Min (hit_set ix key))) =
          find_index (\<lambda>g. list_ex (scopeMatches key) (norm_domains etld (rgp_Domains g))) gs"
proof (induction gs rule: rev_induct)
  case Nil
  then show ?case by (simp add: hit_set_def)
next
  case (snoc g gs)
  obtain groups ix where r: "fold (compile_group etld) (enumerate 0 gs) ([], (Map.empty, Map.empty)) = (groups, ix)"
    by (cases "fold (compile_group etld) (enumerate 0 gs) ([], (Map.empty, Map.empty))") auto
  define n where "n = length gs"
  define nds where "nds = norm_domains etld (rgp_Domains g)"
  define ix' where "ix' = fold (index_scope n) nds ix"
  obtain ex sf where ix: "ix = (ex, sf)" by fastforce
  have step: "fold (compile_group etld) (enumerate 0 (gs @ [g])) ([], (Map.empty, Map.empty)) =
      (groups @ [\<lparr>rgp_Domains = nds, rgp_Route = stats_NormalizeRouteKind (rgp_Route g)\<rparr>], ix')"
    by (simp add: enumerate_append_eq r compile_group_def Let_def nds_def ix'_def n_def)
  have sub: "hit_set ix key \<subseteq> {..<n}" using snoc r by (simp add: n_def)
  have up: "hit_set ix key \<subseteq> hit_set ix' key" "hit_set ix' key \<subseteq> insert n (hit_set ix key)"
    unfolding ix'_def ix index_scopes hit_set_def by (fastforce split: option.splits if_splits)+
  have fresh: "n \<in> hit_set ix' key \<longleftrightarrow> list_ex (scopeMatches key) nds" if "hit_set ix key = {}"
  proof -
    have "ex key = None" "\<forall>v\<in>set (rests key). sf v = None"
      using that by (auto simp: hit_set_def ix) (metis not_None_eq)+
    then show ?thesis
      unfolding nds_def list_ex_scope [OF key] ix'_def ix index_scopes hit_set_def
      by (auto simp: nds_def)
  qed
  have sub': "hit_set ix' key \<subseteq> {..<length (gs @ [g])}" using up(2) sub by (auto simp: n_def)
  have IH: "(if hit_set ix key = {} then None else Some (Min (hit_set ix key))) =
      find_index (\<lambda>g. list_ex (scopeMatches key) (norm_domains etld (rgp_Domains g))) gs"
    using snoc r by simp
  have "(if hit_set ix' key = {} then None else Some (Min (hit_set ix' key))) =
      find_index (\<lambda>g. list_ex (scopeMatches key) (norm_domains etld (rgp_Domains g))) (gs @ [g])"
  proof (cases "hit_set ix key = {}")
    case True
    then have "hit_set ix' key = (if list_ex (scopeMatches key) nds then {n} else {})"
      using up fresh by auto
    with True IH show ?thesis by (simp add: find_index_append nds_def n_def)
  next
    case False
    have fin: "finite (hit_set ix key)" using sub finite_subset by blast
    have "Min (hit_set ix' key) = Min (hit_set ix key)"
    proof (cases "n \<in> hit_set ix' key")
      case True
      then have "hit_set ix' key = insert n (hit_set ix key)" using up by auto
      moreover have "Min (hit_set ix key) < n" using sub Min_in [OF fin False] by auto
      ultimately show ?thesis using fin False by simp
    next
      case False
      then have "hit_set ix' key = hit_set ix key" using up by auto
      then show ?thesis by simp
    qed
    moreover have "find_index (\<lambda>g. list_ex (scopeMatches key) (norm_domains etld (rgp_Domains g))) gs =
        Some (Min (hit_set ix key))"
      using False IH by simp
    moreover have "hit_set ix' key \<noteq> {}" using False up(1) by blast
    ultimately show ?thesis by (simp add: find_index_append)
  qed
  with step sub' show ?case using snoc r by (simp add: nds_def)
qed


section \<open>What a lookup decides\<close>

definition canonical_host :: "string \<Rightarrow> bool" where
  "canonical_host h \<longleftrightarrow> trim_suffix (to_lower h) ''.'' = h"

definition canonical_key :: "string \<Rightarrow> bool" where
  "canonical_key k \<longleftrightarrow> k \<noteq> [] \<and> trim_space k = k \<and> canonical_host k"

lemma normalizeHost_canonical: "canonical_key k \<Longrightarrow> normalizeHost k = k"
  by (simp add: normalizeHost_def canonical_key_def canonical_host_def)

text \<open>The decision as the documentation of \<open>RouteTable\<close> states it.\<close>

definition route_spec :: "(string \<Rightarrow> string option) \<Rightarrow> (string \<rightharpoonup> string) \<Rightarrow> route_grp list \<Rightarrow> string \<Rightarrow> string \<Rightarrow> string" where
  "route_spec etld ov groups final host =
     (case first_hit ov (host # wildcardCandidates host) of
        Some (_, kind) \<Rightarrow> kind
      | None \<Rightarrow>
          (case find (\<lambda>g. list_ex (MatchesDomain etld host) (rgp_Domains g)) groups of
             Some g \<Rightarrow> stats_NormalizeRouteKind (rgp_Route g)
           | None \<Rightarrow> stats_normalizeFinal final))"

lemma matches_iff_scope:
  "MatchesDomain etld host d \<longleftrightarrow> (\<exists>n. NormalizeDomain etld d = Some n \<and> scopeMatches host n)"
proof (cases "NormalizeDomain etld d")
  case None
  then show ?thesis by (simp add: MatchesDomain_def)
next
  case (Some n)
  then show ?thesis
    by (cases rule: NormalizeDomain_SomeD)
      (auto simp: MatchesDomain_def scopeMatches_def trim_prefix_def has_prefix_def Let_def Some
         dest: valid_host_no_eq)
qed

lemma list_ex_norm: "list_ex (scopeMatches host) (norm_domains etld ds) = list_ex (MatchesDomain etld host) ds"
  by (induction ds) (auto simp: norm_domains_def matches_iff_scope split: option.splits)

lemma cr_lookup_groups:
  assumes "canonical_host key"
  shows "cr_lookup (compileRouteTable etld t) key =
    (case override_lookup (fold compile_override (rt_Overrides t) Map.empty) key of
       Some m \<Rightarrow> m
     | None \<Rightarrow>
         (case find_index (\<lambda>g. list_ex (MatchesDomain etld key) (rgp_Domains g)) (rt_Groups t) of
            Some i \<Rightarrow> stats_NormalizeRouteKind (rgp_Route (rt_Groups t ! i))
          | None \<Rightarrow> stats_normalizeFinal (rt_Final t)))"
proof -
  have key: "trim_suffix (to_lower key) ''.'' = key" using assms by (simp add: canonical_host_def)
  obtain groups ex sf where r:
    "fold (compile_group etld) (enumerate 0 (rt_Groups t)) ([], (Map.empty, Map.empty)) = (groups, (ex, sf))"
    by (metis prod.exhaust)
  note c = compile_groups_index [OF key, of etld "rt_Groups t", unfolded r, simplified]
  have hits: "fold consider_hit (ex key # map sf (rests key)) None =
      find_index (\<lambda>g. list_ex (MatchesDomain etld key) (rgp_Domains g)) (rt_Groups t)"
    using consider_hits [of "(ex, sf)" key] c by (simp only: fst_conv snd_conv list_ex_norm)
  have look: "cr_lookup (compileRouteTable etld t) key =
    (case override_lookup (fold compile_override (rt_Overrides t) Map.empty) key of
       Some m \<Rightarrow> m
     | None \<Rightarrow>
         (case find_index (\<lambda>g. list_ex (MatchesDomain etld key) (rgp_Domains g)) (rt_Groups t) of
            Some i \<Rightarrow> rgp_Route (groups ! i)
          | None \<Rightarrow> stats_normalizeFinal (rt_Final t)))"
    by (simp only: cr_lookup_def compileRouteTable_def r Let_def case_prod_conv compiled_routes.select_convs
        norm_table.select_convs hits)
  have "rgp_Route (groups ! i) = stats_NormalizeRouteKind (rgp_Route (rt_Groups t ! i))"
    if "find_index (\<lambda>g. list_ex (MatchesDomain etld key) (rgp_Domains g)) (rt_Groups t) = Some i" for i
    using find_index_SomeD [OF that] c by simp
  with look show ?thesis by (simp split: option.split)
qed

definition compiled_overrides :: "(string \<times> string) list \<Rightarrow> string \<rightharpoonup> string" where
  "compiled_overrides kvs = fold compile_override kvs Map.empty"

lemma compile_overrides_map:
  assumes "list_all (\<lambda>kv. canonical_key (fst kv)) kvs" "distinct (map fst kvs)"
  shows "fold compile_override kvs m = m ++ (\<lambda>k. map_option NormalizeRouteKind (map_of kvs k))"
  using assms
proof (induction kvs arbitrary: m)
  case (Cons kv kvs)
  obtain k v where kv: "kv = (k, v)" by fastforce
  have "map_of kvs k = None" using Cons.prems kv by (simp add: map_of_eq_None_iff)
  then show ?case
    using Cons kv
    by (auto simp: compile_override_def normalizeHost_canonical canonical_key_def Let_def stats_kind_eq
        fun_eq_iff map_add_def split: option.splits)
qed (simp add: map_add_def)

text \<open>
  C4: the compiled table answers as the routing rules are documented. Whatever the order of
  scopes in the index, a lookup gives the override of the host or of its most specific
  wildcard; else the route of the first group with a scope that covers the host; else the
  final route, which is direct or tunnel only.
\<close>

theorem route_precedence:
  assumes "canonical_host key"
  shows "cr_lookup (compileRouteTable etld t) key =
    route_spec etld (compiled_overrides (rt_Overrides t)) (rt_Groups t) (rt_Final t) key"
proof -
  have "override_lookup m key = map_option snd (first_hit m (key # wildcardCandidates key))" for m :: "string \<rightharpoonup> string"
    by (rule overrides.look_eq)
  then show ?thesis
    unfolding cr_lookup_groups [OF assms] route_spec_def find_find_index compiled_overrides_def
    by (auto split: option.splits)
qed

definition ex_table :: route_table where
  "ex_table = \<lparr>rt_Overrides = [('' *.A.example.com'', ''blocked''), (''b.example.com'', ''bogus'')],
     rt_Groups = [\<lparr>rgp_Domains = [''=c.example.com''], rgp_Route = ''DIRECT''\<rparr>,
                  \<lparr>rgp_Domains = [''x..y'', ''example.com'', ''c.example.com''], rgp_Route = ''blocked''\<rparr>],
     rt_Final = ''blocked''\<rparr>"

lemma route_precedence_witness:
  "cr_lookup (compileRouteTable ex_etld ex_table) ''c.example.com'' = RouteDirect \<and>
   route_spec ex_etld (compiled_overrides (rt_Overrides ex_table)) (rt_Groups ex_table) (rt_Final ex_table) ''c.example.com'' = RouteDirect"
  by (subst route_precedence) code_simp+

lemma override_lookup_map:
  "override_lookup (\<lambda>k. map_option f (m k)) h = map_option f (override_lookup m h)"
proof -
  have "map_option snd (first_hit (\<lambda>k. map_option f (m k)) ks) = map_option f (map_option snd (first_hit m ks))" for ks
    by (induction ks) (auto split: option.splits)
  then show ?thesis by (auto simp: override_lookup_def split: option.splits)
qed

text \<open>
  The Destinations page shows the route the proxy takes. For the page model built from
  the stored rules and the table posted to the proxy from the same rules, the route shown for
  a host is the one the proxy looks up for a connection to it, and the group shown is the one
  the store finds.
\<close>

lemma page_agrees_with_proxy:
  assumes "canonical_key host"
    and "list_all (\<lambda>kv. canonical_key (fst kv)) ovs" "distinct (map fst ovs)"
    and "dm_ruleGroups m = gs" "dm_matcher m = newGroupMatcher etld gs" "dm_rules m = map_of ovs"
    and "dm_final m = NormalizeFinalRoute final"
  shows "fst (dm_route m host) =
           LookupRouteMode dst host (compileRouteTable etld
             \<lparr>rt_Overrides = ovs, rt_Groups = map (\<lambda>g. \<lparr>rgp_Domains = rg_Domains g, rgp_Route = rg_Route g\<rparr>) gs,
              rt_Final = final\<rparr>)
       \<and> map_option ((!) gs) (gm_group (dm_matcher m) host) = RuleGroupFor etld gs host"
proof -
  let ?t = "\<lparr>rt_Overrides = ovs, rt_Groups = map (\<lambda>g. \<lparr>rgp_Domains = rg_Domains g, rgp_Route = rg_Route g\<rparr>) gs,
              rt_Final = final\<rparr>"
  let ?ov = "\<lambda>k. map_option NormalizeRouteKind (map_of ovs k)"
  have ch: "canonical_host host" using assms(1) by (simp add: canonical_key_def)
  have nh: "normalizeHost (destKey dst host) = host"
    using assms(1) normalizeHost_canonical [OF assms(1)] by (simp add: destKey_def canonical_key_def)
  have idx: "gm_group (dm_matcher m) host = find_index (\<lambda>g. list_ex (MatchesDomain etld host) (rg_Domains g)) gs"
    by (simp add: gm_group_def assms(5) newGroupMatcher_def find_index_map list_ex_norm)
  have ov: "fold compile_override ovs Map.empty = ?ov"
    using compile_overrides_map [OF assms(2,3)] by simp
  have "override_lookup ?ov host = map_option NormalizeRouteKind (override_lookup (map_of ovs) host)"
    by (rule override_lookup_map)
  also have "\<dots> = map_option (NormalizeRouteKind \<circ> fst) (resolveOverride host (map_of ovs))"
    by (simp add: resolveOverride_eq [symmetric] option.map_comp)
  finally have lk: "override_lookup ?ov host = map_option (NormalizeRouteKind \<circ> fst) (resolveOverride host (map_of ovs))" .
  have "LookupRouteMode dst host (compileRouteTable etld ?t) = fst (dm_route m host)"
    unfolding LookupRouteMode_def nh cr_lookup_groups [OF ch] route_table.select_convs ov lk dm_route_def
      assms(4,6,7) idx
    by (auto simp: find_index_map stats_kind_eq stats_final_eq dest!: find_index_SomeD split: option.splits)
  moreover have "map_option ((!) gs) (gm_group (dm_matcher m) host) = RuleGroupFor etld gs host"
    by (simp add: idx RuleGroupFor_def find_find_index)
  ultimately show ?thesis by simp
qed

definition ex_page :: dest_model where
  "ex_page = \<lparr>dm_ruleGroups = [\<lparr>rg_ID = ''g1'', rg_Name = ''Work'', rg_Domains = ['' Example.com''], rg_Route = ''direct''\<rparr>],
     dm_matcher = newGroupMatcher ex_etld [\<lparr>rg_ID = ''g1'', rg_Name = ''Work'', rg_Domains = ['' Example.com''], rg_Route = ''direct''\<rparr>],
     dm_rules = [''*.cn'' \<mapsto> ''blocked''], dm_final = RouteTunnel\<rparr>"

end
