(* ===== verification/RuleEdits.thy ===== *)
theory RuleEdits
  imports RuleStore RouteTable GoNet "HOL-Library.Multiset"
begin

text \<open>
  The edits of the terminal UI on the stored state (\<^verbatim>\<open>internal/tui/data.go\<close>, \<^verbatim>\<open>rule_ops.go\<close>,
  \<^verbatim>\<open>profile_ops.go\<close>) and the list side of the Destinations page (\<^verbatim>\<open>dest_model.go\<close>). A new id
  is an argument of the operations that draw one.
\<close>

section \<open>The loaded data\<close>

record tui_data =
  td_Profiles :: "profile list"
  td_Groups :: "profile_group list"
  td_RuleSet :: rule_set
  td_Settings :: global_settings
  td_Priorities :: "(string \<times> int) list"

definition LoadData :: "disk \<Rightarrow> disk \<times> tui_data outcome" where
  "LoadData d =
     (case LoadRules d of
        (d1, Inl e) \<Rightarrow> (d1, Inl e)
      | (d1, Inr rs) \<Rightarrow>
          (case LoadProfiles d1 of
             Inl e \<Rightarrow> (d1, Inl e)
           | Inr ps \<Rightarrow>
               (case ListGroups d1 of
                  (d2, Inl e) \<Rightarrow> (d2, Inl e)
                | (d2, Inr gs) \<Rightarrow>
                    (case LoadSettings d2 of
                       Inl e \<Rightarrow> (d2, Inl e)
                     | Inr st \<Rightarrow>
                         (case LoadPriorities d2 of
                            Inl e \<Rightarrow> (d2, Inl e)
                          | Inr pr \<Rightarrow>
                              (d2, Inr \<lparr>td_Profiles = ps, td_Groups = gs, td_RuleSet = rs,
                                        td_Settings = st, td_Priorities = pr\<rparr>))))))"

definition find_group :: "tui_data \<Rightarrow> string \<Rightarrow> profile_group option" where
  "find_group td gid = find (\<lambda>g. pg_ID g = gid) (td_Groups td)"

definition ActiveGroup :: "tui_data \<Rightarrow> profile_group option" where
  "ActiveGroup td =
     (if gs_ActiveGroupID (td_Settings td) = [] then None
      else find_group td (gs_ActiveGroupID (td_Settings td)))"

definition Children :: "tui_data \<Rightarrow> profile_group option \<Rightarrow> profile list" where
  "Children td g =
     (case g of
        None \<Rightarrow> []
      | Some g \<Rightarrow> List.map_filter (FindProfile (td_Profiles td)) (pg_ChildrenIDs g))"

definition RouteTableFor :: "rule_set \<Rightarrow> route_table" where
  "RouteTableFor g =
     \<lparr>rt_Overrides = map (\<lambda>(k, v). (k, stats_NormalizeRouteKind v)) (rs_Rules g),
      rt_Groups = map (\<lambda>rg. \<lparr>rgp_Domains = rg_Domains rg, rgp_Route = stats_NormalizeRouteKind (rg_Route rg)\<rparr>)
        (rs_RuleGroups g),
      rt_Final = stats_NormalizeRouteKind (NormalizeFinalRoute (rs_FinalRoute g))\<rparr>"

definition pushed_rules :: "tui_data \<Rightarrow> (string \<times> int) list \<times> route_table" where
  "pushed_rules td = (td_Priorities td, RouteTableFor (td_RuleSet td))"

section \<open>Edits of a rule set\<close>

definition record_host :: "string \<Rightarrow> rule_set \<times> bool \<Rightarrow> rule_set \<times> bool" where
  "record_host h st =
     (case st of (g, changed) \<Rightarrow>
        if h = [] \<or> h \<in> set (rs_KnownHosts g) then (g, changed)
        else (g\<lparr>rs_KnownHosts := rs_KnownHosts g @ [h]\<rparr>, True))"

definition RecordKnownHosts :: "rule_set \<Rightarrow> string list \<Rightarrow> rule_set \<times> bool" where
  "RecordKnownHosts g hosts =
     (case fold record_host hosts (g, False) of (g', changed) \<Rightarrow>
        (if length (rs_KnownHosts g') > MaxKnownHosts
         then g'\<lparr>rs_KnownHosts := drop (length (rs_KnownHosts g') - MaxKnownHosts) (rs_KnownHosts g')\<rparr>
         else g', changed))"

definition SetRule :: "string \<Rightarrow> string \<Rightarrow> rule_set \<Rightarrow> rule_set" where
  "SetRule host mode g = g\<lparr>rs_Rules := AList.update host mode (rs_Rules g)\<rparr>"

definition DeleteRule :: "string \<Rightarrow> rule_set \<Rightarrow> rule_set" where
  "DeleteRule host g = g\<lparr>rs_Rules := AList.delete host (rs_Rules g)\<rparr>"

definition SetPriority :: "string \<Rightarrow> int \<Rightarrow> (string \<times> int) list \<Rightarrow> (string \<times> int) list" where
  "SetPriority host p prios =
     (if p = DefaultPriority then AList.delete host prios else AList.update host p prios)"

fun put_group :: "rule_group \<Rightarrow> rule_group list \<Rightarrow> rule_group list" where
  "put_group rg [] = [rg]"
| "put_group rg (g # gs) = (if rg_ID g = rg_ID rg then rg # gs else g # put_group rg gs)"

definition SaveRuleGroup :: "rule_group \<Rightarrow> rule_set \<Rightarrow> rule_set" where
  "SaveRuleGroup rg g = g\<lparr>rs_RuleGroups := put_group rg (rs_RuleGroups g)\<rparr>"

definition move_target :: "int \<Rightarrow> nat \<Rightarrow> nat \<Rightarrow> nat" where
  "move_target delta len from =
     (let to = int from + delta;
          to = (if to < 0 then 0 else to);
          to = (if to \<ge> int len then int len - 1 else to)
      in nat to)"

definition move_element :: "nat \<Rightarrow> nat \<Rightarrow> 'a list \<Rightarrow> 'a list" where
  "move_element from to xs =
     (let ys = take from xs @ drop (Suc from) xs in take to ys @ xs ! from # drop to ys)"

definition MoveRuleGroup :: "string \<Rightarrow> int \<Rightarrow> rule_set \<Rightarrow> rule_set \<times> bool" where
  "MoveRuleGroup gid delta g =
     (case find_index (\<lambda>rg. rg_ID rg = gid) (rs_RuleGroups g) of
        None \<Rightarrow> (g, False)
      | Some from \<Rightarrow>
          let to = move_target delta (length (rs_RuleGroups g)) from in
          if to = from then (g, False)
          else (g\<lparr>rs_RuleGroups := move_element from to (rs_RuleGroups g)\<rparr>, True))"

definition DeleteRuleGroup :: "string \<Rightarrow> rule_set \<Rightarrow> rule_set" where
  "DeleteRuleGroup gid g = g\<lparr>rs_RuleGroups := filter (\<lambda>rg. rg_ID rg \<noteq> gid) (rs_RuleGroups g)\<rparr>"

section \<open>Edits of the stored rules\<close>

definition editRules :: "(rule_set \<Rightarrow> rule_set) \<Rightarrow> disk \<Rightarrow> disk \<times> unit outcome" where
  "editRules fn d =
     (case LoadRules d of (d1, Inl e) \<Rightarrow> (d1, Inl e) | (d1, Inr rs) \<Rightarrow> SaveRules (fn rs) d1)"

definition SetHostRule :: "string \<Rightarrow> string \<Rightarrow> disk \<Rightarrow> disk \<times> unit outcome" where
  "SetHostRule host mode = editRules (SetRule host mode)"

definition DeleteHostRule :: "string \<Rightarrow> disk \<Rightarrow> disk \<times> unit outcome" where
  "DeleteHostRule host = editRules (DeleteRule host)"

definition PutRuleGroup :: "rule_group \<Rightarrow> disk \<Rightarrow> disk \<times> unit outcome" where
  "PutRuleGroup rg = editRules (SaveRuleGroup rg)"

definition MoveStoredGroup :: "string \<Rightarrow> int \<Rightarrow> disk \<Rightarrow> disk \<times> unit outcome" where
  "MoveStoredGroup gid delta = editRules (\<lambda>g. fst (MoveRuleGroup gid delta g))"

definition SetFinalRoute :: "string \<Rightarrow> disk \<Rightarrow> disk \<times> unit outcome" where
  "SetFinalRoute mode = editRules (\<lambda>g. g\<lparr>rs_FinalRoute := NormalizeFinalRoute mode\<rparr>)"

definition RemoveRuleGroup :: "string \<Rightarrow> disk \<Rightarrow> disk \<times> unit outcome" where
  "RemoveRuleGroup gid = editRules (DeleteRuleGroup gid)"

definition SetHostPriority :: "string \<Rightarrow> int \<Rightarrow> disk \<Rightarrow> disk \<times> unit outcome" where
  "SetHostPriority host p d =
     (case LoadPriorities d of Inl e \<Rightarrow> (d, Inl e) | Inr prios \<Rightarrow> SavePriorities (SetPriority host p prios) d)"

section \<open>Edits of profiles and groups\<close>

definition freshActiveGroup :: "global_settings \<Rightarrow> disk \<Rightarrow> disk \<times> profile_group option outcome" where
  "freshActiveGroup st d =
     (if gs_ActiveGroupID st = [] then (d, Inr None) else LoadGroup (gs_ActiveGroupID st) d)"

definition with_active_group ::
    "global_settings \<Rightarrow> disk \<Rightarrow> (profile_group \<Rightarrow> disk \<Rightarrow> disk \<times> unit outcome) \<Rightarrow> disk \<times> unit outcome" where
  "with_active_group st d f =
     (case freshActiveGroup st d of
        (d1, Inl e) \<Rightarrow> (d1, Inl e)
      | (d1, Inr None) \<Rightarrow> (d1, Inr ())
      | (d1, Inr (Some g)) \<Rightarrow> f g d1)"

definition AddProfile :: "global_settings \<Rightarrow> profile \<Rightarrow> disk \<Rightarrow> disk \<times> unit outcome" where
  "AddProfile st p d =
     (case UpsertProfile p d of
        (d1, Inl e) \<Rightarrow> (d1, Inl e)
      | (d1, Inr _) \<Rightarrow>
          with_active_group st d1
            (\<lambda>g. SaveGroup (g\<lparr>pg_ChildrenIDs := pg_ChildrenIDs g @ [pf_ID p]\<rparr>)))"

definition UpdateProfile :: "profile \<Rightarrow> disk \<Rightarrow> disk \<times> unit outcome" where
  "UpdateProfile p d = (case UpsertProfile p d of (d1, Inl e) \<Rightarrow> (d1, Inl e) | (d1, Inr _) \<Rightarrow> (d1, Inr ()))"

definition DeleteProfile :: "string \<Rightarrow> disk \<Rightarrow> disk \<times> unit outcome" where
  "DeleteProfile pid d = (case RemoveProfile pid d of (d1, Inl e) \<Rightarrow> (d1, Inl e) | (d1, Inr _) \<Rightarrow> (d1, Inr ()))"

definition RemoveFromActiveGroup :: "global_settings \<Rightarrow> string \<Rightarrow> disk \<Rightarrow> disk \<times> unit outcome" where
  "RemoveFromActiveGroup st pid d =
     with_active_group st d
       (\<lambda>g d1. let kept = filter (\<lambda>c. c \<noteq> pid) (pg_ChildrenIDs g) in
          if length kept = length (pg_ChildrenIDs g) then (d1, Inr ())
          else SaveGroup (g\<lparr>pg_ChildrenIDs := kept\<rparr>) d1)"

definition SelectGroup :: "global_settings \<Rightarrow> string \<Rightarrow> disk \<Rightarrow> disk \<times> unit outcome" where
  "SelectGroup st gid = SaveSettings (st\<lparr>gs_ActiveGroupID := gid\<rparr>)"

definition CreateGroup :: "global_settings \<Rightarrow> string \<Rightarrow> disk \<Rightarrow> disk \<times> string outcome" where
  "CreateGroup st newid d =
     (case SaveGroup \<lparr>pg_ID = newid, pg_Name = ''New Group'', pg_ChildrenIDs = [], pg_LegacyChildren = [],
                      pg_Priorities = []\<rparr> d of
        (d1, Inl e) \<Rightarrow> (d1, Inl e)
      | (d1, Inr _) \<Rightarrow>
          (case SelectGroup st newid d1 of (d2, Inl e) \<Rightarrow> (d2, Inl e) | (d2, Inr _) \<Rightarrow> (d2, Inr newid)))"

definition RenameActiveGroup :: "global_settings \<Rightarrow> string \<Rightarrow> disk \<Rightarrow> disk \<times> unit outcome" where
  "RenameActiveGroup st name d = with_active_group st d (\<lambda>g. SaveGroup (g\<lparr>pg_Name := name\<rparr>))"

text \<open>The children are deleted one by one; the first error is remembered and returned at the end.\<close>

definition delete_child :: "string \<Rightarrow> disk \<times> store_error option \<Rightarrow> disk \<times> store_error option" where
  "delete_child pid st =
     (case st of (d, firstErr) \<Rightarrow>
        (case DeleteProfile pid d of
           (d1, Inl e) \<Rightarrow> (d1, case firstErr of None \<Rightarrow> Some e | Some e0 \<Rightarrow> Some e0)
         | (d1, Inr _) \<Rightarrow> (d1, firstErr)))"

definition DeleteActiveGroup :: "tui_data \<Rightarrow> disk \<Rightarrow> disk \<times> unit outcome" where
  "DeleteActiveGroup td d =
     with_active_group (td_Settings td) d
       (\<lambda>g d1.
          case fold delete_child (pg_ChildrenIDs g) (d1, None) of
            (d2, firstErr) \<Rightarrow>
              (case DeleteGroup (pg_ID g) d2 of
                 (d3, Inl e) \<Rightarrow> (d3, Inl e)
               | (d3, Inr _) \<Rightarrow>
                   (let next_id = (case find (\<lambda>o'. pg_ID o' \<noteq> pg_ID g) (td_Groups td) of
                                     Some o' \<Rightarrow> pg_ID o' | None \<Rightarrow> []) in
                    case SelectGroup (td_Settings td) next_id d3 of
                      (d4, Inl e) \<Rightarrow> (d4, Inl e)
                    | (d4, Inr _) \<Rightarrow> (d4, case firstErr of None \<Rightarrow> Inr () | Some e \<Rightarrow> Inl e))))"

section \<open>Sharing a profile\<close>

definition has_identity :: "string \<Rightarrow> string \<Rightarrow> bool" where
  "has_identity key file \<longleftrightarrow> trim_space key \<noteq> [] \<or> trim_space file \<noteq> []"

definition CanShare :: "profile \<Rightarrow> bool" where
  "CanShare p \<longleftrightarrow>
     has_identity (pf_IdentityKey p) (pf_IdentityFile p) \<and>
     list_all (\<lambda>j. has_identity (jh_IdentityKey j) (jh_IdentityFile j)) (pf_JumpHosts p)"

definition qrChunkSize :: nat where "qrChunkSize = 1000"

definition qr_payload :: "nat \<Rightarrow> nat \<Rightarrow> string \<Rightarrow> string" where
  "qr_payload i n part = ''NF:'' @ itoa (int i) @ ''/'' @ itoa (int n) @ '':'' @ part"

definition QRChunks :: "string \<Rightarrow> string list" where
  "QRChunks payload =
     (let n = (length payload + qrChunkSize - 1) div qrChunkSize in
      map (\<lambda>i. let e = min (Suc i * qrChunkSize) (length payload) in
               qr_payload (Suc i) n (drop (i * qrChunkSize) (take e payload))) [0..<n])"

section \<open>The lists of the Destinations page\<close>

definition trim_brackets :: "string \<Rightarrow> string" where
  "trim_brackets h =
     (let br = (\<lambda>c. c = CHR ''['' \<or> c = CHR '']'') in trim_right_by br (dropWhile br h))"

definition isIPHost :: "string \<Rightarrow> bool" where
  "isIPHost h \<longleftrightarrow> ParseIP (trim_brackets h) \<noteq> None"

record dest_lists =
  dl_hosts :: "string list"
  dl_addresses :: "string list"
  dl_sites :: "(string \<times> string list) list"

definition known_hosts :: "tui_data \<Rightarrow> string list \<Rightarrow> string list" where
  "known_hosts td live =
     sort (remdups (filter (\<lambda>h. h \<noteq> [])
       (map fst (td_Priorities td) @ map fst (rs_Rules (td_RuleSet td)) @ live @ rs_KnownHosts (td_RuleSet td))))"

definition site_of :: "(string \<Rightarrow> string option) \<Rightarrow> string \<Rightarrow> string" where
  "site_of etld h = (let site = RegistrableDomain etld h in if site = [] then h else site)"

definition page_model :: "(string \<Rightarrow> string option) \<Rightarrow> tui_data \<Rightarrow> dest_model" where
  "page_model etld td =
     \<lparr>dm_ruleGroups = rs_RuleGroups (td_RuleSet td),
      dm_matcher = newGroupMatcher etld (rs_RuleGroups (td_RuleSet td)),
      dm_rules = map_of (rs_Rules (td_RuleSet td)),
      dm_final = NormalizeFinalRoute (rs_FinalRoute (td_RuleSet td))\<rparr>"

definition buildDestModel :: "(string \<Rightarrow> string option) \<Rightarrow> tui_data \<Rightarrow> string list \<Rightarrow> dest_lists" where
  "buildDestModel etld td live =
     (let hosts = known_hosts td live;
          free = filter (\<lambda>h. gm_group (dm_matcher (page_model etld td)) h = None) hosts;
          named = filter (\<lambda>h. \<not> isIPHost h) free;
          sites = map (\<lambda>s. (s, filter (\<lambda>h. site_of etld h = s) named)) (remdups (map (site_of etld) named))
      in \<lparr>dl_hosts = hosts, dl_addresses = filter isIPHost free,
          dl_sites = sort_key (\<lambda>(s, hs). - int (length hs)) (sort_key fst sites)\<rparr>)"

definition groupHosts :: "dest_model \<Rightarrow> string list \<Rightarrow> nat \<Rightarrow> string list" where
  "groupHosts m hosts i = filter (gm_inGroup (dm_matcher m) i) hosts"

definition wildcardSuggestion :: "string \<Rightarrow> string set \<Rightarrow> string" where
  "wildcardSuggestion query known =
     (if query = [] \<or> has_prefix query ''*.'' then []
      else
        let labels = split_on (CHR ''.'') query in
        if length labels < 2 then []
        else
          let suffix = (if length labels \<ge> 3 then join_with ''.'' (tl labels) else query);
              c = ''*.'' @ suffix
          in if c = query \<or> c \<in> known then [] else c)"

definition splitDomains :: "string \<Rightarrow> string list" where
  "splitDomains s =
     filter (\<lambda>p. p \<noteq> []) (map trim_space (fields_func (\<lambda>c. c = CHR 0x0A \<or> c = CHR '','') s))"

definition normalizeDomains :: "(string \<Rightarrow> string option) \<Rightarrow> string list \<Rightarrow> string list \<times> string list" where
  "normalizeDomains etld inputs =
     (fold (add_unseen id) (List.map_filter (NormalizeDomain etld) inputs) [],
      filter (\<lambda>i. NormalizeDomain etld i = None) inputs)"

definition mergeDomains :: "string list \<Rightarrow> string list \<Rightarrow> string list" where
  "mergeDomains a b = fold (add_unseen id) (a @ b) []"

section \<open>An edit reads back\<close>

lemma decode_normalize_clean: "rules_clean (normalize_rules (decode_rules r))"
  by (simp add: rules_clean_def normalize_rules_def decode_rules_def comp_def case_prod_beta)

lemma LoadRules_clean: "LoadRules d = (d', Inr rs) \<Longrightarrow> rules_clean rs"
proof (cases "dk_rules d = Missing")
  case True
  assume "LoadRules d = (d', Inr rs)"
  with LoadRules_Missing [OF True] show ?thesis using migrateRules_clean by auto
next
  case False
  assume "LoadRules d = (d', Inr rs)"
  moreover have "rules_clean EmptyRuleSet"
    by (simp add: rules_clean_def EmptyRuleSet_def normalize_rules_def decode_rules_def capKnownHosts_def)
  ultimately show ?thesis
    using False decode_normalize_clean by (cases "dk_rules d") (auto simp: LoadRules_def)
qed

lemma rules_cleanD:
  assumes "rules_clean rs"
  shows "map (\<lambda>(h, k). (h, NormalizeRouteKind k)) (rs_Rules rs) = rs_Rules rs"
    and "map decode_route_group (rs_RuleGroups rs) = rs_RuleGroups rs"
    and "NormalizeFinalRoute (rs_FinalRoute rs) = rs_FinalRoute rs"
    and "capKnownHosts (rs_KnownHosts rs) = rs_KnownHosts rs"
  using arg_cong [OF assms [unfolded rules_clean_def], where f = rs_Rules]
    arg_cong [OF assms [unfolded rules_clean_def], where f = rs_RuleGroups]
    arg_cong [OF assms [unfolded rules_clean_def], where f = rs_FinalRoute]
    arg_cong [OF assms [unfolded rules_clean_def], where f = rs_KnownHosts]
  by (simp_all add: normalize_rules_def decode_rules_def)

text \<open>What is on disk after an edit: the edited rules, normalized and read back.\<close>

lemma editRules_ok:
  assumes "editRules fn d = (d', Inr ())"
  obtains d1 rs where "LoadRules d = (d1, Inr rs)" "rules_clean rs"
    "LoadRules d' = (d', Inr (normalize_rules (decode_rules (normalize_rules (fn rs)))))"
proof -
  obtain d1 rs where l: "LoadRules d = (d1, Inr rs)" and s: "SaveRules (fn rs) d1 = (d', Inr ())"
    using assms by (auto simp: editRules_def split: prod.splits sum.splits)
  from s have "dk_rules d' = Holds (normalize_rules (fn rs))"
    by (auto simp: SaveRules_def writeJSONAtomic_def split: if_splits node.splits option.splits)
  then show thesis using that [OF l LoadRules_clean [OF l]] LoadRules_Holds by blast
qed

lemma wildcard_prefix: "c \<in> set (wildcardCandidates h) \<Longrightarrow> has_prefix c ''*.''"
  by (auto simp: wildcardCandidates_def has_prefix_def Let_def split: if_splits)

definition canonical_rules :: "(string \<times> string) list \<Rightarrow> bool" where
  "canonical_rules kvs \<longleftrightarrow> list_all (\<lambda>kv. canonical_key (fst kv)) kvs \<and> distinct (map fst kvs)"

lemma canonical_rules_update:
  assumes "canonical_rules kvs" "canonical_key k"
  shows "canonical_rules (AList.update k v kvs)"
proof -
  have "distinct (map fst (AList.update k v kvs))"
    using assms(1) by (simp add: canonical_rules_def distinct_update)
  moreover have "list_all (\<lambda>kv. canonical_key (fst kv)) (AList.update k v kvs)"
    using assms by (induction kvs) (auto simp: canonical_rules_def)
  ultimately show ?thesis by (simp add: canonical_rules_def)
qed

lemma fst_map_values [simp]: "fst \<circ> (\<lambda>(k, v). (k, f v)) = fst"
  by (simp add: fun_eq_iff)

lemma first_hit_empty [simp]: "first_hit (\<lambda>x. None) ks = None"
  by (induction ks) simp_all

lemma lookup_stored:
  assumes "canonical_rules (rs_Rules rs)" "canonical_key h"
  shows "LookupRouteMode dst h (compileRouteTable etld (RouteTableFor rs)) =
    (case override_lookup (\<lambda>k. map_option NormalizeRouteKind (map_of (rs_Rules rs) k)) h of
       Some m \<Rightarrow> m
     | None \<Rightarrow> route_spec etld Map.empty (rt_Groups (RouteTableFor rs)) (rt_Final (RouteTableFor rs)) h)"
proof -
  let ?kvs = "map (\<lambda>(k, v). (k, NormalizeRouteKind v)) (rs_Rules rs)"
  have h: "normalizeHost (destKey dst h) = h" "canonical_host h"
    using assms(2) normalizeHost_canonical [OF assms(2)] by (simp_all add: destKey_def canonical_key_def)
  have fst: "map fst ?kvs = map fst (rs_Rules rs)" by auto
  have "fold compile_override ?kvs Map.empty = (\<lambda>k. map_option NormalizeRouteKind (map_of ?kvs k))"
    using compile_overrides_map [of ?kvs Map.empty] assms(1) fst
    by (simp add: canonical_rules_def list_all_iff case_prod_beta)
  also have "\<dots> = (\<lambda>k. map_option NormalizeRouteKind (map_of (rs_Rules rs) k))"
    by (rule ext) (simp add: map_of_map option.map_comp comp_def)
  finally have ov: "fold compile_override (rt_Overrides (RouteTableFor rs)) Map.empty =
      (\<lambda>k. map_option NormalizeRouteKind (map_of (rs_Rules rs) k))"
    by (simp add: RouteTableFor_def stats_kind_eq)
  show ?thesis
    unfolding LookupRouteMode_def h(1) cr_lookup_groups [OF h(2)] ov route_spec_def find_find_index
    by (auto split: option.splits)
qed

text \<open>
  C20: an override set in the terminal takes effect. When saving it succeeds, the rules read
  back route connections to the host the way that was set, whatever rule groups and fallback
  there are, and the route of every other host is what it was unless a wildcard was set.
\<close>

theorem host_rule_takes_effect:
  assumes "SetHostRule host mode d = (d', Inr ())" "LoadRules d = (d1, Inr rs)"
    and "canonical_key host" "canonical_rules (rs_Rules rs)"
  shows "\<exists>rs'. LoadRules d' = (d', Inr rs') \<and>
    LookupRouteMode dst host (compileRouteTable etld (RouteTableFor rs')) = NormalizeRouteKind mode \<and>
    (\<forall>other. canonical_key other \<and> other \<noteq> host \<and> \<not> has_prefix host ''*.'' \<longrightarrow>
      LookupRouteMode dst other (compileRouteTable etld (RouteTableFor rs')) =
      LookupRouteMode dst other (compileRouteTable etld (RouteTableFor rs)))"
proof -
  define rs' where "rs' = normalize_rules (decode_rules (normalize_rules (SetRule host mode rs)))"
  have l: "LoadRules d' = (d', Inr rs')" and cl: "rules_clean rs"
    using assms(1,2) unfolding SetHostRule_def rs'_def by (auto elim!: editRules_ok)
  have rs': "rs_Rules rs' = map (\<lambda>(h, k). (h, NormalizeRouteKind k)) (AList.update host mode (rs_Rules rs))"
    "RouteTableFor rs' = RouteTableFor rs\<lparr>rt_Overrides := rt_Overrides (RouteTableFor rs')\<rparr>"
    using rules_cleanD [OF cl]
    by (simp_all add: rs'_def normalize_rules_def decode_rules_def SetRule_def RouteTableFor_def)
  have can: "canonical_rules (rs_Rules rs')"
    using canonical_rules_update [OF assms(4,3), of mode]
    by (simp add: rs'(1) canonical_rules_def list_all_iff comp_def case_prod_beta)
  define ov where "ov = (\<lambda>k. map_option NormalizeRouteKind (map_of (rs_Rules rs) k))"
  have ov': "(\<lambda>k. map_option NormalizeRouteKind (map_of (rs_Rules rs') k)) = ov(host \<mapsto> NormalizeRouteKind mode)"
    by (rule ext) (simp add: rs'(1) ov_def map_of_map update_conv' option.map_comp comp_def)
  have spec: "route_spec etld Map.empty (rt_Groups (RouteTableFor rs')) (rt_Final (RouteTableFor rs')) h =
      route_spec etld Map.empty (rt_Groups (RouteTableFor rs)) (rt_Final (RouteTableFor rs)) h" for h
    by (subst (1 2) rs'(2)) simp
  have "LookupRouteMode dst host (compileRouteTable etld (RouteTableFor rs')) = NormalizeRouteKind mode"
    by (simp add: lookup_stored [OF can assms(3)] ov' overrides.look_exact)
  moreover have "LookupRouteMode dst other (compileRouteTable etld (RouteTableFor rs')) =
      LookupRouteMode dst other (compileRouteTable etld (RouteTableFor rs))"
    if o: "canonical_key other" "other \<noteq> host" "\<not> has_prefix host ''*.''" for other
  proof -
    have "override_lookup (ov(host \<mapsto> NormalizeRouteKind mode)) other = override_lookup ov other"
      using o wildcard_prefix by (intro overrides.look_irrelevant) auto
    then show ?thesis
      by (simp only: lookup_stored [OF can o(1)] lookup_stored [OF assms(4) o(1)] ov' spec ov_def [symmetric])
  qed
  ultimately show ?thesis using l by blast
qed

lemma host_rule_takes_effect_witness:
  "\<exists>rs'. snd (LoadRules (fst (SetHostRule ''y'' ''DIRECT'' ex_disk))) = Inr rs' \<and>
    LookupRouteMode ''10.0.0.1:80'' ''y'' (compileRouteTable ex_etld (RouteTableFor rs')) = NormalizeRouteKind ''DIRECT''"
proof -
  have s: "SetHostRule ''y'' ''DIRECT'' ex_disk = (fst (SetHostRule ''y'' ''DIRECT'' ex_disk), Inr ())"
    by (rule prod_eqI) (simp, code_simp)
  have l: "LoadRules ex_disk = (fst (LoadRules ex_disk), Inr ex_migrated)"
    by (rule prod_eqI) (simp, code_simp)
  have "canonical_key ''y''" "canonical_rules (rs_Rules ex_migrated)" by code_simp+
  from host_rule_takes_effect [OF s l this, of "''10.0.0.1:80''" ex_etld] show ?thesis
    by (metis snd_conv)
qed

section \<open>The order of rule groups\<close>

lemma move_target_bound: "0 < len \<Longrightarrow> move_target delta len from < len"
  by (auto simp: move_target_def Let_def)

lemma mset_move_element: "from < length xs \<Longrightarrow> mset (move_element from to xs) = mset xs"
proof -
  assume f: "from < length xs"
  let ?ys = "take from xs @ drop (Suc from) xs"
  have "mset (move_element from to xs) = mset ?ys + {#xs ! from#}"
    unfolding move_element_def Let_def
    by (metis append_take_drop_id mset.simps(2) mset_append union_mset_add_mset_right add_mset_add_single)
  also have "\<dots> = mset (take from xs @ xs ! from # drop (Suc from) xs)" by simp
  also have "\<dots> = mset xs" using id_take_nth_drop [OF f] by simp
  finally show ?thesis .
qed

lemma filter_other_move:
  "from < length xs \<Longrightarrow> \<not> P (xs ! from) \<Longrightarrow> filter P (move_element from to xs) = filter P xs"
proof -
  assume f: "from < length xs" and p: "\<not> P (xs ! from)"
  let ?ys = "take from xs @ drop (Suc from) xs"
  have "filter P (move_element from to xs) = filter P (take to ?ys @ drop to ?ys)"
    using p unfolding move_element_def Let_def filter_append by simp
  also have "\<dots> = filter P ?ys" by (simp only: append_take_drop_id)
  also have "\<dots> = filter P (take from xs @ xs ! from # drop (Suc from) xs)" using p by simp
  also have "\<dots> = filter P xs" using id_take_nth_drop [OF f] by simp
  finally show ?thesis .
qed

lemma move_element_nth:
  "from < length xs \<Longrightarrow> to < length xs \<Longrightarrow> move_element from to xs ! to = xs ! from"
  by (simp add: move_element_def Let_def nth_append min_def)

text \<open>
  Moving a rule group. The group ends up at the position asked for, kept inside the list;
  no group is lost or doubled; and the other groups keep their order, so the first match among
  them is what it was.
\<close>

lemma move_rule_group:
  assumes "find_index (\<lambda>rg. rg_ID rg = gid) (rs_RuleGroups g) = Some from"
  shows "let gs' = rs_RuleGroups (fst (MoveRuleGroup gid delta g)) in
      mset gs' = mset (rs_RuleGroups g) \<and>
      gs' ! nat (min (max 0 (int from + delta)) (int (length (rs_RuleGroups g)) - 1)) = rs_RuleGroups g ! from \<and>
      filter (\<lambda>rg. rg_ID rg \<noteq> gid) gs' = filter (\<lambda>rg. rg_ID rg \<noteq> gid) (rs_RuleGroups g)"
proof -
  have f: "from < length (rs_RuleGroups g)" "rg_ID (rs_RuleGroups g ! from) = gid"
    using find_index_SomeD [OF assms] by simp_all
  have t: "nat (min (max 0 (int from + delta)) (int (length (rs_RuleGroups g)) - 1)) =
      move_target delta (length (rs_RuleGroups g)) from"
    using f(1) by (auto simp: move_target_def Let_def)
  have "move_target delta (length (rs_RuleGroups g)) from < length (rs_RuleGroups g)"
    using f(1) by (intro move_target_bound) linarith
  then show ?thesis
    using f by (simp add: MoveRuleGroup_def assms t Let_def mset_move_element filter_other_move move_element_nth)
qed

end
