(* ===== verification/ConnLog.thy ===== *)
theory ConnLog
  imports Meters DomainRules "HOL-Library.Multiset"
begin

text \<open>
  The history of connections: \<^verbatim>\<open>internal/stats/connlog.go\<close>. The ring of closed connections,
  the filter of a query, the lists a query collects and cuts as it goes, and the aggregation
  by host, route or error. Times are milliseconds; \<open>None\<close> is Go's zero time.
\<close>

section \<open>Records and the ring\<close>

definition maxConnLog :: nat where "maxConnLog = 4096"

record conn_record =
  cr_ID :: u64
  cr_Route :: string
  cr_SrcAddr :: string
  cr_DstAddr :: string
  cr_Host :: string
  cr_TunnelIndex :: int
  cr_OpenedMs :: int
  cr_ClosedMs :: int
  cr_DurationMs :: int
  cr_TxBytes :: int
  cr_RxBytes :: int
  cr_FirstRxMs :: int
  cr_LastRxMs :: int
  cr_LastTxMs :: int
  cr_Error :: string

record conn_ring =
  cl_buf :: "conn_record list"
  cl_next :: nat

definition ring_add :: "conn_record \<Rightarrow> conn_ring \<Rightarrow> conn_ring" where
  "ring_add rec r =
     (if length (cl_buf r) < maxConnLog then r\<lparr>cl_buf := cl_buf r @ [rec]\<rparr>
      else r\<lparr>cl_buf := (cl_buf r)[cl_next r := rec], cl_next := (cl_next r + 1) mod maxConnLog\<rparr>)"

definition oldestOpenMs :: "conn_ring \<Rightarrow> int" where
  "oldestOpenMs r =
     fold (\<lambda>c oldest. let ms = cr_OpenedMs c in if oldest = 0 \<or> ms < oldest then ms else oldest) (cl_buf r) 0"

text \<open>The order of \<open>each\<close>.\<close>

definition ring_each :: "conn_ring \<Rightarrow> conn_record list" where
  "ring_each r = (let n = length (cl_buf r) in map (\<lambda>i. cl_buf r ! ((cl_next r + i) mod n)) [0..<n])"

record conn_stats =
  cs_srcAddr :: string
  cs_dstAddr :: string
  cs_host :: string
  cs_tunnelIndex :: int
  cs_route :: string
  cs_openedAt :: int
  cs_firstRxAt :: "int option"
  cs_lastRxAt :: "int option"
  cs_lastTxAt :: "int option"
  cs_rxBytes :: int
  cs_txBytes :: int
  cs_destKey :: string

definition msOrZero :: "int option \<Rightarrow> int" where
  "msOrZero t = (case t of None \<Rightarrow> 0 | Some ms \<Rightarrow> ms)"

definition cs_record :: "conn_stats \<Rightarrow> u64 \<Rightarrow> int \<Rightarrow> conn_record" where
  "cs_record cs cid now =
     \<lparr>cr_ID = cid, cr_Route = (if cs_route cs = [] then RouteTunnel else cs_route cs),
      cr_SrcAddr = cs_srcAddr cs, cr_DstAddr = cs_dstAddr cs, cr_Host = cs_host cs,
      cr_TunnelIndex = cs_tunnelIndex cs, cr_OpenedMs = cs_openedAt cs, cr_ClosedMs = 0,
      cr_DurationMs = now - cs_openedAt cs, cr_TxBytes = cs_txBytes cs, cr_RxBytes = cs_rxBytes cs,
      cr_FirstRxMs = (case cs_firstRxAt cs of None \<Rightarrow> 0 | Some t \<Rightarrow> t - cs_openedAt cs),
      cr_LastRxMs = msOrZero (cs_lastRxAt cs), cr_LastTxMs = msOrZero (cs_lastTxAt cs), cr_Error = []\<rparr>"

definition failed_record :: "u64 \<Rightarrow> string \<Rightarrow> string \<Rightarrow> string \<Rightarrow> string \<Rightarrow> int \<Rightarrow> int \<Rightarrow> string \<Rightarrow> conn_record" where
  "failed_record cid srcAddr dstAddr host route startedAt now errMsg =
     \<lparr>cr_ID = cid, cr_Route = route, cr_SrcAddr = srcAddr, cr_DstAddr = dstAddr, cr_Host = host,
      cr_TunnelIndex = 0, cr_OpenedMs = startedAt, cr_ClosedMs = now, cr_DurationMs = now - startedAt,
      cr_TxBytes = 0, cr_RxBytes = 0, cr_FirstRxMs = 0, cr_LastRxMs = 0, cr_LastTxMs = 0, cr_Error = errMsg\<rparr>"

section \<open>Queries\<close>

record conn_filter =
  fl_host :: string
  fl_sinceMs :: int
  fl_untilMs :: int
  fl_route :: string
  fl_minDurMs :: int
  fl_minBytes :: int
  fl_errOnly :: bool

definition fl_match :: "conn_filter \<Rightarrow> conn_record \<Rightarrow> bool" where
  "fl_match f r =
     (if fl_sinceMs f > 0 \<and> cr_ClosedMs r \<noteq> 0 \<and> cr_ClosedMs r < fl_sinceMs f then False
      else if fl_untilMs f > 0 \<and> cr_OpenedMs r > fl_untilMs f then False
      else if fl_route f \<noteq> [] \<and> cr_Route r \<noteq> fl_route f then False
      else if fl_minDurMs f > 0 \<and> cr_DurationMs r < fl_minDurMs f then False
      else if fl_minBytes f > 0 \<and> cr_TxBytes r + cr_RxBytes r < fl_minBytes f then False
      else if fl_errOnly f \<and> cr_Error r = [] then False
      else if fl_host f \<noteq> [] \<and> \<not> contains_sub (to_lower (cr_Host r)) (fl_host f)
              \<and> \<not> contains_sub (to_lower (cr_DstAddr r)) (fl_host f) then False
      else True)"

definition connSortKeys :: "string \<Rightarrow> (conn_record \<Rightarrow> int) option" where
  "connSortKeys order =
     (if order = ''dur'' then Some cr_DurationMs
      else if order = ''bytes'' then Some (\<lambda>r. cr_TxBytes r + cr_RxBytes r)
      else if order = ''first-byte'' then Some cr_FirstRxMs else None)"

text \<open>Both sorts are stable; a limit of 0 keeps everything.\<close>

definition sortConns :: "conn_record list \<Rightarrow> string \<Rightarrow> nat \<Rightarrow> conn_record list" where
  "sortConns recs order limit =
     (case connSortKeys order of
        None \<Rightarrow>
          let s = sort_key cr_OpenedMs recs in
          if limit > 0 \<and> length s > limit then drop (length s - limit) s else s
      | Some key \<Rightarrow>
          let s = sort_key (\<lambda>r. - key r) recs in
          if limit > 0 \<and> length s > limit then take limit s else s)"

record conn_list =
  ls_order :: string
  ls_limit :: nat
  ls_recs :: "conn_record list"
  ls_matched :: nat

definition list_add :: "conn_record \<Rightarrow> conn_list \<Rightarrow> conn_list" where
  "list_add r l =
     (let l1 = l\<lparr>ls_matched := ls_matched l + 1, ls_recs := ls_recs l @ [r]\<rparr> in
      if ls_limit l > 0 \<and> length (ls_recs l1) \<ge> 4 * ls_limit l + 64
      then l1\<lparr>ls_recs := sortConns (ls_recs l1) (ls_order l) (ls_limit l)\<rparr> else l1)"

definition list_result :: "conn_list \<Rightarrow> conn_record list" where
  "list_result l = sortConns (ls_recs l) (ls_order l) (ls_limit l)"

definition new_list :: "string \<Rightarrow> nat \<Rightarrow> conn_list" where
  "new_list order limit = \<lparr>ls_order = order, ls_limit = limit, ls_recs = [], ls_matched = 0\<rparr>"

text \<open>\<open>eachMatching\<close> without a history file: the active records, then the ring, oldest first.\<close>

definition eachMatching ::
    "conn_filter \<Rightarrow> int \<Rightarrow> (u64 \<times> conn_stats) list \<Rightarrow> conn_ring \<Rightarrow> conn_record list \<times> conn_record list \<times> int" where
  "eachMatching f now conns ring =
     (filter (fl_match f) (map (\<lambda>(cid, cs). cs_record cs cid now) conns),
      filter (fl_match f) (ring_each ring), oldestOpenMs ring)"

record conns_response =
  rp_NowMs :: int
  rp_HistoryFromMs :: int
  rp_ActiveMatched :: nat
  rp_ClosedMatched :: nat
  rp_Active :: "conn_record list"
  rp_Closed :: "conn_record list"

definition connections ::
    "conn_filter \<Rightarrow> string \<Rightarrow> nat \<Rightarrow> int \<Rightarrow> (u64 \<times> conn_stats) list \<Rightarrow> conn_ring \<Rightarrow> conns_response" where
  "connections f order limit now conns ring =
     (case eachMatching f now conns ring of (active, closed, from) \<Rightarrow>
        let la = fold list_add active (new_list order limit);
            lc = fold list_add closed (new_list order limit)
        in \<lparr>rp_NowMs = now, rp_HistoryFromMs = from, rp_ActiveMatched = ls_matched la,
            rp_ClosedMatched = ls_matched lc, rp_Active = list_result la, rp_Closed = list_result lc\<rparr>)"

section \<open>The ring keeps the newest records\<close>

definition conn_ring_ok :: "conn_ring \<Rightarrow> bool" where
  "conn_ring_ok r \<longleftrightarrow>
     length (cl_buf r) \<le> maxConnLog \<and> (if length (cl_buf r) < maxConnLog then cl_next r = 0 else cl_next r < maxConnLog)"

lemma ring_each_rotated:
  "conn_ring_ok r \<Longrightarrow> ring_each r = drop (cl_next r) (cl_buf r) @ take (cl_next r) (cl_buf r)"
proof (rule nth_equalityI)
  assume ok: "conn_ring_ok r"
  show "length (ring_each r) = length (drop (cl_next r) (cl_buf r) @ take (cl_next r) (cl_buf r))"
    by (simp add: ring_each_def Let_def)
  fix i
  assume "i < length (ring_each r)"
  then have i: "i < length (cl_buf r)" by (simp add: ring_each_def Let_def)
  have n: "cl_next r < length (cl_buf r)" using ok i by (auto simp: conn_ring_ok_def split: if_splits)
  have "(cl_next r + i) mod length (cl_buf r) =
      (if cl_next r + i < length (cl_buf r) then cl_next r + i else cl_next r + i - length (cl_buf r))"
    using n i by (simp add: mod_if)
  then show "ring_each r ! i = (drop (cl_next r) (cl_buf r) @ take (cl_next r) (cl_buf r)) ! i"
    using n i by (auto simp: ring_each_def Let_def nth_append add.commute)
qed

lemma conn_ring_ok_add: "conn_ring_ok r \<Longrightarrow> conn_ring_ok (ring_add rec r)"
  by (auto simp: conn_ring_ok_def ring_add_def maxConnLog_def)

lemma ring_each_add:
  assumes "conn_ring_ok r"
  shows "ring_each (ring_add rec r) = last_n maxConnLog (ring_each r @ [rec])"
proof (cases "length (cl_buf r) < maxConnLog")
  case True
  then have "cl_next r = 0" using assms by (simp add: conn_ring_ok_def)
  then show ?thesis
    using True ring_each_rotated [OF assms] ring_each_rotated [OF conn_ring_ok_add [OF assms, of rec]]
    by (simp add: ring_add_def)
next
  case False
  define i b where "i = cl_next r" and "b = cl_buf r"
  have len: "length b = maxConnLog" and i: "i < length b"
    using assms False by (auto simp: conn_ring_ok_def i_def b_def)
  have "ring_each (ring_add rec r) = drop (Suc i) b @ take i b @ [rec]"
  proof (cases "Suc i < maxConnLog")
    case True
    then show ?thesis
      unfolding ring_each_rotated [OF conn_ring_ok_add [OF assms]]
      using False i by (simp add: ring_add_def take_Suc_update flip: i_def b_def)
  next
    case end_of_ring: False
    then have "Suc i = length b" using i len by simp
    then show ?thesis
      unfolding ring_each_rotated [OF conn_ring_ok_add [OF assms]]
      using False len take_Suc_update [OF i, of rec] by (simp add: ring_add_def flip: i_def b_def)
  qed
  also have "\<dots> = tl (ring_each r) @ [rec]"
    using drop_Suc_rotate [OF i] by (simp add: ring_each_rotated [OF assms] flip: i_def b_def)
  also have "\<dots> = last_n maxConnLog (ring_each r @ [rec])"
    using len by (intro last_n_snoc [symmetric])
      (simp_all add: ring_each_def Let_def maxConnLog_def flip: b_def)
  finally show ?thesis .
qed

interpretation conn_log: bounded_log ring_add ring_each conn_ring_ok maxConnLog
  by unfold_locales (simp_all add: ring_each_add conn_ring_ok_add)

section \<open>Cutting while collecting\<close>

lemma sort_key_split:
  "sort_key f xs = sort_key f [x\<leftarrow>xs. f x < m] @ [x\<leftarrow>xs. f x = m] @ sort_key f [x\<leftarrow>xs. m < f x]"
proof (rule properties_for_sort_key)
  let ?r = "sort_key f [x\<leftarrow>xs. f x < m] @ [x\<leftarrow>xs. f x = m] @ sort_key f [x\<leftarrow>xs. m < f x]"
  show "mset ?r = mset xs"
    by (rule multiset_eqI) (auto simp: count_filter_mset)
  show "filter (\<lambda>y. f k = f y) ?r = filter (\<lambda>y. f k = f y) xs" for k
  proof -
    have eq: "filter (\<lambda>y. f y = f k) (filter P xs) = (if P' then filter (\<lambda>y. f y = f k) xs else [])"
      if "\<And>y. f y = f k \<Longrightarrow> P y = P'" for P P'
      using that by (auto simp: filter_empty_conv intro: filter_cong)
    have "filter (\<lambda>y. f y = f k) ?r = filter (\<lambda>y. f y = f k) xs"
      unfolding filter_append sort_key_stable
      by (simp only: eq [of "\<lambda>x. f x < m" "f k < m"] eq [of "\<lambda>x. f x = m" "f k = m"] eq [of "\<lambda>x. m < f x" "m < f k"])
        (cases "f k" m rule: linorder_cases, auto)
    then show ?thesis by (simp only: eq_commute [of "f k"])
  qed
  show "sorted (map f ?r)"
    by (auto simp: sorted_append intro: sorted_map_same)
qed

lemma sort_key_again: "sort_key f (us @ sort_key f xs @ ys) = sort_key f (us @ xs @ ys)"
proof (rule properties_for_sort_key)
  show "mset (sort_key f (us @ xs @ ys)) = mset (us @ sort_key f xs @ ys)" by simp
  show "filter (\<lambda>y. f k = f y) (sort_key f (us @ xs @ ys)) = filter (\<lambda>y. f k = f y) (us @ sort_key f xs @ ys)" for k
    using sort_key_stable [of f "f k"] by (simp only: eq_commute [of "f k"] filter_append)
qed simp

lemma sorted_last_max:
  assumes "sorted (map f a)" "x \<in> set a"
  shows "f x \<le> f (last a)"
proof (cases a rule: rev_cases)
  case (snoc ys y)
  with assms show ?thesis by (auto simp: sorted_append)
qed (use assms in simp)

text \<open>Cutting the greatest elements of a sorted part does not change the first ones of the whole.\<close>

lemma take_sort_trim:
  "take k (sort_key f (us @ take k (sort_key f xs) @ ys)) = take k (sort_key f (us @ xs @ ys))"
proof (cases "k < length xs \<and> 0 < k")
  case False
  then show ?thesis by (cases "k = 0") (simp_all add: sort_key_again)
next
  case True
  define zs where "zs = sort_key f xs"
  define a b where "a = take k zs" and "b = drop k zs"
  define m where "m = f (last a)"
  have zs: "zs = a @ b" "sorted (map f zs)" by (simp_all add: a_def b_def zs_def)
  have "length a = k" using True by (simp add: a_def zs_def)
  with True have a: "length a = k" "a \<noteq> []" by auto
  have le: "\<forall>x\<in>set a. f x \<le> m"
    unfolding m_def using zs by (auto simp: sorted_append intro: sorted_last_max)
  have ge: "\<forall>x\<in>set b. m \<le> f x"
    using zs a(2) unfolding m_def by (auto simp: sorted_append)
  have none: "[x\<leftarrow>b. f x < m] = []" "[x\<leftarrow>a. m < f x] = []"
    using le ge by (auto simp: filter_empty_conv not_less)
  define pre where "pre = sort_key f [x\<leftarrow>us @ a @ ys. f x < m] @ [x\<leftarrow>us @ a. f x = m]"
  have "[x\<leftarrow>a. f x = m] = [x\<leftarrow>a. \<not> f x < m]" using le by (intro filter_cong) auto
  then have "length [x\<leftarrow>a. f x < m] + length [x\<leftarrow>a. f x = m] = k"
    using sum_length_filter_compl [of "\<lambda>x. f x < m" a] a(1) by simp
  then have len: "k \<le> length pre" by (simp add: pre_def)
  have "sort_key f (us @ (a @ b) @ ys) = pre @
      [x\<leftarrow>b @ ys. f x = m] @ sort_key f [x\<leftarrow>us @ a @ b @ ys. m < f x]"
    unfolding pre_def by (subst sort_key_split [of f _ m]) (simp add: none)
  moreover have "sort_key f (us @ a @ ys) = pre @ [x\<leftarrow>ys. f x = m] @ sort_key f [x\<leftarrow>us @ a @ ys. m < f x]"
    unfolding pre_def by (subst sort_key_split [of f _ m]) simp
  ultimately have "take k (sort_key f (us @ a @ ys)) = take k (sort_key f (us @ zs @ ys))"
    using len unfolding zs(1) by simp
  then show ?thesis unfolding a_def zs_def sort_key_again .
qed

text \<open>The same for the last ones, by reversal.\<close>

lemma rev_sort_key: "rev (sort_key f xs) = sort_key (\<lambda>x. - f x) (rev xs)" for f :: "'a \<Rightarrow> int"
proof (rule properties_for_sort_key [symmetric])
  show "mset (rev (sort_key f xs)) = mset (rev xs)" by simp
  show "filter (\<lambda>y. - f k = - f y) (rev (sort_key f xs)) = filter (\<lambda>y. - f k = - f y) (rev xs)" for k
    using sort_key_stable [of f "f k" xs] by (simp only: neg_equal_iff_equal eq_commute [of "f k"] rev_filter [symmetric])
  have "sorted_wrt (\<lambda>x y. f x \<le> f y) (sort_key f xs)"
    using sorted_sort_key [of f xs] by (simp add: sorted_map)
  then show "sorted (map (\<lambda>x. - f x) (rev (sort_key f xs)))"
    by (simp add: sorted_map sorted_wrt_rev)
qed

lemma last_n_rev: "last_n k xs = rev (take k (rev xs))"
  by (simp add: last_n_def rev_take rev_drop [symmetric] take_rev)

lemma last_n_sort_trim:
  "last_n k (sort_key f (last_n k (sort_key f xs) @ ys)) = last_n k (sort_key f (xs @ ys))" for f :: "'a \<Rightarrow> int"
  using take_sort_trim [of k "\<lambda>x. - f x" "rev ys" "rev xs" "[]"]
  by (simp add: last_n_rev rev_sort_key)

text \<open>One batch of records at a time or all at once: the same list.\<close>

lemma sortConns_limit:
  "0 < limit \<Longrightarrow> sortConns recs order limit =
     (case connSortKeys order of
        None \<Rightarrow> last_n limit (sort_key cr_OpenedMs recs)
      | Some key \<Rightarrow> take limit (sort_key (\<lambda>r. - key r) recs))"
  by (auto simp: sortConns_def Let_def last_n_def split: option.split)

lemma sortConns_trim:
  "0 < limit \<Longrightarrow> sortConns (sortConns xs order limit @ ys) order limit = sortConns (xs @ ys) order limit"
  using take_sort_trim [where us = "[]"]
  by (auto simp: sortConns_limit last_n_sort_trim split: option.split)

lemma list_adds:
  "ls_order (fold list_add rs l) = ls_order l \<and> ls_limit (fold list_add rs l) = ls_limit l \<and>
   ls_matched (fold list_add rs l) = ls_matched l + length rs \<and>
   list_result (fold list_add rs l) = sortConns (ls_recs l @ rs) (ls_order l) (ls_limit l)"
proof (induction rs arbitrary: l)
  case Nil
  then show ?case by (simp add: list_result_def)
next
  case (Cons r rs)
  show ?case
    using Cons [of "list_add r l"] sortConns_trim [of "ls_limit l" "ls_recs l @ [r]" "ls_order l" rs]
    by (auto simp: list_add_def Let_def)
qed

text \<open>
  What a query of the connection history returns. The lists are the matching connections,
  sorted and cut as if all had been collected first, though the lists are cut as they grow;
  the counts are those before the cut; and the closed connections are drawn from the newest
  4096 that were recorded.
\<close>

lemma connections_query:
  "let resp = connections f order limit now conns (fold ring_add recs \<lparr>cl_buf = [], cl_next = 0\<rparr>) in
    rp_Closed resp = sortConns (filter (fl_match f) (last_n maxConnLog recs)) order limit \<and>
    rp_ClosedMatched resp = length (filter (fl_match f) (last_n maxConnLog recs)) \<and>
    rp_Active resp = sortConns (filter (fl_match f) (map (\<lambda>(cid, cs). cs_record cs cid now) conns)) order limit \<and>
    rp_ActiveMatched resp = length (filter (fl_match f) (map (\<lambda>(cid, cs). cs_record cs cid now) conns))"
proof -
  have "ring_each (fold ring_add recs \<lparr>cl_buf = [], cl_next = 0\<rparr>) = last_n maxConnLog recs"
    using conn_log.contents_adds [of "\<lparr>cl_buf = [], cl_next = 0\<rparr>" recs]
    by (simp add: conn_ring_ok_def ring_each_def maxConnLog_def)
  then show ?thesis
    using list_adds [of _ "new_list order limit"]
    by (auto simp: connections_def eachMatching_def Let_def new_list_def)
qed

end
