(* ===== verification/ConnStats.thy ===== *)
theory ConnStats
  imports ConnLog RouteTable "HOL-Library.AList" "HOL-Library.Option_ord"
begin

text \<open>
  The book of open connections and destinations: \<open>Counters\<close> of \<^verbatim>\<open>internal/stats/stats.go\<close>
  under its mutex. Every operation runs under the lock, so a history is a sequence of
  operations. Times are milliseconds of one clock; \<open>None\<close> is Go's zero time, which is before
  every other. A map is the list of its entries in some order of iteration.
\<close>

section \<open>State\<close>

record dest_stats =
  ds_host :: string
  ds_activeConns :: int
  ds_totalConns :: int
  ds_rxBytes :: int
  ds_txBytes :: int
  ds_firstSeenAt :: int
  ds_lastSeenAt :: "int option"
  ds_processNames :: "string list"

record conn_event =
  ce_ID :: u64
  ce_Action :: string
  ce_SrcAddr :: string
  ce_DstAddr :: string
  ce_Host :: string
  ce_TunnelIndex :: int
  ce_TimestampMs :: int

record conn_book =
  cb_next :: u64
  cb_conns :: "(u64 \<times> conn_stats) list"
  cb_dests :: "(string \<times> dest_stats) list"
  cb_log :: conn_ring
  cb_events :: "conn_event list"
  cb_priorities :: "(string \<times> int) list option"
  cb_routes :: compiled_routes

definition eventBuffer :: nat where "eventBuffer = 512"

definition new_book :: "(string \<Rightarrow> string option) \<Rightarrow> conn_book" where
  "new_book etld =
     \<lparr>cb_next = 0, cb_conns = [], cb_dests = [], cb_log = \<lparr>cl_buf = [], cl_next = 0\<rparr>, cb_events = [],
      cb_priorities = Some [],
      cb_routes = compileRouteTable etld \<lparr>rt_Overrides = [], rt_Groups = [], rt_Final = []\<rparr>\<rparr>"

text \<open>The channel of events takes 512; a full one drops the event.\<close>

definition push_event :: "conn_event \<Rightarrow> conn_book \<Rightarrow> conn_book" where
  "push_event ev b =
     (if length (cb_events b) < eventBuffer then b\<lparr>cb_events := cb_events b @ [ev]\<rparr> else b)"

section \<open>Destinations\<close>

definition maxDests :: nat where "maxDests = 2048"
definition keepDests :: nat where "keepDests = maxDests * 7 div 8"
definition maxDestSnapshot :: nat where "maxDestSnapshot = 500"

definition evictDests :: "(string \<times> dest_stats) list \<Rightarrow> (string \<times> dest_stats) list" where
  "evictDests dests =
     (if length dests \<le> maxDests then dests
      else
        let cands = sort_key (\<lambda>e. ds_lastSeenAt (snd e)) (filter (\<lambda>e. ds_activeConns (snd e) \<le> 0) dests);
            gone = map fst (take (length dests - keepDests) cands)
        in filter (\<lambda>e. fst e \<notin> set gone) dests)"

definition update_dest :: "string \<Rightarrow> (dest_stats \<Rightarrow> dest_stats) \<Rightarrow> (string \<times> dest_stats) list \<Rightarrow> (string \<times> dest_stats) list" where
  "update_dest k f dests = map (\<lambda>(k', ds). if k' = k then (k', f ds) else (k', ds)) dests"

definition new_dest :: "string \<Rightarrow> int \<Rightarrow> dest_stats" where
  "new_dest h now =
     \<lparr>ds_host = h, ds_activeConns = 0, ds_totalConns = 0, ds_rxBytes = 0, ds_txBytes = 0,
      ds_firstSeenAt = now, ds_lastSeenAt = None, ds_processNames = []\<rparr>"

definition count_open :: "int \<Rightarrow> dest_stats \<Rightarrow> dest_stats" where
  "count_open now ds =
     ds\<lparr>ds_activeConns := ds_activeConns ds + 1, ds_totalConns := ds_totalConns ds + 1, ds_lastSeenAt := Some now\<rparr>"

text \<open>
  The pointer \<open>ds\<close> of the source stays valid when the entry it came from is evicted; what is
  counted through it is then lost.
\<close>

definition ConnOpenRoute ::
    "string \<Rightarrow> string \<Rightarrow> string \<Rightarrow> int \<Rightarrow> string \<Rightarrow> int \<Rightarrow> conn_book \<Rightarrow> u64 \<times> conn_book" where
  "ConnOpenRoute srcAddr dstAddr host tunnelIndex route now b =
     (let cid = cb_next b + 1;
          dk = destKey dstAddr host;
          displayHost = (if host \<noteq> [] then host else dk);
          cs = \<lparr>cs_srcAddr = srcAddr, cs_dstAddr = dstAddr, cs_host = host, cs_tunnelIndex = tunnelIndex,
                cs_route = route, cs_openedAt = now, cs_firstRxAt = None, cs_lastRxAt = None, cs_lastTxAt = None,
                cs_rxBytes = 0, cs_txBytes = 0, cs_destKey = dk\<rparr>;
          b1 = b\<lparr>cb_next := cid, cb_conns := AList.update cid cs (cb_conns b)\<rparr>;
          b2 = (if map_of (cb_dests b1) dk = None
                then b1\<lparr>cb_dests := evictDests (cb_dests b1 @ [(dk, new_dest displayHost now)])\<rparr>
                else b1);
          b3 = b2\<lparr>cb_dests := update_dest dk (count_open now) (cb_dests b2)\<rparr>
      in (cid, push_event \<lparr>ce_ID = cid, ce_Action = ''open'', ce_SrcAddr = srcAddr, ce_DstAddr = dstAddr,
                 ce_Host = host, ce_TunnelIndex = tunnelIndex, ce_TimestampMs = now\<rparr> b3))"

definition ConnOpen :: "string \<Rightarrow> string \<Rightarrow> string \<Rightarrow> int \<Rightarrow> int \<Rightarrow> conn_book \<Rightarrow> u64 \<times> conn_book" where
  "ConnOpen srcAddr dstAddr host tunnelIndex now b = ConnOpenRoute srcAddr dstAddr host tunnelIndex RouteTunnel now b"

definition ConnCloseErr :: "u64 \<Rightarrow> string \<Rightarrow> string \<Rightarrow> string \<Rightarrow> int \<Rightarrow> conn_book \<Rightarrow> conn_book" where
  "ConnCloseErr cid srcAddr dstAddr errMsg now b =
     (let b1 = (case map_of (cb_conns b) cid of
                  None \<Rightarrow> b
                | Some cs \<Rightarrow>
                    b\<lparr>cb_dests := update_dest (cs_destKey cs)
                         (\<lambda>ds. ds\<lparr>ds_activeConns := ds_activeConns ds - 1, ds_lastSeenAt := Some now\<rparr>) (cb_dests b),
                      cb_log := ring_add ((cs_record cs cid now)\<lparr>cr_ClosedMs := now, cr_Error := errMsg\<rparr>) (cb_log b)\<rparr>);
          b2 = b1\<lparr>cb_conns := AList.delete cid (cb_conns b1)\<rparr>
      in push_event \<lparr>ce_ID = cid, ce_Action = ''close'', ce_SrcAddr = srcAddr, ce_DstAddr = dstAddr,
           ce_Host = [], ce_TunnelIndex = 0, ce_TimestampMs = now\<rparr> b2)"

definition ConnFailed ::
    "string \<Rightarrow> string \<Rightarrow> string \<Rightarrow> string \<Rightarrow> int \<Rightarrow> string \<Rightarrow> int \<Rightarrow> conn_book \<Rightarrow> conn_book" where
  "ConnFailed srcAddr dstAddr host route startedAt errMsg now b =
     (let cid = cb_next b + 1 in
      b\<lparr>cb_next := cid,
        cb_log := ring_add (failed_record cid srcAddr dstAddr host route startedAt now errMsg) (cb_log b)\<rparr>)"

definition count_rx :: "int \<Rightarrow> int \<Rightarrow> conn_stats \<Rightarrow> conn_stats" where
  "count_rx n now cs =
     cs\<lparr>cs_rxBytes := cs_rxBytes cs + n,
        cs_firstRxAt := (case cs_firstRxAt cs of None \<Rightarrow> Some now | Some t \<Rightarrow> Some t),
        cs_lastRxAt := Some now\<rparr>"

definition ConnAddRx :: "u64 \<Rightarrow> int \<Rightarrow> int \<Rightarrow> conn_book \<Rightarrow> conn_book" where
  "ConnAddRx cid n now b =
     (if n \<le> 0 \<or> cid = 0 then b
      else
        (case map_of (cb_conns b) cid of
           None \<Rightarrow> b
         | Some cs \<Rightarrow>
             b\<lparr>cb_conns := AList.update cid (count_rx n now cs) (cb_conns b),
               cb_dests := update_dest (cs_destKey cs) (\<lambda>ds. ds\<lparr>ds_rxBytes := ds_rxBytes ds + n\<rparr>) (cb_dests b)\<rparr>))"

definition ConnAddTx :: "u64 \<Rightarrow> int \<Rightarrow> int \<Rightarrow> conn_book \<Rightarrow> conn_book" where
  "ConnAddTx cid n now b =
     (if n \<le> 0 \<or> cid = 0 then b
      else
        (case map_of (cb_conns b) cid of
           None \<Rightarrow> b
         | Some cs \<Rightarrow>
             b\<lparr>cb_conns := AList.update cid (cs\<lparr>cs_txBytes := cs_txBytes cs + n, cs_lastTxAt := Some now\<rparr>) (cb_conns b),
               cb_dests := update_dest (cs_destKey cs) (\<lambda>ds. ds\<lparr>ds_txBytes := ds_txBytes ds + n\<rparr>) (cb_dests b)\<rparr>))"

section \<open>Priorities and snapshots\<close>

definition LookupPriority :: "string \<Rightarrow> string \<Rightarrow> conn_book \<Rightarrow> int" where
  "LookupPriority dstAddr host b =
     lookupPriority (case cb_priorities b of None \<Rightarrow> Map.empty | Some m \<Rightarrow> map_of m) (destKey dstAddr host)"

text \<open>The map is taken as it is posted; JSON null makes it nil, here \<open>None\<close>.\<close>

definition SetPriorities :: "(string \<times> int) list option \<Rightarrow> conn_book \<Rightarrow> conn_book" where
  "SetPriorities m b = b\<lparr>cb_priorities := m\<rparr>"

text \<open>A write to a nil map panics: \<open>None\<close>.\<close>

definition stats_SetPriority :: "string \<Rightarrow> int \<Rightarrow> conn_book \<Rightarrow> conn_book option" where
  "stats_SetPriority host priority b =
     (let p = (if priority < 1 then 1 else priority);
          p = (if p > 5 then 5 else p)
      in if p = DefaultPriority
         then Some (b\<lparr>cb_priorities := map_option (AList.delete host) (cb_priorities b)\<rparr>)
         else (case cb_priorities b of
                 None \<Rightarrow> None
               | Some m \<Rightarrow> Some (b\<lparr>cb_priorities := Some (AList.update host p m)\<rparr>)))"

record dest_snapshot =
  dsn_Host :: string
  dsn_ActiveConns :: int
  dsn_TotalConns :: int
  dsn_RxBytes :: int
  dsn_TxBytes :: int
  dsn_Priority :: int
  dsn_Route :: string
  dsn_ProcessNames :: "string list"

definition dest_snap :: "conn_book \<Rightarrow> string \<times> dest_stats \<Rightarrow> dest_snapshot" where
  "dest_snap b e =
     (case e of (key, ds) \<Rightarrow>
        \<lparr>dsn_Host = ds_host ds, dsn_ActiveConns = ds_activeConns ds, dsn_TotalConns = ds_totalConns ds,
         dsn_RxBytes = ds_rxBytes ds, dsn_TxBytes = ds_txBytes ds,
         dsn_Priority = lookupPriority (case cb_priorities b of None \<Rightarrow> Map.empty | Some m \<Rightarrow> map_of m) key,
         dsn_Route = cr_lookup (cb_routes b) (normalizeHost key),
         dsn_ProcessNames = sort (remdups (ds_processNames ds))\<rparr>)"

definition buildDestSnapshot :: "conn_book \<Rightarrow> dest_snapshot list" where
  "buildDestSnapshot b =
     (let snaps = sort_key (\<lambda>s. - (dsn_RxBytes s + dsn_TxBytes s)) (map (dest_snap b) (cb_dests b)) in
      if length snaps > maxDestSnapshot then take maxDestSnapshot snaps else snaps)"

definition buildConnSnapshot :: "conn_book \<Rightarrow> conn_event list" where
  "buildConnSnapshot b =
     map (\<lambda>(cid, cs). \<lparr>ce_ID = cid, ce_Action = ''open'', ce_SrcAddr = cs_srcAddr cs, ce_DstAddr = cs_dstAddr cs,
            ce_Host = cs_host cs, ce_TunnelIndex = cs_tunnelIndex cs, ce_TimestampMs = cs_openedAt cs\<rparr>) (cb_conns b)"

definition ConnectionSnapshot :: "u64 \<Rightarrow> conn_book \<Rightarrow> (int \<times> int \<times> int) option" where
  "ConnectionSnapshot cid b =
     map_option (\<lambda>cs. (cs_openedAt cs, cs_txBytes cs, cs_rxBytes cs)) (map_of (cb_conns b) cid)"

text \<open>Process names found for the source addresses, merged into the destinations.\<close>

definition merge_process :: "(string \<times> string) list \<Rightarrow> string \<times> string \<Rightarrow> conn_book \<Rightarrow> conn_book" where
  "merge_process srcToDestKey e b =
     (case e of (srcAddr, procName) \<Rightarrow>
        (case map_of srcToDestKey srcAddr of
           None \<Rightarrow> b
         | Some dk \<Rightarrow>
             b\<lparr>cb_dests := update_dest dk (\<lambda>ds. ds\<lparr>ds_processNames := List.insert procName (ds_processNames ds)\<rparr>)
                 (cb_dests b)\<rparr>))"

section \<open>Accounting\<close>

datatype book_op =
    OpOpen string string string int string int
  | OpClose u64 string string string int
  | OpFailed string string string string int string int
  | OpRx u64 int int
  | OpTx u64 int int

fun book_step :: "conn_book \<Rightarrow> book_op \<Rightarrow> conn_book" where
  "book_step b (OpOpen src dst host ti route now) = snd (ConnOpenRoute src dst host ti route now b)"
| "book_step b (OpClose cid src dst err now) = ConnCloseErr cid src dst err now b"
| "book_step b (OpFailed src dst host route started err now) = ConnFailed src dst host route started err now b"
| "book_step b (OpRx cid n now) = ConnAddRx cid n now b"
| "book_step b (OpTx cid n now) = ConnAddTx cid n now b"

definition open_to :: "string \<Rightarrow> (u64 \<times> conn_stats) list \<Rightarrow> nat" where
  "open_to dk conns = length (filter (\<lambda>e. cs_destKey (snd e) = dk) conns)"

definition op_keys :: "book_op \<Rightarrow> string set" where
  "op_keys op = (case op of OpOpen src dst host ti route now \<Rightarrow> {destKey dst host} | _ \<Rightarrow> {})"

text \<open>
  The book is right: every destination shows as many active connections as are open to it, and
  every open connection has its destination in the book.
\<close>

definition book_right :: "conn_book \<Rightarrow> bool" where
  "book_right b \<longleftrightarrow>
     (\<forall>dk ds. map_of (cb_dests b) dk = Some ds \<longrightarrow> ds_activeConns ds = int (open_to dk (cb_conns b))) \<and>
     (\<lambda>e. cs_destKey (snd e)) ` set (cb_conns b) \<subseteq> fst ` set (cb_dests b)"

definition book_ok :: "string set \<Rightarrow> conn_book \<Rightarrow> bool" where
  "book_ok K b \<longleftrightarrow>
     book_right b \<and> distinct (map fst (cb_dests b)) \<and> fst ` set (cb_dests b) \<subseteq> K \<and>
     distinct (map fst (cb_conns b)) \<and> (\<forall>e\<in>set (cb_conns b). fst e \<le> cb_next b)"

lemma map_of_update_dest:
  "map_of (update_dest k f ds) k' = (if k' = k then map_option f (map_of ds k) else map_of ds k')"
  by (induction ds) (auto simp: update_dest_def)

lemma fst_update_dest [simp]: "map fst (update_dest k f ds) = map fst ds"
  by (induction ds) (auto simp: update_dest_def)

lemma fst_set_update_dest [simp]: "fst ` set (update_dest k f ds) = fst ` set ds"
  by (metis fst_update_dest list.set_map)

lemma AList_update_fresh: "k \<notin> fst ` set al \<Longrightarrow> AList.update k v al = al @ [(k, v)]"
  by (induction al) auto

lemma open_to_append: "open_to dk (xs @ ys) = open_to dk xs + open_to dk ys"
  by (simp add: open_to_def)

lemma open_to_none: "\<forall>e\<in>set conns. cs_destKey (snd e) \<noteq> dk \<Longrightarrow> open_to dk conns = 0"
  by (simp add: open_to_def)

lemma open_to_update_same:
  "map_of conns cid = Some cs \<Longrightarrow> cs_destKey cs' = cs_destKey cs \<Longrightarrow>
     open_to dk (AList.update cid cs' conns) = open_to dk conns"
  by (induction conns) (auto simp: open_to_def split: if_splits)

lemma open_to_delete:
  "map_of conns cid = Some cs \<Longrightarrow> distinct (map fst conns) \<Longrightarrow>
     open_to dk conns = open_to dk (AList.delete cid conns) + (if cs_destKey cs = dk then 1 else 0)"
proof (induction conns)
  case (Cons e conns)
  obtain k c where e: "e = (k, c)" by fastforce
  show ?case
  proof (cases "k = cid")
    case True
    then have "AList.delete cid conns = conns"
      using Cons.prems e by (auto intro!: AList.delete_id)
    then show ?thesis using Cons.prems e True by (auto simp: open_to_def)
  next
    case False
    then show ?thesis using Cons e by (auto simp: open_to_def)
  qed
qed simp

lemma delete_absent: "map_of conns cid = None \<Longrightarrow> AList.delete cid conns = conns"
  by (simp add: map_of_eq_None_iff AList.delete_id)

lemma set_update_conns:
  "map_of conns cid = Some cs \<Longrightarrow> e \<in> set (AList.update cid cs' conns) \<Longrightarrow> e \<in> set conns \<or> e = (cid, cs')"
  by (induction conns) (auto split: if_splits)

lemma push_event_fields [simp]:
  "cb_dests (push_event ev b) = cb_dests b" "cb_conns (push_event ev b) = cb_conns b"
  "cb_next (push_event ev b) = cb_next b"
  by (simp_all add: push_event_def)

lemma evict_not_full: "length ds \<le> maxDests \<Longrightarrow> evictDests ds = ds"
  by (simp add: evictDests_def)

text \<open>Counting bytes changes no key and no active count.\<close>

lemma book_ok_count:
  assumes "book_ok K b" "map_of (cb_conns b) cid = Some cs" "cs_destKey cs' = cs_destKey cs"
    and "\<And>ds. ds_activeConns (f ds) = ds_activeConns ds"
  shows "book_ok K (b\<lparr>cb_conns := AList.update cid cs' (cb_conns b), cb_dests := update_dest dk f (cb_dests b)\<rparr>)"
proof -
  have in_conns: "(cid, cs) \<in> set (cb_conns b)" using assms(2) by (rule map_of_SomeD)
  have "ds_activeConns ds = int (open_to k (cb_conns b))"
    if "map_of (update_dest dk f (cb_dests b)) k = Some ds" for k ds
    using that assms(1,4) by (auto simp: map_of_update_dest book_ok_def book_right_def split: if_splits)
  moreover have "cs_destKey (snd e) \<in> fst ` set (cb_dests b)"
    if "e \<in> set (AList.update cid cs' (cb_conns b))" for e
    using set_update_conns [OF assms(2) that] assms(1,3) in_conns
    unfolding book_ok_def book_right_def by (metis (no_types, lifting) image_subset_iff snd_conv)
  moreover have "fst e \<le> cb_next b" if "e \<in> set (AList.update cid cs' (cb_conns b))" for e
    using set_update_conns [OF assms(2) that] assms(1) in_conns by (fastforce simp: book_ok_def)
  ultimately show ?thesis
    using assms(1) open_to_update_same [OF assms(2,3)]
    by (simp add: book_ok_def book_right_def distinct_update image_subset_iff)
qed

lemma book_ok_close:
  assumes "book_ok K b"
  shows "book_ok K (ConnCloseErr cid src dst err now b)"
proof (cases "map_of (cb_conns b) cid")
  case None
  then show ?thesis using assms by (simp add: ConnCloseErr_def Let_def book_ok_def book_right_def delete_absent)
next
  case (Some cs)
  have d: "distinct (map fst (cb_conns b))" using assms by (simp add: book_ok_def)
  have sub: "set (AList.delete cid (cb_conns b)) \<subseteq> set (cb_conns b)" by (auto simp: AList.delete_eq)
  let ?f = "\<lambda>ds. ds\<lparr>ds_activeConns := ds_activeConns ds - 1, ds_lastSeenAt := Some now\<rparr>"
  have "ds_activeConns ds = int (open_to k (AList.delete cid (cb_conns b)))"
    if u: "map_of (update_dest (cs_destKey cs) ?f (cb_dests b)) k = Some ds" for k ds
  proof -
    obtain d0 where d0: "map_of (cb_dests b) k = Some d0" "ds = (if k = cs_destKey cs then ?f d0 else d0)"
      using u by (auto simp: map_of_update_dest split: if_splits)
    have "ds_activeConns d0 = int (open_to k (cb_conns b))"
      using assms d0(1) by (simp add: book_ok_def book_right_def)
    then show ?thesis unfolding d0(2) open_to_delete [OF Some d, of k] by simp
  qed
  moreover have "(\<lambda>e. cs_destKey (snd e)) ` set (AList.delete cid (cb_conns b)) \<subseteq> fst ` set (cb_dests b)"
    by (rule subset_trans [OF image_mono [OF sub]]) (use assms in \<open>simp add: book_ok_def book_right_def\<close>)
  moreover have "\<forall>e\<in>set (AList.delete cid (cb_conns b)). fst e \<le> cb_next b"
    using assms sub unfolding book_ok_def by blast
  moreover have "fst ` set (cb_dests b) \<subseteq> K" "distinct (map fst (cb_dests b))"
    using assms by (simp_all add: book_ok_def)
  moreover have b': "cb_dests (ConnCloseErr cid src dst err now b) = update_dest (cs_destKey cs) ?f (cb_dests b)"
    "cb_conns (ConnCloseErr cid src dst err now b) = AList.delete cid (cb_conns b)"
    "cb_next (ConnCloseErr cid src dst err now b) = cb_next b"
    by (simp_all add: ConnCloseErr_def Let_def Some)
  ultimately show ?thesis
    unfolding book_ok_def book_right_def b' fst_update_dest fst_set_update_dest
    using distinct_delete [OF d] by blast
qed

lemma fresh_id:
  assumes "unat (cb_next b) + 1 < 2 ^ 64" "\<forall>e\<in>set (cb_conns b). fst e \<le> cb_next b"
  shows "cb_next b + 1 \<notin> fst ` set (cb_conns b)" "unat (cb_next b + 1) = unat (cb_next b) + 1"
proof -
  show u: "unat (cb_next b + 1) = unat (cb_next b) + 1"
    using assms(1) by (simp add: unat_word_ariths)
  then have "cb_next b < cb_next b + 1" by (simp add: word_less_nat_alt)
  then show "cb_next b + 1 \<notin> fst ` set (cb_conns b)" using assms(2) by (auto simp: not_le [symmetric])
qed

lemma book_ok_open:
  assumes "book_ok K b" "destKey dst host \<in> K" "finite K" "card K \<le> maxDests" "unat (cb_next b) + 1 < 2 ^ 64"
  shows "book_ok K (snd (ConnOpenRoute src dst host ti route now b))"
proof -
  define dk where "dk = destKey dst host"
  define cs where "cs = \<lparr>cs_srcAddr = src, cs_dstAddr = dst, cs_host = host, cs_tunnelIndex = ti,
      cs_route = route, cs_openedAt = now, cs_firstRxAt = None, cs_lastRxAt = None, cs_lastTxAt = None,
      cs_rxBytes = 0, cs_txBytes = 0, cs_destKey = dk\<rparr>"
  define cid where "cid = cb_next b + 1"
  define ds0 where "ds0 = (if map_of (cb_dests b) dk = None
      then cb_dests b @ [(dk, new_dest (if host \<noteq> [] then host else dk) now)] else cb_dests b)"
  have fresh: "cid \<notin> fst ` set (cb_conns b)" and un: "unat cid = unat (cb_next b) + 1"
    using fresh_id [OF assms(5)] assms(1) by (simp_all add: book_ok_def cid_def)
  have conns: "AList.update cid cs (cb_conns b) = cb_conns b @ [(cid, cs)]" using fresh by (rule AList_update_fresh)
  have dist: "distinct (map fst ds0)" and keys: "fst ` set ds0 = insert dk (fst ` set (cb_dests b))"
    using assms(1) by (auto simp: ds0_def book_ok_def map_of_eq_None_iff dest: map_of_SomeD)
  have sub: "fst ` set ds0 \<subseteq> K" using keys assms(1,2) by (simp add: book_ok_def dk_def)
  have "length ds0 = card (fst ` set ds0)" using distinct_card [OF dist] by simp
  also have "\<dots> \<le> card K" using card_mono [OF assms(3) sub] .
  finally have ev: "evictDests ds0 = ds0" using assms(4) by (intro evict_not_full) simp
  have ev': "evictDests (cb_dests b @ [(dk, new_dest (if host \<noteq> [] then host else dk) now)]) =
      cb_dests b @ [(dk, new_dest (if host \<noteq> [] then host else dk) now)]" if "map_of (cb_dests b) dk = None"
    using ev that by (simp add: ds0_def)
  have b': "cb_conns (snd (ConnOpenRoute src dst host ti route now b)) = cb_conns b @ [(cid, cs)]"
    "cb_dests (snd (ConnOpenRoute src dst host ti route now b)) = update_dest dk (count_open now) ds0"
    "cb_next (snd (ConnOpenRoute src dst host ti route now b)) = cid"
    using ev' by (auto simp: ConnOpenRoute_def Let_def conns [unfolded cs_def cid_def] cs_def cid_def ds0_def
        simp flip: dk_def)
  have act0: "ds_activeConns ds = int (open_to k (cb_conns b))" if "map_of ds0 k = Some ds" for k ds
  proof (cases "map_of (cb_dests b) k")
    case (Some d)
    then have "map_of ds0 k = Some d" by (simp add: ds0_def)
    then show ?thesis using that Some assms(1) by (simp add: book_ok_def book_right_def)
  next
    case None
    then have "k = dk" "ds_activeConns ds = 0" using that by (auto simp: ds0_def new_dest_def split: if_splits)
    moreover have "k \<notin> fst ` set (cb_dests b)" using None by (simp add: map_of_eq_None_iff)
    then have "open_to k (cb_conns b) = 0"
      using assms(1) by (intro open_to_none) (auto simp: book_ok_def book_right_def)
    ultimately show ?thesis by simp
  qed
  have "ds_activeConns ds = int (open_to k (cb_conns b @ [(cid, cs)]))"
    if "map_of (update_dest dk (count_open now) ds0) k = Some ds" for k ds
    using that act0 by (auto simp: map_of_update_dest open_to_append open_to_def cs_def count_open_def split: if_splits)
  moreover have "\<forall>e\<in>set (cb_conns b @ [(cid, cs)]). fst e \<le> cid"
    using assms(1) un by (fastforce simp: book_ok_def word_le_nat_alt)
  moreover have "(\<lambda>e. cs_destKey (snd e)) ` set (cb_conns b @ [(cid, cs)]) \<subseteq> fst ` set ds0"
    using assms(1) keys by (auto simp: book_ok_def book_right_def cs_def)
  ultimately show ?thesis
    using assms(1) dist sub fresh by (simp add: book_ok_def book_right_def b')
qed

lemma book_ok_step:
  assumes "book_ok K b" "op_keys op \<subseteq> K" "finite K" "card K \<le> maxDests" "unat (cb_next b) + 1 < 2 ^ 64"
  shows "book_ok K (book_step b op) \<and> unat (cb_next (book_step b op)) \<le> unat (cb_next b) + 1"
proof (cases op)
  case (OpOpen src dst host ti route now)
  have "cb_next (snd (ConnOpenRoute src dst host ti route now b)) = cb_next b + 1"
    by (simp add: ConnOpenRoute_def Let_def)
  moreover have "unat (cb_next b + 1) = unat (cb_next b) + 1"
    by (rule fresh_id(2)) (use assms(1,5) in \<open>simp_all add: book_ok_def\<close>)
  moreover have "book_ok K (snd (ConnOpenRoute src dst host ti route now b))"
    using assms(2) OpOpen by (intro book_ok_open [OF assms(1) _ assms(3-5)]) (simp add: op_keys_def)
  ultimately show ?thesis using OpOpen by simp
next
  case (OpClose cid src dst err now)
  then show ?thesis using book_ok_close [OF assms(1)] by (simp add: ConnCloseErr_def Let_def split: option.split)
next
  case (OpFailed src dst host route started err now)
  have u: "unat (cb_next b + 1) = unat (cb_next b) + 1"
    by (rule fresh_id(2)) (use assms(1,5) in \<open>simp_all add: book_ok_def\<close>)
  have "fst e \<le> cb_next b + 1" if "e \<in> set (cb_conns b)" for e
  proof -
    have "unat (fst e) \<le> unat (cb_next b)"
      using that assms(1) by (simp add: book_ok_def word_le_nat_alt)
    with u show ?thesis by (simp add: word_le_nat_alt)
  qed
  then have "book_ok K (ConnFailed src dst host route started err now b)"
    using assms(1) by (simp add: ConnFailed_def Let_def book_ok_def book_right_def)
  then show ?thesis using u OpFailed by (simp add: ConnFailed_def Let_def)
next
  case (OpRx cid n now)
  then show ?thesis using assms(1) by (auto simp: ConnAddRx_def count_rx_def intro!: book_ok_count split: option.split)
next
  case (OpTx cid n now)
  then show ?thesis using assms(1) by (auto simp: ConnAddTx_def intro!: book_ok_count split: option.split)
qed

lemma book_ok_run:
  assumes "book_ok K b" "\<Union>(op_keys ` set ops) \<subseteq> K" "finite K" "card K \<le> maxDests"
    and "unat (cb_next b) + length ops < 2 ^ 64"
  shows "book_ok K (foldl book_step b ops)"
  using assms
proof (induction ops arbitrary: b)
  case (Cons op ops)
  have "book_ok K (book_step b op) \<and> unat (cb_next (book_step b op)) \<le> unat (cb_next b) + 1"
    using Cons.prems by (intro book_ok_step) auto
  then show ?case using Cons.prems by (auto intro!: Cons.IH)
qed simp

text \<open>
  C16: the active counts are right. After any sequence of opening, closing, failing and counting
  that touches at most 2048 destinations, every destination of the book shows exactly the
  number of connections open to it, and every open connection is counted at its destination.
\<close>

theorem active_counts:
  assumes "card (\<Union>(op_keys ` set ops)) \<le> maxDests" "length ops < 2 ^ 64"
  shows "book_right (foldl book_step (new_book etld) ops)"
proof -
  have "finite (\<Union>(op_keys ` set ops))" by (auto simp: op_keys_def split: book_op.splits)
  moreover have "book_ok K (new_book etld)" for K by (simp add: new_book_def book_ok_def book_right_def)
  ultimately show ?thesis
    using book_ok_run [OF _ order_refl _ assms(1), of "new_book etld"] assms(2)
    by (simp add: new_book_def book_ok_def)
qed

lemma active_counts_witness:
  "book_right (foldl book_step (new_book ex_etld)
     [OpOpen ''l:1'' ''1.2.3.4:443'' ''a.com'' 1 RouteTunnel 5, OpOpen ''l:2'' ''1.2.3.4:443'' ''a.com'' 1 RouteTunnel 6,
      OpRx 1 10 7, OpClose 1 ''l:1'' ''1.2.3.4:443'' [] 9])"
  by (rule active_counts) (simp_all add: op_keys_def maxDests_def)

text \<open>
  A full book forgets the destination that is being opened. When 2048 destinations are known
  and a connection to a new one is opened, the new one has not been seen yet and has no active
  connection, so that it is the first to be evicted, before it is counted: the connection is
  open, but its destination is not in the book.
\<close>

lemma new_destination_evicted:
  assumes "length (cb_dests b) = maxDests" "map_of (cb_dests b) (destKey dst host) = None"
    and "\<forall>e\<in>set (cb_dests b). ds_lastSeenAt (snd e) \<noteq> None"
  shows "let (cid, b') = ConnOpenRoute src dst host ti route now b in
    map_option cs_destKey (map_of (cb_conns b') cid) = Some (destKey dst host) \<and>
    map_of (cb_dests b') (destKey dst host) = None"
proof -
  define dk where "dk = destKey dst host"
  define e where "e = (dk, new_dest (if host \<noteq> [] then host else dk) now)"
  define ds where "ds = cb_dests b @ [e]"
  define cands where "cands = sort_key (\<lambda>e. ds_lastSeenAt (snd e)) (filter (\<lambda>e. ds_activeConns (snd e) \<le> 0) ds)"
  have old: "[x\<leftarrow>cb_dests b. ds_activeConns (snd x) \<le> 0 \<and> ds_lastSeenAt (snd x) = None] = []"
    using assms(3) by (simp add: filter_empty_conv)
  have "\<exists>rest. cands = e # rest"
    unfolding cands_def ds_def
    by (subst sort_key_split [where m = None]) (simp add: old e_def new_dest_def)
  moreover have "length ds - keepDests = Suc 256" using assms(1) by (simp add: ds_def maxDests_def keepDests_def)
  ultimately have "dk \<in> set (map fst (take (length ds - keepDests) cands))" by (auto simp: e_def)
  moreover have "evictDests ds = filter (\<lambda>x. fst x \<notin> set (map fst (take (length ds - keepDests) cands))) ds"
    using assms(1) by (simp add: evictDests_def Let_def ds_def cands_def)
  ultimately have "dk \<notin> fst ` set (evictDests ds)" by fastforce
  then have "map_of (evictDests ds) dk = None" by (simp add: map_of_eq_None_iff)
  then show ?thesis
    using assms(2)
    by (simp add: ConnOpenRoute_def Let_def map_of_update_dest update_conv' ds_def e_def flip: dk_def)
qed

lemma is_digit_n: "\<not> is_digit CHR ''n''"
  by (simp add: is_digit_def)

end
