(* ===== verification/IpText.thy ===== *)
theory IpText
  imports GoNet
begin

text \<open>
  The text of an IP address: \<^verbatim>\<open>net.IP.String\<close> on the address's four or sixteen bytes, and
  the proof that \<^verbatim>\<open>net.ParseIP\<close> reads it back.
\<close>

section \<open>Writing an address\<close>

text \<open>\<^verbatim>\<open>net.IP.String\<close>: dotted decimal for an IPv4 address, otherwise RFC 5952.\<close>

definition hex_char :: "nat \<Rightarrow> char" where
  "hex_char n = char_of (if n < 10 then 48 + n else 87 + n)"

fun hex_text :: "nat \<Rightarrow> string" where
  "hex_text n = (if n < 16 then [hex_char n] else hex_text (n div 16) @ [hex_char (n mod 16)])"

declare hex_text.simps [simp del]

definition ip_groups :: "nat list \<Rightarrow> nat list" where
  "ip_groups ip = map (\<lambda>i. ip ! (2 * i) * 256 + ip ! (2 * i + 1)) [0..<8]"

text \<open>The first of the longest runs of at least two zero groups.\<close>

definition zero_run :: "nat list \<Rightarrow> nat \<Rightarrow> nat" where
  "zero_run gs i = length (takeWhile (\<lambda>g. g = 0) (drop i gs))"

definition longer_run :: "nat list \<Rightarrow> nat \<Rightarrow> nat \<times> nat \<Rightarrow> nat \<times> nat" where
  "longer_run gs i best =
     (let l = zero_run gs i in if 2 \<le> l \<and> snd best - fst best < l then (i, i + l) else best)"

definition ipv6_string :: "nat list \<Rightarrow> string" where
  "ipv6_string ip =
     (let gs = ip_groups ip; (s, e) = fold (longer_run gs) [0..<8] (255, 255);
          tx = (\<lambda>gs. join_with '':'' (map hex_text gs))
      in if s = 255 then tx gs else tx (take s gs) @ ''::'' @ tx (drop e gs))"

definition ip_string :: "nat list \<Rightarrow> string" where
  "ip_string ip =
     (if length ip = 4 then ipv4_string ip
      else (case To4 ip of Some q \<Rightarrow> ipv4_string q | None \<Rightarrow> ipv6_string ip))"

definition is_ip :: "nat list \<Rightarrow> bool" where
  "is_ip ip \<longleftrightarrow> length ip = 16 \<and> (\<forall>b\<in>set ip. b < 256)"

section \<open>Hexadecimal groups\<close>

lemma of_char_hex: "n < 16 \<Longrightarrow> of_char (hex_char n) = (if n < 10 then 48 + n else 87 + n :: nat)"
  by (simp add: hex_char_def)

lemma hex_val_char: "n < 16 \<Longrightarrow> hex_val (hex_char n) = Some n"
  by (cases "n < 10") (simp_all add: hex_val_def of_char_hex)

lemma hex_char_clean: "n < 16 \<Longrightarrow> hex_char n \<noteq> CHR '':'' \<and> hex_char n \<noteq> CHR ''.'' \<and> hex_char n \<noteq> CHR ''%''"
proof -
  have "hex_val CHR '':'' = None" "hex_val CHR ''.'' = None" "hex_val CHR ''%'' = None" by code_simp+
  then show "n < 16 \<Longrightarrow> ?thesis" using hex_val_char [of n] by force
qed

lemma hex_text_chars: "c \<in> set (hex_text n) \<Longrightarrow> \<exists>k<16. c = hex_char k"
proof (induction n rule: hex_text.induct)
  case (1 n)
  then show ?case
    by (cases "n < 16") (auto simp: hex_text.simps [of n] intro: exI [of _ "n mod 16"])
qed

lemma hex_num_snoc: "n < 16 \<Longrightarrow> hex_num (s @ [hex_char n]) = hex_num s * 16 + n"
  by (simp add: hex_num_def hex_val_char)

lemma hex_num_text [simp]: "hex_num (hex_text n) = n"
proof (induction n rule: hex_text.induct)
  case (1 n)
  then show ?case
    by (subst hex_text.simps) (simp add: hex_num_snoc, simp add: hex_num_def hex_val_char)
qed

lemma hex_text_length: "n < 65536 \<Longrightarrow> length (hex_text n) \<le> 4 \<and> hex_text n \<noteq> []"
proof -
  have l: "n < 16 ^ Suc k \<Longrightarrow> length (hex_text n) \<le> Suc k" for k
  proof (induction k arbitrary: n)
    case 0
    then show ?case by (subst hex_text.simps) simp
  next
    case (Suc k)
    have "n div 16 < 16 ^ Suc k" using Suc.prems by (simp add: less_mult_imp_div_less mult.commute)
    then show ?case using Suc.IH [of "n div 16"] by (subst hex_text.simps) simp
  qed
  have "hex_text n \<noteq> []" by (subst hex_text.simps) simp
  moreover have "(16 :: nat) ^ Suc 3 = 65536" "Suc 3 = 4" by simp_all
  ultimately show "n < 65536 \<Longrightarrow> ?thesis" using l [of 3] by metis
qed

lemma hex_digits_text:
  assumes "t = [] \<or> hex_val (hd t) = None"
  shows "hex_digits (hex_text n @ t) = hex_text n"
proof -
  have "\<forall>c\<in>set (hex_text n). hex_val c \<noteq> None"
    using hex_text_chars hex_val_char by fastforce
  then show ?thesis using assms by (cases t) (auto simp: hex_digits_def takeWhile_append)
qed


declare parse_ipv6_loop.simps [simp del]

section \<open>Reading an address back\<close>

text \<open>The two bytes of a group, and how the parser reads a run of groups.\<close>

definition group_bytes :: "nat list \<Rightarrow> nat list" where
  "group_bytes gs = concat (map (\<lambda>g. [g div 256, g mod 256]) gs)"

definition groups_text :: "nat list \<Rightarrow> string" where
  "groups_text gs = join_with '':'' (map hex_text gs)"

lemma groups_text_Cons: "gs \<noteq> [] \<Longrightarrow> groups_text (g # gs) = hex_text g @ CHR '':'' # groups_text gs"
  by (simp add: groups_text_def join_with_Cons)

lemma groups_text_start:
  "gs \<noteq> [] \<Longrightarrow> \<forall>g\<in>set gs. g < 65536 \<Longrightarrow> \<exists>c t. groups_text gs @ r = c # t \<and> c \<noteq> CHR '':''"
proof -
  assume g: "gs \<noteq> []" "\<forall>g\<in>set gs. g < 65536"
  obtain g gs' where gs: "gs = g # gs'" using g by (cases gs) auto
  have "hex_text g \<noteq> []" using hex_text_length g gs by simp
  then obtain c t where c: "hex_text g = c # t" by (cases "hex_text g") auto
  then have "c \<noteq> CHR '':''" using hex_text_chars [of c g] hex_char_clean by force
  then show ?thesis
    using c by (cases gs') (simp_all add: gs groups_text_def)
qed

lemma loop_group:
  assumes "g < 65536" "t = [] \<or> hd t = CHR '':''"
  shows "parse_ipv6_loop (Suc fuel) ip ell (hex_text g @ t) =
     (let ip' = ip @ [g div 256, g mod 256] in
      if t = [] then Some (ip', ell)
      else if length t = 1 then None
      else if hd (tl t) = CHR '':'' then
        (if ell \<noteq> None then None
         else if tl (tl t) = [] then Some (ip', Some (length ip'))
         else parse_ipv6_loop fuel ip' (Some (length ip')) (tl (tl t)))
      else parse_ipv6_loop fuel ip' ell (tl t))"
proof -
  have "hex_val CHR '':'' = None" by code_simp
  then have d: "hex_digits (hex_text g @ t) = hex_text g" using assms(2) by (intro hex_digits_text) auto
  have l: "length (hex_text g) \<le> 4" "hex_text g \<noteq> []" using hex_text_length [OF assms(1)] by auto
  have n: "\<not> (length (hex_text g) < length (hex_text g @ t) \<and> (hex_text g @ t) ! length (hex_text g) = CHR ''.'')"
    using assms(2) by (cases t) (auto simp: nth_append)
  show ?thesis
    using l n assms(2) unfolding parse_ipv6_loop.simps Let_def d
    by (simp del: parse_ipv6_loop.simps) (auto simp del: parse_ipv6_loop.simps)
qed

lemma loop_groups:
  "gs \<noteq> [] \<Longrightarrow> \<forall>g\<in>set gs. g < 65536 \<Longrightarrow> length gs \<le> fuel \<Longrightarrow>
     parse_ipv6_loop fuel ip ell (groups_text gs) = Some (ip @ group_bytes gs, ell)"
proof (induction gs arbitrary: fuel ip)
  case (Cons g gs)
  obtain f where f: "fuel = Suc f" using Cons.prems(3) by (cases fuel) auto
  show ?case
  proof (cases "gs = []")
    case True
    then show ?thesis
      using loop_group [of g "[]" f ip ell] Cons.prems by (simp add: f groups_text_def group_bytes_def)
  next
    case False
    obtain c t where c: "groups_text gs = c # t" "c \<noteq> CHR '':''"
      using groups_text_start [of gs "[]"] False Cons.prems by auto
    show ?thesis
      using loop_group [of g "CHR '':'' # groups_text gs" f ip ell] Cons.IH [of f "ip @ [g div 256, g mod 256]"] Cons.prems False
      by (simp add: f groups_text_Cons c Let_def group_bytes_def)
  qed
qed simp

lemma loop_groups_ellipsis:
  "gs \<noteq> [] \<Longrightarrow> \<forall>g\<in>set (gs @ hs). g < 65536 \<Longrightarrow> length gs + length hs \<le> fuel \<Longrightarrow>
     parse_ipv6_loop fuel ip None (groups_text gs @ ''::'' @ groups_text hs) =
       Some (ip @ group_bytes (gs @ hs), Some (length ip + 2 * length gs))"
proof (induction gs arbitrary: fuel ip)
  case (Cons g gs)
  obtain f where f: "fuel = Suc f" using Cons.prems(3) by (cases fuel) auto
  show ?case
  proof (cases "gs = []")
    case True
    show ?thesis
    proof (cases "hs = []")
      case h: True
      then show ?thesis
        using loop_group [of g "''::''" f ip None] True Cons.prems
        by (simp add: f groups_text_def group_bytes_def)
    next
      case False
      obtain c t where c: "groups_text hs = c # t" using groups_text_start [of hs "[]"] False Cons.prems by auto
      show ?thesis
        using loop_group [of g "''::'' @ groups_text hs" f ip None] True Cons.prems False
          loop_groups [of hs f "ip @ [g div 256, g mod 256]" "Some (length ip + 2)"]
        by (simp add: f groups_text_def [of "[g]"] group_bytes_def c)
    qed
  next
    case False
    obtain c t where c: "groups_text gs @ ''::'' @ groups_text hs = c # t" "c \<noteq> CHR '':''"
      using groups_text_start [of gs "''::'' @ groups_text hs"] False Cons.prems by auto
    show ?thesis
      using loop_group [of g "CHR '':'' # groups_text gs @ ''::'' @ groups_text hs" f ip None]
        Cons.IH [of f "ip @ [g div 256, g mod 256]"] Cons.prems False c
      by (simp add: f groups_text_Cons Let_def group_bytes_def)
  qed
qed simp

lemma longer_runs:
  "fold (longer_run gs) is (255, 255) = (s, e) \<Longrightarrow>
     s = 255 \<and> e = 255 \<or> s + 2 \<le> e \<and> e \<le> length gs \<and> drop s (take e gs) = replicate (e - s) 0"
proof (induction "is" arbitrary: s e rule: rev_induct)
  case (snoc i "is")
  obtain s' e' where b: "fold (longer_run gs) is (255, 255) = (s', e')" by fastforce
  have last: "longer_run gs i (s', e') = (s, e)" using snoc.prems b by simp
  show ?case
  proof (cases "2 \<le> zero_run gs i \<and> e' - s' < zero_run gs i")
    case True
    then have se: "s = i" "e = i + zero_run gs i" using last by (auto simp: longer_run_def)
    define z where "z = takeWhile (\<lambda>g. g = 0) (drop i gs)"
    have z: "z = replicate (length z) 0"
      unfolding z_def by (rule replicate_eqI) (auto dest: set_takeWhileD)
    have "take (length z) (drop i gs) = z" unfolding z_def by (simp add: takeWhile_eq_take [symmetric])
    then have "drop s (take e gs) = replicate (e - s) 0"
      using z by (simp add: se zero_run_def flip: z_def take_drop) (metis add.commute take_drop)
    moreover have "e \<le> length gs"
    proof -
      have "length z \<le> length (drop i gs)" unfolding z_def by (rule length_takeWhile_le)
      moreover have "i < length gs" using True by (cases "i < length gs") (simp_all add: zero_run_def)
      ultimately show ?thesis by (simp add: se zero_run_def flip: z_def)
    qed
    ultimately show ?thesis using True by (simp add: se)
  next
    case False
    then have "s = s'" "e = e'" using last by (auto simp: longer_run_def Let_def)
    then show ?thesis using snoc.IH [OF b] by simp
  qed
qed simp

lemma ip_groups_bytes:
  assumes "is_ip ip"
  shows "group_bytes (ip_groups ip) = ip" "length (ip_groups ip) = 8" "\<forall>g\<in>set (ip_groups ip). g < 65536"
proof -
  have len: "length ip = Suc (Suc (Suc (Suc (Suc (Suc (Suc (Suc (Suc (Suc (Suc (Suc (Suc (Suc (Suc (Suc 0)))))))))))))))"
    using assms by (simp add: is_ip_def)
  obtain a0 a1 a2 a3 a4 a5 a6 a7 a8 a9 a10 a11 a12 a13 a14 a15
    where ip: "ip = [a0, a1, a2, a3, a4, a5, a6, a7, a8, a9, a10, a11, a12, a13, a14, a15]"
    using len by (auto simp: length_Suc_conv)
  have b: "a0 < 256" "a1 < 256" "a2 < 256" "a3 < 256" "a4 < 256" "a5 < 256" "a6 < 256" "a7 < 256"
    "a8 < 256" "a9 < 256" "a10 < 256" "a11 < 256" "a12 < 256" "a13 < 256" "a14 < 256" "a15 < 256"
    using assms by (simp_all add: is_ip_def ip)
  have gs: "ip_groups ip = [a0 * 256 + a1, a2 * 256 + a3, a4 * 256 + a5, a6 * 256 + a7,
      a8 * 256 + a9, a10 * 256 + a11, a12 * 256 + a13, a14 * 256 + a15]"
    by (simp add: ip_groups_def ip upt_conv_Cons nth_Cons')
  show "group_bytes (ip_groups ip) = ip" unfolding gs unfolding ip using b by (simp add: group_bytes_def)
  show "length (ip_groups ip) = 8" by (simp add: gs)
  show "\<forall>g\<in>set (ip_groups ip). g < 65536" using b by (simp add: gs)
qed

lemma groups_text_clean: "c \<in> set (groups_text gs) \<Longrightarrow> c = CHR '':'' \<or> (\<exists>k<16. c = hex_char k)"
proof (induction gs)
  case (Cons g gs)
  then show ?case
    by (cases "gs = []") (auto simp: groups_text_Cons groups_text_def [of "[g]"] dest: hex_text_chars)
qed (simp add: groups_text_def)

lemma find_colon:
  "CHR '':'' \<in> set s \<Longrightarrow> CHR ''.'' \<notin> set s \<Longrightarrow> CHR ''%'' \<notin> set s \<Longrightarrow>
     find (\<lambda>c. c = CHR ''.'' \<or> c = CHR '':'' \<or> c = CHR ''%'') s = Some (CHR '':'')"
  by (induction s) auto

lemma ParseIP_hex:
  assumes "CHR '':'' \<in> set s" "\<forall>c\<in>set s. c = CHR '':'' \<or> (\<exists>k<16. c = hex_char k)"
  shows "ParseIP s = parse_ipv6 s"
proof -
  have "c \<noteq> CHR ''.'' \<and> c \<noteq> CHR ''%''" if "c \<in> set s" for c
  proof -
    from bspec [OF assms(2) that] show ?thesis
    proof (elim disjE exE conjE)
      fix k assume "k < 16" "c = hex_char k"
      then show ?thesis using hex_char_clean [of k] by simp
    qed simp
  qed
  then have "CHR ''.'' \<notin> set s" "CHR ''%'' \<notin> set s" by blast+
  then show ?thesis using find_colon [OF assms(1)] by (simp add: ParseIP_def)
qed

lemma group_bytes_append: "group_bytes (a @ b) = group_bytes a @ group_bytes b"
  by (simp add: group_bytes_def)

lemma length_group_bytes [simp]: "length (group_bytes gs) = 2 * length gs"
  by (induction gs) (simp_all add: group_bytes_def)

lemma group_bytes_zeros: "group_bytes (replicate n 0) = replicate (2 * n) 0"
  by (induction n) (simp_all add: group_bytes_def)

lemma groups_text_colon: "2 \<le> length gs \<Longrightarrow> CHR '':'' \<in> set (groups_text gs)"
  by (cases gs; cases "tl gs") (auto simp: groups_text_def)

lemma groups_text_Nil [simp]: "groups_text [] = []"
  by (simp add: groups_text_def)

lemma parse_groups:
  assumes "length gs = 8" "\<forall>g\<in>set gs. g < 65536"
  shows "parse_ipv6 (groups_text gs) = Some (group_bytes gs)"
proof -
  obtain c t where c: "groups_text gs = c # t" "c \<noteq> CHR '':''"
    using groups_text_start [of gs "[]"] assms by (cases gs) auto
  then have "groups_text gs \<noteq> ''::''" "\<not> has_prefix (groups_text gs) ''::''" by (simp_all add: has_prefix_def)
  then show ?thesis
    using loop_groups [of gs 8 "[]" None] assms by (cases gs) (simp_all add: parse_ipv6_def Let_def)
qed

lemma parse_ellipsis:
  assumes "length gs + length hs < 8" "\<forall>g\<in>set (gs @ hs). g < 65536"
  shows "parse_ipv6 (groups_text gs @ ''::'' @ groups_text hs) =
     Some (group_bytes gs @ replicate (16 - 2 * (length gs + length hs)) 0 @ group_bytes hs)"
proof (cases "gs = []")
  case True
  show ?thesis
  proof (cases "hs = []")
    case h: True
    then show ?thesis using True by (simp add: parse_ipv6_def group_bytes_def)
  next
    case False
    obtain c t where c: "groups_text hs = c # t" using groups_text_start [of hs "[]"] False assms by auto
    show ?thesis
      using True loop_groups [of hs 8 "[]" "Some 0"] assms False
      by (simp add: parse_ipv6_def Let_def has_prefix_def c group_bytes_def [of "[]"])
  qed
next
  case False
  let ?s = "groups_text gs @ ''::'' @ groups_text hs"
  obtain c t where c: "?s = c # t" "c \<noteq> CHR '':''"
    using groups_text_start [of gs "''::'' @ groups_text hs"] False assms by auto
  then have "?s \<noteq> ''::''" "\<not> has_prefix ?s ''::''" unfolding c(1) by (simp_all add: has_prefix_def)
  then show ?thesis
    unfolding parse_ipv6_def Let_def
    using loop_groups_ellipsis [of gs hs 8 "[]"] assms False
    by (simp add: group_bytes_append)
qed

lemma ipv6_string_chars:
  assumes "is_ip ip"
  shows "CHR '':'' \<in> set (ipv6_string ip)"
    "c \<in> set (ipv6_string ip) \<Longrightarrow> c = CHR '':'' \<or> (\<exists>k<16. c = hex_char k)"
proof -
  define gs where "gs = ip_groups ip"
  obtain s e where se: "fold (longer_run gs) [0..<8] (255, 255) = (s, e)" by fastforce
  have tx: "ipv6_string ip = (if s = 255 then groups_text gs else groups_text (take s gs) @ ''::'' @ groups_text (drop e gs))"
    using se by (simp add: ipv6_string_def groups_text_def Let_def flip: gs_def)
  have "2 \<le> length gs" using ip_groups_bytes(2) [OF assms] by (simp add: gs_def)
  then show "CHR '':'' \<in> set (ipv6_string ip)" using groups_text_colon by (simp add: tx)
  assume "c \<in> set (ipv6_string ip)"
  then show "c = CHR '':'' \<or> (\<exists>k<16. c = hex_char k)"
    using groups_text_clean by (cases "s = 255") (auto simp: tx)
qed

text \<open>The text of every address parses back to the address.\<close>

lemma ParseIP_ipv6_string:
  assumes "is_ip ip"
  shows "ParseIP (ipv6_string ip) = Some ip"
proof -
  define gs where "gs = ip_groups ip"
  note gs = ip_groups_bytes [OF assms, folded gs_def]
  obtain s e where se: "fold (longer_run gs) [0..<8] (255, 255) = (s, e)" by fastforce
  have tx: "ipv6_string ip = (if s = 255 then groups_text gs else groups_text (take s gs) @ ''::'' @ groups_text (drop e gs))"
    using se by (simp add: ipv6_string_def groups_text_def Let_def flip: gs_def)
  show ?thesis
  proof (cases "s = 255")
    case True
    have "ParseIP (groups_text gs) = parse_ipv6 (groups_text gs)"
      by (rule ParseIP_hex) (use gs groups_text_colon [of gs] groups_text_clean in auto)
    then show ?thesis using parse_groups [of gs] gs by (simp add: tx True)
  next
    case False
    then have r: "s + 2 \<le> e" "e \<le> length gs" "drop s (take e gs) = replicate (e - s) 0"
      using longer_runs [OF se] by auto
    have mem: "set (take s gs @ drop e gs) \<subseteq> set gs"
      using set_take_subset [of s gs] set_drop_subset [of e gs] by simp
    have p: "ParseIP (ipv6_string ip) = parse_ipv6 (ipv6_string ip)"
      using ipv6_string_chars [OF assms] by (intro ParseIP_hex) blast+
    have parts: "gs = take s gs @ replicate (e - s) 0 @ drop e gs"
      using r by (metis append.assoc append_take_drop_id le_add1 le_trans min.absorb1 take_take)
    have "length (take s gs) + length (drop e gs) < 8" using r gs(2) by simp
    moreover have "\<forall>g\<in>set (take s gs @ drop e gs). g < 65536" using mem gs(3) by blast
    ultimately have "parse_ipv6 (ipv6_string ip) =
        Some (group_bytes (take s gs) @ replicate (16 - 2 * (length (take s gs) + length (drop e gs))) 0 @ group_bytes (drop e gs))"
      using parse_ellipsis False unfolding tx by (simp only: if_False)
    also have "16 - 2 * (length (take s gs) + length (drop e gs)) = 2 * (e - s)"
      using r gs(2) by simp
    also have "group_bytes (take s gs) @ replicate (2 * (e - s)) 0 @ group_bytes (drop e gs) = group_bytes gs"
      by (subst (3) parts) (simp add: group_bytes_append group_bytes_zeros)
    finally show ?thesis using p gs(1) by simp
  qed
qed

lemma To4_SomeD: "To4 ip = Some q \<Longrightarrow> ip = v4_mapped q"
proof -
  assume q: "To4 ip = Some q"
  then have "take 12 ip = replicate 10 0 @ [255, 255]" "q = drop 12 ip" by (auto simp: To4_def split: if_splits)
  then show "ip = v4_mapped q"
    using append_take_drop_id [of 12 ip] by (simp only: v4_mapped_def append_assoc)
qed

lemma ParseIP_ip_string:
  "is_ip ip \<Longrightarrow> ParseIP (ip_string ip) = Some ip"
proof -
  assume ip: "is_ip ip"
  then have n: "length ip \<noteq> 4" by (simp add: is_ip_def)
  show ?thesis
  proof (cases "To4 ip")
    case None
    then show ?thesis using n ip by (simp add: ip_string_def ParseIP_ipv6_string)
  next
    case (Some q)
    then have q: "ip = v4_mapped q" by (rule To4_SomeD)
    have "ParseIP (ipv4_string q) = Some (v4_mapped q)"
      by (rule ParseIP_ipv4_string) (use ip in \<open>simp_all add: q is_ip_def v4_mapped_def\<close>)
    then show ?thesis using n Some by (simp add: ip_string_def q)
  qed
qed

end
