(* ===== verification/PeekHost.thy ===== *)
theory PeekHost
  imports DomainRules RouteTable
begin

text \<open>
  Finding the host name in the first bytes of a connection: \<^verbatim>\<open>internal/proxy/peekhost.go\<close>.
  A slice keeps the capacity of the 1024-byte buffer it was cut from, so that the method
  tests of \<open>parseHTTPHost\<close> may look past its end, at zero bytes. What \<^verbatim>\<open>http.ReadRequest\<close> makes of
  the bytes, the \<open>Host\<close> of the request if it reads one, is the argument \<open>read_request\<close>.
\<close>

section \<open>The parser\<close>

definition peekSize :: nat where "peekSize = 1024"

definition be16_at :: "bytes \<Rightarrow> nat \<Rightarrow> nat" where
  "be16_at d i = unat (get_be16 (d ! i) (d ! (i + 1)))"

text \<open>The walk over the entries of the extension; \<open>None\<close> where the source returns no name.\<close>

function sni_names :: "bytes \<Rightarrow> string" where
  "sni_names d =
     (if length d < 3 then []
      else
        let nameLen = be16_at d 1; rest = drop 3 d in
        if length rest < nameLen then []
        else if d ! 0 = 0 then string_of_bytes (take nameLen rest)
        else sni_names (drop nameLen rest))"
  by pat_completeness auto
termination
  by (relation "measure length") auto

declare sni_names.simps [simp del]

definition parseSNIExtension :: "bytes \<Rightarrow> string" where
  "parseSNIExtension d = (if length d < 2 then [] else sni_names (drop 2 d))"

function walk_extensions :: "bytes \<Rightarrow> string" where
  "walk_extensions d =
     (if length d < 4 then []
      else
        let extType = be16_at d 0; eLen = be16_at d 2; rest = drop 4 d in
        if length rest < eLen then []
        else if extType = 0 then parseSNIExtension (take eLen rest)
        else walk_extensions (drop eLen rest))"
  by pat_completeness auto
termination
  by (relation "measure length") auto

declare walk_extensions.simps [simp del]

text \<open>Skipping a vector with a length of one or two bytes.\<close>

definition skip8 :: "bytes \<Rightarrow> bytes option" where
  "skip8 d =
     (if length d < 1 then None
      else let n = unat (d ! 0); rest = drop 1 d in if length rest < n then None else Some (drop n rest))"

definition skip16 :: "bytes \<Rightarrow> bytes option" where
  "skip16 d =
     (if length d < 2 then None
      else let n = be16_at d 0; rest = drop 2 d in if length rest < n then None else Some (drop n rest))"

definition clamp :: "nat \<Rightarrow> bytes \<Rightarrow> bytes" where
  "clamp n d = (if length d < n then d else take n d)"

definition parseTLSSNI :: "bytes \<Rightarrow> string" where
  "parseTLSSNI buf =
     (if length buf < 5 then []
      else
        let data = clamp (be16_at buf 3) (drop 5 buf) in
        if length data < 4 \<or> data ! 0 \<noteq> 1 then []
        else
          let data = drop 4 data in
          if length data < 34 then []
          else
            (case skip8 (drop 34 data) of
               None \<Rightarrow> []
             | Some d1 \<Rightarrow>
                 (case skip16 d1 of
                    None \<Rightarrow> []
                  | Some d2 \<Rightarrow>
                      (case skip8 d2 of
                         None \<Rightarrow> []
                       | Some d3 \<Rightarrow>
                           if length d3 < 2 then []
                           else walk_extensions (clamp (be16_at d3 0) (drop 2 d3))))))"

definition reslice :: "bytes \<Rightarrow> nat \<Rightarrow> string" where
  "reslice buf k = string_of_bytes (take k (buf @ replicate (peekSize - length buf) 0))"

definition looks_like_http :: "bytes \<Rightarrow> bool" where
  "looks_like_http buf \<longleftrightarrow>
     length buf \<ge> 4 \<and>
     (reslice buf 3 = ''GET'' \<or> reslice buf 4 = ''POST'' \<or> reslice buf 4 = ''HEAD'' \<or> reslice buf 3 = ''PUT'' \<or>
      reslice buf 5 = ''PATCH'' \<or> reslice buf 6 = ''DELETE'' \<or> reslice buf 7 = ''OPTIONS'' \<or> reslice buf 7 = ''CONNECT'')"

definition parseHTTPHost :: "(bytes \<Rightarrow> string option) \<Rightarrow> bytes \<Rightarrow> string" where
  "parseHTTPHost read_request buf =
     (if \<not> looks_like_http buf then []
      else (case read_request buf of None \<Rightarrow> [] | Some h \<Rightarrow> h))"

text \<open>One read of the connection; the returned reader replays what was read.\<close>

definition peekHost :: "(bytes \<Rightarrow> string option) \<Rightarrow> bytes \<Rightarrow> bytes \<Rightarrow> string \<times> bytes" where
  "peekHost read_request first later =
     (let buf = take peekSize first; rest = drop peekSize first @ later in
      if buf = [] then ([], rest)
      else
        ((if length buf > 5 \<and> buf ! 0 = 0x16 then parseTLSSNI buf else parseHTTPHost read_request buf),
         buf @ rest))"

section \<open>What a client sends\<close>

text \<open>A ClientHello as RFC 8446 lays it out.\<close>

definition vec8 :: "bytes \<Rightarrow> bytes" where "vec8 b = word_of_nat (length b) # b"
definition vec16 :: "bytes \<Rightarrow> bytes" where "vec16 b = put_be16 (word_of_nat (length b)) @ b"

definition extension :: "u16 \<times> bytes \<Rightarrow> bytes" where
  "extension e = put_be16 (fst e) @ vec16 (snd e)"

definition server_name :: "string \<Rightarrow> bytes" where
  "server_name h = vec16 (0 # vec16 (bytes_of_string h))"

definition hello_start :: "bytes \<Rightarrow> bytes \<Rightarrow> bytes \<Rightarrow> bytes \<Rightarrow> bytes" where
  "hello_start fixed sid ciphers comps = fixed @ vec8 sid @ vec16 ciphers @ vec8 comps"

definition client_hello :: "bytes \<Rightarrow> bytes \<Rightarrow> bytes \<Rightarrow> bytes \<Rightarrow> bytes \<Rightarrow> bytes \<Rightarrow> (u16 \<times> bytes) list \<Rightarrow> bytes" where
  "client_hello ver hl fixed sid ciphers comps exts =
     0x16 # ver @ vec16 (1 # hl @ hello_start fixed sid ciphers comps @ vec16 (concat (map extension exts)))"

section \<open>Lemmas\<close>

lemma be16_put [simp]: "n < 65536 \<Longrightarrow> be16_at (put_be16 (word_of_nat n) @ d) 0 = n"
  by (simp add: be16_at_def put_be16_def unat_u16_of_nat)

lemma be16_put_word [simp]: "be16_at (put_be16 w @ d) 0 = unat w"
  by (simp add: be16_at_def put_be16_def)

lemma be16_second [simp]: "be16_at (put_be16 v @ put_be16 w @ d) 2 = unat w"
  by (simp add: be16_at_def put_be16_def)

lemma length_extension [simp]: "length (extension e) = 4 + length (snd e)"
  by (simp add: extension_def vec16_def)

lemma be16_extension: "length p < 65536 \<Longrightarrow> be16_at (extension (t, p) @ d) 2 = length p"
  "be16_at (extension (t, p) @ d) 0 = unat t"
  by (simp_all add: extension_def vec16_def unat_u16_of_nat)

lemma drop_extension: "drop 4 (extension (t, p) @ d) = p @ d"
  "drop 4 (extension (t, p)) = p"
  by (simp_all add: extension_def vec16_def put_be16_def)

lemma skip8_vec8 [simp]: "length b < 256 \<Longrightarrow> skip8 (vec8 b @ d) = Some d"
  by (simp add: skip8_def vec8_def unat_of_nat)

lemma skip16_vec16 [simp]: "length b < 65536 \<Longrightarrow> skip16 (vec16 b @ d) = Some d"
  by (simp add: skip16_def vec16_def unat_u16_of_nat Let_def)

lemma walk_extension:
  "length p < 65536 \<Longrightarrow> walk_extensions (extension (t, p) @ d) =
     (if t = 0 then parseSNIExtension p else walk_extensions d)"
  by (subst walk_extensions.simps) (simp add: be16_extension drop_extension unat_eq_zero Let_def)

lemma walk_others:
  "\<forall>e\<in>set es. fst e \<noteq> 0 \<and> length (snd e) < 65536 \<Longrightarrow>
     walk_extensions (concat (map extension es) @ d) = walk_extensions d"
proof (induction es)
  case (Cons e es)
  then show ?case using walk_extension [of "snd e" "fst e"] by simp
qed simp

lemma parse_server_name:
  "length h < 65530 \<Longrightarrow> parseSNIExtension (server_name h) = h"
  unfolding parseSNIExtension_def server_name_def
  by (subst sni_names.simps) (simp add: vec16_def be16_at_def put_be16_def unat_u16_of_nat)

lemma clamp_take: "clamp (length b) (take m (b @ later)) = take m b"
  by (auto simp: clamp_def min_def)

lemma drop_exact: "length a = n \<Longrightarrow> drop n (a @ b) = b"
  by simp

text \<open>The body of the handshake message, as far as it was received.\<close>

definition hello_body :: "bytes \<Rightarrow> bytes \<Rightarrow> bytes \<Rightarrow> bytes \<Rightarrow> bytes \<Rightarrow> nat \<Rightarrow> bytes \<Rightarrow> bytes" where
  "hello_body hl fixed sid ciphers comps n exts =
     1 # hl @ hello_start fixed sid ciphers comps @ put_be16 (word_of_nat n) @ exts"

lemma length_hello_body:
  "length hl = 3 \<Longrightarrow> length fixed = 34 \<Longrightarrow>
     length (hello_body hl fixed sid ciphers comps n exts) =
       44 + length sid + length ciphers + length comps + length exts"
  by (simp add: hello_body_def hello_start_def vec8_def vec16_def)

definition hello_fits :: "bytes \<Rightarrow> bytes \<Rightarrow> bytes \<Rightarrow> bytes \<Rightarrow> bytes \<Rightarrow> bool" where
  "hello_fits hl fixed sid ciphers comps \<longleftrightarrow>
     length hl = 3 \<and> length fixed = 34 \<and> length sid < 256 \<and> length ciphers < 65536 \<and> length comps < 256"

lemma parse_body:
  assumes "hello_fits hl fixed sid ciphers comps" "n < 65536" "length exts \<le> n" "length ver = 2" "length r = 2"
    and "clamp (be16_at r 0) data = hello_body hl fixed sid ciphers comps n exts"
  shows "parseTLSSNI (0x16 # ver @ r @ data) = walk_extensions exts"
proof -
  have fit: "length hl = 3" "length fixed = 34" "length sid < 256" "length ciphers < 65536" "length comps < 256"
    using assms(1) by (simp_all add: hello_fits_def)
  obtain v w where ver: "ver = [v, w]" using assms(4) by (auto simp: numeral_2_eq_2 length_Suc_conv)
  obtain r0 r1 where r: "r = [r0, r1]" using assms(5) by (auto simp: numeral_2_eq_2 length_Suc_conv)
  have buf: "drop 5 (0x16 # ver @ r @ data) = data" "be16_at (0x16 # ver @ r @ data) 3 = be16_at r 0"
    by (simp_all add: ver r be16_at_def)
  let ?rest = "vec8 sid @ vec16 ciphers @ vec8 comps @ put_be16 (word_of_nat n) @ exts"
  have b: "hello_body hl fixed sid ciphers comps n exts ! 0 = 1"
    "drop 4 (hello_body hl fixed sid ciphers comps n exts) = fixed @ ?rest"
    using fit(1) by (simp_all add: hello_body_def hello_start_def)
  have c: "clamp n exts = exts" using assms(3) by (simp add: clamp_def)
  have "skip8 ?rest = Some (vec16 ciphers @ vec8 comps @ put_be16 (word_of_nat n) @ exts)"
    using fit(3) by simp
  then show ?thesis
    unfolding parseTLSSNI_def buf assms(6) Let_def b
    using fit assms(2)
    by (simp add: length_hello_body ver r c unat_u16_of_nat)
qed

text \<open>
  C21: the host name of a TLS client is found. For every well-formed ClientHello, whatever its
  session, cipher suites, compression methods and the other extensions, the parser returns the
  name of the server-name extension, also when the message was cut anywhere behind that
  extension because it did not fit the buffer.
\<close>

theorem tls_name_found:
  assumes "hello_fits hl fixed sid ciphers comps" "length ver = 2" "length h < 65530"
    and "\<forall>e\<in>set es1. fst e \<noteq> 0 \<and> length (snd e) < 65536"
    and "length (concat (map extension (es1 @ (0, server_name h) # es2))) + 44 + length sid + length ciphers + length comps < 65536"
    and "length (client_hello ver hl fixed sid ciphers comps (es1 @ [(0, server_name h)])) \<le> n"
  shows "parseTLSSNI (take n (client_hello ver hl fixed sid ciphers comps (es1 @ (0, server_name h) # es2) @ later)) = h"
proof -
  define front where "front = concat (map extension (es1 @ [(0, server_name h)]))"
  define tail where "tail = concat (map extension es2)"
  define N where "N = length front + length tail"
  define body where "body = hello_body hl fixed sid ciphers comps N (front @ tail)"
  have fit: "length hl = 3" "length fixed = 34" using assms(1) by (simp_all add: hello_fits_def)
  have len: "length body = 44 + length sid + length ciphers + length comps + N" "length body < 65536"
    using assms(5) fit by (simp_all add: body_def length_hello_body N_def front_def tail_def)
  have hello: "client_hello ver hl fixed sid ciphers comps (es1 @ (0, server_name h) # es2) =
      0x16 # ver @ put_be16 (word_of_nat (length body)) @ body"
    by (simp add: client_hello_def vec16_def body_def hello_body_def N_def front_def tail_def add.assoc)
  have n: "49 + length sid + length ciphers + length comps + length front \<le> n"
    using assms(2,6) fit by (simp add: client_hello_def vec16_def vec8_def hello_start_def front_def)
  define X where "X = take (n - (49 + length sid + length ciphers + length comps + length front)) tail"
  have cut: "take n (client_hello ver hl fixed sid ciphers comps (es1 @ (0, server_name h) # es2) @ later) =
      0x16 # ver @ put_be16 (word_of_nat (length body)) @ take (n - 5) (body @ later)"
    using n assms(2) by (simp add: hello take_Cons' numeral_eq_Suc)
  have "take (n - 5) body = hello_body hl fixed sid ciphers comps N (front @ X)"
    using n fit by (simp add: body_def hello_body_def hello_start_def vec8_def vec16_def X_def take_Cons' add.assoc)
  then have cl: "clamp (be16_at (put_be16 (word_of_nat (length body))) 0) (take (n - 5) (body @ later)) =
      hello_body hl fixed sid ciphers comps N (front @ X)"
    using clamp_take [of body "n - 5" later] be16_put [of "length body" "[]"] len(2) by simp
  have "parseTLSSNI (take n (client_hello ver hl fixed sid ciphers comps (es1 @ (0, server_name h) # es2) @ later)) =
      walk_extensions (front @ X)"
    unfolding cut by (rule parse_body [OF assms(1) _ _ assms(2) _ cl]) (use len in \<open>simp_all add: N_def X_def\<close>)
  also have "\<dots> = parseSNIExtension (server_name h)"
    using walk_others [OF assms(4)] walk_extension [of "server_name h" 0 X] assms(3)
    by (simp add: front_def server_name_def vec16_def)
  also have "\<dots> = h" using assms(3) by (rule parse_server_name)
  finally show ?thesis .
qed

lemma tls_name_found_witness:
  "parseTLSSNI (take 90 (client_hello [3, 1] [0, 0, 0] (replicate 34 7) [1, 2] [0x13, 1] [0]
     ([(10, [0, 2, 0, 29])] @ (0, server_name ''example.com'') # [(16, [0, 3, 2, 104, 50])]) @ [])) = ''example.com''"
  by (rule tls_name_found)
    (simp_all add: hello_fits_def server_name_def vec16_def vec8_def client_hello_def hello_start_def)

text \<open>No byte of the connection is lost by looking at it.\<close>

lemma peek_replays: "snd (peekHost read_request first later) = first @ later"
  by (simp add: peekHost_def Let_def append_take_drop_id [symmetric] flip: append_assoc)

section \<open>A port in the Host header\<close>

text \<open>
  \<^verbatim>\<open>http.ReadRequest\<close> leaves a port in the \<open>Host\<close> of the request.
\<close>

lemma is_digit_dot: "\<not> is_digit CHR ''.''"
  by (simp add: is_digit_def)

lemma scope_no_char: "valid_host v \<Longrightarrow> \<not> domain_char c \<Longrightarrow> c \<noteq> CHR ''.'' \<Longrightarrow> c \<notin> set v"
  by (auto simp: valid_host_def list_all_iff)

text \<open>A name that goes on, behind a character no domain has, with digits.\<close>

lemma tail_no_suffix:
  assumes "list_all is_digit port" "c \<notin> set v" "c \<noteq> CHR ''.''"
  shows "h @ c # port \<noteq> v" "\<not> has_suffix (h @ c # port) (''.'' @ v)"
proof -
  show "h @ c # port \<noteq> v" using assms(2) by auto
  have dot: "CHR ''.'' \<notin> set port" using assms(1) by (rule digits_no_char) (simp add: is_digit_def)
  show "\<not> has_suffix (h @ c # port) (''.'' @ v)"
  proof
    assume "has_suffix (h @ c # port) (''.'' @ v)"
    then obtain t where t: "h @ (c # port) = t @ (CHR ''.'' # v)" by (auto simp: has_suffix_iff)
    then consider us where "h @ us = t" "c # port = us @ CHR ''.'' # v"
      | us where "h = t @ us" "us @ c # port = CHR ''.'' # v"
      by (auto simp: append_eq_append_conv2)
    then show False
    proof cases
      case 1
      then show False using dot assms(3) by (cases us) auto
    next
      case 2
      then show False using assms(2,3) by (cases us) auto
    qed
  qed
qed

lemma tail_matches_nothing:
  assumes "canonical_host (h @ c # port)" "list_all is_digit port" "\<not> domain_char c" "c \<noteq> CHR ''.''"
  shows "\<not> MatchesDomain etld (h @ c # port) d"
proof
  assume "MatchesDomain etld (h @ c # port) d"
  then obtain n where n: "NormalizeDomain etld d = Some n" "scopeMatches (h @ c # port) n"
    by (auto simp: matches_iff_scope)
  from n(1) show False
  proof (cases rule: NormalizeDomain_SomeD)
    case (exact v)
    then show False
      using n(2) tail_no_suffix(1) [OF assms(2) scope_no_char [OF exact(2) assms(3,4)] assms(4), of h] assms(1)
      by (simp add: scopeMatches_def canonical_host_def has_prefix_def)
  next
    case (bare a)
    then show False
      using n(2) tail_no_suffix [OF assms(2) scope_no_char [OF bare(1) assms(3,4)] assms(4), of h] assms(1)
        valid_host_no_eq [OF bare(1)]
      by (simp add: scopeMatches_def canonical_host_def)
  qed
qed

lemma tail_final_route:
  assumes "canonical_host (h @ c # port)" "list_all is_digit port" "\<not> domain_char c" "c \<noteq> CHR ''.''"
  shows "cr_lookup (compileRouteTable etld t) (h @ c # port) =
      (case override_lookup (compiled_overrides (rt_Overrides t)) (h @ c # port) of
         Some m \<Rightarrow> m | None \<Rightarrow> stats_normalizeFinal (rt_Final t))"
proof -
  have none: "find_index (\<lambda>g. list_ex (MatchesDomain etld (h @ c # port)) (rgp_Domains g)) gs = None" for gs
    using tail_matches_nothing [OF assms] by (induction gs) (simp_all add: list_ex_iff)
  show ?thesis unfolding cr_lookup_groups [OF assms(1)] none compiled_overrides_def by (simp split: option.split)
qed

text \<open>
  A rule group does not see a plain-HTTP site on another port. The name found for such a
  connection still has the port of its Host header, and no domain scope whatsoever covers it, so
  that the table answers with the final route unless an override carries the port too.
\<close>

lemma http_port_escapes_groups:
  assumes "looks_like_http (take peekSize first)" "read_request (take peekSize first) = Some (h @ '':'' @ port)"
    and "take peekSize first ! 0 \<noteq> 0x16"
    and "to_lower (h @ '':'' @ port) = h @ '':'' @ port" "list_all is_digit port" "port \<noteq> []"
  shows "fst (peekHost read_request first later) = h @ '':'' @ port \<and>
    cr_lookup (compileRouteTable etld t) (h @ '':'' @ port) =
      (case override_lookup (compiled_overrides (rt_Overrides t)) (h @ '':'' @ port) of
         Some m \<Rightarrow> m | None \<Rightarrow> stats_normalizeFinal (rt_Final t))"
proof -
  have "last (h @ '':'' @ port) = last port" using assms(6) by simp
  moreover have "is_digit (last port)" using assms(5,6) by (simp add: list_all_iff)
  ultimately have "\<not> has_suffix (h @ '':'' @ port) ''.''"
    by (metis has_suffix_iff is_digit_dot last_snoc)
  then have can: "canonical_host (h @ '':'' @ port)" using assms(4) by (simp add: canonical_host_def trim_suffix_def)
  have "take peekSize first \<noteq> []" using assms(1) by (auto simp: looks_like_http_def)
  then have "fst (peekHost read_request first later) = h @ '':'' @ port"
    using assms(1-3) by (simp add: peekHost_def Let_def parseHTTPHost_def)
  moreover have "\<not> domain_char CHR '':''" by code_simp
  ultimately show ?thesis using tail_final_route [of h "CHR '':''" port etld t] can assms(5) by simp
qed

definition ex_http :: bytes where
  "ex_http = bytes_of_string ''GET / HTTP/1.1 Host: bad.com:8080''"

end
