(* ===== verification/Socks5.thy ===== *)
theory Socks5
  imports IpText RelayServer PeekHost
begin

text \<open>
  The SOCKS5 server: \<^verbatim>\<open>internal/proxy/socks5.go\<close> (handshake) and
  \<^verbatim>\<open>internal/proxy/socks5_udp.go\<close> (UDP associations). A connection is the bytes the client
  sends and the sink that takes the replies.
\<close>

section \<open>The handshake\<close>

definition socks5Version :: byte where "socks5Version = 5"
definition socks5AuthNone :: byte where "socks5AuthNone = 0"
definition socks5CmdConnect :: byte where "socks5CmdConnect = 1"
definition socks5CmdUDPAssociate :: byte where "socks5CmdUDPAssociate = 3"
definition socks5AddrIPv4 :: byte where "socks5AddrIPv4 = 1"
definition socks5AddrDomain :: byte where "socks5AddrDomain = 3"
definition socks5AddrIPv6 :: byte where "socks5AddrIPv6 = 4"
definition socks5ReplyOK :: byte where "socks5ReplyOK = 0"
definition socks5ReplyFail :: byte where "socks5ReplyFail = 1"

lemmas socks_consts = socks5Version_def socks5AuthNone_def socks5CmdConnect_def socks5CmdUDPAssociate_def
  socks5AddrIPv4_def socks5AddrDomain_def socks5AddrIPv6_def socks5ReplyOK_def socks5ReplyFail_def

definition sendSOCKS5Reply :: "byte \<Rightarrow> sink \<Rightarrow> sink" where
  "sendSOCKS5Reply rep conn = snd (sink_write [socks5Version, rep, 0, socks5AddrIPv4, 0, 0, 0, 0, 0, 0] conn)"

definition ip_of_bytes :: "bytes \<Rightarrow> nat list" where
  "ip_of_bytes b = map unat b"

text \<open>The destination address; the outer \<open>None\<close> is an address type the server does not know.\<close>

definition read_dst :: "byte \<Rightarrow> bytes \<Rightarrow> ((error + string) \<times> bytes) option" where
  "read_dst atyp r =
     (if atyp = socks5AddrIPv4 then
        Some (case read_full 4 r of (Inl e, r1) \<Rightarrow> (Inl e, r1) | (Inr b, r1) \<Rightarrow> (Inr (ip_string (ip_of_bytes b)), r1))
      else if atyp = socks5AddrIPv6 then
        Some (case read_full 16 r of (Inl e, r1) \<Rightarrow> (Inl e, r1) | (Inr b, r1) \<Rightarrow> (Inr (ip_string (ip_of_bytes b)), r1))
      else if atyp = socks5AddrDomain then
        Some (case read_full 1 r of
                (Inl e, r1) \<Rightarrow> (Inl e, r1)
              | (Inr lenBuf, r1) \<Rightarrow>
                  (case read_full (unat (lenBuf ! 0)) r1 of
                     (Inl e, r2) \<Rightarrow> (Inl e, r2)
                   | (Inr domain, r2) \<Rightarrow> (Inr (string_of_bytes domain), r2)))
      else None)"

definition socks_read_request :: "bytes \<Rightarrow> sink \<Rightarrow> (error + byte \<times> string \<times> int) \<times> bytes \<times> sink" where
  "socks_read_request r conn =
     (case read_full 4 r of
        (Inl e, r1) \<Rightarrow> (Inl e, r1, conn)
      | (Inr req, r1) \<Rightarrow>
          if req ! 0 \<noteq> socks5Version then (Inl (Msg ''bad SOCKS5 version in request''), r1, conn)
          else
            let cmd = req ! 1 in
            if cmd \<noteq> socks5CmdConnect \<and> cmd \<noteq> socks5CmdUDPAssociate
            then (Inl (Msg ''unsupported SOCKS5 command''), r1, sendSOCKS5Reply 7 conn)
            else
              (case read_dst (req ! 3) r1 of
                 None \<Rightarrow> (Inl (Msg ''unsupported SOCKS5 address type''), r1, sendSOCKS5Reply 8 conn)
               | Some (Inl e, r2) \<Rightarrow> (Inl e, r2, conn)
               | Some (Inr host, r2) \<Rightarrow>
                   (case read_full 2 r2 of
                      (Inl e, r3) \<Rightarrow> (Inl e, r3, conn)
                    | (Inr p, r3) \<Rightarrow> (Inr (cmd, host, int (unat (get_be16 (p ! 0) (p ! 1)))), r3, conn))))"

definition socks5Handshake :: "bytes \<Rightarrow> sink \<Rightarrow> (error + byte \<times> string \<times> int) \<times> bytes \<times> sink" where
  "socks5Handshake r conn =
     (case read_full 2 r of
        (Inl e, r1) \<Rightarrow> (Inl e, r1, conn)
      | (Inr hdr, r1) \<Rightarrow>
          if hdr ! 0 \<noteq> socks5Version then (Inl (Msg ''unsupported SOCKS version''), r1, conn)
          else
            (case read_full (unat (hdr ! 1)) r1 of
               (Inl e, r2) \<Rightarrow> (Inl e, r2, conn)
             | (Inr methods, r2) \<Rightarrow>
                 (case sink_write [socks5Version, socks5AuthNone] conn of
                    (Some e, conn1) \<Rightarrow> (Inl e, r2, conn1)
                  | (None, conn1) \<Rightarrow> socks_read_request r2 conn1)))"

section \<open>Datagrams\<close>

definition parseSOCKS5UDP :: "bytes \<Rightarrow> error + string \<times> int \<times> bytes" where
  "parseSOCKS5UDP b =
     (let short = Inl (Msg ''short datagram'');
          ok = (\<lambda>host rest. Inr (host, int (unat (get_be16 (rest ! 0) (rest ! 1))), drop 2 rest))
      in
      if length b < 4 then short
      else if b ! 2 \<noteq> 0 then Inl (Msg ''fragmented datagram not supported'')
      else
        let rest = drop 4 b in
        if b ! 3 = socks5AddrIPv4 then
          (if length rest < 4 + 2 then short else ok (ip_string (ip_of_bytes (take 4 rest))) (drop 4 rest))
        else if b ! 3 = socks5AddrIPv6 then
          (if length rest < 16 + 2 then short else ok (ip_string (ip_of_bytes (take 16 rest))) (drop 16 rest))
        else if b ! 3 = socks5AddrDomain then
          (if length rest < 1 \<or> length rest < 1 + unat (rest ! 0) + 2 then short
           else ok (string_of_bytes (take (unat (rest ! 0)) (drop 1 rest))) (drop (1 + unat (rest ! 0)) rest))
        else Inl (Msg ''unsupported address type''))"

text \<open>An address as both kinds of reply carry it.\<close>

definition addr_bytes :: "nat list \<Rightarrow> bytes" where
  "addr_bytes ip =
     (case To4 ip of
        Some ip4 \<Rightarrow> socks5AddrIPv4 # map word_of_nat ip4
      | None \<Rightarrow> socks5AddrIPv6 # map word_of_nat ip)"

definition reply_datagram :: "nat list \<Rightarrow> int \<Rightarrow> bytes \<Rightarrow> bytes" where
  "reply_datagram srcIP srcPort data = [0, 0, 0] @ addr_bytes srcIP @ put_be16 (word_of_int srcPort) @ data"

definition sendSOCKS5BoundReply :: "nat list \<Rightarrow> int \<Rightarrow> sink \<Rightarrow> sink" where
  "sendSOCKS5BoundReply ip port conn =
     snd (sink_write ([socks5Version, socks5ReplyOK, 0] @ addr_bytes ip @ put_be16 (word_of_int port)) conn)"

section \<open>The handshake decodes requests\<close>

datatype socks_addr = AddrIP "nat list" | AddrName string

text \<open>The addresses a client can ask for, and RFC 1928's encoding of them.\<close>

fun addr_valid :: "socks_addr \<Rightarrow> bool" where
  "addr_valid (AddrIP ip) = is_ip ip"
| "addr_valid (AddrName h) = (length h < 256)"

fun addr_encode :: "socks_addr \<Rightarrow> bytes" where
  "addr_encode (AddrIP ip) = addr_bytes ip"
| "addr_encode (AddrName h) = socks5AddrDomain # word_of_nat (length h) # bytes_of_string h"

fun addr_host :: "socks_addr \<Rightarrow> string" where
  "addr_host (AddrIP ip) = ip_string ip"
| "addr_host (AddrName h) = h"

definition socks_greeting :: "bytes \<Rightarrow> bytes" where
  "socks_greeting methods = [5, word_of_nat (length methods)] @ methods"

definition socks_request :: "byte \<Rightarrow> byte \<Rightarrow> socks_addr \<Rightarrow> u16 \<Rightarrow> bytes" where
  "socks_request cmd rsv a port = [5, cmd, rsv] @ addr_encode a @ put_be16 port"

lemma ip_of_bytes_word: "\<forall>b\<in>set ip. b < 256 \<Longrightarrow> ip_of_bytes (map word_of_nat ip) = ip"
  unfolding ip_of_bytes_def by (induction ip) (simp_all add: unat_of_nat)

lemma ip_string_v4: "length q = 4 \<Longrightarrow> ip_string q = ip_string (v4_mapped q)"
  by (simp add: ip_string_def v4_mapped_def) (simp flip: v4_mapped_def [simplified])

lemma addr_bytes_cases:
  assumes "is_ip ip"
  obtains (v4) q where "addr_bytes ip = socks5AddrIPv4 # map word_of_nat q" "length q = 4" "\<forall>b\<in>set q. b < 256"
      "ip_string q = ip_string ip"
    | (v6) "addr_bytes ip = socks5AddrIPv6 # map word_of_nat ip" "length ip = 16" "\<forall>b\<in>set ip. b < 256"
proof (cases "To4 ip")
  case None
  then show thesis using assms v6 by (simp add: addr_bytes_def is_ip_def)
next
  case (Some q)
  then have "ip = v4_mapped q" by (rule To4_SomeD)
  then have "length q = 4" "\<forall>b\<in>set q. b < 256" "ip_string q = ip_string ip"
    using assms ip_string_v4 [of q] by (simp_all add: is_ip_def v4_mapped_def)
  then show thesis using Some v4 by (simp add: addr_bytes_def)
qed

lemma read_dst_encode:
  assumes "addr_valid a"
  obtains atyp t where "addr_encode a = atyp # t" "read_dst atyp (t @ rest) = Some (Inr (addr_host a), rest)"
proof (cases a)
  case (AddrIP ip)
  then have "is_ip ip" using assms by simp
  then show thesis
  proof (cases rule: addr_bytes_cases)
    case (v4 q)
    then show thesis using AddrIP that by (simp add: read_dst_def socks_consts ip_of_bytes_word)
  next
    case v6
    then show thesis using AddrIP that by (simp add: read_dst_def socks_consts ip_of_bytes_word)
  qed
next
  case (AddrName h)
  then have "unat (word_of_nat (length h) :: byte) = length h" using assms by (simp add: unat_of_nat)
  then show thesis using AddrName that by (simp add: read_dst_def socks_consts read_full_def)
qed

lemma handshake_decodes:
  assumes "length methods < 256" "cmd = 1 \<or> cmd = 3" "addr_valid a"
  shows "socks5Handshake (socks_greeting methods @ socks_request cmd rsv a port @ rest) (open_sink out) =
    (Inr (cmd, addr_host a, int (unat port)), rest, open_sink (out @ [5, 0]))"
proof -
  have m: "unat (word_of_nat (length methods) :: byte) = length methods" using assms(1) by (simp add: unat_of_nat)
  obtain atyp t where a: "addr_encode a = atyp # t"
    "read_dst atyp (t @ put_be16 port @ rest) = Some (Inr (addr_host a), put_be16 port @ rest)"
    using read_dst_encode [OF assms(3), of "put_be16 port @ rest"] by blast
  have "read_full 4 ([5, cmd, rsv, atyp] @ t @ put_be16 port @ rest) = (Inr [5, cmd, rsv, atyp], t @ put_be16 port @ rest)"
    by (rule read_full_append) simp
  moreover have "read_full 2 (put_be16 port @ rest) = (Inr (put_be16 port), rest)" by simp
  ultimately have "socks_read_request (socks_request cmd rsv a port @ rest) conn = (Inr (cmd, addr_host a, int (unat port)), rest, conn)" for conn
    using assms(2) a by (auto simp: socks_read_request_def socks_request_def socks_consts Let_def put_be16_def)
  then show ?thesis
    using m by (simp add: socks5Handshake_def socks_greeting_def socks_consts)
qed

text \<open>
  SOCKS5 requests. A client that offers any methods and then asks for CONNECT or UDP
  ASSOCIATE to an address or a name gets exactly the no-authentication answer, and the server
  comes out with the command, the host in the form the rest of the client uses and the port,
  reading no byte beyond the request.
\<close>

lemma socks_request_decoded:
  assumes "length methods < 256" "cmd = 1 \<or> cmd = 3" "addr_valid a"
  shows "socks5Handshake (socks_greeting methods @ socks_request cmd rsv a port @ rest) (open_sink out) =
    (Inr (cmd, addr_host a, int (unat port)), rest, open_sink (out @ [5, 0]))"
  using assms by (rule handshake_decodes)

section \<open>Replies\<close>

lemma length_addr_bytes: "is_ip ip \<Longrightarrow> length (addr_bytes ip) = 5 \<or> length (addr_bytes ip) = 17"
  by (erule addr_bytes_cases) simp_all

text \<open>
  Relayed datagrams. What the relay sends to the client for a datagram from any IPv4 or IPv6
  source is read by the datagram parser as that address in text form, that port and the
  unchanged payload, and the address text is read back as the address.
\<close>

lemma udp_reply_roundtrip:
  assumes "is_ip ip" "0 \<le> port" "port < 65536"
  shows "parseSOCKS5UDP (reply_datagram ip port data) = Inr (ip_string ip, port, data) \<and>
    ParseIP (ip_string ip) = Some ip"
proof
  have p: "uint (word_of_int port :: u16) = port" using assms(2,3) by (simp add: uint_word_of_int)
  from assms(1) show "parseSOCKS5UDP (reply_datagram ip port data) = Inr (ip_string ip, port, data)"
  proof (cases rule: addr_bytes_cases)
    case (v4 q)
    have d: "reply_datagram ip port data = [0, 0, 0, 1] @ map word_of_nat q @ put_be16 (word_of_int port) @ data"
      by (simp add: reply_datagram_def v4(1) socks_consts)
    show ?thesis
      using v4(2-4) by (simp add: parseSOCKS5UDP_def d socks_consts Let_def ip_of_bytes_word put_be16_def p)
  next
    case v6
    have d: "reply_datagram ip port data = [0, 0, 0, 4] @ map word_of_nat ip @ put_be16 (word_of_int port) @ data"
      by (simp add: reply_datagram_def v6(1) socks_consts)
    show ?thesis
      using v6(2,3) by (simp add: parseSOCKS5UDP_def d socks_consts Let_def ip_of_bytes_word put_be16_def p)
  qed
  show "ParseIP (ip_string ip) = Some ip" using assms(1) by (rule ParseIP_ip_string)
qed

end
