(* ===== verification/SocksUdp.thy ===== *)
theory SocksUdp
  imports Socks5 "HOL-Library.AList"
begin

text \<open>
  The relay of one UDP association, \<open>udpRelay\<close> of \<^verbatim>\<open>internal/proxy/socks5_udp.go\<close>, over a
  single tunnel client. Every section the source runs under its lock is one operation; the
  events of \<open>relay_step\<close> are those of its goroutines, in any order. A channel is known by its
  index in \<open>sr_channels\<close>, the channels opened so far.
\<close>

section \<open>State\<close>

record udp_relay =
  sr_clientIP :: "nat list"
  sr_clientAddr :: "(nat list \<times> int) option"
  sr_tunnels :: "(int \<times> nat) list"
  sr_channels :: "udp_channel list"
  sr_direct :: bool
  sr_resolved :: "(string \<times> nat list \<times> int) list"
  sr_closed :: bool
  sr_mux :: mux_client
  sr_toClient :: "(bytes \<times> nat list \<times> int) list"
  sr_toDirect :: "(bytes \<times> nat list \<times> int) list"

definition new_relay :: "nat list \<Rightarrow> mux_client \<Rightarrow> udp_relay" where
  "new_relay clientIP client =
     \<lparr>sr_clientIP = clientIP, sr_clientAddr = None, sr_tunnels = [], sr_channels = [], sr_direct = False,
      sr_resolved = [], sr_closed = False, sr_mux = client, sr_toClient = [], sr_toDirect = []\<rparr>"

text \<open>What the rest of the process provides while a datagram is forwarded.\<close>

record relay_env =
  re_routes :: "compiled_routes option"
  re_lookupDirect :: "string \<Rightarrow> error + nat list list"
  re_lookupTunnel :: "string \<Rightarrow> error + nat list list"
  re_opened :: "error + mux_stream"
  re_listenOk :: bool
  re_now :: int

section \<open>Operations\<close>

definition on_channel :: "nat \<Rightarrow> (udp_channel \<Rightarrow> mux_client \<Rightarrow> udp_channel \<times> mux_client) \<Rightarrow> udp_relay \<Rightarrow> udp_relay" where
  "on_channel i f r =
     (case f (sr_channels r ! i) (sr_mux r) of
        (ch, c) \<Rightarrow> r\<lparr>sr_channels := (sr_channels r)[i := ch], sr_mux := c\<rparr>)"

definition relay_close :: "udp_relay \<Rightarrow> udp_relay" where
  "relay_close r =
     (let r = r\<lparr>sr_closed := True\<rparr> in fold (\<lambda>(family, i). on_channel i uc_Close) (sr_tunnels r) r)"

definition resolveCacheTTL :: int where "resolveCacheTTL = secs 60"

definition prefer_ipv4 :: "nat list list \<Rightarrow> nat list" where
  "prefer_ipv4 addrs = (case find (\<lambda>a. To4 a \<noteq> None) addrs of Some a \<Rightarrow> a | None \<Rightarrow> addrs ! 0)"

definition udp_resolve ::
    "(string \<Rightarrow> error + nat list list) \<Rightarrow> string \<Rightarrow> string \<Rightarrow> int \<Rightarrow> udp_relay \<Rightarrow> (error + nat list) \<times> udp_relay" where
  "udp_resolve lookup scope host now r =
     (case ParseIP host of
        Some ip \<Rightarrow> (Inr ip, r)
      | None \<Rightarrow>
          let key = scope @ ''/'' @ host;
              ask = (case lookup host of
                       Inl err \<Rightarrow> (Inl err, r)
                     | Inr addrs \<Rightarrow>
                         if addrs = [] then (Inl (Msg ''no addresses''), r)
                         else
                           let ip = prefer_ipv4 addrs in
                           (Inr ip, r\<lparr>sr_resolved := AList.update key (ip, now + resolveCacheTTL) (sr_resolved r)\<rparr>))
          in (case map_of (sr_resolved r) key of
                Some (ip, exp) \<Rightarrow> if now < exp then (Inr ip, r) else ask
              | None \<Rightarrow> ask))"

definition tunnelChannel :: "(error + mux_stream) \<Rightarrow> int \<Rightarrow> udp_relay \<Rightarrow> (error + nat) \<times> udp_relay" where
  "tunnelChannel opened family r =
     (if sr_closed r then (Inl NetClosed, r)
      else
        (case map_of (sr_tunnels r) family of
           Some i \<Rightarrow> (Inr i, r)
         | None \<Rightarrow>
             (case OpenUDP opened family (sr_mux r) of
                (Inl err, c) \<Rightarrow> (Inl err, r\<lparr>sr_mux := c\<rparr>)
              | (Inr ch, c) \<Rightarrow>
                  let i = length (sr_channels r) in
                  (Inr i, r\<lparr>sr_channels := sr_channels r @ [ch],
                            sr_tunnels := AList.update family i (sr_tunnels r), sr_mux := c\<rparr>))))"

definition directConn :: "bool \<Rightarrow> udp_relay \<Rightarrow> error option \<times> udp_relay" where
  "directConn listenOk r =
     (if sr_closed r then (Some NetClosed, r)
      else if sr_direct r then (None, r)
      else if \<not> listenOk then (Some (Msg ''listen''), r)
      else (None, r\<lparr>sr_direct := True\<rparr>))"

definition relay_forward :: "relay_env \<Rightarrow> string \<Rightarrow> int \<Rightarrow> bytes \<Rightarrow> udp_relay \<Rightarrow> udp_relay" where
  "relay_forward env host port payload r =
     (let dstAddr = JoinHostPort host (itoa port);
          name = (if ParseIP host = None then host else []);
          routeKind = (case re_routes env of None \<Rightarrow> RouteTunnel | Some cr \<Rightarrow> LookupRouteMode dstAddr name cr)
      in
      if routeKind = RouteBlocked then r
      else if routeKind = RouteDirect then
        (case udp_resolve (re_lookupDirect env) ''direct'' host (re_now env) r of
           (Inl err, r1) \<Rightarrow> r1
         | (Inr ip, r1) \<Rightarrow>
             (case directConn (re_listenOk env) r1 of
                (Some err, r2) \<Rightarrow> r2
              | (None, r2) \<Rightarrow> r2\<lparr>sr_toDirect := sr_toDirect r2 @ [(payload, ip, port)]\<rparr>))
      else
        (case udp_resolve (re_lookupTunnel env) ''tunnel'' host (re_now env) r of
           (Inl err, r1) \<Rightarrow> r1
         | (Inr ip, r1) \<Rightarrow>
             let family = (if To4 ip = None then 10 else 2) in
             (case tunnelChannel (re_opened env) family r1 of
                (Inl err, r2) \<Rightarrow> r2
              | (Inr i, r2) \<Rightarrow>
                  on_channel i (\<lambda>uc c. snd (SendTo (re_now env) (ip_string ip) port payload uc c)) r2)))"

text \<open>One datagram in \<open>readLoop\<close>.\<close>

definition relay_read :: "relay_env \<Rightarrow> nat list \<times> int \<Rightarrow> bytes \<Rightarrow> udp_relay \<Rightarrow> udp_relay" where
  "relay_read env from b r =
     (if fst from \<noteq> sr_clientIP r then r
      else
        let r = r\<lparr>sr_clientAddr := Some from\<rparr> in
        (case parseSOCKS5UDP b of
           Inl err \<Rightarrow> r
         | Inr (host, port, payload) \<Rightarrow> relay_forward env host port payload r))"

definition relay_reply :: "nat list option \<Rightarrow> int \<Rightarrow> bytes \<Rightarrow> udp_relay \<Rightarrow> udp_relay" where
  "relay_reply srcIP srcPort data r =
     (case (sr_clientAddr r, srcIP) of
        (Some to, Some ip) \<Rightarrow> r\<lparr>sr_toClient := sr_toClient r @ [(reply_datagram ip srcPort data, to)]\<rparr>
      | _ \<Rightarrow> r)"

text \<open>One turn of the goroutine that receives from channel \<open>i\<close>, started for \<open>family\<close>.\<close>

definition channel_turn :: "int \<Rightarrow> int \<Rightarrow> nat \<Rightarrow> udp_relay \<Rightarrow> udp_relay" where
  "channel_turn now family i r =
     (case Recv now (sr_channels r ! i) (sr_mux r) of
        (res, ch, c) \<Rightarrow>
          let r = r\<lparr>sr_channels := (sr_channels r)[i := ch], sr_mux := c\<rparr> in
          (case res of
             Inl err \<Rightarrow>
               (if map_of (sr_tunnels r) family = Some i
                then r\<lparr>sr_tunnels := AList.delete family (sr_tunnels r)\<rparr> else r)
           | Inr dg \<Rightarrow> relay_reply (ParseIP (dg_IP dg)) (dg_Port dg) (dg_Data dg) r))"

section \<open>Events\<close>

datatype relay_event =
    RelayRead relay_env "nat list \<times> int" bytes
  | RelayChannel int int nat
  | RelayDirect "nat list" int bytes
  | RelayClose

fun relay_step :: "udp_relay \<Rightarrow> relay_event \<Rightarrow> udp_relay" where
  "relay_step r (RelayRead env from b) = relay_read env from b r"
| "relay_step r (RelayChannel now family i) =
     (if i < length (sr_channels r) then channel_turn now family i r else r)"
| "relay_step r (RelayDirect ip port data) = relay_reply (Some ip) port data r"
| "relay_step r RelayClose = relay_close r"

section \<open>Accounting\<close>

definition relay_active :: "udp_relay \<Rightarrow> int" where
  "relay_active r = (case mc_counters (sr_mux r) of Some m \<Rightarrow> ct_ActiveTCP m | None \<Rightarrow> 0)"

definition open_count :: "udp_channel list \<Rightarrow> nat" where
  "open_count chs = length (filter (\<lambda>ch. \<not> uc_closed ch) chs)"

text \<open>
  The active count exceeds what it was before the association by the open channels, and the
  table holds channels that were opened.
\<close>

definition relay_ok :: "int \<Rightarrow> udp_relay \<Rightarrow> bool" where
  "relay_ok a0 r \<longleftrightarrow>
     mc_counters (sr_mux r) \<noteq> None \<and> relay_active r = a0 + int (open_count (sr_channels r)) \<and>
     snd ` set (sr_tunnels r) \<subseteq> {..<length (sr_channels r)} \<and> distinct (map snd (sr_tunnels r))"

definition keeps_closed :: "(udp_channel \<Rightarrow> mux_client \<Rightarrow> udp_channel \<times> mux_client) \<Rightarrow> bool" where
  "keeps_closed f \<longleftrightarrow>
     (\<forall>ch c. uc_closed (fst (f ch c)) = uc_closed ch \<and>
        map_option ct_ActiveTCP (mc_counters (snd (f ch c))) = map_option ct_ActiveTCP (mc_counters c))"

lemma open_count_update:
  "i < length chs \<Longrightarrow>
     int (open_count (chs[i := ch])) = int (open_count chs) - (if uc_closed (chs ! i) then 0 else 1) + (if uc_closed ch then 0 else 1)"
proof (induction chs arbitrary: i)
  case (Cons c chs)
  show ?case
  proof (cases i)
    case (Suc j)
    then show ?thesis using Cons.IH [of j] Cons.prems by (auto simp: open_count_def)
  qed (auto simp: open_count_def)
qed simp

lemma relay_ok_update:
  assumes "relay_ok a0 r" "i < length (sr_channels r)"
    and "mc_counters c \<noteq> None"
    and "relay_active (r\<lparr>sr_mux := c\<rparr>) = relay_active r + (if uc_closed (sr_channels r ! i) then 0 else -1) + (if uc_closed ch then 0 else 1)"
  shows "relay_ok a0 (r\<lparr>sr_channels := (sr_channels r)[i := ch], sr_mux := c\<rparr>)"
  using assms by (auto simp: relay_ok_def relay_active_def open_count_update)

lemma relay_ok_keeps:
  assumes "relay_ok a0 r" "i < length (sr_channels r)" "keeps_closed f"
  shows "relay_ok a0 (on_channel i f r)"
proof -
  obtain ch c where f: "f (sr_channels r ! i) (sr_mux r) = (ch, c)" by fastforce
  have k: "uc_closed ch = uc_closed (sr_channels r ! i)"
    "map_option ct_ActiveTCP (mc_counters c) = map_option ct_ActiveTCP (mc_counters (sr_mux r))"
    using assms(3) f unfolding keeps_closed_def by (metis fst_conv snd_conv)+
  moreover have "mc_counters (sr_mux r) \<noteq> None" using assms(1) by (simp add: relay_ok_def)
  ultimately have "mc_counters c \<noteq> None" "relay_active (r\<lparr>sr_mux := c\<rparr>) = relay_active r"
    by (auto simp: relay_active_def split: option.splits)
  then show ?thesis unfolding on_channel_def f prod.case
    by (intro relay_ok_update [OF assms(1,2)]) (auto simp: k(1))
qed

lemma relay_ok_close_channel:
  assumes "relay_ok a0 r" "i < length (sr_channels r)"
  shows "relay_ok a0 (on_channel i uc_Close r)"
proof (cases "uc_closed (sr_channels r ! i)")
  case True
  then have "on_channel i uc_Close r = r" by (simp add: on_channel_def uc_Close_def)
  then show ?thesis using assms(1) by simp
next
  case False
  obtain m where m: "mc_counters (sr_mux r) = Some m" using assms(1) by (auto simp: relay_ok_def)
  show ?thesis
    using False unfolding on_channel_def uc_Close_def
    by (simp, intro relay_ok_update [OF assms])
      (simp_all add: m on_counters_def relay_active_def add_active_def NoteActiveConns_def Let_def)
qed

lemma active_add_bytes [simp]:
  "ct_ActiveTCP (ct_AddTx now n m) = ct_ActiveTCP m" "ct_ActiveTCP (ct_AddRx now n m) = ct_ActiveTCP m"
  by (simp_all add: ct_AddTx_def ct_AddRx_def)

lemma keeps_SendTo: "keeps_closed (\<lambda>uc c. snd (SendTo now ip port data uc c))"
  by (auto simp: keeps_closed_def SendTo_def on_counters_def option.map_comp comp_def split: prod.splits option.splits)

lemma keeps_Recv: "keeps_closed (\<lambda>uc c. snd (Recv now uc c))"
  by (auto simp: keeps_closed_def Recv_def on_counters_def option.map_comp comp_def Let_def
      split: prod.splits sum.splits)

text \<open>What an operation may do to the channels without closing one.\<close>

definition grows :: "udp_relay \<Rightarrow> udp_relay \<Rightarrow> bool" where
  "grows r r' \<longleftrightarrow>
     length (sr_channels r) \<le> length (sr_channels r') \<and>
     (\<forall>i<length (sr_channels r). uc_closed (sr_channels r' ! i) = uc_closed (sr_channels r ! i)) \<and>
     snd ` set (sr_tunnels r') \<subseteq> snd ` set (sr_tunnels r) \<union> {length (sr_channels r)..<length (sr_channels r')}"

lemma grows_refl [simp]: "grows r r"
  by (simp add: grows_def)

lemma grows_trans: "grows r r1 \<Longrightarrow> grows r1 r2 \<Longrightarrow> grows r r2"
proof -
  assume a: "grows r r1" and b: "grows r1 r2"
  let ?n = "length (sr_channels r)" and ?n1 = "length (sr_channels r1)" and ?n2 = "length (sr_channels r2)"
  have n: "?n \<le> ?n1" "?n1 \<le> ?n2" using a b by (simp_all add: grows_def)
  have "snd ` set (sr_tunnels r2) \<subseteq> snd ` set (sr_tunnels r1) \<union> {?n1..<?n2}" using b by (simp add: grows_def)
  also have "\<dots> \<subseteq> (snd ` set (sr_tunnels r) \<union> {?n..<?n1}) \<union> {?n1..<?n2}"
    using a by (intro Un_mono) (simp_all add: grows_def)
  also have "\<dots> = snd ` set (sr_tunnels r) \<union> {?n..<?n2}" using n by auto
  finally show "grows r r2" using a b n by (simp add: grows_def)
qed

lemma grows_channel: "i < length (sr_channels r) \<Longrightarrow> keeps_closed f \<Longrightarrow> grows r (on_channel i f r)"
proof -
  assume i: "i < length (sr_channels r)" and f: "keeps_closed f"
  obtain ch c where e: "f (sr_channels r ! i) (sr_mux r) = (ch, c)" by fastforce
  then have "uc_closed ch = uc_closed (sr_channels r ! i)" using f unfolding keeps_closed_def by (metis fst_conv)
  then show ?thesis using i by (simp add: grows_def on_channel_def e nth_list_update)
qed

lemma relay_ok_trivial:
  "sr_mux r' = sr_mux r \<Longrightarrow> sr_channels r' = sr_channels r \<Longrightarrow> sr_tunnels r' = sr_tunnels r \<Longrightarrow>
     (relay_ok a0 r \<longrightarrow> relay_ok a0 r') \<and> grows r r'"
  by (simp add: relay_ok_def relay_active_def grows_def)

lemma relay_reply_keeps: "(relay_ok a0 r \<longrightarrow> relay_ok a0 (relay_reply ip port data r)) \<and> grows r (relay_reply ip port data r)"
  by (rule relay_ok_trivial) (auto simp: relay_reply_def split: option.split)

lemma udp_resolve_keeps:
  "udp_resolve lookup scope host now r = (res, r') \<Longrightarrow>
     sr_mux r' = sr_mux r \<and> sr_channels r' = sr_channels r \<and> sr_tunnels r' = sr_tunnels r"
  by (auto simp: udp_resolve_def Let_def split: option.splits sum.splits if_splits)

lemma directConn_keeps:
  "directConn l r = (res, r') \<Longrightarrow>
     sr_mux r' = sr_mux r \<and> sr_channels r' = sr_channels r \<and> sr_tunnels r' = sr_tunnels r"
  by (auto simp: directConn_def split: if_splits)

lemma OpenUDP_active:
  assumes "OpenUDP opened family c = (res, c')" "mc_counters c = Some m"
  shows "\<exists>m'. mc_counters c' = Some m' \<and>
    (case res of Inl e \<Rightarrow> ct_ActiveTCP m' = ct_ActiveTCP m | Inr ch \<Rightarrow> ct_ActiveTCP m' = ct_ActiveTCP m + 1 \<and> \<not> uc_closed ch)"
  using assms
  by (auto simp: OpenUDP_def on_counters_def add_active_def NoteActiveConns_def Let_def
      split: if_splits sum.splits prod.splits option.splits)

lemma update_values: "snd ` set (AList.update k v al) \<subseteq> insert v (snd ` set al)"
  by (induction al) auto

lemma delete_values: "snd ` set (AList.delete k al) \<subseteq> snd ` set al"
  by (rule image_mono) (simp add: AList.delete_eq)

lemma delete_distinct: "distinct (map snd al) \<Longrightarrow> distinct (map snd (AList.delete k al))"
  by (simp add: AList.delete_eq distinct_map_filter)

lemma update_new: "k \<notin> fst ` set al \<Longrightarrow> AList.update k v al = al @ [(k, v)]"
  by (induction al) auto

lemma tunnelChannel_keeps:
  assumes "tunnelChannel opened family r = (res, r')" "relay_ok a0 r"
  shows "relay_ok a0 r' \<and> grows r r' \<and> (\<forall>i. res = Inr i \<longrightarrow> i < length (sr_channels r'))"
proof -
  obtain m where m: "mc_counters (sr_mux r) = Some m" using assms(2) by (auto simp: relay_ok_def)
  obtain o1 c where o: "OpenUDP opened family (sr_mux r) = (o1, c)" by fastforce
  from OpenUDP_active [OF o m] obtain m' where m': "mc_counters c = Some m'"
    "case o1 of Inl e \<Rightarrow> ct_ActiveTCP m' = ct_ActiveTCP m | Inr ch \<Rightarrow> ct_ActiveTCP m' = ct_ActiveTCP m + 1 \<and> \<not> uc_closed ch"
    by blast
  consider "r' = r" "\<exists>e. res = Inl e" | i where "r' = r" "map_of (sr_tunnels r) family = Some i" "res = Inr i"
    | e where "o1 = Inl e" "r' = r\<lparr>sr_mux := c\<rparr>" "res = Inl e"
    | ch where "o1 = Inr ch" "res = Inr (length (sr_channels r))" "map_of (sr_tunnels r) family = None"
      "r' = r\<lparr>sr_channels := sr_channels r @ [ch], sr_tunnels := AList.update family (length (sr_channels r)) (sr_tunnels r), sr_mux := c\<rparr>"
  proof (cases "sr_closed r")
    case True
    then have "r' = r" "res = Inl NetClosed" using assms(1) by (simp_all add: tunnelChannel_def)
    then show thesis using that(1) by blast
  next
    case False
    show thesis
    proof (cases "map_of (sr_tunnels r) family")
      case None
      then show thesis using assms(1) False o that(3,4) by (cases o1) (simp_all add: tunnelChannel_def Let_def)
    next
      case (Some i)
      then show thesis using assms(1) False that(2) by (simp add: tunnelChannel_def)
    qed
  qed
  then show ?thesis
  proof cases
    case 1
    then show ?thesis using assms(2) by auto
  next
    case (2 i)
    then have "(family, i) \<in> set (sr_tunnels r)" by (simp add: map_of_SomeD)
    then show ?thesis using 2 assms(2) by (force simp: relay_ok_def)
  next
    case (3 e)
    then show ?thesis using assms(2) m m' by (simp add: relay_ok_def relay_active_def grows_def)
  next
    case (4 ch)
    have "map snd (sr_tunnels r') = map snd (sr_tunnels r) @ [length (sr_channels r)]"
      using 4(3) update_new [of family "sr_tunnels r"] by (simp add: 4(4) map_of_eq_None_iff)
    then have d: "distinct (map snd (sr_tunnels r'))" using assms(2) by (auto simp: relay_ok_def)
    have t: "snd ` set (sr_tunnels r') \<subseteq> insert (length (sr_channels r)) (snd ` set (sr_tunnels r))"
      unfolding 4(4) using update_values by simp
    also have "\<dots> \<subseteq> snd ` set (sr_tunnels r) \<union> {length (sr_channels r)..<length (sr_channels r')}"
      by (auto simp: 4(4))
    finally have g: "grows r r'" by (simp add: grows_def 4(4) nth_append)
    have "snd ` set (sr_tunnels r') \<subseteq> insert (length (sr_channels r)) {..<length (sr_channels r)}"
      by (rule subset_trans [OF t insert_mono]) (use assms(2) in \<open>simp add: relay_ok_def\<close>)
    also have "\<dots> \<subseteq> {..<length (sr_channels r')}" by (auto simp: 4(4))
    finally have "relay_ok a0 r'"
      using assms(2) m m' 4(1) d by (simp add: relay_ok_def 4(4) relay_active_def open_count_def)
    with g 4 show ?thesis by simp
  qed
qed

lemma relay_forward_keeps:
  assumes "relay_ok a0 r"
  shows "relay_ok a0 (relay_forward env host port payload r) \<and> grows r (relay_forward env host port payload r)"
proof -
  have same: "relay_ok a0 r' \<and> grows r r'" if "sr_mux r' = sr_mux r \<and> sr_channels r' = sr_channels r \<and> sr_tunnels r' = sr_tunnels r" for r'
    using relay_ok_trivial that assms by blast
  let ?kind = "case re_routes env of None \<Rightarrow> RouteTunnel
    | Some cr \<Rightarrow> LookupRouteMode (JoinHostPort host (itoa port)) (if ParseIP host = None then host else []) cr"
  consider "?kind = RouteBlocked" | "?kind \<noteq> RouteBlocked" "?kind = RouteDirect" | "?kind \<noteq> RouteBlocked" "?kind \<noteq> RouteDirect"
    by blast
  then show ?thesis
  proof cases
    case 1
    then have "relay_forward env host port payload r = r" by (simp add: relay_forward_def Let_def)
    then show ?thesis using assms by simp
  next
    case 2
    obtain res r1 where u: "udp_resolve (re_lookupDirect env) ''direct'' host (re_now env) r = (res, r1)" by fastforce
    obtain d r2 where dc: "directConn (re_listenOk env) r1 = (d, r2)" by fastforce
    have "relay_forward env host port payload r =
        (case res of Inl err \<Rightarrow> r1 | Inr ip \<Rightarrow> (case d of Some err \<Rightarrow> r2 | None \<Rightarrow> r2\<lparr>sr_toDirect := sr_toDirect r2 @ [(payload, ip, port)]\<rparr>))"
      unfolding relay_forward_def Let_def u dc prod.case using 2 by simp
    then show ?thesis
      using udp_resolve_keeps [OF u] directConn_keeps [OF dc] by (intro same) (simp split: sum.split option.split)
  next
    case 3
    obtain res r1 where u: "udp_resolve (re_lookupTunnel env) ''tunnel'' host (re_now env) r = (res, r1)" by fastforce
    have r1: "relay_ok a0 r1" "grows r r1" using same udp_resolve_keeps [OF u] by blast+
    let ?fam = "\<lambda>ip. if To4 ip = None then 10 else 2 :: int"
    have f: "relay_forward env host port payload r =
        (case res of Inl err \<Rightarrow> r1 | Inr ip \<Rightarrow>
          (case tunnelChannel (re_opened env) (?fam ip) r1 of (Inl err, r2) \<Rightarrow> r2
           | (Inr i, r2) \<Rightarrow> on_channel i (\<lambda>uc c. snd (SendTo (re_now env) (ip_string ip) port payload uc c)) r2))"
      unfolding relay_forward_def Let_def u prod.case using 3 by simp
    show ?thesis
    proof (cases res)
      case (Inl e)
      then show ?thesis using f r1 by simp
    next
      case (Inr ip)
      obtain t r2 where t: "tunnelChannel (re_opened env) (?fam ip) r1 = (t, r2)" by fastforce
      note k = tunnelChannel_keeps [OF t r1(1)]
      show ?thesis
      proof (cases t)
        case (Inl e)
        then show ?thesis using f \<open>res = Inr ip\<close> t k grows_trans [OF r1(2)] by simp
      next
        case (Inr i)
        then have i: "i < length (sr_channels r2)" using k by simp
        show ?thesis
          unfolding f using \<open>res = Inr ip\<close> t Inr relay_ok_keeps [OF _ i keeps_SendTo] grows_channel [OF i keeps_SendTo] k
            grows_trans [OF r1(2)] grows_trans by (simp, blast)
      qed
    qed
  qed
qed

lemma channel_turn_keeps:
  assumes "relay_ok a0 r" "i < length (sr_channels r)"
  shows "relay_ok a0 (channel_turn now family i r) \<and> grows r (channel_turn now family i r)"
proof -
  obtain res ch c where rc: "Recv now (sr_channels r ! i) (sr_mux r) = (res, ch, c)" by (cases "Recv now (sr_channels r ! i) (sr_mux r)")
  define r1 where "r1 = on_channel i (\<lambda>uc c. snd (Recv now uc c)) r"
  have r1: "relay_ok a0 r1" "grows r r1"
    unfolding r1_def by (rule relay_ok_keeps [OF assms keeps_Recv], rule grows_channel [OF assms(2) keeps_Recv])
  have e: "r1 = r\<lparr>sr_channels := (sr_channels r)[i := ch], sr_mux := c\<rparr>" by (simp add: r1_def on_channel_def rc)
  have turn: "channel_turn now family i r =
      (case res of Inl err \<Rightarrow> (if map_of (sr_tunnels r1) family = Some i
          then r1\<lparr>sr_tunnels := AList.delete family (sr_tunnels r1)\<rparr> else r1)
       | Inr dg \<Rightarrow> relay_reply (ParseIP (dg_IP dg)) (dg_Port dg) (dg_Data dg) r1)"
    unfolding e channel_turn_def rc prod.case Let_def by (cases res) simp_all
  have "snd ` set (AList.delete family (sr_tunnels r1)) \<subseteq> snd ` set (sr_tunnels r1)" by (rule delete_values)
  then have "relay_ok a0 (r1\<lparr>sr_tunnels := AList.delete family (sr_tunnels r1)\<rparr>) \<and>
      grows r1 (r1\<lparr>sr_tunnels := AList.delete family (sr_tunnels r1)\<rparr>)"
    using r1(1) by (simp add: relay_ok_def relay_active_def grows_def subset_trans delete_distinct)
  then show ?thesis
    unfolding turn using r1 relay_reply_keeps grows_trans [OF r1(2)] by (auto split: sum.split)
qed

lemma close_channels:
  assumes "relay_ok a0 r" "snd ` set ts \<subseteq> {..<length (sr_channels r)}"
  defines "r' \<equiv> fold (\<lambda>(family, i). on_channel i uc_Close) ts r"
  shows "relay_ok a0 r' \<and> length (sr_channels r') = length (sr_channels r) \<and> sr_tunnels r' = sr_tunnels r \<and>
    sr_closed r' = sr_closed r \<and>
    (\<forall>i<length (sr_channels r). uc_closed (sr_channels r' ! i) \<longleftrightarrow> uc_closed (sr_channels r ! i) \<or> i \<in> snd ` set ts)"
  using assms(1,2) unfolding r'_def
proof (induction ts arbitrary: r)
  case (Cons t ts)
  obtain family i where t: "t = (family, i)" by fastforce
  then have i: "i < length (sr_channels r)" using Cons.prems(2) by simp
  define r1 where "r1 = on_channel i uc_Close r"
  have r1: "relay_ok a0 r1" unfolding r1_def by (rule relay_ok_close_channel [OF Cons.prems(1) i])
  have same: "length (sr_channels r1) = length (sr_channels r)" "sr_tunnels r1 = sr_tunnels r" "sr_closed r1 = sr_closed r"
    by (simp_all add: r1_def on_channel_def split: prod.split)
  have "fst (uc_Close ch c) = ch\<lparr>uc_closed := True, uc_out := uc_out (fst (uc_Close ch c))\<rparr>" for ch c
    by (cases ch) (auto simp: uc_Close_def)
  then have c: "uc_closed (fst (uc_Close ch c))" for ch c by (metis udp_channel.select_convs(3) udp_channel.surjective udp_channel.update_convs(2,3))
  then have "uc_closed (sr_channels r1 ! j) \<longleftrightarrow> uc_closed (sr_channels r ! j) \<or> j = i" if "j < length (sr_channels r)" for j
  proof -
    obtain ch m where cl: "uc_Close (sr_channels r ! i) (sr_mux r) = (ch, m)" by fastforce
    then have "uc_closed ch" using c [of "sr_channels r ! i" "sr_mux r"] by simp
    then show ?thesis using that i by (auto simp: r1_def on_channel_def nth_list_update cl)
  qed
  moreover have "fold (\<lambda>(family, i). on_channel i uc_Close) (t # ts) r = fold (\<lambda>(family, i). on_channel i uc_Close) ts r1"
    by (simp add: t r1_def)
  ultimately show ?case
    using Cons.IH [OF r1] Cons.prems(2) by (auto simp: same t)
qed simp

lemma relay_close_keeps:
  assumes "relay_ok a0 r"
  shows "relay_ok a0 (relay_close r) \<and> length (sr_channels (relay_close r)) = length (sr_channels r) \<and>
    sr_tunnels (relay_close r) = sr_tunnels r \<and> sr_closed (relay_close r) \<and>
    (\<forall>i<length (sr_channels r). uc_closed (sr_channels (relay_close r) ! i) \<longleftrightarrow>
       uc_closed (sr_channels r ! i) \<or> i \<in> snd ` set (sr_tunnels r))"
proof -
  have "relay_ok a0 (r\<lparr>sr_closed := True\<rparr>)" using assms by (simp add: relay_ok_def relay_active_def)
  from close_channels [OF this, of "sr_tunnels r"] assms show ?thesis
    by (simp add: relay_close_def Let_def relay_ok_def)
qed

lemma relay_read_keeps:
  assumes "relay_ok a0 r"
  shows "relay_ok a0 (relay_read env from b r) \<and> grows r (relay_read env from b r)"
proof -
  let ?r = "r\<lparr>sr_clientAddr := Some from\<rparr>"
  have k: "relay_ok a0 ?r" "grows r ?r" using relay_ok_trivial [of ?r r a0] assms by simp_all
  have "relay_ok a0 (relay_forward env host port payload ?r) \<and> grows r (relay_forward env host port payload ?r)" for host port payload
    using relay_forward_keeps [OF k(1)] grows_trans [OF k(2)] by blast
  then show ?thesis
    using assms k unfolding relay_read_def Let_def by (cases "parseSOCKS5UDP b") auto
qed

text \<open>Every event keeps the accounts, and only the end of the association closes channels.\<close>

lemma relay_step_keeps:
  assumes "relay_ok a0 r"
  shows "relay_ok a0 (relay_step r e) \<and> (e = RelayClose \<or> grows r (relay_step r e))"
proof (cases e)
  case (RelayRead env src b)
  then show ?thesis using relay_read_keeps [OF assms] by simp
next
  case (RelayChannel now family i)
  then show ?thesis using channel_turn_keeps [OF assms] assms by simp
next
  case (RelayDirect ip port data)
  then show ?thesis using relay_reply_keeps assms by simp
next
  case RelayClose
  then show ?thesis using relay_close_keeps [OF assms] by simp
qed

text \<open>A channel that is open but no longer in the table.\<close>

definition lost :: "nat \<Rightarrow> udp_relay \<Rightarrow> bool" where
  "lost i r \<longleftrightarrow> i < length (sr_channels r) \<and> \<not> uc_closed (sr_channels r ! i) \<and> i \<notin> snd ` set (sr_tunnels r)"

lemma lost_step:
  assumes "relay_ok a0 r" "lost i r"
  shows "lost i (relay_step r e)"
proof (cases "e = RelayClose")
  case True
  then show ?thesis using relay_close_keeps [OF assms(1)] assms(2) by (auto simp: lost_def)
next
  case False
  then have "grows r (relay_step r e)" using relay_step_keeps [OF assms(1)] by blast
  then show ?thesis using assms(2) by (auto simp: lost_def grows_def)
qed

interpretation relay_accounts: invariant_step relay_step "relay_ok a0" "\<lambda>e. True" for a0
  by unfold_locales (use relay_step_keeps in blast)

interpretation relay_lost: invariant_step relay_step "\<lambda>r. relay_ok a0 r \<and> lost i r" "\<lambda>e. True" for a0 i
  by unfold_locales (use relay_step_keeps lost_step in blast)

lemma lost_active:
  assumes "relay_ok a0 r" "lost i r"
  shows "a0 < relay_active r"
proof -
  have "sr_channels r ! i \<in> set (filter (\<lambda>ch. \<not> uc_closed ch) (sr_channels r))"
    using assms(2) by (simp add: lost_def)
  then have "0 < open_count (sr_channels r)" unfolding open_count_def by (rule length_pos_if_in_set)
  then show ?thesis using assms(1) by (simp add: relay_ok_def)
qed

text \<open>
  A UDP channel of a SOCKS5 association is leaked when the server ends it. When receiving
  on a channel fails, the channel is taken out of the table without being closed: from then on no
  event closes it, the end of the association included, and the count of active connections
  never comes down to what it was before the association.
\<close>

lemma relay_channel_leaks:
  assumes "mc_counters client = Some m" "r = foldl relay_step (new_relay ip client) es0"
    and "map_of (sr_tunnels r) family = Some i" "\<not> uc_closed (sr_channels r ! i)"
    and "fst (Recv now (sr_channels r ! i) (sr_mux r)) = Inl err"
  shows "\<forall>es. \<not> uc_closed (sr_channels (foldl relay_step r (RelayChannel now family i # es @ [RelayClose])) ! i) \<and>
    ct_ActiveTCP m < relay_active (foldl relay_step r (RelayChannel now family i # es @ [RelayClose]))"
proof
  fix es
  let ?a0 = "ct_ActiveTCP m"
  have "relay_ok ?a0 (new_relay ip client)"
    using assms(1) by (simp add: relay_ok_def new_relay_def relay_active_def open_count_def)
  then have ok: "relay_ok ?a0 r"
    unfolding assms(2) by (rule relay_accounts.run_inv) (simp add: list_all_iff)
  let ?r = "relay_step r (RelayChannel now family i)"
  have m: "(family, i) \<in> set (sr_tunnels r)" using assms(3) by (rule map_of_SomeD)
  then have i: "i < length (sr_channels r)" using ok by (force simp: relay_ok_def)
  obtain ch c where rc: "Recv now (sr_channels r ! i) (sr_mux r) = (Inl err, ch, c)"
    using assms(5) by (cases "Recv now (sr_channels r ! i) (sr_mux r)") simp
  have "uc_closed ch = uc_closed (sr_channels r ! i)"
    using keeps_Recv [of now] rc unfolding keeps_closed_def by (metis fst_conv snd_conv)
  moreover have "i \<notin> snd ` set (AList.delete family (sr_tunnels r))"
  proof
    assume "i \<in> snd ` set (AList.delete family (sr_tunnels r))"
    then obtain f where f: "(f, i) \<in> set (sr_tunnels r)" "f \<noteq> family" by (auto simp: AList.delete_eq)
    have "inj_on snd (set (sr_tunnels r))" using ok by (simp add: relay_ok_def distinct_map)
    from inj_onD [OF this, of "(f, i)" "(family, i)"] show False using f m by simp
  qed
  ultimately have "lost i ?r" using i assms(3,4) by (simp add: lost_def channel_turn_def rc)
  then have "relay_ok ?a0 ?r \<and> lost i ?r" using relay_step_keeps [OF ok] by blast
  from relay_lost.run_inv [OF this, of "es @ [RelayClose]"]
  have "relay_ok ?a0 (foldl relay_step ?r (es @ [RelayClose]))" "lost i (foldl relay_step ?r (es @ [RelayClose]))"
    by (simp_all add: list_all_iff)
  then show "\<not> uc_closed (sr_channels (foldl relay_step r (RelayChannel now family i # es @ [RelayClose])) ! i) \<and>
      ?a0 < relay_active (foldl relay_step r (RelayChannel now family i # es @ [RelayClose]))"
    using lost_active by (simp add: lost_def)
qed

text \<open>One datagram to 8.8.8.8, after which the server half-closes the channel.\<close>

definition ex_env :: relay_env where
  "ex_env = \<lparr>re_routes = None, re_lookupDirect = \<lambda>h. Inr [], re_lookupTunnel = \<lambda>h. Inr [],
     re_opened = Inr ([0, 0], open_sink []), re_listenOk = True, re_now = 0\<rparr>"

definition ex_relay :: udp_relay where
  "ex_relay = relay_step (new_relay (v4_mapped [10, 0, 0, 2]) ex_client)
     (RelayRead ex_env (v4_mapped [10, 0, 0, 2], 5000) [0, 0, 0, 1, 8, 8, 8, 8, 0, 53, 1, 2])"

end
