(* ===== verification/ProxyConn.thy ===== *)
theory ProxyConn
  imports SocksUdp ConnStats
begin

text \<open>
  The life of a proxied TCP connection: \<^verbatim>\<open>internal/proxy/listener.go\<close>, \<open>forwardTCP\<close> of
  \<^verbatim>\<open>internal/proxy/socks5.go\<close> and the CONNECT branch of \<^verbatim>\<open>internal/proxy/http_proxy.go\<close>. The
  connections being copied are \<open>px_live\<close>; the events of \<open>px_step\<close> are those of their
  goroutines, in any order. Dialling is a parameter: what the network answers for a host and a port.
\<close>

section \<open>Direct dials\<close>

definition maxConcurrentDirectDials :: int where "maxConcurrentDirectDials = 8"

definition dial_count :: "(string \<rightharpoonup> int) \<Rightarrow> string \<Rightarrow> int" where
  "dial_count m dst = (case m dst of Some n \<Rightarrow> n | None \<Rightarrow> 0)"

definition directDialAcquire :: "string \<Rightarrow> (string \<rightharpoonup> int) \<Rightarrow> bool \<times> (string \<rightharpoonup> int)" where
  "directDialAcquire dst m =
     (if dial_count m dst \<ge> maxConcurrentDirectDials then (False, m)
      else (True, m(dst \<mapsto> dial_count m dst + 1)))"

definition directDialRelease :: "string \<Rightarrow> (string \<rightharpoonup> int) \<Rightarrow> (string \<rightharpoonup> int)" where
  "directDialRelease dst m =
     (let n = dial_count m dst - 1; m = m(dst \<mapsto> n) in if n \<le> 0 then m(dst := None) else m)"

text \<open>\<^verbatim>\<open>net.Dialer\<close> takes the address apart before it dials.\<close>

definition dial_address :: "(string \<Rightarrow> string \<Rightarrow> error option) \<Rightarrow> string \<Rightarrow> error option" where
  "dial_address dial addr =
     (case SplitHostPort addr of
        None \<Rightarrow> Some (Msg ''invalid address'')
      | Some (host, port) \<Rightarrow> dial host port)"

section \<open>State\<close>

record counters =
  ctr_book :: conn_book
  ctr_routes :: compiled_routes

text \<open>A connection whose two copying goroutines run.\<close>

record live_conn =
  lv_direct :: bool
  lv_id :: u64
  lv_src :: string
  lv_dst :: string
  lv_host :: string
  lv_mux :: "client_conn option"

record proxy_state =
  px_counters :: "counters option"
  px_dials :: "string \<rightharpoonup> int"
  px_loops :: int
  px_mux :: mux_client
  px_live :: "live_conn list"

definition on_book :: "(conn_book \<Rightarrow> conn_book) \<Rightarrow> proxy_state \<Rightarrow> proxy_state" where
  "on_book f s = s\<lparr>px_counters := map_option (\<lambda>c. c\<lparr>ctr_book := f (ctr_book c)\<rparr>) (px_counters s)\<rparr>"

text \<open>The identifier a connection gets: 0 without counters.\<close>

definition open_book :: "(conn_book \<Rightarrow> u64 \<times> conn_book) \<Rightarrow> proxy_state \<Rightarrow> u64 \<times> proxy_state" where
  "open_book f s =
     (case px_counters s of
        None \<Rightarrow> (0, s)
      | Some c \<Rightarrow>
          (case f (ctr_book c) of (cid, b) \<Rightarrow> (cid, s\<lparr>px_counters := Some (c\<lparr>ctr_book := b\<rparr>)\<rparr>)))"

section \<open>Opening a connection\<close>

text \<open>\<^verbatim>\<open>err.Error()\<close>.\<close>

fun error_text :: "error \<Rightarrow> string" where
  "error_text EOF = ''EOF''"
| "error_text UnexpectedEOF = ''unexpected EOF''"
| "error_text ClosedPipe = ''io: read/write on closed pipe''"
| "error_text NetClosed = ''use of closed network connection''"
| "error_text (Remote m) = ''remote: '' @ m"
| "error_text (Msg m) = m"
| "error_text (Wrapped p e) = p @ '': '' @ error_text e"

definition dst_addr :: "string \<Rightarrow> int \<Rightarrow> string" where
  "dst_addr dstIP dstPort = dstIP @ '':'' @ itoa dstPort"

definition dst_family :: "string \<Rightarrow> int" where
  "dst_family dstIP =
     (case ParseIP dstIP of Some ip \<Rightarrow> if To4 ip = None then 10 else 2 | None \<Rightarrow> 2)"

definition lookup_route :: "string \<Rightarrow> string \<Rightarrow> proxy_state \<Rightarrow> int \<times> string" where
  "lookup_route dstAddr host s =
     (case px_counters s of
        None \<Rightarrow> (DefaultPriority, RouteTunnel)
      | Some c \<Rightarrow> (LookupPriority dstAddr host (ctr_book c), LookupRouteMode dstAddr host (ctr_routes c)))"

datatype open_result = Blocked | LoopDetected | DialError error | OpenError error | Opened

definition handleDirect ::
    "(string \<Rightarrow> string \<Rightarrow> error option) \<Rightarrow> string \<Rightarrow> string \<Rightarrow> string \<Rightarrow> int \<Rightarrow> int \<Rightarrow> proxy_state \<Rightarrow> open_result \<times> proxy_state" where
  "handleDirect dial dstAddr srcAddr host startedAt now s =
     (case directDialAcquire dstAddr (px_dials s) of
        (False, _) \<Rightarrow> (LoopDetected, s\<lparr>px_loops := px_loops s + 1\<rparr>)
      | (True, m) \<Rightarrow>
          let s = s\<lparr>px_dials := m\<rparr> in
          (case dial_address dial dstAddr of
             Some err \<Rightarrow>
               let s = on_book (ConnFailed srcAddr dstAddr host RouteDirect startedAt (''direct dial: '' @ error_text err) now) s in
               (DialError err, s\<lparr>px_dials := directDialRelease dstAddr (px_dials s)\<rparr>)
           | None \<Rightarrow>
               (case open_book (ConnOpenRoute srcAddr dstAddr host 0 RouteDirect now) s of
                  (connID, s) \<Rightarrow>
                    (Opened, s\<lparr>px_live := px_live s @ [\<lparr>lv_direct = True, lv_id = connID, lv_src = srcAddr,
                       lv_dst = dstAddr, lv_host = host, lv_mux = None\<rparr>]\<rparr>))))"

definition open_tunnel ::
    "(error + mux_stream) \<Rightarrow> string \<Rightarrow> int \<Rightarrow> string \<Rightarrow> string \<Rightarrow> int \<Rightarrow> int \<Rightarrow> proxy_state \<Rightarrow> open_result \<times> proxy_state" where
  "open_tunnel opened dstIP dstPort srcAddr host startedAt now s =
     (let dstAddr = dst_addr dstIP dstPort in
      case OpenTCP opened (dst_family dstIP) dstIP dstPort (px_mux s) of
        (Inl err, c) \<Rightarrow>
          (OpenError err, on_book (ConnFailed srcAddr dstAddr host RouteTunnel startedAt (''open channel: '' @ error_text err) now) (s\<lparr>px_mux := c\<rparr>))
      | (Inr mc, c) \<Rightarrow>
          (case open_book (ConnOpen srcAddr dstAddr host (cc_TunnelIndex mc) now) (s\<lparr>px_mux := c\<rparr>) of
             (connID, s) \<Rightarrow>
               (Opened, s\<lparr>px_live := px_live s @ [\<lparr>lv_direct = False, lv_id = connID, lv_src = srcAddr,
                  lv_dst = dstAddr, lv_host = host, lv_mux = Some mc\<rparr>]\<rparr>)))"

definition route_conn ::
    "(string \<Rightarrow> string \<Rightarrow> error option) \<Rightarrow> (error + mux_stream) \<Rightarrow> string \<Rightarrow> int \<Rightarrow> string \<Rightarrow> string \<Rightarrow> int \<Rightarrow> int \<Rightarrow>
     proxy_state \<Rightarrow> open_result \<times> proxy_state" where
  "route_conn dial opened dstIP dstPort host srcAddr startedAt now s =
     (let dstAddr = dst_addr dstIP dstPort;
          routeKind = snd (lookup_route dstAddr host s)
      in
      if routeKind = RouteBlocked then
        (Blocked, on_book (ConnFailed srcAddr dstAddr host RouteBlocked startedAt ''blocked by route rule'' now) s)
      else if routeKind = RouteDirect then handleDirect dial dstAddr srcAddr host startedAt now s
      else open_tunnel opened dstIP dstPort srcAddr host startedAt now s)"

text \<open>SOCKS5 and CONNECT: a destination that is no address is its own host name.\<close>

definition forwardTCP ::
    "(string \<Rightarrow> string \<Rightarrow> error option) \<Rightarrow> (error + mux_stream) \<Rightarrow> string \<Rightarrow> int \<Rightarrow> string \<Rightarrow> int \<Rightarrow> int \<Rightarrow>
     proxy_state \<Rightarrow> open_result \<times> proxy_state" where
  "forwardTCP dial opened dstIP dstPort srcAddr startedAt now s =
     route_conn dial opened dstIP dstPort (if ParseIP dstIP = None then dstIP else []) srcAddr startedAt now s"

text \<open>A redirected connection: the host name is looked for in its first bytes.\<close>

definition handleConn ::
    "(bytes \<Rightarrow> string option) \<Rightarrow> (string \<Rightarrow> string \<Rightarrow> error option) \<Rightarrow> (error + mux_stream) \<Rightarrow> error + string \<times> int \<Rightarrow>
     bytes \<Rightarrow> bytes \<Rightarrow> string \<Rightarrow> int \<Rightarrow> int \<Rightarrow> proxy_state \<Rightarrow> open_result option \<times> bytes \<times> proxy_state" where
  "handleConn read_request dial opened origDst first later srcAddr startedAt now s =
     (case origDst of
        Inl err \<Rightarrow> (None, first @ later, s)
      | Inr (dstIP, dstPort) \<Rightarrow>
          (case peekHost read_request first later of
             (host, br) \<Rightarrow>
               (case route_conn dial opened dstIP dstPort host srcAddr startedAt now s of
                  (r, s) \<Rightarrow> (Some r, br, s))))"

section \<open>Copying and closing\<close>

datatype direction = Upload | Download

record copy_result =
  cp_direction :: direction
  cp_bytes :: int
  cp_err :: "string option"

text \<open>\<open>Timeout\<close> marks a \<^verbatim>\<open>net.Error\<close> that is a timeout; the other errors are known by their text.\<close>

datatype copy_err = CopyEOF | CopyNetClosed | CopyTimeout | CopyOther string

definition normalizeCopyErr :: "copy_err option \<Rightarrow> string option" where
  "normalizeCopyErr err =
     (case err of
        None \<Rightarrow> None
      | Some CopyEOF \<Rightarrow> None
      | Some CopyNetClosed \<Rightarrow> None
      | Some CopyTimeout \<Rightarrow> None
      | Some (CopyOther msg) \<Rightarrow>
          if contains_sub msg ''use of closed network connection'' then None
          else if contains_sub msg ''closed pipe'' then None
          else Some msg)"

fun direction_name :: "direction \<Rightarrow> string" where
  "direction_name Upload = ''upload''"
| "direction_name Download = ''download''"

definition copyErrMsg :: "copy_result \<Rightarrow> copy_result \<Rightarrow> string" where
  "copyErrMsg first second =
     join_with ''; '' (concat (map (\<lambda>r. case cp_err r of
                                          Some e \<Rightarrow> [direction_name (cp_direction r) @ '': '' @ e]
                                        | None \<Rightarrow> []) [first, second]))"

text \<open>The prefix of the summary line and its upload and download totals.\<close>

definition logConnSummary :: "copy_result \<Rightarrow> copy_result \<Rightarrow> string \<times> int \<times> int" where
  "logConnSummary first second =
     (let upload = first; download = second;
          (upload, download) = (if cp_direction first = Download then (second, first) else (upload, download))
      in (if cp_err upload \<noteq> None \<or> cp_err download \<noteq> None then ''warning: conn summary'' else ''conn summary'',
          cp_bytes upload, cp_bytes download))"

text \<open>\<open>countingWriter.Write\<close>: only a write that wrote something is counted.\<close>

definition counted_write :: "direction \<Rightarrow> u64 \<Rightarrow> int \<Rightarrow> int \<Rightarrow> proxy_state \<Rightarrow> proxy_state" where
  "counted_write d connID n now s =
     (if n > 0 then on_book (if d = Upload then ConnAddTx connID n now else ConnAddRx connID n now) s else s)"

definition finish_conn :: "nat \<Rightarrow> copy_result \<Rightarrow> copy_result \<Rightarrow> int \<Rightarrow> proxy_state \<Rightarrow> proxy_state" where
  "finish_conn i first second now s =
     (let lv = px_live s ! i;
          s = on_book (ConnCloseErr (lv_id lv) (lv_src lv) (lv_dst lv) (copyErrMsg first second) now) s;
          s = s\<lparr>px_live := take i (px_live s) @ drop (Suc i) (px_live s)\<rparr>
      in if lv_direct lv then s\<lparr>px_dials := directDialRelease (lv_dst lv) (px_dials s)\<rparr>
         else
           (case lv_mux lv of
              Some mc \<Rightarrow> s\<lparr>px_mux := snd (cc_Close mc (px_mux s))\<rparr>
            | None \<Rightarrow> s))"

section \<open>HTTP CONNECT\<close>

definition splitHostPortDefault :: "string \<Rightarrow> int \<Rightarrow> (string \<times> int) option" where
  "splitHostPortDefault hostport def =
     (case SplitHostPort hostport of
        None \<Rightarrow> Some (trim_right_by (\<lambda>c. c = CHR ''['' \<or> c = CHR '']'') (dropWhile (\<lambda>c. c = CHR ''['' \<or> c = CHR '']'') hostport), def)
      | Some (host, portStr) \<Rightarrow>
          (case atoi portStr of
             None \<Rightarrow> None
           | Some port \<Rightarrow> if port \<le> 0 \<or> port > 65535 then None else Some (host, port)))"

definition request_line :: "string \<Rightarrow> (string \<times> string \<times> string) option" where
  "request_line line =
     (case cut_sub '' '' line of
        None \<Rightarrow> None
      | Some (method, rest) \<Rightarrow>
          (case cut_sub '' '' rest of
             None \<Rightarrow> None
           | Some (target, proto) \<Rightarrow> Some (method, target, proto)))"

section \<open>Interleavings\<close>

datatype px_event =
    PxForward "string \<Rightarrow> string \<Rightarrow> error option" "error + mux_stream" string int string string int int
  | PxWrite direction nat int int
  | PxFinish nat copy_result copy_result int

fun px_step :: "proxy_state \<Rightarrow> px_event \<Rightarrow> proxy_state" where
  "px_step s (PxForward dial opened dstIP dstPort host srcAddr startedAt now) =
     snd (route_conn dial opened dstIP dstPort host srcAddr startedAt now s)"
| "px_step s (PxWrite d i n now) =
     (if i < length (px_live s) then counted_write d (lv_id (px_live s ! i)) n now s else s)"
| "px_step s (PxFinish i first second now) =
     (if i < length (px_live s) then finish_conn i first second now s else s)"

section \<open>The bound on direct dials\<close>

definition new_proxy :: "counters option \<Rightarrow> mux_client \<Rightarrow> proxy_state" where
  "new_proxy c client = \<lparr>px_counters = c, px_dials = Map.empty, px_loops = 0, px_mux = client, px_live = []\<rparr>"

definition direct_to :: "string \<Rightarrow> proxy_state \<Rightarrow> nat" where
  "direct_to dst s = length (filter (\<lambda>lv. lv_direct lv \<and> lv_dst lv = dst) (px_live s))"

definition dials_ok :: "proxy_state \<Rightarrow> bool" where
  "dials_ok s \<longleftrightarrow>
     (\<forall>dst. px_dials s dst = (if direct_to dst s = 0 then None else Some (int (direct_to dst s))) \<and>
        int (direct_to dst s) \<le> maxConcurrentDirectDials)"

lemma dials_ok_same:
  assumes "dials_ok s" "px_dials s' = px_dials s" "filter lv_direct (px_live s') = filter lv_direct (px_live s)"
  shows "dials_ok s'"
proof -
  have f: "filter (\<lambda>lv. lv_direct lv \<and> lv_dst lv = dst) xs = filter (\<lambda>lv. lv_dst lv = dst) (filter lv_direct xs)" for dst xs
    by (simp add: conj_commute)
  have "direct_to dst s' = direct_to dst s" for dst unfolding direct_to_def f assms(3) ..
  then show ?thesis using assms(1) by (simp add: dials_ok_def assms(2))
qed

lemma on_book_fields [simp]:
  "px_dials (on_book f s) = px_dials s" "px_live (on_book f s) = px_live s" "px_mux (on_book f s) = px_mux s"
  "px_loops (on_book f s) = px_loops s"
  by (simp_all add: on_book_def)

lemma open_book_fields:
  "open_book f s = (cid, s') \<Longrightarrow> px_dials s' = px_dials s \<and> px_live s' = px_live s \<and> px_mux s' = px_mux s"
  by (auto simp: open_book_def split: option.splits prod.splits)

lemma acquire_release:
  assumes "directDialAcquire dst m = (True, m')" "m dst = None \<or> (\<exists>n>0. m dst = Some n)"
  shows "directDialRelease dst m' = m"
proof -
  have m': "m' = m(dst \<mapsto> dial_count m dst + 1)" using assms(1) by (simp add: directDialAcquire_def split: if_splits)
  then have n: "dial_count m' dst - 1 = dial_count m dst" by (simp add: dial_count_def)
  have r: "directDialRelease dst m' = (if dial_count m dst \<le> 0 then m'(dst := None) else m'(dst \<mapsto> dial_count m dst))"
    by (simp add: directDialRelease_def Let_def n)
  show ?thesis
  proof (cases "m dst")
    case None
    then have "dial_count m dst = 0" "m'(dst := None) = m" by (auto simp: dial_count_def m')
    then show ?thesis by (simp add: r)
  next
    case (Some n)
    then have "\<not> dial_count m dst \<le> 0" "m'(dst \<mapsto> dial_count m dst) = m" using assms(2) by (auto simp: dial_count_def m')
    then show ?thesis by (simp add: r)
  qed
qed

lemma dial_count_ok: "dials_ok s \<Longrightarrow> dial_count (px_dials s) dst = int (direct_to dst s)"
  by (simp add: dials_ok_def dial_count_def)

lemma dials_ok_direct:
  assumes "dials_ok s"
  shows "dials_ok (snd (handleDirect dial dst src host startedAt now s))"
proof (cases "directDialAcquire dst (px_dials s)")
  case (Pair ok m)
  have cell: "px_dials s dst = None \<or> (\<exists>n>0. px_dials s dst = Some n)"
    using assms by (auto simp: dials_ok_def)
  show ?thesis
  proof (cases ok)
    case False
    then show ?thesis using Pair by (intro dials_ok_same [OF assms]) (simp_all add: handleDirect_def)
  next
    case True
    then have p: "directDialAcquire dst (px_dials s) = (True, m)" using Pair by simp
    show ?thesis
    proof (cases "dial_address dial dst")
      case (Some err)
      then show ?thesis
        using acquire_release [OF p cell] by (intro dials_ok_same [OF assms]) (simp_all add: handleDirect_def p Let_def)
    next
      case None
      obtain cid s1 where o: "open_book (ConnOpenRoute src dst host 0 RouteDirect now) (s\<lparr>px_dials := m\<rparr>) = (cid, s1)"
        by fastforce
      define s2 where "s2 = snd (handleDirect dial dst src host startedAt now s)"
      have f: "px_dials s2 = m" "px_live s2 = px_live s @ [\<lparr>lv_direct = True, lv_id = cid, lv_src = src, lv_dst = dst, lv_host = host, lv_mux = None\<rparr>]"
        using open_book_fields [OF o] by (simp_all add: s2_def handleDirect_def p Let_def None o)
      have n: "direct_to d s2 = (if d = dst then direct_to d s + 1 else direct_to d s)" for d
        by (simp add: direct_to_def f)
      have lim: "int (direct_to dst s) < maxConcurrentDirectDials" "m = (px_dials s)(dst \<mapsto> int (direct_to dst s) + 1)"
        using p by (auto simp: directDialAcquire_def dial_count_ok [OF assms] split: if_splits)
      show ?thesis
        using assms lim unfolding dials_ok_def s2_def [symmetric] n f by simp
    qed
  qed
qed

lemma dials_ok_route:
  assumes "dials_ok s"
  shows "dials_ok (snd (route_conn dial opened dstIP dstPort host src startedAt now s))"
proof -
  have b: "dials_ok (on_book f s)" for f by (rule dials_ok_same [OF assms]) simp_all
  have t: "dials_ok (snd (open_tunnel opened dstIP dstPort src host startedAt now s))"
  proof (cases "OpenTCP opened (dst_family dstIP) dstIP dstPort (px_mux s)")
    case (Pair r c)
    show ?thesis
    proof (cases r)
      case (Inl e)
      then show ?thesis by (intro dials_ok_same [OF assms]) (simp_all add: open_tunnel_def Pair Let_def)
    next
      case (Inr mc)
      obtain cid s1 where o: "open_book (ConnOpen src (dst_addr dstIP dstPort) host (cc_TunnelIndex mc) now) (s\<lparr>px_mux := c\<rparr>) = (cid, s1)"
        by fastforce
      then show ?thesis
        using open_book_fields [OF o] by (intro dials_ok_same [OF assms]) (simp_all add: open_tunnel_def Pair Inr Let_def)
    qed
  qed
  show ?thesis unfolding route_conn_def Let_def using b t dials_ok_direct [OF assms] by simp
qed

lemma dials_ok_finish:
  assumes "dials_ok s" "i < length (px_live s)"
  shows "dials_ok (finish_conn i first second now s)"
proof -
  define lv where "lv = px_live s ! i"
  define s' where "s' = finish_conn i first second now s"
  have split: "px_live s = take i (px_live s) @ lv # drop (Suc i) (px_live s)"
    unfolding lv_def using assms(2) by (rule id_take_nth_drop)
  have live: "px_live s' = take i (px_live s) @ drop (Suc i) (px_live s)"
    by (simp add: s'_def finish_conn_def Let_def split: option.split)
  show ?thesis
  proof (cases "lv_direct lv")
    case False
    have "filter lv_direct (px_live s') = filter lv_direct (px_live s)"
      unfolding live by (subst (3) split) (simp add: False)
    moreover have "px_dials s' = px_dials s"
      using False by (simp add: s'_def finish_conn_def Let_def lv_def split: option.split)
    ultimately show ?thesis unfolding s'_def [symmetric] by (intro dials_ok_same [OF assms(1)])
  next
    case True
    have n: "direct_to d s = (if d = lv_dst lv then direct_to d s' + 1 else direct_to d s')" for d
      unfolding direct_to_def live by (subst split) (simp add: True)
    have d: "px_dials s' = directDialRelease (lv_dst lv) (px_dials s)"
      using True by (simp add: s'_def finish_conn_def Let_def lv_def)
    have m: "px_dials s k = (if direct_to k s = 0 then None else Some (int (direct_to k s)))"
      "int (direct_to k s) \<le> maxConcurrentDirectDials" for k using assms(1) by (simp_all add: dials_ok_def)
    show ?thesis
      unfolding dials_ok_def s'_def [symmetric]
    proof (intro allI conjI)
      fix k
      show "px_dials s' k = (if direct_to k s' = 0 then None else Some (int (direct_to k s')))"
        using m(1) [of k] m(1) [of "lv_dst lv"] n [of k] n [of "lv_dst lv"]
        by (auto simp: d directDialRelease_def dial_count_def Let_def)
      show "int (direct_to k s') \<le> maxConcurrentDirectDials" using m(2) [of k] n [of k] by (simp split: if_splits)
    qed
  qed
qed

interpretation direct_dials: invariant_step px_step dials_ok "\<lambda>e. True"
proof
  fix s e
  assume s: "dials_ok s"
  show "dials_ok (px_step s e)"
  proof (cases e)
    case (PxForward dial opened dstIP dstPort host src startedAt now)
    then show ?thesis using s by (simp add: dials_ok_route)
  next
    case (PxWrite d i n now)
    have "dials_ok (on_book f s)" for f by (rule dials_ok_same [OF s]) simp_all
    then show ?thesis using PxWrite s by (simp add: counted_write_def)
  next
    case (PxFinish i a b now)
    then show ?thesis using s dials_ok_finish by simp
  qed
qed

text \<open>
  Direct dials are bounded. In every interleaving of connections that open, copy and close,
  the tracker holds for each destination exactly the number of direct connections that are open
  to it, no entry when there is none, and never more than eight.
\<close>

lemma direct_dials_bounded:
  "let s = foldl px_step (new_proxy c client) es in
   \<forall>dst. px_dials s dst = (if direct_to dst s = 0 then None else Some (int (direct_to dst s))) \<and> direct_to dst s \<le> 8"
proof -
  have "dials_ok (new_proxy c client)" by (simp add: dials_ok_def new_proxy_def direct_to_def maxConcurrentDirectDials_def)
  then have "dials_ok (foldl px_step (new_proxy c client) es)" by (rule direct_dials.run_inv) (simp add: list_all_iff)
  then show ?thesis by (simp add: dials_ok_def maxConcurrentDirectDials_def Let_def)
qed

text \<open>The ninth connection is dropped, without a tunnel and without a record of the failure.\<close>

lemma ninth_direct_dropped:
  assumes "dial_count (px_dials s) (dst_addr dstIP dstPort) \<ge> maxConcurrentDirectDials"
    and "snd (lookup_route (dst_addr dstIP dstPort) host s) = RouteDirect"
  shows "route_conn dial opened dstIP dstPort host src startedAt now s = (LoopDetected, s\<lparr>px_loops := px_loops s + 1\<rparr>)"
proof -
  have "RouteDirect \<noteq> RouteBlocked" by code_simp
  then show ?thesis using assms by (simp add: route_conn_def Let_def handleDirect_def directDialAcquire_def)
qed

section \<open>IPv6 destinations that are routed directly\<close>

lemma ipv6_no_bracket: "is_ip ip \<Longrightarrow> \<not> has_prefix (ipv6_string ip @ t) ''[''"
proof
  assume ip: "is_ip ip" and p: "has_prefix (ipv6_string ip @ t) ''[''"
  have "ipv6_string ip \<noteq> []" using ipv6_string_chars(1) [OF ip] by auto
  then have "hd (ipv6_string ip) = CHR ''[''" "hd (ipv6_string ip) \<in> set (ipv6_string ip)"
    using p by (cases "ipv6_string ip"; simp add: has_prefix_def)+
  then have "CHR ''['' = CHR '':'' \<or> (\<exists>k<16. CHR ''['' = hex_char k)"
    using ipv6_string_chars(2) [OF ip] by metis
  then obtain k where "k < 16" "CHR ''['' = hex_char k" by auto
  then have "hex_val CHR ''['' = Some k" using hex_val_char by simp
  moreover have "hex_val CHR ''['' = None" by code_simp
  ultimately show False by simp
qed

lemma ipv6_address_invalid:
  assumes "is_ip ip"
  shows "SplitHostPort (dst_addr (ipv6_string ip) port) = None"
proof -
  have "CHR '':'' \<notin> set (itoa port)" by (rule itoa_no_colon)
  then have "last_index_char (CHR '':'') (ipv6_string ip @ CHR '':'' # itoa port) = Some (length (ipv6_string ip))"
    by (rule last_index_char_append)
  then show ?thesis
    using ipv6_no_bracket [OF assms, of "CHR '':'' # itoa port"] ipv6_string_chars(1) [OF assms]
    by (simp add: SplitHostPort_def dst_addr_def)
qed

text \<open>
  A direct route never works for IPv6. The address of an IPv6 destination is put before the
  port without brackets, and the dialer refuses it: whatever the network would answer, the
  connection fails, the failure is recorded, and the dial tracker is as it was.
\<close>

lemma ipv6_direct_fails:
  assumes "is_ip ip" "To4 ip = None" "snd (lookup_route (dst_addr (ip_string ip) port) host s) = RouteDirect"
    and "dial_count (px_dials s) (dst_addr (ip_string ip) port) < maxConcurrentDirectDials" "dials_ok s"
  shows "route_conn dial opened (ip_string ip) port host src startedAt now s =
    (DialError (Msg ''invalid address''),
     on_book (ConnFailed src (dst_addr (ip_string ip) port) host RouteDirect startedAt ''direct dial: invalid address'' now) s)"
proof -
  let ?dst = "dst_addr (ip_string ip) port"
  have "length ip \<noteq> 4" using assms(1) by (simp add: is_ip_def)
  then have "SplitHostPort ?dst = None"
    using ipv6_address_invalid [OF assms(1)] assms(2) by (simp add: ip_string_def)
  then have d: "dial_address dial ?dst = Some (Msg ''invalid address'')" by (simp add: dial_address_def)
  obtain m where m: "directDialAcquire ?dst (px_dials s) = (True, m)"
    using assms(4) by (simp add: directDialAcquire_def)
  have "px_dials s ?dst = None \<or> (\<exists>n>0. px_dials s ?dst = Some n)" using assms(5) by (auto simp: dials_ok_def)
  then have "directDialRelease ?dst m = px_dials s" by (rule acquire_release [OF m])
  moreover have "RouteDirect \<noteq> RouteBlocked" by code_simp
  ultimately show ?thesis
    using assms(3) by (simp add: route_conn_def Let_def handleDirect_def m d on_book_def)
qed

text \<open>A table without rules whose final route is the direct one.\<close>

definition all_direct :: compiled_routes where
  "all_direct = \<lparr>cr_table = \<lparr>nt_Overrides = Map.empty, nt_Groups = [], nt_Final = RouteDirect\<rparr>, cr_overrides = Map.empty,
     cr_exact = Map.empty, cr_suffix = Map.empty\<rparr>"

lemma all_direct_lookup: "LookupRouteMode dstAddr host all_direct = RouteDirect"
proof -
  have sel: "cr_overrides all_direct = Map.empty" "cr_exact all_direct k = None" "cr_suffix all_direct = (\<lambda>_. None)"
    "nt_Final (cr_table all_direct) = RouteDirect" for k
    by (simp_all add: all_direct_def)
  have "fold consider_hit (map (\<lambda>_. None) xs) None = None" for xs :: "string list"
    by (induction xs) (simp_all add: consider_hit_def)
  then have "fold consider_hit (None # map (\<lambda>_. None) xs) None = None" for xs :: "string list"
    by (simp add: consider_hit_def)
  moreover have "override_lookup (Map.empty :: string \<rightharpoonup> string) k = None" for k by (simp add: override_lookup_def first_hit_None_iff)
  ultimately show ?thesis unfolding LookupRouteMode_def cr_lookup_def sel by (simp only: option.case)
qed

section \<open>A host name that the server reads as another\<close>

text \<open>A name with a blank, a port and a line break behind it.\<close>

definition crafted :: "string \<Rightarrow> int \<Rightarrow> string" where
  "crafted h p = h @ '' '' @ itoa p @ [CHR 0x0A]"

lemma itoa_nat_digits: "0 \<le> p \<Longrightarrow> itoa p = nat_digits (nat p)"
  by (simp add: itoa_def)

lemma last_digit_no_dot:
  assumes "list_all is_digit ds" "ds \<noteq> []"
  shows "\<not> has_suffix (s @ ds) ''.''" "\<not> is_space (last (s @ ds))"
proof -
  have d: "is_digit (last ds)" using assms by (simp add: list_all_iff)
  show "\<not> has_suffix (s @ ds) ''.''"
  proof
    assume "has_suffix (s @ ds) ''.''"
    then obtain t where "s @ ds = t @ ''.''" by (auto simp: has_suffix_iff)
    then have "last ds = CHR ''.''" using assms(2) by (metis last_appendR last_snoc)
    then show False using d is_digit_dot by simp
  qed
  have "\<not> is_space c" if "is_digit c" for c using that by (auto simp: is_digit_def is_space_def)
  then show "\<not> is_space (last (s @ ds))" using d assms(2) by simp
qed

lemma digit_lower: "is_digit c \<Longrightarrow> lower_char c = c"
  by (auto simp: is_digit_def lower_char_def Let_def)

lemma digits_lower: "list_all is_digit ds \<Longrightarrow> to_lower ds = ds"
  unfolding to_lower_def by (rule map_idI) (simp add: list_all_iff digit_lower)

lemma normalize_crafted:
  assumes "valid_host h" "0 \<le> p" "to_lower h = h"
  shows "normalizeHost (crafted h p) = h @ CHR '' '' # itoa p" "canonical_host (h @ CHR '' '' # itoa p)"
proof -
  let ?k = "h @ CHR '' '' # itoa p"
  have d: "list_all is_digit (itoa p)" "itoa p \<noteq> []" using assms(2) by (simp_all add: itoa_nat_digits nat_digits_digits)
  have h: "h \<noteq> []" "list_all domain_char h" using assms(1) by (simp_all add: valid_host_def)
  have sp: "\<not> is_space c" if "domain_char c" for c using that by (auto simp: domain_char_def is_space_def Let_def)
  have e: "?k = (h @ '' '') @ itoa p" by simp
  have hd: "\<not> is_space (hd ?k)" using h sp by (cases h) auto
  have "trim_space (?k @ [CHR 0x0A]) = trim_space ?k"
  proof -
    have "dropWhile is_space (?k @ [CHR 0x0A]) = ?k @ [CHR 0x0A]" using h(1) hd by (cases h) simp_all
    moreover have "is_space CHR 0x0A" by (simp add: is_space_def)
    moreover have "dropWhile is_space ?k = ?k" using h(1) hd by (cases h) simp_all
    ultimately show ?thesis by (simp add: trim_space_def trim_right_by_def)
  qed
  also have "trim_space ?k = ?k" by (rule trim_space_fixed) (use hd last_digit_no_dot(2) [OF d, of "h @ '' ''"] in \<open>simp add: d(2)\<close>)
  finally have t: "trim_space (crafted h p) = ?k" by (simp add: crafted_def)
  have low: "to_lower ?k = ?k"
    using assms(3) digits_lower [OF d(1)] by (simp add: to_lower_def) (simp add: lower_char_def)
  have "\<not> has_suffix ?k ''.''" using last_digit_no_dot(1) [OF d, of "h @ '' ''"] by simp
  then show "normalizeHost (crafted h p) = ?k" "canonical_host ?k"
    unfolding normalizeHost_def t low canonical_host_def trim_suffix_def by simp_all
qed

lemma crafted_no_ip: "ParseIP (crafted h p) = None"
proof -
  have "\<not> addr_char CHR 0x0A" by (simp add: addr_char_def) code_simp
  then have "\<not> list_all addr_char (crafted h p)" by (simp add: crafted_def)
  then show ?thesis using ParseIP_chars by blast
qed

text \<open>
  C13: a crafted SOCKS5 name gets past the route rules. A client that asks for a name made of a
  host, a blank, a port and a line break is accepted; no rule group whatsoever applies to that
  name, so the table answers with the final route; and the header the tunnel client writes for it
  makes the server connect to the host and port of the name, whatever the client's rules say
  about that host.
\<close>

theorem crafted_name_escapes_rules:
  assumes "valid_host h" "to_lower h = h" "0 \<le> p" "p < 65536" "CHR '' '' \<notin> set h" "CHR 0x0A \<notin> set h"
    and "length (crafted h p) < 256" "length methods < 256"
  shows "socks5Handshake (socks_greeting methods @ socks_request 1 0 (AddrName (crafted h p)) port @ rest) (open_sink out) =
      (Inr (1, crafted h p, int (unat port)), rest, open_sink (out @ [5, 0])) \<and>
    LookupRouteMode (dst_addr (crafted h p) (int (unat port))) (crafted h p) (compileRouteTable etld t) =
      (case override_lookup (compiled_overrides (rt_Overrides t)) (h @ '' '' @ itoa p) of
         Some m \<Rightarrow> m | None \<Rightarrow> stats_normalizeFinal (rt_Final t)) \<and>
    (\<exists>data. handleStream (bytes_of_string (tcp_header (dst_family (crafted h p)) (crafted h p) (int (unat port)))) =
      Some (ReqTCP 2 h p, data))"
proof (intro conjI)
  show "socks5Handshake (socks_greeting methods @ socks_request 1 0 (AddrName (crafted h p)) port @ rest) (open_sink out) =
      (Inr (1, crafted h p, int (unat port)), rest, open_sink (out @ [5, 0]))"
    using handshake_decodes [of methods 1 "AddrName (crafted h p)" 0 port rest out] assms(7,8) by simp
  have ne: "crafted h p \<noteq> []" by (simp add: crafted_def)
  have "\<not> domain_char CHR '' ''" by code_simp
  moreover have "list_all is_digit (itoa p)" using assms(3) by (simp add: itoa_nat_digits nat_digits_digits)
  ultimately show "LookupRouteMode (dst_addr (crafted h p) (int (unat port))) (crafted h p) (compileRouteTable etld t) =
      (case override_lookup (compiled_overrides (rt_Overrides t)) (h @ '' '' @ itoa p) of
         Some m \<Rightarrow> m | None \<Rightarrow> stats_normalizeFinal (rt_Final t))"
    using tail_final_route [OF normalize_crafted(2) [OF assms(1,3,2)], of etld t] normalize_crafted(1) [OF assms(1,3,2)] ne
    by (simp add: LookupRouteMode_def destKey_def)
  have "bytes_of_string (tcp_header (dst_family (crafted h p)) (crafted h p) (int (unat port))) =
      bytes_of_string (tcp_header 2 h p) @ bytes_of_string ('' '' @ itoa (int (unat port)) @ [CHR 0x0A])"
  proof -
    have "tcp_header (dst_family (crafted h p)) (crafted h p) (int (unat port)) =
        tcp_header 2 h p @ '' '' @ itoa (int (unat port)) @ [CHR 0x0A]"
      by (simp add: dst_family_def crafted_no_ip) (simp add: tcp_header_def crafted_def)
    then show ?thesis by (simp only: bytes_of_string_append)
  qed
  moreover have "int64 2" "int64 p" using assms(3,4) by (simp_all add: int64_def int64_min_def int64_max_def)
  ultimately show "\<exists>data. handleStream (bytes_of_string (tcp_header (dst_family (crafted h p)) (crafted h p) (int (unat port)))) =
      Some (ReqTCP 2 h p, data)"
    using handleStream_tcp [of 2 p h] assms(5,6) by auto
qed

lemma crafted_name_escapes_rules_witness:
  "LookupRouteMode (dst_addr (crafted ''bad.com'' 22) 80) (crafted ''bad.com'' 22)
      (compileRouteTable ex_etld \<lparr>rt_Overrides = [], rt_Groups = [\<lparr>rgp_Domains = [''=bad.com''], rgp_Route = ''blocked''\<rparr>],
         rt_Final = ''tunnel''\<rparr>) = RouteTunnel \<and>
    (\<exists>data. handleStream (bytes_of_string (tcp_header 2 (crafted ''bad.com'' 22) 80)) = Some (ReqTCP 2 ''bad.com'' 22, data))"
proof -
  define t where "t = \<lparr>rt_Overrides = [], rt_Groups = [\<lparr>rgp_Domains = [''=bad.com''], rgp_Route = ''blocked''\<rparr>], rt_Final = ''tunnel''\<rparr>"
  have v: "valid_host ''bad.com''" "to_lower ''bad.com'' = ''bad.com''" by code_simp+
  have d: "nat_digits 22 = ''22''" by code_simp
  have o: "override_lookup (compiled_overrides (rt_Overrides t)) k = None" for k
    by (simp add: t_def compiled_overrides_def override_lookup_def first_hit_None_iff)
  have f: "stats_normalizeFinal (rt_Final t) = RouteTunnel" by (simp add: t_def) code_simp
  have "dst_family (crafted ''bad.com'' 22) = 2" by (simp add: dst_family_def crafted_no_ip)
  then show ?thesis
    using crafted_name_escapes_rules [of "''bad.com''" 22 "[0]" 80 "[]" "[]" ex_etld t] v
    by (simp add: o f crafted_def itoa_def d flip: t_def)
qed

section \<open>HTTP CONNECT targets\<close>

lemma trim_brackets: "CHR ''['' \<notin> set host \<Longrightarrow> CHR '']'' \<notin> set host \<Longrightarrow>
    trim_right_by (\<lambda>c. c = CHR ''['' \<or> c = CHR '']'') (dropWhile (\<lambda>c. c = CHR ''['' \<or> c = CHR '']'') host) = host"
proof -
  assume h: "CHR ''['' \<notin> set host" "CHR '']'' \<notin> set host"
  then have "dropWhile (\<lambda>c. c = CHR ''['' \<or> c = CHR '']'') host = host" by (cases host) auto
  moreover have "host = [] \<or> \<not> (last host = CHR ''['' \<or> last host = CHR '']'')" using h last_in_set by metis
  ultimately show ?thesis by (simp add: trim_right_by_id)
qed

lemma split_no_colon: "CHR '':'' \<notin> set s \<Longrightarrow> SplitHostPort s = None"
proof -
  assume "CHR '':'' \<notin> set s"
  then have "index_char (CHR '':'') (rev s) = None" by (simp add: index_char_None_iff)
  then show ?thesis by (simp add: SplitHostPort_def last_index_char_def)
qed

text \<open>
  CONNECT targets. A host and port, the host an IPv6 address in brackets or not, is taken
  apart when the port is between 1 and 65535 and refused otherwise; a target without port gets the
  default one, with the brackets of a bare IPv6 address removed.
\<close>

lemma connect_target:
  assumes "CHR ''['' \<notin> set host" "CHR '']'' \<notin> set host" "int64 port"
  shows "splitHostPortDefault (JoinHostPort host (itoa port)) def =
      (if 0 < port \<and> port \<le> 65535 then Some (host, port) else None) \<and>
    (CHR '':'' \<notin> set host \<longrightarrow> splitHostPortDefault host def = Some (host, def)) \<and>
    (host \<noteq> [] \<longrightarrow> splitHostPortDefault (''['' @ host @ '']'') def = Some (host, def))"
proof (intro conjI impI)
  have "SplitHostPort (JoinHostPort host (itoa port)) = Some (host, itoa port)"
    by (rule Split_JoinHostPort) (simp_all add: assms)
  then show "splitHostPortDefault (JoinHostPort host (itoa port)) def =
      (if 0 < port \<and> port \<le> 65535 then Some (host, port) else None)"
    using assms(3) by (simp add: splitHostPortDefault_def int64_def)
next
  assume "CHR '':'' \<notin> set host"
  then show "splitHostPortDefault host def = Some (host, def)"
    by (simp add: splitHostPortDefault_def split_no_colon trim_brackets assms)
next
  assume h: "host \<noteq> []"
  have "SplitHostPort (''['' @ host @ '']'') = None"
  proof (cases "last_index_char (CHR '':'') (''['' @ host @ '']'')")
    case None
    then show ?thesis by (simp add: SplitHostPort_def)
  next
    case (Some i)
    have "index_char (CHR '']'') ((''['' @ host) @ CHR '']'' # []) = Some (length host + 1)"
      using assms(2) index_char_append_hit [of "CHR '']''" "''['' @ host" "[]"] by simp
    moreover have "i < length host + 2"
      using Some by (auto simp: last_index_char_def dest: index_char_SomeD)
    ultimately show ?thesis using Some by (simp add: SplitHostPort_def has_prefix_def)
  qed
  moreover have "trim_right_by (\<lambda>c. c = CHR ''['' \<or> c = CHR '']'') (host @ '']'') = host"
    using trim_right_by_id [of host "\<lambda>c. c = CHR ''['' \<or> c = CHR '']''"] assms(1,2) h
    by (simp add: trim_right_by_def) (metis last_in_set)
  moreover have "dropWhile (\<lambda>c. c = CHR ''['' \<or> c = CHR '']'') (''['' @ host @ '']'') = host @ '']''"
    using assms(1,2) h by (cases host) auto
  ultimately show "splitHostPortDefault (''['' @ host @ '']'') def = Some (host, def)"
    by (simp add: splitHostPortDefault_def)
qed

text \<open>A connection that ended without an error is logged without one.\<close>

lemma copyErrMsg_Nil: "copyErrMsg a b = [] \<longleftrightarrow> cp_err a = None \<and> cp_err b = None"
  by (cases "cp_err a"; cases "cp_err b"; cases "cp_direction a"; cases "cp_direction b") (simp_all add: copyErrMsg_def)

end
