(* ===== verification/UdpFlows.thy ===== *)
theory UdpFlows
  imports Socks5 ConnStats
begin

text \<open>
  The flow table of the TPROXY UDP listener, \<^verbatim>\<open>internal/proxy/udp_tproxy.go\<close>. A channel is known
  by its index in \<open>uf_channels\<close>; \<open>uf_receivers\<close> are the goroutines that still receive, each
  with the key and the channel it was started with. What the source does under its lock, and what
  one goroutine does between two locks, is one event.
\<close>

section \<open>State\<close>

definition udpFlowIdleTimeout :: int where "udpFlowIdleTimeout = secs 120"

type_synonym flow_key = "string \<times> int \<times> string \<times> int"

record udp_flow =
  fl_ch :: nat
  fl_lastSeen :: int
  fl_connID :: u64
  fl_srcStr :: string
  fl_dstStr :: string

record flow_table =
  uf_flows :: "(flow_key \<times> udp_flow) list"
  uf_channels :: "udp_channel list"
  uf_receivers :: "(flow_key \<times> udp_flow) list"
  uf_mux :: mux_client
  uf_book :: "conn_book option"
  uf_replies :: "(bytes \<times> flow_key) list"

definition new_flows :: "mux_client \<Rightarrow> conn_book option \<Rightarrow> flow_table" where
  "new_flows client counters =
     \<lparr>uf_flows = [], uf_channels = [], uf_receivers = [], uf_mux = client, uf_book = counters, uf_replies = []\<rparr>"

section \<open>The original destination\<close>

text \<open>A control message: level, type, data.\<close>

fun parseOrigDstAddr :: "(int \<times> int \<times> bytes) list \<Rightarrow> (string \<times> int) option" where
  "parseOrigDstAddr [] = None"
| "parseOrigDstAddr ((level, typ, d) # msgs) =
     (if level = 0 \<and> typ = 20 then
        (if length d < 8 then parseOrigDstAddr msgs
         else Some (ip_string (ip_of_bytes (take 4 (drop 4 d))), int (unat (get_be16 (d ! 2) (d ! 3)))))
      else parseOrigDstAddr msgs)"

section \<open>Operations\<close>

definition close_channel :: "nat \<Rightarrow> flow_table \<Rightarrow> flow_table" where
  "close_channel i t =
     (case uc_Close (uf_channels t ! i) (uf_mux t) of
        (ch, c) \<Rightarrow> t\<lparr>uf_channels := (uf_channels t)[i := ch], uf_mux := c\<rparr>)"

definition flow_ConnClose :: "int \<Rightarrow> udp_flow \<Rightarrow> flow_table \<Rightarrow> flow_table" where
  "flow_ConnClose now f t =
     (if fl_connID f \<noteq> 0
      then t\<lparr>uf_book := map_option (ConnCloseErr (fl_connID f) (fl_srcStr f) (fl_dstStr f) [] now) (uf_book t)\<rparr>
      else t)"

definition flow_idle :: "int \<Rightarrow> udp_flow \<Rightarrow> bool" where
  "flow_idle now f \<longleftrightarrow> now - fl_lastSeen f > udpFlowIdleTimeout"

definition flow_cleanup :: "int \<Rightarrow> flow_table \<Rightarrow> flow_table" where
  "flow_cleanup now t =
     fold (\<lambda>(k, f) t.
             if flow_idle now f then
               let t = flow_ConnClose now f (close_channel (fl_ch f) t) in
               t\<lparr>uf_flows := AList.delete k (uf_flows t)\<rparr>
             else t) (uf_flows t) t"

definition flow_str :: "string \<Rightarrow> int \<Rightarrow> string" where
  "flow_str ip port = ip @ '':'' @ itoa port"

definition flow_send :: "int \<Rightarrow> string \<Rightarrow> int \<Rightarrow> bytes \<Rightarrow> nat \<Rightarrow> flow_table \<Rightarrow> flow_table" where
  "flow_send now dstIP dstPort data i t =
     (case SendTo now dstIP dstPort data (uf_channels t ! i) (uf_mux t) of
        (_, ch, c) \<Rightarrow> t\<lparr>uf_channels := (uf_channels t)[i := ch], uf_mux := c\<rparr>)"

text \<open>One datagram in the receive loop.\<close>

definition flow_datagram :: "(error + mux_stream) \<Rightarrow> int \<Rightarrow> flow_key \<Rightarrow> bytes \<Rightarrow> flow_table \<Rightarrow> flow_table" where
  "flow_datagram opened now key data t =
     (case key of (srcIP, srcPort, dstIP, dstPort) \<Rightarrow>
        (case map_of (uf_flows t) key of
           Some f \<Rightarrow>
             flow_send now dstIP dstPort data (fl_ch f)
               (t\<lparr>uf_flows := AList.update key (f\<lparr>fl_lastSeen := now\<rparr>) (uf_flows t)\<rparr>)
         | None \<Rightarrow>
             let family = (case ParseIP dstIP of Some ip \<Rightarrow> if To4 ip = None then 10 else 2 | None \<Rightarrow> 2) in
             (case OpenUDP opened family (uf_mux t) of
                (Inl err, c) \<Rightarrow> t\<lparr>uf_mux := c\<rparr>
              | (Inr ch, c) \<Rightarrow>
                  let srcStr = flow_str srcIP srcPort; dstStr = flow_str dstIP dstPort;
                      (connID, book) =
                        (case uf_book t of
                           None \<Rightarrow> (0, None)
                         | Some b \<Rightarrow> (case ConnOpen srcStr dstStr [] 0 now b of (cid, b) \<Rightarrow> (cid, Some b)));
                      i = length (uf_channels t);
                      f = \<lparr>fl_ch = i, fl_lastSeen = now, fl_connID = connID, fl_srcStr = srcStr, fl_dstStr = dstStr\<rparr>
                  in flow_send now dstIP dstPort data i
                       (t\<lparr>uf_channels := uf_channels t @ [ch], uf_mux := c, uf_book := book,
                          uf_flows := AList.update key f (uf_flows t),
                          uf_receivers := uf_receivers t @ [(key, f)]\<rparr>))))"

text \<open>The deferred calls of \<open>udpFlowReceiver\<close>, for receiver \<open>r\<close>.\<close>

definition receiver_exit :: "int \<Rightarrow> nat \<Rightarrow> flow_table \<Rightarrow> flow_table" where
  "receiver_exit now r t =
     (case uf_receivers t ! r of
        (key, f) \<Rightarrow>
          let t = flow_ConnClose now f (close_channel (fl_ch f) t) in
          t\<lparr>uf_flows := AList.delete key (uf_flows t),
            uf_receivers := take r (uf_receivers t) @ drop (Suc r) (uf_receivers t)\<rparr>)"

text \<open>One turn of a receiver; \<open>replySocket\<close> tells whether the reply socket can be opened.\<close>

definition receiver_turn :: "bool \<Rightarrow> int \<Rightarrow> nat \<Rightarrow> flow_table \<Rightarrow> flow_table" where
  "receiver_turn replySocket now r t =
     (case uf_receivers t ! r of
        (key, f) \<Rightarrow>
          (case Recv now (uf_channels t ! fl_ch f) (uf_mux t) of
             (res, ch, c) \<Rightarrow>
               let t = t\<lparr>uf_channels := (uf_channels t)[fl_ch f := ch], uf_mux := c\<rparr> in
               (case res of
                  Inl err \<Rightarrow> receiver_exit now r t
                | Inr dg \<Rightarrow>
                    if \<not> replySocket then receiver_exit now r t
                    else
                      (case key of (srcIP, srcPort, dstIP, dstPort) \<Rightarrow>
                         if Option.bind (ParseIP dstIP) To4 = None \<or> Option.bind (ParseIP srcIP) To4 = None then t
                         else t\<lparr>uf_replies := uf_replies t @ [(dg_Data dg, key)]\<rparr>))))"

section \<open>Events\<close>

datatype flow_event =
    FlowDatagram "error + mux_stream" int flow_key bytes
  | FlowTick int
  | FlowReceive bool int nat

fun flow_step :: "flow_table \<Rightarrow> flow_event \<Rightarrow> flow_table" where
  "flow_step t (FlowDatagram opened now key data) = flow_datagram opened now key data t"
| "flow_step t (FlowTick now) = flow_cleanup now t"
| "flow_step t (FlowReceive sock now r) =
     (if r < length (uf_receivers t) then receiver_turn sock now r t else t)"

section \<open>Which channels the table holds\<close>

definition flow_chs :: "(flow_key \<times> udp_flow) list \<Rightarrow> nat list" where
  "flow_chs fs = map (\<lambda>e. fl_ch (snd e)) fs"

definition flows_ok :: "flow_table \<Rightarrow> bool" where
  "flows_ok t \<longleftrightarrow>
     distinct (flow_chs (uf_flows t)) \<and> set (flow_chs (uf_flows t)) \<subseteq> {..<length (uf_channels t)}"

lemma chs_update_same:
  "map_of fs key = Some f \<Longrightarrow> fl_ch f' = fl_ch f \<Longrightarrow> flow_chs (AList.update key f' fs) = flow_chs fs"
  by (induction fs) (auto simp: flow_chs_def split: if_splits)

lemma chs_update_new:
  "map_of fs key = None \<Longrightarrow> flow_chs (AList.update key f fs) = flow_chs fs @ [fl_ch f]"
  by (induction fs) (auto simp: flow_chs_def split: if_splits)

lemma chs_delete_subset: "set (flow_chs (AList.delete key fs)) \<subseteq> set (flow_chs fs)"
  by (induction fs) (auto simp: flow_chs_def)

lemma chs_delete_distinct: "distinct (flow_chs fs) \<Longrightarrow> distinct (flow_chs (AList.delete key fs))"
  unfolding flow_chs_def AList.delete_eq by (rule distinct_map_filter)

lemma close_channel_fields [simp]:
  "uf_flows (close_channel i t) = uf_flows t" "uf_receivers (close_channel i t) = uf_receivers t"
  "length (uf_channels (close_channel i t)) = length (uf_channels t)"
  by (simp_all add: close_channel_def split: prod.split)

lemma close_channel_other: "j \<noteq> i \<Longrightarrow> uf_channels (close_channel i t) ! j = uf_channels t ! j"
  by (simp add: close_channel_def split: prod.split)

lemma flow_ConnClose_fields [simp]:
  "uf_flows (flow_ConnClose now f t) = uf_flows t" "uf_receivers (flow_ConnClose now f t) = uf_receivers t"
  "uf_channels (flow_ConnClose now f t) = uf_channels t"
  by (simp_all add: flow_ConnClose_def)

lemma flow_send_fields [simp]:
  "uf_flows (flow_send now ip port data i t) = uf_flows t" "uf_receivers (flow_send now ip port data i t) = uf_receivers t"
  "length (uf_channels (flow_send now ip port data i t)) = length (uf_channels t)"
  by (simp_all add: flow_send_def split: prod.split)

lemma flow_send_closed:
  "j < length (uf_channels t) \<Longrightarrow> uc_closed (uf_channels (flow_send now ip port data i t) ! j) = uc_closed (uf_channels t ! j)"
  by (cases "i = j") (auto simp: flow_send_def SendTo_def nth_list_update split: prod.splits option.splits)

text \<open>The two ways a datagram goes.\<close>

lemma flow_datagram_cases:
  obtains (known) f where "map_of (uf_flows t) key = Some f"
      "uf_flows (flow_datagram opened now key data t) = AList.update key (f\<lparr>fl_lastSeen := now\<rparr>) (uf_flows t)"
      "length (uf_channels (flow_datagram opened now key data t)) = length (uf_channels t)"
      "\<forall>j<length (uf_channels t). uc_closed (uf_channels (flow_datagram opened now key data t) ! j) = uc_closed (uf_channels t ! j)"
    | (failed) "uf_flows (flow_datagram opened now key data t) = uf_flows t"
      "uf_channels (flow_datagram opened now key data t) = uf_channels t"
    | (opened) f where "map_of (uf_flows t) key = None" "fl_ch f = length (uf_channels t)"
      "uf_flows (flow_datagram opened now key data t) = AList.update key f (uf_flows t)"
      "length (uf_channels (flow_datagram opened now key data t)) = Suc (length (uf_channels t))"
      "\<forall>j<length (uf_channels t). uc_closed (uf_channels (flow_datagram opened now key data t) ! j) = uc_closed (uf_channels t ! j)"
proof (cases key)
  case (fields srcIP srcPort dstIP dstPort)
  show thesis
  proof (cases "map_of (uf_flows t) key")
    case (Some f)
    then show thesis using fields by (intro known) (simp_all add: flow_datagram_def flow_send_closed)
  next
    case None
    let ?fam = "case ParseIP dstIP of Some ip \<Rightarrow> if To4 ip = None then 10 else 2 | None \<Rightarrow> 2"
    obtain r c where o: "OpenUDP opened ?fam (uf_mux t) = (r, c)" by fastforce
    show thesis
    proof (cases r)
      case (Inl e)
      then show thesis using None fields o by (intro failed) (simp_all add: flow_datagram_def Let_def)
    next
      case (Inr ch)
      obtain cid b where cb: "(case uf_book t of
                           None \<Rightarrow> (0, None)
                         | Some b \<Rightarrow> (case ConnOpen (flow_str srcIP srcPort) (flow_str dstIP dstPort) [] 0 now b of (cid, b) \<Rightarrow> (cid, Some b))) = (cid, b)"
        by fastforce
      show thesis
        by (rule opened [of "\<lparr>fl_ch = length (uf_channels t), fl_lastSeen = now, fl_connID = cid,
              fl_srcStr = flow_str srcIP srcPort, fl_dstStr = flow_str dstIP dstPort\<rparr>"])
          (use None fields o Inr cb in \<open>simp_all add: flow_datagram_def Let_def flow_send_closed nth_append\<close>)
    qed
  qed
qed

text \<open>One entry in the loop of the cleanup.\<close>

definition cleanup_entry :: "int \<Rightarrow> flow_key \<times> udp_flow \<Rightarrow> flow_table \<Rightarrow> flow_table" where
  "cleanup_entry now e t =
     (if flow_idle now (snd e) then
        let t = flow_ConnClose now (snd e) (close_channel (fl_ch (snd e)) t) in
        t\<lparr>uf_flows := AList.delete (fst e) (uf_flows t)\<rparr>
      else t)"

lemma flow_cleanup_entries: "flow_cleanup now t = fold (cleanup_entry now) (uf_flows t) t"
  unfolding flow_cleanup_def by (intro arg_cong2 [where f = "\<lambda>g xs. fold g xs t"] ext) (auto simp: cleanup_entry_def)

lemma cleanup_entries:
  "flows_ok t \<Longrightarrow> flows_ok (fold (cleanup_entry now) es t)"
  "length (uf_channels (fold (cleanup_entry now) es t)) = length (uf_channels t)"
  "set (flow_chs (uf_flows (fold (cleanup_entry now) es t))) \<subseteq> set (flow_chs (uf_flows t))"
  "j \<notin> set (flow_chs es) \<Longrightarrow> uf_channels (fold (cleanup_entry now) es t) ! j = uf_channels t ! j"
proof (induction es arbitrary: t)
  case (Cons e es)
  have one: "flows_ok t \<Longrightarrow> flows_ok (cleanup_entry now e t)"
    "length (uf_channels (cleanup_entry now e t)) = length (uf_channels t)"
    "set (flow_chs (uf_flows (cleanup_entry now e t))) \<subseteq> set (flow_chs (uf_flows t))"
    "j \<noteq> fl_ch (snd e) \<Longrightarrow> uf_channels (cleanup_entry now e t) ! j = uf_channels t ! j" for t
    using chs_delete_subset [of "fst e" "uf_flows t"]
    by (auto simp: cleanup_entry_def Let_def flows_ok_def chs_delete_distinct close_channel_other)
  {
    case 1
    show ?case using Cons.IH(1) [OF one(1) [OF 1]] by simp
  next
    case 2
    then show ?case using Cons.IH(2) one(2) by simp
  next
    case 3
    then show ?case using Cons.IH(3) one(3) by (simp, rule subset_trans)
  next
    case 4
    then show ?case using Cons.IH(4) one(4) by (simp add: flow_chs_def)
  }
qed simp_all

lemma receiver_turn_flows:
  assumes "uf_receivers t ! r = (key, f)"
  shows "uf_flows (receiver_turn sock now r t) = uf_flows t \<or>
      uf_flows (receiver_turn sock now r t) = AList.delete key (uf_flows t)"
    and "length (uf_channels (receiver_turn sock now r t)) = length (uf_channels t)"
  using assms
  by (auto simp: receiver_turn_def receiver_exit_def Let_def split: prod.splits sum.splits)

lemma flows_ok_step: "flows_ok t \<Longrightarrow> flows_ok (flow_step t e)"
proof (cases e)
  case (FlowDatagram opened now key data)
  assume t: "flows_ok t"
  show ?thesis
  proof (cases rule: flow_datagram_cases [of t key opened now data])
    case (known f)
    then show ?thesis using t chs_update_same [OF known(1), of "f\<lparr>fl_lastSeen := now\<rparr>"] by (simp add: FlowDatagram flows_ok_def)
  next
    case failed
    then show ?thesis using t by (simp add: FlowDatagram flows_ok_def)
  next
    case (opened f)
    then show ?thesis using t chs_update_new [OF opened(1), of f] by (auto simp: FlowDatagram flows_ok_def)
  qed
next
  case (FlowTick now)
  assume "flows_ok t"
  then show ?thesis by (simp add: FlowTick flow_cleanup_entries cleanup_entries(1))
next
  case (FlowReceive sock now r)
  assume t: "flows_ok t"
  obtain key f where r: "uf_receivers t ! r = (key, f)" by fastforce
  have "flows_ok (receiver_turn sock now r t)"
    using receiver_turn_flows(1) [OF r, of sock now]
  proof
    assume "uf_flows (receiver_turn sock now r t) = uf_flows t"
    then show ?thesis using t by (simp add: flows_ok_def receiver_turn_flows(2) [OF r])
  next
    assume "uf_flows (receiver_turn sock now r t) = AList.delete key (uf_flows t)"
    then show ?thesis
      using t chs_delete_subset [of key "uf_flows t"] chs_delete_distinct [of "uf_flows t" key]
      by (simp add: flows_ok_def receiver_turn_flows(2) [OF r] subset_trans)
  qed
  then show ?thesis using t by (simp add: FlowReceive)
qed

interpretation udp_flows: invariant_step flow_step flows_ok "\<lambda>e. True"
  by unfold_locales (rule flows_ok_step)

text \<open>A channel that is open but in no flow of the table.\<close>

definition orphan :: "nat \<Rightarrow> flow_table \<Rightarrow> bool" where
  "orphan j t \<longleftrightarrow> j < length (uf_channels t) \<and> \<not> uc_closed (uf_channels t ! j) \<and> j \<notin> set (flow_chs (uf_flows t))"

fun no_receive :: "flow_event \<Rightarrow> bool" where
  "no_receive (FlowReceive sock now r) = False"
| "no_receive e = True"

interpretation orphaned: invariant_step flow_step "orphan j" no_receive for j
proof
  fix t e
  assume t: "orphan j t" and e: "no_receive e"
  show "orphan j (flow_step t e)"
  proof (cases e)
    case (FlowDatagram opened now key data)
    show ?thesis
    proof (cases rule: flow_datagram_cases [of t key opened now data])
      case (known f)
      then show ?thesis using t chs_update_same [OF known(1), of "f\<lparr>fl_lastSeen := now\<rparr>"] by (simp add: FlowDatagram orphan_def)
    next
      case failed
      then show ?thesis using t by (simp add: FlowDatagram orphan_def)
    next
      case (opened f)
      then show ?thesis using t chs_update_new [OF opened(1), of f] by (simp add: FlowDatagram orphan_def)
    qed
  next
    case (FlowTick now)
    then show ?thesis
      using t cleanup_entries(2,3) [of now "uf_flows t" t] cleanup_entries(4) [of j "uf_flows t" now t]
      by (auto simp: flow_cleanup_entries orphan_def)
  qed (use e in simp)
qed

text \<open>
  The end of an old flow orphans the new one. When the receiver of a channel ends after its
  flow was cleaned up and another datagram has started a new flow with the same key, it removes
  the new flow from the table: the new channel stays open, no later datagram and no cleanup closes
  it, however long it is idle, and the next datagram of the flow finds no entry.
\<close>

lemma flow_orphaned:
  assumes "t = foldl flow_step (new_flows client counters) es0"
    and "r < length (uf_receivers t)" "uf_receivers t ! r = (key, old)"
    and "map_of (uf_flows t) key = Some new" "fl_ch new \<noteq> fl_ch old" "\<not> uc_closed (uf_channels t ! fl_ch new)"
    and "fst (Recv now (uf_channels t ! fl_ch old) (uf_mux t)) = Inl err"
  shows "map_of (uf_flows (flow_step t (FlowReceive sock now r))) key = None \<and>
    (\<forall>es. list_all no_receive es \<longrightarrow>
       \<not> uc_closed (uf_channels (foldl flow_step (flow_step t (FlowReceive sock now r)) es) ! fl_ch new))"
proof -
  have "flows_ok (new_flows client counters)" by (simp add: flows_ok_def new_flows_def flow_chs_def)
  then have ok: "flows_ok t" unfolding assms(1) by (rule udp_flows.run_inv) (simp add: list_all_iff)
  let ?t = "flow_step t (FlowReceive sock now r)"
  have m: "(key, new) \<in> set (uf_flows t)" using assms(4) by (rule map_of_SomeD)
  then have lt: "fl_ch new < length (uf_channels t)" using ok by (force simp: flows_ok_def flow_chs_def)
  have other: "\<forall>e\<in>set (uf_flows t). fl_ch (snd e) = fl_ch new \<longrightarrow> e = (key, new)"
  proof (intro ballI impI)
    fix e assume e: "e \<in> set (uf_flows t)" "fl_ch (snd e) = fl_ch new"
    have "inj_on (\<lambda>e. fl_ch (snd e)) (set (uf_flows t))" using ok by (simp add: flows_ok_def flow_chs_def distinct_map)
    from inj_onD [OF this _ e(1) m] e(2) show "e = (key, new)" by simp
  qed
  have turn: "uf_flows ?t = AList.delete key (uf_flows t) \<and> length (uf_channels ?t) = length (uf_channels t) \<and>
      uf_channels ?t ! fl_ch new = uf_channels t ! fl_ch new"
    using assms(2,3,5,7)
    by (auto simp: receiver_turn_def receiver_exit_def Let_def close_channel_other split: prod.splits sum.splits)
  have "fl_ch new \<notin> set (flow_chs (AList.delete key (uf_flows t)))"
    using other by (auto simp: flow_chs_def AList.delete_eq)
  then have "orphan (fl_ch new) ?t" using turn lt assms(6) by (simp add: orphan_def)
  then have "orphan (fl_ch new) (foldl flow_step ?t es)" if "list_all no_receive es" for es
    using that by (rule orphaned.run_inv)
  moreover have "map_of (uf_flows ?t) key = None" using turn by (simp add: AList.delete_conv')
  ultimately show ?thesis by (simp add: orphan_def)
qed

text \<open>Two datagrams of one flow, with a cleanup of the idle first channel between them.\<close>

definition ex_key :: flow_key where
  "ex_key = (''10.0.0.2'', 4000, ''9.9.9.9'', 53)"

definition ex_flows :: flow_table where
  "ex_flows = foldl flow_step (new_flows ex_client None)
     [FlowDatagram (Inr ([0, 0], open_sink [])) 0 ex_key [1], FlowTick (secs 150),
      FlowDatagram (Inr ([], open_sink [])) (secs 151) ex_key [2]]"

lemma update_map_same: "g x = g (xs ! i) \<Longrightarrow> map g (xs[i := x]) = map g xs"
proof (induction xs arbitrary: i)
  case (Cons y xs)
  then show ?case by (cases i) auto
qed simp

lemma SendTo_keeps:
  "SendTo now ip port data ch c = (e, ch', c') \<Longrightarrow> uc_closed ch' = uc_closed ch \<and> uc_in ch' = uc_in ch \<and> mc_done c' = mc_done c"
  by (auto simp: SendTo_def on_counters_def split: prod.splits option.splits)

lemma flow_send_keeps:
  "map uc_closed (uf_channels (flow_send now ip port data i t)) = map uc_closed (uf_channels t)"
  "map uc_in (uf_channels (flow_send now ip port data i t)) = map uc_in (uf_channels t)"
  "mc_done (uf_mux (flow_send now ip port data i t)) = mc_done (uf_mux t)"
  "uf_book (flow_send now ip port data i t) = uf_book t"
proof -
  obtain e ch c where s: "SendTo now ip port data (uf_channels t ! i) (uf_mux t) = (e, ch, c)" by (rule prod_cases3)
  from SendTo_keeps [OF s] show
    "map uc_closed (uf_channels (flow_send now ip port data i t)) = map uc_closed (uf_channels t)"
    "map uc_in (uf_channels (flow_send now ip port data i t)) = map uc_in (uf_channels t)"
    "mc_done (uf_mux (flow_send now ip port data i t)) = mc_done (uf_mux t)"
    "uf_book (flow_send now ip port data i t) = uf_book t"
    by (simp_all add: flow_send_def s update_map_same)
qed

definition ex_flow :: "nat \<Rightarrow> int \<Rightarrow> udp_flow" where
  "ex_flow i now = \<lparr>fl_ch = i, fl_lastSeen = now, fl_connID = 0, fl_srcStr = flow_str ''10.0.0.2'' 4000,
     fl_dstStr = flow_str ''9.9.9.9'' 53\<rparr>"

lemma flow_opens:
  assumes "\<not> mc_done (uf_mux t)" "uf_book t = None" "map_of (uf_flows t) ex_key = None"
    and "t' = flow_datagram (Inr (inp, open_sink [])) now ex_key data t"
  shows "uf_receivers t' = uf_receivers t @ [(ex_key, ex_flow (length (uf_channels t)) now)]"
    "uf_flows t' = AList.update ex_key (ex_flow (length (uf_channels t)) now) (uf_flows t)"
    "map uc_closed (uf_channels t') = map uc_closed (uf_channels t) @ [False]"
    "map uc_in (uf_channels t') = map uc_in (uf_channels t) @ [inp]"
    "\<not> mc_done (uf_mux t')" "uf_book t' = None"
  using assms
  by (simp_all add: flow_datagram_def ex_key_def OpenUDP_def Let_def flow_send_keeps ex_flow_def on_counters_def)

lemma ex_flows_facts:
  "uf_receivers ex_flows = [(ex_key, ex_flow 0 0), (ex_key, ex_flow 1 (secs 151))]"
  "uf_flows ex_flows = [(ex_key, ex_flow 1 (secs 151))]"
  "map uc_closed (uf_channels ex_flows) = [True, False]"
  "map uc_in (uf_channels ex_flows) = [[0, 0], []]"
proof -
  define t0 where "t0 = new_flows ex_client None"
  define t1 where "t1 = flow_datagram (Inr ([0, 0], open_sink [])) 0 ex_key [1] t0"
  define t2 where "t2 = flow_cleanup (secs 150) t1"
  have "\<not> mc_done (uf_mux t0)" "uf_book t0 = None" "map_of (uf_flows t0) ex_key = None"
    by (simp_all add: t0_def new_flows_def ex_client_def)
  note t1 = flow_opens [OF this t1_def]
  have t1': "uf_flows t1 = [(ex_key, ex_flow 0 0)]" "uf_receivers t1 = [(ex_key, ex_flow 0 0)]"
    "map uc_closed (uf_channels t1) = [False]" "map uc_in (uf_channels t1) = [[0, 0]]"
    using t1 by (simp_all add: t0_def new_flows_def)
  then obtain ch where ch: "uf_channels t1 = [ch]" "\<not> uc_closed ch" "uc_in ch = [0, 0]" by auto
  have idle: "flow_idle (secs 150) (ex_flow 0 0)" by (simp add: flow_idle_def udpFlowIdleTimeout_def secs_def ex_flow_def)
  have t2: "uf_flows t2 = []" "uf_receivers t2 = [(ex_key, ex_flow 0 0)]" "map uc_closed (uf_channels t2) = [True]"
    "map uc_in (uf_channels t2) = [[0, 0]]" "\<not> mc_done (uf_mux t2)" "uf_book t2 = None"
    using t1(5,6) idle ch
    by (simp_all add: t2_def flow_cleanup_entries t1' cleanup_entry_def Let_def flow_ConnClose_def close_channel_def uc_Close_def
        on_counters_def) (simp_all add: ex_flow_def)
  then have l: "length (uf_channels t2) = 1" by (metis length_map length_Cons list.size(3) One_nat_def)
  have m: "map_of (uf_flows t2) ex_key = None" by (simp add: t2)
  have e: "ex_flows = flow_datagram (Inr ([], open_sink [])) (secs 151) ex_key [2] t2"
    by (simp add: ex_flows_def t2_def t1_def t0_def)
  note t3 = flow_opens [OF t2(5,6) m e]
  show "uf_receivers ex_flows = [(ex_key, ex_flow 0 0), (ex_key, ex_flow 1 (secs 151))]"
    "uf_flows ex_flows = [(ex_key, ex_flow 1 (secs 151))]"
    "map uc_closed (uf_channels ex_flows) = [True, False]" "map uc_in (uf_channels ex_flows) = [[0, 0], []]"
    using t3 by (simp_all add: t2 l)
qed

end
