(* ===== verification/FwRules.thy ===== *)
theory FwRules
  imports IpText
begin

text \<open>
  The rules the client loads into the packet filter of the system, \<^verbatim>\<open>internal/firewall\<close>:
  the subnets to capture (\<^verbatim>\<open>firewall.go\<close>), the nftables and iptables rules (\<^verbatim>\<open>nft.go\<close>), the
  TPROXY rules (\<^verbatim>\<open>tproxy.go\<close>) and the pf rules of macOS (\<^verbatim>\<open>pf.go\<close>). Rules are values of a
  datatype, together with the exact text or argument list the source makes of them.
\<close>

section \<open>Subnets\<close>

record subnet_rule =
  sn_CIDR :: string
  sn_PortLow :: int
  sn_PortHigh :: int

definition IsIPv6CIDR :: "string \<Rightarrow> bool" where
  "IsIPv6CIDR cidr =
     (let ip = (case ParseCIDR cidr of Some (ip, _) \<Rightarrow> Some ip | None \<Rightarrow> ParseIP cidr) in
      case ip of None \<Rightarrow> False | Some ip \<Rightarrow> To4 ip = None)"

definition sn_IsIPv6 :: "subnet_rule \<Rightarrow> bool" where
  "sn_IsIPv6 s = IsIPv6CIDR (sn_CIDR s)"

definition HasPortRange :: "subnet_rule \<Rightarrow> bool" where
  "HasPortRange s \<longleftrightarrow> sn_PortLow s > 0 \<and> sn_PortHigh s > 0"

text \<open>The address and the port part of a subnet argument.\<close>

definition split_subnet :: "string \<Rightarrow> string \<times> string" where
  "split_subnet s =
     (case last_index_char (CHR ''#'') s of
        Some idx \<Rightarrow> (take idx s, drop (idx + 1) s)
      | None \<Rightarrow>
          (case index_char (CHR ''/'') s of
             None \<Rightarrow> (s, [])
           | Some slashIdx \<Rightarrow>
               let rest = drop slashIdx s in
               (case last_index_char (CHR '':'') rest of
                  None \<Rightarrow> (s, [])
                | Some colonIdx \<Rightarrow>
                    let candidate = drop (colonIdx + 1) rest in
                    if atoi candidate \<noteq> None then (take (slashIdx + colonIdx) s, candidate)
                    else if CHR ''-'' \<in> set candidate then (take (slashIdx + colonIdx) s, candidate)
                    else (s, []))))"

definition parse_ports :: "string \<Rightarrow> (int \<times> int) option" where
  "parse_ports portPart =
     (if portPart = [] then Some (0, 0)
      else if CHR ''-'' \<in> set portPart then
        let parts = split_n (CHR ''-'') 2 portPart in
        (case atoi (parts ! 0) of
           None \<Rightarrow> None
         | Some lo \<Rightarrow> (case atoi (parts ! 1) of None \<Rightarrow> None | Some hi \<Rightarrow> Some (lo, hi)))
      else (case atoi portPart of None \<Rightarrow> None | Some p \<Rightarrow> Some (p, p)))"

definition ParseSubnetRule :: "string \<Rightarrow> subnet_rule option" where
  "ParseSubnetRule s =
     (case split_subnet s of
        (cidr, portPart) \<Rightarrow>
          if ParseCIDR cidr = None then None
          else
            (case parse_ports portPart of
               None \<Rightarrow> None
             | Some (lo, hi) \<Rightarrow> Some \<lparr>sn_CIDR = cidr, sn_PortLow = lo, sn_PortHigh = hi\<rparr>))"

fun ParseSubnetRules :: "string list \<Rightarrow> subnet_rule list option" where
  "ParseSubnetRules [] = Some []"
| "ParseSubnetRules (s # ss) =
     (case ParseSubnetRule s of
        None \<Rightarrow> None
      | Some r \<Rightarrow> map_option (\<lambda>rs. r # rs) (ParseSubnetRules ss))"

definition SplitByFamily :: "subnet_rule list \<Rightarrow> subnet_rule list \<times> subnet_rule list" where
  "SplitByFamily rules = (filter (\<lambda>r. \<not> sn_IsIPv6 r) rules, filter sn_IsIPv6 rules)"

definition SplitExcludesByFamily :: "string list \<Rightarrow> string list \<times> string list" where
  "SplitExcludesByFamily excludes = (filter (\<lambda>e. \<not> IsIPv6CIDR e) excludes, filter IsIPv6CIDR excludes)"

definition SplitDNSByFamily :: "string list \<Rightarrow> string list \<times> string list" where
  "SplitDNSByFamily servers =
     (filter (\<lambda>s. case ParseIP s of None \<Rightarrow> False | Some ip \<Rightarrow> To4 ip \<noteq> None) servers,
      filter (\<lambda>s. case ParseIP s of None \<Rightarrow> False | Some ip \<Rightarrow> To4 ip = None) servers)"

section \<open>Features\<close>

datatype feature = FeatureIPv6 | FeatureUDP | FeatureDNS | FeaturePortRange | FeatureBlockUDP

datatype fw_method = MNft | MIpt | MTproxy | MPf

fun SupportedFeatures :: "fw_method \<Rightarrow> feature list" where
  "SupportedFeatures MNft = [FeatureDNS, FeaturePortRange, FeatureIPv6]"
| "SupportedFeatures MIpt = [FeatureDNS, FeaturePortRange, FeatureIPv6]"
| "SupportedFeatures MTproxy = [FeatureDNS, FeatureUDP, FeaturePortRange, FeatureIPv6]"
| "SupportedFeatures MPf = [FeatureDNS, FeaturePortRange, FeatureIPv6, FeatureBlockUDP]"

definition Supports :: "fw_method \<Rightarrow> feature list \<Rightarrow> bool" where
  "Supports m features = list_all (\<lambda>f. f \<in> set (SupportedFeatures m)) features"

definition newNamed_linux :: "string \<Rightarrow> fw_method option" where
  "newNamed_linux name =
     (if name = ''nft'' \<or> name = ''auto'' then Some MNft
      else if name = ''nat'' \<or> name = ''ipt'' then Some MIpt
      else if name = ''tproxy'' then Some MTproxy
      else None)"

section \<open>Rules of nftables and iptables\<close>

datatype ip_family = Fam4 | Fam6

datatype fw_match =
    DAddr ip_family string
  | DAddrSet ip_family
  | TcpPort int
  | TcpPorts int int
  | TcpNotPort int
  | UdpDns
  | FibLocal
  | MarkBypass
  | ProtoV6

datatype fw_action =
    Return
  | Redirect int
  | TProxyTo ip_family int string
  | SetMark string
  | Reject

type_synonym fw_rule = "fw_match list \<times> fw_action"

definition Bypass :: int where "Bypass = 0x4e46"

definition hex0x :: "int \<Rightarrow> string" where
  "hex0x n = ''0x'' @ (if n < 0 then CHR ''-'' # hex_text (nat (- n)) else hex_text (nat n))"

definition bypassMarkStr :: string where
  "bypassMarkStr = hex0x Bypass"

definition NftPortExpr :: "subnet_rule \<Rightarrow> fw_match option" where
  "NftPortExpr s =
     (if \<not> HasPortRange s then None
      else if sn_PortLow s = sn_PortHigh s then Some (TcpPort (sn_PortLow s))
      else Some (TcpPorts (sn_PortLow s) (sn_PortHigh s)))"

fun fam_kw :: "ip_family \<Rightarrow> string" where
  "fam_kw Fam4 = ''ip''" | "fam_kw Fam6 = ''ip6''"

fun nft_match_text :: "fw_match \<Rightarrow> string" where
  "nft_match_text (DAddr f c) = fam_kw f @ '' daddr '' @ c"
| "nft_match_text (DAddrSet Fam4) = ''ip daddr @dns_servers''"
| "nft_match_text (DAddrSet Fam6) = ''ip6 daddr @dns6_servers''"
| "nft_match_text (TcpPort p) = ''tcp dport '' @ itoa p"
| "nft_match_text (TcpPorts a b) = ''tcp dport '' @ itoa a @ ''-'' @ itoa b"
| "nft_match_text (TcpNotPort p) = ''tcp dport != '' @ itoa p"
| "nft_match_text UdpDns = ''udp dport 53''"
| "nft_match_text FibLocal = ''fib daddr type local''"
| "nft_match_text MarkBypass = ''meta mark '' @ bypassMarkStr"
| "nft_match_text ProtoV6 = ''meta nfproto ipv6''"

fun nft_action_text :: "fw_action \<Rightarrow> string" where
  "nft_action_text Return = ''return''"
| "nft_action_text (Redirect p) = ''redirect to :'' @ itoa p"
| "nft_action_text (TProxyTo Fam4 p m) = ''tproxy ip to 127.0.0.1:'' @ itoa p @ '' meta mark set '' @ m @ '' accept''"
| "nft_action_text (TProxyTo Fam6 p m) = ''tproxy ip6 to [::1]:'' @ itoa p @ '' meta mark set '' @ m @ '' accept''"
| "nft_action_text (SetMark m) = ''meta mark set '' @ m"
| "nft_action_text Reject = ''reject with icmpv6 type addr-unreachable''"

definition nft_rule_text :: "fw_rule \<Rightarrow> string" where
  "nft_rule_text r =
     ''    '' @ join_with '' '' (map nft_match_text (fst r) @ [nft_action_text (snd r)]) @ [CHR 0x0A]"

text \<open>The arguments of \<^verbatim>\<open>Setup\<close>.\<close>

record setup_args =
  sa_subnets :: "subnet_rule list"
  sa_excludes :: "string list"
  sa_proxyPort :: int
  sa_dnsPort :: int
  sa_dnsServers :: "string list"

definition v4Subnets :: "setup_args \<Rightarrow> subnet_rule list" where "v4Subnets a = fst (SplitByFamily (sa_subnets a))"
definition v6Subnets :: "setup_args \<Rightarrow> subnet_rule list" where "v6Subnets a = snd (SplitByFamily (sa_subnets a))"
definition v4Excludes :: "setup_args \<Rightarrow> string list" where "v4Excludes a = fst (SplitExcludesByFamily (sa_excludes a))"
definition v6Excludes :: "setup_args \<Rightarrow> string list" where "v6Excludes a = snd (SplitExcludesByFamily (sa_excludes a))"
definition v4DNS :: "setup_args \<Rightarrow> string list" where "v4DNS a = fst (SplitDNSByFamily (sa_dnsServers a))"
definition v6DNS :: "setup_args \<Rightarrow> string list" where "v6DNS a = snd (SplitDNSByFamily (sa_dnsServers a))"

definition exclude_rules :: "setup_args \<Rightarrow> fw_rule list" where
  "exclude_rules a =
     map (\<lambda>e. ([DAddr Fam4 e], Return)) (v4Excludes a) @ map (\<lambda>e. ([DAddr Fam6 e], Return)) (v6Excludes a)"

definition subnet_matches :: "ip_family \<Rightarrow> int \<Rightarrow> subnet_rule \<Rightarrow> fw_match list" where
  "subnet_matches f proxyPort s =
     [DAddr f (sn_CIDR s), case NftPortExpr s of Some e \<Rightarrow> e | None \<Rightarrow> TcpNotPort proxyPort]"

definition subnet_rules :: "(ip_family \<Rightarrow> fw_action) \<Rightarrow> setup_args \<Rightarrow> fw_rule list" where
  "subnet_rules act a =
     map (\<lambda>s. (subnet_matches Fam4 (sa_proxyPort a) s, act Fam4)) (v4Subnets a) @
     map (\<lambda>s. (subnet_matches Fam6 (sa_proxyPort a) s, act Fam6)) (v6Subnets a)"

definition dns_rules :: "(ip_family \<Rightarrow> fw_action) \<Rightarrow> setup_args \<Rightarrow> fw_rule list" where
  "dns_rules act a =
     (if sa_dnsPort a > 0 \<and> v4DNS a \<noteq> [] then [([DAddrSet Fam4, UdpDns], act Fam4)] else []) @
     (if sa_dnsPort a > 0 \<and> v6DNS a \<noteq> [] then [([DAddrSet Fam6, UdpDns], act Fam6)] else [])"

definition local_rules :: "fw_rule list" where
  "local_rules = [([FibLocal], Return), ([MarkBypass], Return)]"

definition block_ipv6_rules :: "fw_rule list" where
  "block_ipv6_rules =
     [([DAddr Fam6 ''::1/128''], Return), ([DAddr Fam6 ''fe80::/10''], Return), ([DAddr Fam6 ''ff00::/8''], Return),
      ([ProtoV6], Reject)]"

section \<open>The nftables method\<close>

definition nft_prerouting :: "setup_args \<Rightarrow> fw_rule list" where
  "nft_prerouting a =
     exclude_rules a @ subnet_rules (\<lambda>_. Redirect (sa_proxyPort a)) a @ dns_rules (\<lambda>_. Redirect (sa_dnsPort a)) a"

definition nft_output :: "setup_args \<Rightarrow> fw_rule list" where
  "nft_output a = local_rules @ nft_prerouting a"

definition nl :: string where "nl = [CHR 0x0A]"

definition joinQuoted :: "string list \<Rightarrow> string" where
  "joinQuoted ss = join_with '', '' ss"

definition dns_set_text :: "string \<Rightarrow> string \<Rightarrow> string list \<Rightarrow> string" where
  "dns_set_text name typ servers =
     ''  set '' @ name @ '' {'' @ nl @ ''    type '' @ typ @ nl @ ''    elements = {'' @ joinQuoted servers @ ''}'' @ nl @ ''  }'' @ nl"

definition dns_sets_text :: "setup_args \<Rightarrow> string" where
  "dns_sets_text a =
     (if sa_dnsPort a > 0 \<and> v4DNS a \<noteq> [] then dns_set_text ''dns_servers'' ''ipv4_addr'' (v4DNS a) else []) @
     (if sa_dnsPort a > 0 \<and> v6DNS a \<noteq> [] then dns_set_text ''dns6_servers'' ''ipv6_addr'' (v6DNS a) else [])"

definition chain_text :: "string \<Rightarrow> string \<Rightarrow> fw_rule list \<Rightarrow> string" where
  "chain_text name hook rules =
     ''  chain '' @ name @ '' {'' @ nl @ ''    type '' @ hook @ '';'' @ nl @ concat (map nft_rule_text rules) @ ''  }'' @ nl"

definition block_chain_text :: "bool \<Rightarrow> string" where
  "block_chain_text blockIPv6 =
     (if blockIPv6 then chain_text ''block_ipv6'' ''filter hook output priority 0'' block_ipv6_rules else [])"

definition nft_buildNftRules :: "bool \<Rightarrow> setup_args \<Rightarrow> string" where
  "nft_buildNftRules blockIPv6 a =
     ''table inet netferry {'' @ nl @ dns_sets_text a @
     chain_text ''prerouting'' ''nat hook prerouting priority -100'' (nft_prerouting a) @
     chain_text ''output'' ''nat hook output priority -100'' (nft_output a) @
     block_chain_text blockIPv6 @ ''}'' @ nl"

section \<open>The TPROXY method\<close>

record tproxy_config =
  tp_FWMark :: int
  tp_RouteTable :: int

definition DefaultTProxyConfig :: tproxy_config where
  "DefaultTProxyConfig = \<lparr>tp_FWMark = 1, tp_RouteTable = 100\<rparr>"

definition tproxy_prerouting :: "string \<Rightarrow> setup_args \<Rightarrow> fw_rule list" where
  "tproxy_prerouting mark a =
     exclude_rules a @ subnet_rules (\<lambda>f. TProxyTo f (sa_proxyPort a) mark) a @ dns_rules (\<lambda>f. TProxyTo f (sa_dnsPort a) mark) a"

definition tproxy_output :: "string \<Rightarrow> setup_args \<Rightarrow> fw_rule list" where
  "tproxy_output mark a =
     local_rules @ exclude_rules a @ subnet_rules (\<lambda>_. SetMark mark) a @ dns_rules (\<lambda>_. SetMark mark) a"

definition tproxy_buildNftRules :: "tproxy_config \<Rightarrow> bool \<Rightarrow> setup_args \<Rightarrow> string" where
  "tproxy_buildNftRules cfg blockIPv6 a =
     (let markHex = hex0x (tp_FWMark cfg) in
      ''table inet netferry {'' @ nl @ dns_sets_text a @
      chain_text ''prerouting'' ''filter hook prerouting priority mangle'' (tproxy_prerouting markHex a) @
      chain_text ''output'' ''route hook output priority mangle'' (tproxy_output markHex a) @
      block_chain_text blockIPv6 @ ''}'' @ nl)"

section \<open>iptables\<close>

text \<open>Rules as arguments; IPv4 and IPv6 rules go to different programs.\<close>

definition IptPortArgs :: "subnet_rule \<Rightarrow> string list option" where
  "IptPortArgs s =
     (if \<not> HasPortRange s then None
      else if sn_PortLow s = sn_PortHigh s then Some [''--dport'', itoa (sn_PortLow s)]
      else Some [''--dport'', itoa (sn_PortLow s) @ '':'' @ itoa (sn_PortHigh s)])"

fun ipt_match_args :: "fw_match \<Rightarrow> string list" where
  "ipt_match_args (DAddr f c) = [''-d'', c]"
| "ipt_match_args (DAddrSet f) = []"
| "ipt_match_args (TcpPort p) = [''-p'', ''tcp'', ''-m'', ''tcp'', ''--dport'', itoa p]"
| "ipt_match_args (TcpPorts a b) = [''-p'', ''tcp'', ''-m'', ''tcp'', ''--dport'', itoa a @ '':'' @ itoa b]"
| "ipt_match_args (TcpNotPort p) = [''-p'', ''tcp'', ''-m'', ''tcp'', ''!'', ''--dport'', itoa p]"
| "ipt_match_args UdpDns = [''-p'', ''udp'', ''-m'', ''udp'', ''--dport'', ''53'']"
| "ipt_match_args FibLocal = [''-m'', ''addrtype'', ''--dst-type'', ''LOCAL'']"
| "ipt_match_args MarkBypass = [''-m'', ''mark'', ''--mark'', bypassMarkStr]"
| "ipt_match_args ProtoV6 = []"

fun ipt_action_args :: "fw_action \<Rightarrow> string list" where
  "ipt_action_args Return = [''-j'', ''RETURN'']"
| "ipt_action_args (Redirect p) = [''-j'', ''REDIRECT'', ''--to-ports'', itoa p]"
| "ipt_action_args (TProxyTo f p m) = [''-j'', ''TPROXY'', ''--on-port'', itoa p, ''--tproxy-mark'', m]"
| "ipt_action_args (SetMark m) = [''-j'', ''MARK'', ''--set-mark'', m]"
| "ipt_action_args Reject = [''-j'', ''REJECT'', ''--reject-with'', ''icmp6-adm-prohibited'']"

definition ipt_rule_args :: "fw_rule \<Rightarrow> string list" where
  "ipt_rule_args r = concat (map ipt_match_args (fst r)) @ ipt_action_args (snd r)"

text \<open>
  What one chain gets for one family: the excluded addresses, the subnets, one rule for every
  name server.
\<close>

definition ipt_excludes :: "ip_family \<Rightarrow> setup_args \<Rightarrow> fw_rule list" where
  "ipt_excludes f a = map (\<lambda>e. ([DAddr f e], Return)) (if f = Fam4 then v4Excludes a else v6Excludes a)"

definition ipt_subnets :: "ip_family \<Rightarrow> fw_action \<Rightarrow> setup_args \<Rightarrow> fw_rule list" where
  "ipt_subnets f act a =
     map (\<lambda>s. (subnet_matches f (sa_proxyPort a) s, act)) (if f = Fam4 then v4Subnets a else v6Subnets a)"

definition ipt_dns :: "ip_family \<Rightarrow> fw_action \<Rightarrow> setup_args \<Rightarrow> fw_rule list" where
  "ipt_dns f act a =
     (if sa_dnsPort a > 0 then map (\<lambda>ns. ([DAddr f ns, UdpDns], act)) (if f = Fam4 then v4DNS a else v6DNS a) else [])"

text \<open>IPv6 chains are only made when there is something to capture.\<close>

definition has_v6 :: "setup_args \<Rightarrow> bool" where
  "has_v6 a \<longleftrightarrow> v6Subnets a \<noteq> [] \<or> (sa_dnsPort a > 0 \<and> v6DNS a \<noteq> [])"

text \<open>A command and whether \<^verbatim>\<open>Setup\<close> returns when it fails.\<close>

datatype command = Try "string list" | Must "string list"

fun argv :: "command \<Rightarrow> string list" where
  "argv (Try c) = c" | "argv (Must c) = c"

fun run_commands :: "(string list \<Rightarrow> bool) \<Rightarrow> command list \<Rightarrow> bool \<times> string list list" where
  "run_commands ok [] = (True, [])"
| "run_commands ok (Try c # cs) = (case run_commands ok cs of (r, xs) \<Rightarrow> (r, c # xs))"
| "run_commands ok (Must c # cs) =
     (if ok c then (case run_commands ok cs of (r, xs) \<Rightarrow> (r, c # xs)) else (False, [c]))"

definition append_rule :: "string \<Rightarrow> string \<Rightarrow> string \<Rightarrow> fw_rule \<Rightarrow> string list" where
  "append_rule prog table chain r = [prog, ''-t'', table, ''-A'', chain] @ ipt_rule_args r"

definition append_rules :: "string \<Rightarrow> string \<Rightarrow> string \<Rightarrow> fw_rule list \<Rightarrow> command list" where
  "append_rules prog table chain rs = map (\<lambda>r. Try (append_rule prog table chain r)) rs"

definition must_append :: "string \<Rightarrow> string \<Rightarrow> string \<Rightarrow> fw_rule list \<Rightarrow> command list" where
  "must_append prog table chain rs = map (\<lambda>r. Must (append_rule prog table chain r)) rs"

definition new_chain :: "string \<Rightarrow> string \<Rightarrow> string \<Rightarrow> string list \<Rightarrow> command list" where
  "new_chain prog table chain hooks =
     Try [prog, ''-t'', table, ''-N'', chain] # map (\<lambda>h. Try [prog, ''-t'', table, ''-A'', h, ''-j'', chain]) hooks"

definition fam_prog :: "ip_family \<Rightarrow> string" where
  "fam_prog f = (if f = Fam4 then ''iptables'' else ''ip6tables'')"

definition nat_chain :: "ip_family \<Rightarrow> string" where
  "nat_chain f = (if f = Fam4 then ''NETFERRY'' else ''NETFERRY6'')"

definition ipt_nat_commands :: "ip_family \<Rightarrow> setup_args \<Rightarrow> command list" where
  "ipt_nat_commands f a =
     (let prog = fam_prog f; chain = nat_chain f in
      new_chain prog ''nat'' chain [''OUTPUT'', ''PREROUTING''] @
      append_rules prog ''nat'' chain (local_rules @ ipt_excludes f a) @
      must_append prog ''nat'' chain (ipt_subnets f (Redirect (sa_proxyPort a)) a) @
      append_rules prog ''nat'' chain (ipt_dns f (Redirect (sa_dnsPort a)) a))"

definition ipt_block_commands :: "bool \<Rightarrow> command list" where
  "ipt_block_commands blockIPv6 =
     (if blockIPv6 then
        [Try [''ip6tables'', ''-N'', ''NETFERRY6_BLOCK'']] @
        map (\<lambda>r. Try ([''ip6tables'', ''-A'', ''NETFERRY6_BLOCK''] @ ipt_rule_args r)) block_ipv6_rules @
        [Try [''ip6tables'', ''-I'', ''OUTPUT'', ''-j'', ''NETFERRY6_BLOCK'']]
      else [])"

definition ipt_Setup :: "bool \<Rightarrow> setup_args \<Rightarrow> command list" where
  "ipt_Setup blockIPv6 a =
     ipt_nat_commands Fam4 a @ (if has_v6 a then ipt_nat_commands Fam6 a else []) @ ipt_block_commands blockIPv6"

definition drop_chain :: "string \<Rightarrow> string list \<Rightarrow> string \<Rightarrow> string list \<Rightarrow> string list list" where
  "drop_chain prog tab chain hooks =
     map (\<lambda>h. [prog] @ tab @ [''-D'', h, ''-j'', chain]) hooks @
     [[prog] @ tab @ [''-F'', chain], [prog] @ tab @ [''-X'', chain]]"

definition drop_block :: "string list list" where
  "drop_block = drop_chain ''ip6tables'' [] ''NETFERRY6_BLOCK'' [''OUTPUT'']"

definition ipt_Restore :: "string list list" where
  "ipt_Restore =
     drop_chain ''iptables'' [''-t'', ''nat''] ''NETFERRY'' [''OUTPUT'', ''PREROUTING''] @
     drop_chain ''ip6tables'' [''-t'', ''nat''] ''NETFERRY6'' [''OUTPUT'', ''PREROUTING''] @ drop_block"

definition tproxy_mangle_commands :: "ip_family \<Rightarrow> string \<Rightarrow> setup_args \<Rightarrow> command list" where
  "tproxy_mangle_commands f mark a =
     (let prog = fam_prog f in
      new_chain prog ''mangle'' ''NETFERRY'' [''PREROUTING''] @
      append_rules prog ''mangle'' ''NETFERRY'' (ipt_excludes f a) @
      must_append prog ''mangle'' ''NETFERRY'' (ipt_subnets f (TProxyTo f (sa_proxyPort a) mark) a) @
      append_rules prog ''mangle'' ''NETFERRY'' (ipt_dns f (TProxyTo f (sa_dnsPort a) mark) a) @
      new_chain prog ''mangle'' ''NETFERRY_OUTPUT'' [''OUTPUT''] @
      append_rules prog ''mangle'' ''NETFERRY_OUTPUT'' (local_rules @ ipt_excludes f a) @
      must_append prog ''mangle'' ''NETFERRY_OUTPUT'' (ipt_subnets f (SetMark mark) a) @
      append_rules prog ''mangle'' ''NETFERRY_OUTPUT'' (ipt_dns f (SetMark mark) a))"

definition setupIpt :: "tproxy_config \<Rightarrow> bool \<Rightarrow> setup_args \<Rightarrow> command list" where
  "setupIpt cfg blockIPv6 a =
     (let mark = itoa (tp_FWMark cfg) in
      tproxy_mangle_commands Fam4 mark a @ (if has_v6 a then tproxy_mangle_commands Fam6 mark a else []) @
      ipt_block_commands blockIPv6)"

text \<open>The policy routing of \<^verbatim>\<open>tproxyMethod.Setup\<close>, with its steps back.\<close>

definition policy_route ::
    "(string list \<Rightarrow> bool) \<Rightarrow> string list \<Rightarrow> string \<Rightarrow> string \<Rightarrow> string \<Rightarrow> bool \<times> string list list" where
  "policy_route ok v6 net mark tbl =
     (let rule = \<lambda>op. [''ip''] @ v6 @ [''rule'', op, ''fwmark'', mark, ''lookup'', tbl];
          route = [''ip''] @ v6 @ [''route'', ''add'', ''local'', net, ''dev'', ''lo'', ''table'', tbl]
      in if \<not> ok (rule ''add'') then (False, [rule ''add''])
         else if \<not> ok route then (False, [rule ''add'', route, rule ''del''])
         else (True, [rule ''add'', route]))"

definition tproxy_routing :: "(string list \<Rightarrow> bool) \<Rightarrow> tproxy_config \<Rightarrow> setup_args \<Rightarrow> bool \<times> string list list" where
  "tproxy_routing ok cfg a =
     (let mark = itoa (tp_FWMark cfg); tbl = itoa (tp_RouteTable cfg) in
      case policy_route ok [] ''0.0.0.0/0'' mark tbl of
        (False, xs) \<Rightarrow> (False, xs)
      | (True, xs) \<Rightarrow>
          if v6Subnets a = [] then (True, xs)
          else (case policy_route ok [''-6''] ''::/0'' mark tbl of (r, ys) \<Rightarrow> (r, xs @ ys)))"

definition tproxy_Restore :: "bool \<Rightarrow> tproxy_config \<Rightarrow> string list list" where
  "tproxy_Restore useNft cfg =
     (let mark = itoa (tp_FWMark cfg); tbl = itoa (tp_RouteTable cfg) in
      [[''ip'', ''rule'', ''del'', ''fwmark'', mark, ''lookup'', tbl],
       [''ip'', ''route'', ''del'', ''local'', ''0.0.0.0/0'', ''dev'', ''lo'', ''table'', tbl],
       [''ip'', ''-6'', ''rule'', ''del'', ''fwmark'', mark, ''lookup'', tbl],
       [''ip'', ''-6'', ''route'', ''del'', ''local'', ''::/0'', ''dev'', ''lo'', ''table'', tbl]] @
      (if useNft then [[''nft'', ''delete'', ''table'', ''inet'', ''netferry'']]
       else
         drop_chain ''iptables'' [''-t'', ''mangle''] ''NETFERRY_OUTPUT'' [''OUTPUT''] @
         drop_chain ''iptables'' [''-t'', ''mangle''] ''NETFERRY'' [''PREROUTING''] @
         drop_chain ''ip6tables'' [''-t'', ''mangle''] ''NETFERRY_OUTPUT'' [''OUTPUT''] @
         drop_chain ''ip6tables'' [''-t'', ''mangle''] ''NETFERRY'' [''PREROUTING'']) @
      drop_block)"

definition CleanStaleAnchors_linux :: "string list list" where
  "CleanStaleAnchors_linux =
     [[''nft'', ''delete'', ''table'', ''inet'', ''netferry''], [''nft'', ''delete'', ''table'', ''ip'', ''netferry'']] @
     ipt_Restore @
     drop_chain ''iptables'' [''-t'', ''mangle''] ''NETFERRY_OUTPUT'' [''OUTPUT''] @
     drop_chain ''iptables'' [''-t'', ''mangle''] ''NETFERRY'' [''PREROUTING''] @
     drop_chain ''ip6tables'' [''-t'', ''mangle''] ''NETFERRY_OUTPUT'' [''OUTPUT''] @
     drop_chain ''ip6tables'' [''-t'', ''mangle''] ''NETFERRY'' [''PREROUTING''] @
     [[''ip'', ''rule'', ''del'', ''fwmark'', ''1'', ''lookup'', ''100''],
      [''ip'', ''route'', ''del'', ''local'', ''0.0.0.0/0'', ''dev'', ''lo'', ''table'', ''100''],
      [''ip'', ''-6'', ''rule'', ''del'', ''fwmark'', ''1'', ''lookup'', ''100''],
      [''ip'', ''-6'', ''route'', ''del'', ''local'', ''::/0'', ''dev'', ''lo'', ''table'', ''100'']]"

text \<open>\<^verbatim>\<open>DisableDNS\<close> sets up again what was set up, without name servers.\<close>

definition without_dns :: "setup_args \<Rightarrow> setup_args" where
  "without_dns a = a\<lparr>sa_dnsPort := 0, sa_dnsServers := []\<rparr>"

section \<open>pf\<close>

datatype pf_action = PfPass | PfBlock | PfReturn
datatype pf_proto = PfTcp | PfUdp
datatype pf_to = PfNet string | PfDns | PfAny
datatype pf_user = NotRoot | Root

record pf_filter =
  pf_act :: pf_action
  pf_quick :: bool
  pf_lo0 :: bool
  pf_fam :: ip_family
  pf_proto :: "pf_proto option"
  pf_from :: "int option"
  pf_to :: "pf_to option"
  pf_ports :: "(int \<times> int) option"
  pf_user :: "pf_user option"
  pf_keep :: bool

record pf_rdr =
  rd_fam :: ip_family
  rd_proto :: pf_proto
  rd_to :: pf_to
  rd_ports :: "(int \<times> int) option"
  rd_port :: int

definition pf_range :: "subnet_rule \<Rightarrow> (int \<times> int) option" where
  "pf_range s = (if HasPortRange s then Some (sn_PortLow s, sn_PortHigh s) else None)"

definition PfPortExpr :: "(int \<times> int) option \<Rightarrow> string" where
  "PfPortExpr r =
     (case r of
        None \<Rightarrow> []
      | Some (lo, hi) \<Rightarrow> if lo = hi then '' port '' @ itoa lo else '' port '' @ itoa lo @ '':'' @ itoa hi)"

fun pf_inet :: "ip_family \<Rightarrow> string" where
  "pf_inet Fam4 = ''inet''" | "pf_inet Fam6 = ''inet6''"

fun pf_proto_kw :: "pf_proto \<Rightarrow> string" where
  "pf_proto_kw PfTcp = ''tcp''" | "pf_proto_kw PfUdp = ''udp''"

fun pf_loopback :: "ip_family \<Rightarrow> string" where
  "pf_loopback Fam4 = ''127.0.0.1''" | "pf_loopback Fam6 = ''::1''"

fun pf_to_text :: "ip_family \<Rightarrow> pf_to \<Rightarrow> string" where
  "pf_to_text f (PfNet c) = c"
| "pf_to_text Fam4 PfDns = ''<dns_servers>''"
| "pf_to_text Fam6 PfDns = ''<dns6_servers>''"
| "pf_to_text f PfAny = ''any''"

definition pf_rdr_text :: "pf_rdr \<Rightarrow> string" where
  "pf_rdr_text r =
     ''rdr pass on lo0 '' @ pf_inet (rd_fam r) @ '' proto '' @ pf_proto_kw (rd_proto r) @
     (if rd_proto r = PfTcp then '' from ! '' @ pf_loopback (rd_fam r) else []) @
     '' to '' @ pf_to_text (rd_fam r) (rd_to r) @ PfPortExpr (rd_ports r) @
     '' -> '' @ pf_loopback (rd_fam r) @ '' port '' @ itoa (rd_port r) @ nl"

definition pf_filter_text :: "pf_filter \<Rightarrow> string" where
  "pf_filter_text r =
     (case pf_act r of PfPass \<Rightarrow> ''pass out '' | PfBlock \<Rightarrow> ''block out '' | PfReturn \<Rightarrow> ''block return out '') @
     (if pf_quick r then ''quick '' else []) @ (if pf_lo0 r then ''route-to lo0 '' else []) @ pf_inet (pf_fam r) @
     (case pf_proto r of None \<Rightarrow> [] | Some p \<Rightarrow> '' proto '' @ pf_proto_kw p) @
     (case pf_from r of None \<Rightarrow> [] | Some p \<Rightarrow> '' from any port '' @ itoa p) @
     (case pf_to r of None \<Rightarrow> [] | Some t \<Rightarrow> '' to '' @ pf_to_text (pf_fam r) t) @ PfPortExpr (pf_ports r) @
     (case pf_user r of None \<Rightarrow> [] | Some NotRoot \<Rightarrow> '' user != root'' | Some Root \<Rightarrow> '' user root'') @
     (if pf_to r = None \<and> pf_user r = None then '' all'' else []) @
     (if pf_keep r then '' keep state'' else []) @ nl"

definition pf_plain :: "pf_action \<Rightarrow> bool \<Rightarrow> ip_family \<Rightarrow> pf_filter" where
  "pf_plain act quick f =
     \<lparr>pf_act = act, pf_quick = quick, pf_lo0 = False, pf_fam = f, pf_proto = None, pf_from = None, pf_to = None,
      pf_ports = None, pf_user = None, pf_keep = False\<rparr>"

definition pf_rdrs :: "setup_args \<Rightarrow> pf_rdr list" where
  "pf_rdrs a =
     map (\<lambda>s. \<lparr>rd_fam = Fam4, rd_proto = PfTcp, rd_to = PfNet (sn_CIDR s), rd_ports = pf_range s, rd_port = sa_proxyPort a\<rparr>) (v4Subnets a) @
     map (\<lambda>s. \<lparr>rd_fam = Fam6, rd_proto = PfTcp, rd_to = PfNet (sn_CIDR s), rd_ports = pf_range s, rd_port = sa_proxyPort a\<rparr>) (v6Subnets a) @
     (if sa_dnsPort a > 0 \<and> v4DNS a \<noteq> [] then [\<lparr>rd_fam = Fam4, rd_proto = PfUdp, rd_to = PfDns, rd_ports = Some (53, 53), rd_port = sa_dnsPort a\<rparr>] else []) @
     (if sa_dnsPort a > 0 \<and> v6DNS a \<noteq> [] then [\<lparr>rd_fam = Fam6, rd_proto = PfUdp, rd_to = PfDns, rd_ports = Some (53, 53), rd_port = sa_dnsPort a\<rparr>] else [])"

definition pf_route_subnet :: "ip_family \<Rightarrow> subnet_rule \<Rightarrow> pf_filter" where
  "pf_route_subnet f s =
     (pf_plain PfPass False f)\<lparr>pf_lo0 := True, pf_proto := Some PfTcp, pf_to := Some (PfNet (sn_CIDR s)), pf_ports := pf_range s,
        pf_user := Some NotRoot, pf_keep := True\<rparr>"

definition pf_route_dns :: "bool \<Rightarrow> ip_family \<Rightarrow> pf_filter" where
  "pf_route_dns quick f =
     (pf_plain PfPass quick f)\<lparr>pf_lo0 := True, pf_proto := Some PfUdp, pf_to := Some PfDns, pf_ports := Some (53, 53), pf_keep := True\<rparr>"

definition pf_exclude :: "ip_family \<Rightarrow> string \<Rightarrow> pf_filter" where
  "pf_exclude f e = (pf_plain PfPass False f)\<lparr>pf_proto := Some PfTcp, pf_to := Some (PfNet e)\<rparr>"

definition pf_udp_port :: "ip_family \<Rightarrow> int option \<Rightarrow> int \<Rightarrow> pf_filter" where
  "pf_udp_port f src dst =
     (pf_plain PfPass True f)\<lparr>pf_proto := Some PfUdp, pf_from := src, pf_to := Some PfAny, pf_ports := Some (dst, dst)\<rparr>"

definition pf_udp_root :: "ip_family \<Rightarrow> pf_filter" where
  "pf_udp_root f = (pf_plain PfPass True f)\<lparr>pf_proto := Some PfUdp, pf_user := Some Root, pf_keep := True\<rparr>"

definition pf_block_udp :: "ip_family \<Rightarrow> pf_filter" where
  "pf_block_udp f = (pf_plain PfBlock True f)\<lparr>pf_proto := Some PfUdp\<rparr>"

definition pf_udp_rules :: "bool \<Rightarrow> setup_args \<Rightarrow> pf_filter list" where
  "pf_udp_rules allowRootUDP a =
     [pf_udp_port Fam4 (Some 68) 67, pf_udp_port Fam6 (Some 546) 547] @
     (if \<not> (sa_dnsPort a > 0 \<and> v4DNS a \<noteq> []) then [pf_udp_port Fam4 None 53] else []) @
     (if allowRootUDP then [pf_udp_root Fam4, pf_udp_root Fam6] else []) @
     [pf_block_udp Fam4] @
     (if \<not> (sa_dnsPort a > 0 \<and> v6DNS a \<noteq> []) then [pf_udp_port Fam6 None 53] else []) @
     [pf_block_udp Fam6]"

definition pf_block6_rules :: "pf_filter list" where
  "pf_block6_rules =
     map (\<lambda>n. (pf_plain PfPass True Fam6)\<lparr>pf_to := Some (PfNet n)\<rparr>) [''::1/128'', ''fe80::/10'', ''ff00::/8''] @
     [pf_plain PfReturn True Fam6]"

record pf_method =
  pm_blockUDP :: bool
  pm_allowRootUDP :: bool
  pm_blockIPv6 :: bool

definition pf_filters :: "pf_method \<Rightarrow> setup_args \<Rightarrow> pf_filter list" where
  "pf_filters m a =
     map (pf_route_subnet Fam4) (v4Subnets a) @ map (pf_route_subnet Fam6) (v6Subnets a) @
     (if sa_dnsPort a > 0 \<and> v4DNS a \<noteq> [] then [pf_route_dns (pm_blockUDP m) Fam4] else []) @
     (if sa_dnsPort a > 0 \<and> v6DNS a \<noteq> [] then [pf_route_dns (pm_blockUDP m) Fam6] else []) @
     map (pf_exclude Fam4) (v4Excludes a) @ map (pf_exclude Fam6) (v6Excludes a) @
     (if pm_blockUDP m then pf_udp_rules (pm_allowRootUDP m) a else []) @
     (if pm_blockIPv6 m then pf_block6_rules else [])"

definition pf_tables_text :: "setup_args \<Rightarrow> string" where
  "pf_tables_text a =
     (if sa_dnsPort a > 0 \<and> v4DNS a \<noteq> [] then ''table <dns_servers> {'' @ join_with '','' (v4DNS a) @ ''}'' @ nl else []) @
     (if sa_dnsPort a > 0 \<and> v6DNS a \<noteq> [] then ''table <dns6_servers> {'' @ join_with '','' (v6DNS a) @ ''}'' @ nl else [])"

definition pf_buildRules :: "pf_method \<Rightarrow> setup_args \<Rightarrow> string" where
  "pf_buildRules m a =
     pf_tables_text a @ concat (map pf_rdr_text (pf_rdrs a)) @ concat (map pf_filter_text (pf_filters m a))"

end
