(* ===== verification/FwPolicy.thy ===== *)
theory FwPolicy
  imports FwRules
begin

text \<open>
  What the rules of theory FwRules do to a packet, in the documented reading of the packet filters:
  a chain of nftables or iptables is read to the first rule whose action ends it (setting a mark does
  not), pf takes the last matching filter rule unless an earlier one is \<^verbatim>\<open>quick\<close>. Whether an address
  lies in a network text is a parameter \<open>inn\<close>, so that nothing rests on a reading of the texts. One
  abstract policy says where a packet goes; the rules of every method are proved to carry it out.
\<close>

section \<open>Packets and the policy\<close>

record packet =
  pk_fam :: ip_family
  pk_proto :: pf_proto
  pk_dst :: "nat list"
  pk_sport :: int
  pk_dport :: int
  pk_local :: bool
  pk_bypass :: bool
  pk_root :: bool
  pk_srcLo :: bool

type_synonym in_net = "string \<Rightarrow> nat list \<Rightarrow> bool"

datatype fate = Deliver | Divert int | Refuse

definition fam_of :: "bool \<Rightarrow> ip_family" where
  "fam_of v6 = (if v6 then Fam6 else Fam4)"

definition port_ok :: "int \<Rightarrow> subnet_rule \<Rightarrow> int \<Rightarrow> bool" where
  "port_ok proxyPort s p =
     (if HasPortRange s then sn_PortLow s \<le> p \<and> p \<le> sn_PortHigh s else p \<noteq> proxyPort)"

definition excluded :: "in_net \<Rightarrow> setup_args \<Rightarrow> packet \<Rightarrow> bool" where
  "excluded inn a p = list_ex (\<lambda>e. fam_of (IsIPv6CIDR e) = pk_fam p \<and> inn e (pk_dst p)) (sa_excludes a)"

definition in_subnets :: "(subnet_rule \<Rightarrow> int \<Rightarrow> bool) \<Rightarrow> in_net \<Rightarrow> setup_args \<Rightarrow> packet \<Rightarrow> bool" where
  "in_subnets ok inn a p =
     list_ex (\<lambda>s. fam_of (sn_IsIPv6 s) = pk_fam p \<and> inn (sn_CIDR s) (pk_dst p) \<and> ok s (pk_dport p)) (sa_subnets a)"

definition captured :: "in_net \<Rightarrow> setup_args \<Rightarrow> packet \<Rightarrow> bool" where
  "captured inn a p \<longleftrightarrow> pk_proto p = PfTcp \<and> in_subnets (port_ok (sa_proxyPort a)) inn a p"

definition to_dns :: "in_net \<Rightarrow> setup_args \<Rightarrow> packet \<Rightarrow> bool" where
  "to_dns inn a p \<longleftrightarrow>
     sa_dnsPort a > 0 \<and> pk_proto p = PfUdp \<and> pk_dport p = 53 \<and>
     list_ex (\<lambda>s. inn s (pk_dst p)) (if pk_fam p = Fam4 then v4DNS a else v6DNS a)"

definition fw_policy :: "in_net \<Rightarrow> setup_args \<Rightarrow> packet \<Rightarrow> fate" where
  "fw_policy inn a p =
     (if pk_local p \<or> pk_bypass p \<or> excluded inn a p then Deliver
      else if captured inn a p then Divert (sa_proxyPort a)
      else if to_dns inn a p then Divert (sa_dnsPort a)
      else Deliver)"

section \<open>Reading a chain\<close>

fun fw_holds :: "in_net \<Rightarrow> setup_args \<Rightarrow> packet \<Rightarrow> string option \<Rightarrow> fw_match \<Rightarrow> bool" where
  "fw_holds inn a p mk (DAddr f c) = (pk_fam p = f \<and> inn c (pk_dst p))"
| "fw_holds inn a p mk (DAddrSet f) =
     (pk_fam p = f \<and> list_ex (\<lambda>s. inn s (pk_dst p)) (if f = Fam4 then v4DNS a else v6DNS a))"
| "fw_holds inn a p mk (TcpPort n) = (pk_proto p = PfTcp \<and> pk_dport p = n)"
| "fw_holds inn a p mk (TcpPorts lo hi) = (pk_proto p = PfTcp \<and> lo \<le> pk_dport p \<and> pk_dport p \<le> hi)"
| "fw_holds inn a p mk (TcpNotPort n) = (pk_proto p = PfTcp \<and> pk_dport p \<noteq> n)"
| "fw_holds inn a p mk UdpDns = (pk_proto p = PfUdp \<and> pk_dport p = 53)"
| "fw_holds inn a p mk FibLocal = pk_local p"
| "fw_holds inn a p mk MarkBypass = (case mk of None \<Rightarrow> pk_bypass p | Some m \<Rightarrow> m = bypassMarkStr)"
| "fw_holds inn a p mk ProtoV6 = (pk_fam p = Fam6)"

text \<open>The mark a chain sets and the action that ends it.\<close>

fun run_chain ::
    "(string option \<Rightarrow> fw_match \<Rightarrow> bool) \<Rightarrow> fw_rule list \<Rightarrow> string option \<Rightarrow> string option \<times> fw_action option" where
  "run_chain h [] mk = (mk, None)"
| "run_chain h ((ms, act) # rs) mk =
     (if list_all (h mk) ms
      then (case act of SetMark m \<Rightarrow> run_chain h rs (Some m) | _ \<Rightarrow> (mk, Some act))
      else run_chain h rs mk)"

definition fate_of :: "fw_action option \<Rightarrow> fate" where
  "fate_of act =
     (case act of
        Some (Redirect n) \<Rightarrow> Divert n
      | Some (TProxyTo _ n _) \<Rightarrow> Divert n
      | Some Reject \<Rightarrow> Refuse
      | _ \<Rightarrow> Deliver)"

text \<open>A list of rules none of which sets a mark: the first that holds decides.\<close>

definition first_act :: "(string option \<Rightarrow> fw_match \<Rightarrow> bool) \<Rightarrow> fw_rule list \<Rightarrow> fw_action option" where
  "first_act h rs = map_option snd (find (\<lambda>r. list_all (h None) (fst r)) rs)"

lemma first_act_simps [simp]:
  "first_act h [] = None"
  "first_act h ((ms, act) # rs) = (if list_all (h None) ms then Some act else first_act h rs)"
  by (simp_all add: first_act_def)

lemma first_act_append [simp]:
  "first_act h (rs @ ss) = (case first_act h rs of None \<Rightarrow> first_act h ss | Some act \<Rightarrow> Some act)"
  by (induction rs) auto

definition no_marks :: "fw_rule list \<Rightarrow> bool" where
  "no_marks rs = list_all (\<lambda>r. case snd r of SetMark _ \<Rightarrow> False | _ \<Rightarrow> True) rs"

lemma no_marks_append [simp]: "no_marks (rs @ ss) \<longleftrightarrow> no_marks rs \<and> no_marks ss"
  by (simp add: no_marks_def)

lemma no_marks_const:
  "list_all (\<lambda>r. snd r = act) rs \<Longrightarrow> (case act of SetMark _ \<Rightarrow> False | _ \<Rightarrow> True) \<Longrightarrow> no_marks rs"
  by (auto simp: no_marks_def list_all_iff)

lemma run_chain_first: "no_marks rs \<Longrightarrow> run_chain h rs None = (None, first_act h rs)"
  by (induction rs) (auto simp: no_marks_def split: fw_action.splits)

lemma first_act_const:
  "list_all (\<lambda>r. snd r = act) rs \<Longrightarrow>
   first_act h rs = (if list_ex (\<lambda>r. list_all (h None) (fst r)) rs then Some act else None)"
  by (induction rs) auto

lemma run_chain_append:
  "run_chain h (rs @ ss) mk =
     (case run_chain h rs mk of (mk', None) \<Rightarrow> run_chain h ss mk' | (mk', Some act) \<Rightarrow> (mk', Some act))"
  by (induction h rs mk rule: run_chain.induct) (auto split: fw_action.splits option.splits)

lemma list_ex_by_family:
  "list_ex P (map f (filter (\<lambda>x. \<not> Q x) xs) @ map g (filter Q xs)) \<longleftrightarrow>
     list_ex (\<lambda>x. Q x \<and> P (g x) \<or> \<not> Q x \<and> P (f x)) xs"
  by (induction xs) auto

lemma list_ex_False [simp]: "\<not> list_ex (\<lambda>_. False) xs"
  by (induction xs) auto

lemma list_ex_congI: "(\<And>x. P x = Q x) \<Longrightarrow> list_ex P xs = list_ex Q xs"
  by presburger

section \<open>The groups of rules\<close>

lemma local_act:
  "first_act (fw_holds inn a p) local_rules = (if pk_local p \<or> pk_bypass p then Some Return else None)"
  by (simp add: local_rules_def)

lemma exclude_ex: "list_ex (\<lambda>r. list_all (fw_holds inn a p mk) (fst r)) (exclude_rules a) \<longleftrightarrow> excluded inn a p"
  unfolding exclude_rules_def excluded_def v4Excludes_def v6Excludes_def SplitExcludesByFamily_def fst_conv snd_conv
    list_ex_by_family
  by (rule list_ex_congI) (auto simp: fam_of_def)

lemma exclude_act:
  "first_act (fw_holds inn a p) (exclude_rules a) = (if excluded inn a p then Some Return else None)"
proof -
  have "list_all (\<lambda>r. snd r = Return) (exclude_rules a)"
    by (auto simp: exclude_rules_def list_all_iff)
  then show ?thesis
    by (simp add: first_act_const exclude_ex)
qed

lemma subnet_match_holds:
  "list_all (fw_holds inn a p mk) (subnet_matches f n s) \<longleftrightarrow>
     pk_fam p = f \<and> inn (sn_CIDR s) (pk_dst p) \<and> pk_proto p = PfTcp \<and> port_ok n s (pk_dport p)"
  by (auto simp: subnet_matches_def NftPortExpr_def port_ok_def)

lemma subnet_ex:
  "list_ex (\<lambda>r. list_all (fw_holds inn a p mk) (fst r)) (subnet_rules act a) \<longleftrightarrow> captured inn a p"
  unfolding subnet_rules_def captured_def in_subnets_def v4Subnets_def v6Subnets_def SplitByFamily_def fst_conv snd_conv
    list_ex_by_family
  by (cases "pk_proto p = PfTcp") (auto simp: subnet_match_holds fam_of_def intro!: arg_cong [where f = "\<lambda>P. list_ex P _"])

lemma dns_ex:
  "list_ex (\<lambda>r. list_all (fw_holds inn a p mk) (fst r)) (dns_rules act a) \<longleftrightarrow> to_dns inn a p"
  by (cases "pk_fam p"; cases "v4DNS a"; cases "v6DNS a") (auto simp: dns_rules_def to_dns_def)

lemma group_actions:
  "list_all (\<lambda>r. snd r = act) (subnet_rules (\<lambda>_. act) a)"
  "list_all (\<lambda>r. snd r = act) (dns_rules (\<lambda>_. act) a)"
  by (auto simp: subnet_rules_def dns_rules_def list_all_iff)

lemma redirect_acts:
  "first_act (fw_holds inn a p) (subnet_rules (\<lambda>_. act) a) = (if captured inn a p then Some act else None)"
  "first_act (fw_holds inn a p) (dns_rules (\<lambda>_. act) a) = (if to_dns inn a p then Some act else None)"
  by (simp_all add: first_act_const [OF group_actions(1)] first_act_const [OF group_actions(2)] subnet_ex dns_ex)

lemma no_marks_groups [simp]:
  "no_marks local_rules" "no_marks (exclude_rules a)"
  "(case act of SetMark _ \<Rightarrow> False | _ \<Rightarrow> True) \<Longrightarrow> no_marks (subnet_rules (\<lambda>_. act) a)"
  "(case act of SetMark _ \<Rightarrow> False | _ \<Rightarrow> True) \<Longrightarrow> no_marks (dns_rules (\<lambda>_. act) a)"
  by (simp_all add: no_marks_const [OF group_actions(1)] no_marks_const [OF group_actions(2)])
    (auto simp: no_marks_def local_rules_def exclude_rules_def list_all_iff)

lemma fate_of_simps [simp]:
  "fate_of None = Deliver" "fate_of (Some Return) = Deliver" "fate_of (Some (Redirect n)) = Divert n"
  "fate_of (Some (TProxyTo f n m)) = Divert n" "fate_of (Some Reject) = Refuse"
  by (simp_all add: fate_of_def)

section \<open>nftables\<close>

lemma nft_output_run:
  "run_chain (fw_holds inn a p) (nft_output a) None = (None, first_act (fw_holds inn a p) (nft_output a))"
  by (rule run_chain_first) (simp add: nft_output_def nft_prerouting_def)

lemma nft_output_act:
  "fate_of (first_act (fw_holds inn a p) (nft_output a)) = fw_policy inn a p"
  by (simp add: nft_output_def nft_prerouting_def local_act exclude_act redirect_acts fw_policy_def)

text \<open>
  C11: The output chain of the nftables method carries out the abstract policy, for every
  configuration and every packet: traffic to local addresses, the tunnel's own marked traffic and
  excluded destinations are delivered, TCP to a captured subnet and port goes to the proxy port,
  DNS to a captured server to the DNS port, everything else is delivered; and no packet is marked.
\<close>

theorem nft_output_policy:
  "fate_of (snd (run_chain (fw_holds inn a p) (nft_output a) None)) = fw_policy inn a p \<and>
   fst (run_chain (fw_holds inn a p) (nft_output a) None) = None"
  by (simp add: nft_output_run nft_output_act)

text \<open>Forwarded traffic has no local check and no mark of the tunnel.\<close>

lemma nft_prerouting_policy:
  "fate_of (snd (run_chain (fw_holds inn a p) (nft_prerouting a) None)) =
     fw_policy inn a (p\<lparr>pk_local := False, pk_bypass := False\<rparr>)"
proof -
  have "run_chain (fw_holds inn a p) (nft_prerouting a) None = (None, first_act (fw_holds inn a p) (nft_prerouting a))"
    by (rule run_chain_first) (simp add: nft_prerouting_def)
  then show ?thesis
    by (simp add: nft_prerouting_def exclude_act redirect_acts fw_policy_def excluded_def captured_def in_subnets_def
        to_dns_def)
qed

section \<open>iptables\<close>

text \<open>The rules a list of commands appends to one chain, in order.\<close>

definition chain_args :: "string \<Rightarrow> string \<Rightarrow> string \<Rightarrow> command list \<Rightarrow> string list list" where
  "chain_args prog table chain cs =
     map (drop 5) (filter (\<lambda>c. take 5 c = [prog, ''-t'', table, ''-A'', chain]) (map argv cs))"

lemma chain_args_Nil [simp]: "chain_args prog table chain [] = []"
  by (simp add: chain_args_def)

lemma chain_args_append [simp]:
  "chain_args prog table chain (cs @ ds) = chain_args prog table chain cs @ chain_args prog table chain ds"
  by (simp add: chain_args_def)

lemma chain_args_rules [simp]:
  "chain_args prog table chain (append_rules prog' table' chain' rs) =
     (if prog' = prog \<and> table' = table \<and> chain' = chain then map ipt_rule_args rs else [])"
  "chain_args prog table chain (must_append prog' table' chain' rs) =
     (if prog' = prog \<and> table' = table \<and> chain' = chain then map ipt_rule_args rs else [])"
  by (induction rs) (auto simp: chain_args_def append_rules_def must_append_def append_rule_def)

lemma chain_args_new [simp]:
  "chain \<notin> set hooks \<Longrightarrow> chain_args prog table chain (new_chain prog' table' chain' hooks) = []"
  by (induction hooks) (auto simp: chain_args_def new_chain_def)

lemma chain_args_block [simp]: "chain_args prog table chain (ipt_block_commands b) = []"
  by (simp add: chain_args_def ipt_block_commands_def block_ipv6_rules_def)

lemma fam_progs [simp]: "fam_prog Fam4 = ''iptables''" "fam_prog Fam6 = ''ip6tables''"
  by (simp_all add: fam_prog_def)

lemma nat_chains [simp]: "nat_chain Fam4 = ''NETFERRY''" "nat_chain Fam6 = ''NETFERRY6''"
  by (simp_all add: nat_chain_def)

text \<open>What the chain of one family holds after \<^verbatim>\<open>Setup\<close>.\<close>

definition ipt_chain :: "fw_action \<Rightarrow> fw_action \<Rightarrow> ip_family \<Rightarrow> setup_args \<Rightarrow> fw_rule list" where
  "ipt_chain act act' f a =
     (if f = Fam6 \<and> \<not> has_v6 a then []
      else local_rules @ ipt_excludes f a @ ipt_subnets f act a @ ipt_dns f act' a)"

lemma ipt_Setup_chain:
  "chain_args (fam_prog f) ''nat'' (nat_chain f) (ipt_Setup b a) =
     map ipt_rule_args (ipt_chain (Redirect (sa_proxyPort a)) (Redirect (sa_dnsPort a)) f a)"
  by (cases f) (simp_all add: ipt_Setup_def ipt_nat_commands_def Let_def ipt_chain_def)

lemma list_ex_filter_fam: "list_ex P (map f (filter Q xs)) \<longleftrightarrow> list_ex (\<lambda>x. Q x \<and> P (f x)) xs"
  by (induction xs) auto

lemma list_ex_map_fun: "list_ex P (map f xs) \<longleftrightarrow> list_ex (\<lambda>x. P (f x)) xs"
  by (induction xs) auto

lemma ipt_excludes_ex:
  "pk_fam p = f \<Longrightarrow> list_ex (\<lambda>r. list_all (fw_holds inn a p mk) (fst r)) (ipt_excludes f a) \<longleftrightarrow> excluded inn a p"
  by (cases f) (auto simp: ipt_excludes_def excluded_def v4Excludes_def v6Excludes_def SplitExcludesByFamily_def
      list_ex_filter_fam fam_of_def conj_commute intro!: arg_cong [where f = "\<lambda>P. list_ex P _"])

lemma ipt_subnets_ex:
  "pk_fam p = f \<Longrightarrow> list_ex (\<lambda>r. list_all (fw_holds inn a p mk) (fst r)) (ipt_subnets f act a) \<longleftrightarrow> captured inn a p"
  by (cases f; cases "pk_proto p = PfTcp")
    (auto simp: ipt_subnets_def captured_def in_subnets_def v4Subnets_def v6Subnets_def SplitByFamily_def
      list_ex_filter_fam fam_of_def subnet_match_holds intro!: arg_cong [where f = "\<lambda>P. list_ex P _"])

lemma ipt_dns_ex:
  "pk_fam p = f \<Longrightarrow> list_ex (\<lambda>r. list_all (fw_holds inn a p mk) (fst r)) (ipt_dns f act a) \<longleftrightarrow> to_dns inn a p"
  by (cases f; cases "pk_proto p = PfUdp \<and> pk_dport p = 53")
    (auto simp: ipt_dns_def to_dns_def list_ex_map_fun intro!: arg_cong [where f = "\<lambda>P. list_ex P _"])

lemma ipt_actions:
  "list_all (\<lambda>r. snd r = Return) (ipt_excludes f a)"
  "list_all (\<lambda>r. snd r = act) (ipt_subnets f act a)"
  "list_all (\<lambda>r. snd r = act) (ipt_dns f act a)"
  by (auto simp: ipt_excludes_def ipt_subnets_def ipt_dns_def list_all_iff)

lemma ipt_group_acts:
  assumes "pk_fam p = f"
  shows "first_act (fw_holds inn a p) (ipt_excludes f a) = (if excluded inn a p then Some Return else None)"
    and "first_act (fw_holds inn a p) (ipt_subnets f act a) = (if captured inn a p then Some act else None)"
    and "first_act (fw_holds inn a p) (ipt_dns f act a) = (if to_dns inn a p then Some act else None)"
  by (simp_all add: first_act_const [OF ipt_actions(1)] first_act_const [OF ipt_actions(2)]
      first_act_const [OF ipt_actions(3)] ipt_excludes_ex ipt_subnets_ex ipt_dns_ex assms)

text \<open>Without the IPv6 chain there is nothing of IPv6 to capture.\<close>

lemma no_v6_policy:
  assumes "pk_fam p = Fam6" "\<not> has_v6 a"
  shows "\<not> captured inn a p" "\<not> to_dns inn a p"
proof -
  show "\<not> captured inn a p"
    unfolding ipt_subnets_ex [OF assms(1), where act = Return and mk = None, symmetric]
    using assms by (simp add: ipt_subnets_def has_v6_def)
  show "\<not> to_dns inn a p"
    using assms by (auto simp: to_dns_def has_v6_def)
qed

lemma ipt_chain_run:
  assumes "case act of SetMark _ \<Rightarrow> False | _ \<Rightarrow> True" "case act' of SetMark _ \<Rightarrow> False | _ \<Rightarrow> True"
  shows "run_chain h (ipt_chain act act' f a) None = (None, first_act h (ipt_chain act act' f a))"
proof -
  have "no_marks (ipt_chain act act' f a)"
    using assms by (auto simp: ipt_chain_def intro: no_marks_const [OF ipt_actions(1)] no_marks_const [OF ipt_actions(2)]
        no_marks_const [OF ipt_actions(3)]) (simp_all add: no_marks_def)
  then show ?thesis
    by (rule run_chain_first)
qed

text \<open>
  C17: The iptables commands of \<^verbatim>\<open>iptMethod.Setup\<close> carry out the same policy. The rules they append to
  the chain of a family are, argument by argument, those of \<open>ipt_chain\<close>, and a packet of that family
  which traverses this chain ends where the abstract policy sends it, also when the IPv6 chain is
  not made.
\<close>

theorem ipt_Setup_policy:
  "chain_args (fam_prog (pk_fam p)) ''nat'' (nat_chain (pk_fam p)) (ipt_Setup b a) =
     map ipt_rule_args (ipt_chain (Redirect (sa_proxyPort a)) (Redirect (sa_dnsPort a)) (pk_fam p) a) \<and>
   fate_of (snd (run_chain (fw_holds inn a p)
     (ipt_chain (Redirect (sa_proxyPort a)) (Redirect (sa_dnsPort a)) (pk_fam p) a) None)) = fw_policy inn a p"
  by (auto simp: ipt_Setup_chain ipt_chain_run)
    (auto simp: ipt_chain_def local_act ipt_group_acts fw_policy_def no_v6_policy)

section \<open>TPROXY\<close>

text \<open>Rules that only set one mark: it is set when one of them holds.\<close>

lemma run_chain_marks:
  assumes "list_all (\<lambda>r. snd r = SetMark m) rs"
    and "list_all (\<lambda>r. \<forall>mk. list_all (h mk) (fst r) = g r) rs"
  shows "run_chain h rs mk = (if list_ex g rs then Some m else mk, None)"
  using assms
proof (induction rs arbitrary: mk)
  case (Cons r rs)
  then show ?case
    by (cases r) simp
qed simp

lemma mark_holds:
  "list_all (\<lambda>r. \<forall>mk. list_all (fw_holds inn a p mk) (fst r) = list_all (fw_holds inn a p None) (fst r))
     (subnet_rules act a @ dns_rules act' a)"
proof -
  have "list_all (\<lambda>r. \<forall>mk. list_all (fw_holds inn a p mk) (fst r) = list_all (fw_holds inn a p None) (fst r)) (subnet_rules act a)"
    by (simp add: subnet_rules_def list.pred_map comp_def subnet_match_holds list.pred_True)
  moreover have "list_all (\<lambda>r. \<forall>mk. list_all (fw_holds inn a p mk) (fst r) = list_all (fw_holds inn a p None) (fst r)) (dns_rules act' a)"
    by (auto simp: dns_rules_def)
  ultimately show ?thesis
    by simp
qed

lemma mark_run:
  "run_chain (fw_holds inn a p) (subnet_rules (\<lambda>_. SetMark m) a @ dns_rules (\<lambda>_. SetMark m) a) None =
     (if captured inn a p \<or> to_dns inn a p then Some m else None, None)"
proof -
  have "list_all (\<lambda>r. snd r = SetMark m) (subnet_rules (\<lambda>_. SetMark m) a @ dns_rules (\<lambda>_. SetMark m) a)"
    by (simp add: group_actions)
  from run_chain_marks [OF this mark_holds] show ?thesis
    by (simp add: subnet_ex dns_ex)
qed

lemma tproxy_output_run:
  "run_chain (fw_holds inn a p) (tproxy_output m a) None =
     (if fw_policy inn a p = Deliver then None else Some m,
      if pk_local p \<or> pk_bypass p \<or> excluded inn a p then Some Return else None)"
proof -
  have pre: "run_chain (fw_holds inn a p) (local_rules @ exclude_rules a) None =
      (None, if pk_local p \<or> pk_bypass p \<or> excluded inn a p then Some Return else None)"
    by (simp add: run_chain_first local_act exclude_act)
  have "tproxy_output m a = (local_rules @ exclude_rules a) @ subnet_rules (\<lambda>_. SetMark m) a @ dns_rules (\<lambda>_. SetMark m) a"
    by (simp add: tproxy_output_def)
  then show ?thesis
    by (simp only: run_chain_append [of _ "local_rules @ exclude_rules a"] pre) (simp add: mark_run fw_policy_def)
qed

lemma family_rules_act:
  "list_all (\<lambda>r. \<exists>f. snd r = act f) rs \<Longrightarrow> (\<And>f. fate_of (Some (act f)) = x) \<Longrightarrow>
   first_act h rs \<noteq> None \<longleftrightarrow> list_ex (\<lambda>r. list_all (h None) (fst r)) rs"
  "list_all (\<lambda>r. \<exists>f. snd r = act f) rs \<Longrightarrow> (\<And>f. fate_of (Some (act f)) = x) \<Longrightarrow>
   first_act h rs \<noteq> None \<Longrightarrow> fate_of (first_act h rs) = x"
  by (induction rs) auto

lemma tproxy_acts:
  defines "acts \<equiv> \<lambda>n m f. TProxyTo f n m"
  shows "first_act (fw_holds inn a p) (subnet_rules (acts n m) a) \<noteq> None \<longleftrightarrow> captured inn a p"
    and "captured inn a p \<Longrightarrow> fate_of (first_act (fw_holds inn a p) (subnet_rules (acts n m) a)) = Divert n"
    and "first_act (fw_holds inn a p) (dns_rules (acts n m) a) \<noteq> None \<longleftrightarrow> to_dns inn a p"
    and "to_dns inn a p \<Longrightarrow> fate_of (first_act (fw_holds inn a p) (dns_rules (acts n m) a)) = Divert n"
proof -
  have s: "list_all (\<lambda>r. \<exists>f. snd r = acts n m f) (subnet_rules (acts n m) a)"
    and d: "list_all (\<lambda>r. \<exists>f. snd r = acts n m f) (dns_rules (acts n m) a)"
    by (auto simp: subnet_rules_def dns_rules_def list_all_iff)
  have f: "\<And>f. fate_of (Some (acts n m f)) = Divert n"
    by (simp add: acts_def)
  show "first_act (fw_holds inn a p) (subnet_rules (acts n m) a) \<noteq> None \<longleftrightarrow> captured inn a p"
    by (simp only: family_rules_act(1) [OF s f] subnet_ex)
  then show "captured inn a p \<Longrightarrow> fate_of (first_act (fw_holds inn a p) (subnet_rules (acts n m) a)) = Divert n"
    by (intro family_rules_act(2) [OF s f]) simp
  show "first_act (fw_holds inn a p) (dns_rules (acts n m) a) \<noteq> None \<longleftrightarrow> to_dns inn a p"
    by (simp only: family_rules_act(1) [OF d f] dns_ex)
  then show "to_dns inn a p \<Longrightarrow> fate_of (first_act (fw_holds inn a p) (dns_rules (acts n m) a)) = Divert n"
    by (intro family_rules_act(2) [OF d f]) simp
qed

lemma no_marks_tproxy [simp]:
  "no_marks (subnet_rules (\<lambda>f. TProxyTo f n m) a)" "no_marks (dns_rules (\<lambda>f. TProxyTo f n m) a)"
  by (auto simp: no_marks_def subnet_rules_def dns_rules_def list_all_iff)

lemma tproxy_prerouting_run:
  "fate_of (snd (run_chain (fw_holds inn a p) (tproxy_prerouting m a) None)) =
     (if excluded inn a p then Deliver
      else if captured inn a p then Divert (sa_proxyPort a)
      else if to_dns inn a p then Divert (sa_dnsPort a) else Deliver)"
  using tproxy_acts [of inn a p "sa_proxyPort a" m] tproxy_acts [of inn a p "sa_dnsPort a" m]
  by (auto simp: run_chain_first tproxy_prerouting_def exclude_act split: option.splits)

text \<open>
  C25: The two chains of the TPROXY method together carry out the policy: the output chain marks
  exactly the packets the policy diverts, and the prerouting chain, where the policy routing brings
  the marked ones, delivers each to the port the policy names.
\<close>

theorem tproxy_policy:
  "fst (run_chain (fw_holds inn a p) (tproxy_output m a) None) = (if fw_policy inn a p = Deliver then None else Some m) \<and>
   (fw_policy inn a p = Deliver \<or>
    fate_of (snd (run_chain (fw_holds inn a p) (tproxy_prerouting m a) None)) = fw_policy inn a p)"
  by (auto simp: tproxy_output_run tproxy_prerouting_run fw_policy_def)

text \<open>
  No method takes UDP other than DNS to the proxy: the output chain of the TPROXY method, the one
  that claims the UDP feature, leaves every UDP packet to a port other than 53 unmarked. The flow
  table of \<^verbatim>\<open>ListenUDPTProxy\<close> is then never reached by what the rules of this host divert.
\<close>

lemma tproxy_udp_not_diverted:
  assumes "pk_proto p = PfUdp" "pk_dport p \<noteq> 53"
  shows "FeatureUDP \<in> set (SupportedFeatures MTproxy) \<and>
    fst (run_chain (fw_holds inn a p) (tproxy_output m a) None) = None \<and>
    fate_of (snd (run_chain (fw_holds inn a p) (tproxy_prerouting m a) None)) = Deliver"
  using assms by (simp add: tproxy_output_run tproxy_prerouting_run fw_policy_def captured_def to_dns_def)

text \<open>The commands of the policy routing name IPv6 only when there are IPv6 subnets.\<close>

lemma policy_route_family:
  "c \<in> set (snd (policy_route ok [] net mark tbl)) \<Longrightarrow> c ! 1 = ''rule'' \<or> c ! 1 = ''route''"
  by (auto simp: policy_route_def Let_def split: if_splits)

lemma routing_without_v6:
  assumes "v6Subnets a = []" "c \<in> set (snd (tproxy_routing ok cfg a))"
  shows "c ! 1 \<noteq> ''-6''"
proof -
  have "c \<in> set (snd (policy_route ok [] ''0.0.0.0/0'' (itoa (tp_FWMark cfg)) (itoa (tp_RouteTable cfg))))"
    using assms by (auto simp: tproxy_routing_def Let_def split: prod.splits bool.splits)
  then show ?thesis
    using policy_route_family by fastforce
qed

text \<open>
  With IPv6 name servers but no IPv6 subnet, the TPROXY method marks their DNS packets, but
  installs no IPv6 routing rule that would send a marked packet to the proxy: whatever the commands
  return, none of those it runs for the routing is an \<^verbatim>\<open>ip -6\<close> command. The queries the policy
  diverts leave the host unproxied.
\<close>

lemma tproxy_dns6_unrouted:
  assumes "v6Subnets a = []" "pk_fam p = Fam6" "to_dns inn a p" "fw_policy inn a p = Divert (sa_dnsPort a)"
  shows "fst (run_chain (fw_holds inn a p) (tproxy_output m a) None) = Some m \<and>
    has_v6 a \<and> (\<forall>c. c \<in> set (snd (tproxy_routing ok cfg a)) \<longrightarrow> c ! 1 \<noteq> ''-6'')"
proof -
  have "has_v6 a"
    using assms(2,3) by (cases "v6DNS a") (auto simp: has_v6_def to_dns_def)
  then show ?thesis
    using assms routing_without_v6 by (auto simp: tproxy_output_run)
qed

section \<open>Blocking IPv6 and disabling DNS\<close>

text \<open>
  With \<^verbatim>\<open>--no-ipv6\<close> no IPv6 packet leaves except to loopback, link-local and multicast
  addresses: the filter chain of the nftables and iptables methods refuses every other one, and never
  an IPv4 packet.
\<close>

lemma block_ipv6_refuses:
  "fate_of (snd (run_chain (fw_holds inn a p) block_ipv6_rules mk)) =
     (if pk_fam p = Fam6 \<and> \<not> inn ''::1/128'' (pk_dst p) \<and> \<not> inn ''fe80::/10'' (pk_dst p) \<and> \<not> inn ''ff00::/8'' (pk_dst p)
      then Refuse else Deliver)"
  by (simp add: block_ipv6_rules_def)

text \<open>
  \<^verbatim>\<open>DisableDNS\<close>, run when the tunnel reconnects, leaves what happens to every TCP packet as it
  was, so that no TCP traffic leaks, and lets all UDP traffic through.
\<close>

lemma disable_dns_policy:
  "fw_policy inn (without_dns a) p = (if pk_proto p = PfTcp then fw_policy inn a p else Deliver)"
  by (cases "pk_proto p")
    (simp_all add: fw_policy_def excluded_def captured_def in_subnets_def to_dns_def without_dns_def)

section \<open>pf\<close>

definition in_range :: "(int \<times> int) option \<Rightarrow> int \<Rightarrow> bool" where
  "in_range r n = (case r of None \<Rightarrow> True | Some (lo, hi) \<Rightarrow> lo \<le> n \<and> n \<le> hi)"

definition pf_dest :: "in_net \<Rightarrow> setup_args \<Rightarrow> packet \<Rightarrow> pf_to \<Rightarrow> bool" where
  "pf_dest inn a p t =
     (case t of
        PfNet c \<Rightarrow> inn c (pk_dst p)
      | PfDns \<Rightarrow> list_ex (\<lambda>s. inn s (pk_dst p)) (if pk_fam p = Fam4 then v4DNS a else v6DNS a)
      | PfAny \<Rightarrow> True)"

definition pf_holds :: "in_net \<Rightarrow> setup_args \<Rightarrow> packet \<Rightarrow> pf_filter \<Rightarrow> bool" where
  "pf_holds inn a p r \<longleftrightarrow>
     pf_fam r = pk_fam p \<and>
     (case pf_proto r of None \<Rightarrow> True | Some x \<Rightarrow> pk_proto p = x) \<and>
     (case pf_from r of None \<Rightarrow> True | Some n \<Rightarrow> pk_sport p = n) \<and>
     (case pf_to r of None \<Rightarrow> True | Some t \<Rightarrow> pf_dest inn a p t) \<and>
     in_range (pf_ports r) (pk_dport p) \<and>
     (case pf_user r of None \<Rightarrow> True | Some Root \<Rightarrow> pk_root p | Some NotRoot \<Rightarrow> \<not> pk_root p)"

text \<open>The last rule that holds, unless one before it is quick.\<close>

fun pf_last :: "(pf_filter \<Rightarrow> bool) \<Rightarrow> pf_filter list \<Rightarrow> pf_filter option \<Rightarrow> pf_filter option" where
  "pf_last h [] best = best"
| "pf_last h (r # rs) best =
     (if h r then (if pf_quick r then Some r else pf_last h rs (Some r)) else pf_last h rs best)"

definition rdr_holds :: "in_net \<Rightarrow> setup_args \<Rightarrow> packet \<Rightarrow> pf_rdr \<Rightarrow> bool" where
  "rdr_holds inn a p r \<longleftrightarrow>
     rd_fam r = pk_fam p \<and> rd_proto r = pk_proto p \<and> \<not> (rd_proto r = PfTcp \<and> pk_srcLo p) \<and>
     pf_dest inn a p (rd_to r) \<and> in_range (rd_ports r) (pk_dport p)"

text \<open>A packet routed to lo0 meets the redirections there.\<close>

definition pf_redirect :: "in_net \<Rightarrow> setup_args \<Rightarrow> packet \<Rightarrow> fate" where
  "pf_redirect inn a p =
     (case find (rdr_holds inn a p) (pf_rdrs a) of None \<Rightarrow> Deliver | Some r \<Rightarrow> Divert (rd_port r))"

definition pf_decide :: "in_net \<Rightarrow> setup_args \<Rightarrow> packet \<Rightarrow> pf_filter option \<Rightarrow> fate" where
  "pf_decide inn a p best =
     (case best of
        None \<Rightarrow> Deliver
      | Some r \<Rightarrow> if pf_act r \<noteq> PfPass then Refuse else if pf_lo0 r then pf_redirect inn a p else Deliver)"

definition pf_fate :: "in_net \<Rightarrow> pf_method \<Rightarrow> setup_args \<Rightarrow> packet \<Rightarrow> fate" where
  "pf_fate inn m a p = pf_decide inn a p (pf_last (pf_holds inn a p) (pf_filters m a) None)"

lemma pf_last_append:
  "list_all (\<lambda>r. \<not> pf_quick r) rs \<Longrightarrow> pf_last h (rs @ ss) best = pf_last h ss (pf_last h rs best)"
  by (induction rs arbitrary: best) auto

lemma pf_last_none: "list_all (\<lambda>r. \<not> h r) rs \<Longrightarrow> pf_last h rs best = best"
  by (induction rs) auto

lemma pf_last_skip: "list_all (\<lambda>r. \<not> h r) rs \<Longrightarrow> pf_last h (rs @ ss) best = pf_last h ss best"
  by (induction rs) auto

lemma pf_last_hit:
  "list_all (\<lambda>r. \<not> pf_quick r) rs \<Longrightarrow> list_ex h rs \<Longrightarrow> \<exists>r\<in>set rs. pf_last h rs best = Some r"
proof (induction rs arbitrary: best)
  case (Cons r rs)
  show ?case
  proof (cases "list_ex h rs")
    case True
    then show ?thesis
      using Cons by auto
  next
    case False
    then have "list_all (\<lambda>r. \<not> h r) rs"
      by (induction rs) auto
    then show ?thesis
      using Cons.prems False by (simp add: pf_last_none)
  qed
qed simp

text \<open>Which subnets pf captures: without ports, all ports, also the proxy's own.\<close>

definition pf_port_ok :: "subnet_rule \<Rightarrow> int \<Rightarrow> bool" where
  "pf_port_ok s n = in_range (pf_range s) n"

abbreviation pf_routes :: "setup_args \<Rightarrow> pf_filter list" where
  "pf_routes a \<equiv> map (pf_route_subnet Fam4) (v4Subnets a) @ map (pf_route_subnet Fam6) (v6Subnets a)"

abbreviation pf_excludes :: "setup_args \<Rightarrow> pf_filter list" where
  "pf_excludes a \<equiv> map (pf_exclude Fam4) (v4Excludes a) @ map (pf_exclude Fam6) (v6Excludes a)"

lemma pf_route_holds:
  "pf_holds inn a p (pf_route_subnet f s) \<longleftrightarrow>
     pk_fam p = f \<and> pk_proto p = PfTcp \<and> inn (sn_CIDR s) (pk_dst p) \<and> pf_port_ok s (pk_dport p) \<and> \<not> pk_root p"
  by (auto simp: pf_holds_def pf_route_subnet_def pf_plain_def pf_dest_def pf_port_ok_def)

lemma pf_exclude_holds:
  "pf_holds inn a p (pf_exclude f e) \<longleftrightarrow> pk_fam p = f \<and> pk_proto p = PfTcp \<and> inn e (pk_dst p)"
  by (auto simp: pf_holds_def pf_exclude_def pf_plain_def pf_dest_def in_range_def)

lemma pf_routes_ex:
  "list_ex (pf_holds inn a p) (pf_routes a) \<longleftrightarrow>
     pk_proto p = PfTcp \<and> \<not> pk_root p \<and> in_subnets pf_port_ok inn a p"
  unfolding v4Subnets_def v6Subnets_def SplitByFamily_def fst_conv snd_conv list_ex_by_family in_subnets_def
  by (cases "pk_proto p = PfTcp \<and> \<not> pk_root p")
    (auto simp: pf_route_holds fam_of_def intro!: arg_cong [where f = "\<lambda>P. list_ex P _"])

lemma pf_excludes_ex:
  "list_ex (pf_holds inn a p) (pf_excludes a) \<longleftrightarrow> pk_proto p = PfTcp \<and> excluded inn a p"
  unfolding v4Excludes_def v6Excludes_def SplitExcludesByFamily_def fst_conv snd_conv list_ex_by_family excluded_def
  by (cases "pk_proto p = PfTcp")
    (auto simp: pf_exclude_holds fam_of_def intro!: arg_cong [where f = "\<lambda>P. list_ex P _"])

text \<open>The redirections on lo0.\<close>

lemma pf_rdrs_port:
  "r \<in> set (pf_rdrs a) \<Longrightarrow> rd_port r = (if rd_proto r = PfTcp then sa_proxyPort a else sa_dnsPort a)"
  by (auto simp: pf_rdrs_def split: if_splits)

lemma pf_redirect_cases:
  "pf_redirect inn a p =
     (if list_ex (rdr_holds inn a p) (pf_rdrs a)
      then Divert (if pk_proto p = PfTcp then sa_proxyPort a else sa_dnsPort a) else Deliver)"
proof (cases "find (rdr_holds inn a p) (pf_rdrs a)")
  case None
  then have "\<not> list_ex (rdr_holds inn a p) (pf_rdrs a)"
    by (auto simp: find_None_iff list_ex_iff)
  then show ?thesis
    using None by (simp add: pf_redirect_def)
next
  case (Some r)
  then have "r \<in> set (pf_rdrs a)" "rdr_holds inn a p r"
    by (auto simp: find_Some_iff)
  then show ?thesis
    using Some pf_rdrs_port [of r a] by (auto simp: pf_redirect_def list_ex_iff rdr_holds_def)
qed

lemma pf_rdr_holds:
  "pk_proto p = PfTcp \<Longrightarrow> \<not> pk_srcLo p \<Longrightarrow>
   list_ex (rdr_holds inn a p) (pf_rdrs a) \<longleftrightarrow> in_subnets pf_port_ok inn a p"
  "pk_proto p = PfUdp \<Longrightarrow> list_ex (rdr_holds inn a p) (pf_rdrs a) \<longleftrightarrow> to_dns inn a p"
proof -
  let ?sub = "map (\<lambda>s. \<lparr>rd_fam = Fam4, rd_proto = PfTcp, rd_to = PfNet (sn_CIDR s), rd_ports = pf_range s, rd_port = sa_proxyPort a\<rparr>) (v4Subnets a) @
     map (\<lambda>s. \<lparr>rd_fam = Fam6, rd_proto = PfTcp, rd_to = PfNet (sn_CIDR s), rd_ports = pf_range s, rd_port = sa_proxyPort a\<rparr>) (v6Subnets a)"
  let ?dns = "(if sa_dnsPort a > 0 \<and> v4DNS a \<noteq> [] then [\<lparr>rd_fam = Fam4, rd_proto = PfUdp, rd_to = PfDns, rd_ports = Some (53, 53), rd_port = sa_dnsPort a\<rparr>] else []) @
     (if sa_dnsPort a > 0 \<and> v6DNS a \<noteq> [] then [\<lparr>rd_fam = Fam6, rd_proto = PfUdp, rd_to = PfDns, rd_ports = Some (53, 53), rd_port = sa_dnsPort a\<rparr>] else [])"
  have "pf_rdrs a = ?sub @ ?dns"
    by (simp add: pf_rdrs_def)
  then have all: "list_ex (rdr_holds inn a p) (pf_rdrs a) \<longleftrightarrow>
      list_ex (rdr_holds inn a p) ?sub \<or> list_ex (rdr_holds inn a p) ?dns"
    by (simp only: list_ex_append [of "rdr_holds inn a p" ?sub ?dns])
  have sub: "list_ex (rdr_holds inn a p) ?sub \<longleftrightarrow>
      pk_proto p = PfTcp \<and> \<not> pk_srcLo p \<and> in_subnets pf_port_ok inn a p"
    unfolding v4Subnets_def v6Subnets_def SplitByFamily_def fst_conv snd_conv list_ex_by_family in_subnets_def
    by (cases "pk_proto p = PfTcp \<and> \<not> pk_srcLo p")
      (auto simp: rdr_holds_def pf_dest_def pf_port_ok_def fam_of_def intro!: arg_cong [where f = "\<lambda>P. list_ex P _"])
  have dns: "list_ex (rdr_holds inn a p) ?dns \<longleftrightarrow> to_dns inn a p"
    by (cases "pk_fam p"; cases "v4DNS a"; cases "v6DNS a")
      (auto simp: rdr_holds_def pf_dest_def to_dns_def in_range_def)
  show "pk_proto p = PfTcp \<Longrightarrow> \<not> pk_srcLo p \<Longrightarrow>
      list_ex (rdr_holds inn a p) (pf_rdrs a) \<longleftrightarrow> in_subnets pf_port_ok inn a p"
    unfolding all sub dns by (auto simp: to_dns_def)
  show "pk_proto p = PfUdp \<Longrightarrow> list_ex (rdr_holds inn a p) (pf_rdrs a) \<longleftrightarrow> to_dns inn a p"
    unfolding all sub dns by auto
qed

text \<open>The rules of the other groups do not touch TCP over IPv4, nor IPv6 unless it is blocked.\<close>

abbreviation pf_dns_rules :: "bool \<Rightarrow> setup_args \<Rightarrow> pf_filter list" where
  "pf_dns_rules q a \<equiv>
     (if sa_dnsPort a > 0 \<and> v4DNS a \<noteq> [] then [pf_route_dns q Fam4] else []) @
     (if sa_dnsPort a > 0 \<and> v6DNS a \<noteq> [] then [pf_route_dns q Fam6] else [])"

lemma pf_dns_holds:
  "list_ex (pf_holds inn a p) (pf_dns_rules q a) \<longleftrightarrow> to_dns inn a p"
  by (cases "pk_fam p"; cases "v4DNS a"; cases "v6DNS a")
    (auto simp: pf_holds_def pf_route_dns_def pf_plain_def pf_dest_def to_dns_def in_range_def)

lemma not_list_ex: "\<not> list_ex P xs \<longleftrightarrow> list_all (\<lambda>x. \<not> P x) xs"
  by (induction xs) auto

lemma pf_udp_holds: "pk_proto p = PfTcp \<Longrightarrow> list_all (\<lambda>r. \<not> pf_holds inn a p r) (pf_udp_rules b a)"
  by (auto simp: pf_udp_rules_def pf_holds_def pf_udp_port_def pf_udp_root_def pf_block_udp_def pf_plain_def)

lemma pf_block6_holds: "pk_fam p = Fam4 \<Longrightarrow> list_all (\<lambda>r. \<not> pf_holds inn a p r) pf_block6_rules"
  by (auto simp: pf_block6_rules_def pf_holds_def pf_plain_def)

lemma pf_filters_groups:
  "pf_filters m a =
     pf_routes a @ pf_dns_rules (pm_blockUDP m) a @ pf_excludes a @
     (if pm_blockUDP m then pf_udp_rules (pm_allowRootUDP m) a else []) @ (if pm_blockIPv6 m then pf_block6_rules else [])"
  by (simp add: pf_filters_def)

lemma pf_slow:
  "list_all (\<lambda>r. \<not> pf_quick r) (pf_routes a)" "list_all (\<lambda>r. \<not> pf_quick r) (pf_excludes a)"
  by (auto simp: list_all_iff pf_route_subnet_def pf_exclude_def pf_plain_def)

lemma pf_groups_decide:
  "r \<in> set (pf_routes a) \<Longrightarrow> pf_decide inn a p (Some r) = pf_redirect inn a p"
  "r \<in> set (pf_excludes a) \<Longrightarrow> pf_decide inn a p (Some r) = Deliver"
  by (auto simp: pf_decide_def pf_route_subnet_def pf_exclude_def pf_plain_def)

lemma pf_tcp_fate:
  assumes tcp: "pk_proto p = PfTcp" and v6: "pm_blockIPv6 m \<Longrightarrow> pk_fam p = Fam4"
  shows "pf_fate inn m a p =
     (if \<not> pk_root p \<and> in_subnets pf_port_ok inn a p \<and> \<not> excluded inn a p then pf_redirect inn a p else Deliver)"
proof -
  let ?h = "pf_holds inn a p"
  have tl: "list_all (\<lambda>r. \<not> ?h r) ((if pm_blockUDP m then pf_udp_rules (pm_allowRootUDP m) a else []) @
      (if pm_blockIPv6 m then pf_block6_rules else []))"
    using tcp v6 by (simp add: pf_udp_holds pf_block6_holds)
  have "\<not> to_dns inn a p"
    using tcp by (simp add: to_dns_def)
  then have dns: "list_all (\<lambda>r. \<not> ?h r) (pf_dns_rules (pm_blockUDP m) a)"
    by (simp only: pf_dns_holds flip: not_list_ex) simp
  have last: "pf_last ?h (pf_filters m a) None = pf_last ?h (pf_excludes a) (pf_last ?h (pf_routes a) None)"
    unfolding pf_filters_groups
    by (simp only: pf_last_append [OF pf_slow(1)] pf_last_skip [OF dns] pf_last_append [OF pf_slow(2)] pf_last_none [OF tl])
  show ?thesis
  proof (cases "excluded inn a p")
    case True
    then have "list_ex ?h (pf_excludes a)"
      using tcp by (simp only: pf_excludes_ex)
    then obtain r' where "r' \<in> set (pf_excludes a)" "pf_last ?h (pf_excludes a) (pf_last ?h (pf_routes a) None) = Some r'"
      using pf_last_hit [OF pf_slow(2)] by blast
    then show ?thesis
      using True by (simp add: pf_fate_def last pf_groups_decide)
  next
    case False
    then have no: "list_all (\<lambda>r. \<not> ?h r) (pf_excludes a)"
      using pf_excludes_ex [of inn a p] by (simp only: flip: not_list_ex) simp
    show ?thesis
    proof (cases "\<not> pk_root p \<and> in_subnets pf_port_ok inn a p")
      case True
      then have "list_ex ?h (pf_routes a)"
        using tcp by (simp only: pf_routes_ex) simp
      then obtain r' where "r' \<in> set (pf_routes a)" "pf_last ?h (pf_routes a) None = Some r'"
        using pf_last_hit [OF pf_slow(1)] by blast
      then show ?thesis
        using True False by (simp add: pf_fate_def last pf_last_none [OF no] pf_groups_decide)
    next
      case none: False
      then have "list_all (\<lambda>r. \<not> ?h r) (pf_routes a)"
        using pf_routes_ex [of inn a p] by (simp only: flip: not_list_ex) blast
      then show ?thesis
        using none by (simp only: pf_fate_def last pf_last_none [OF no] pf_last_none) (auto simp: pf_decide_def)
    qed
  qed
qed

text \<open>
  On macOS the pf rules send a TCP connection to the proxy exactly when its subnet and port are
  captured, its destination is not excluded and it does not come from root: the later exclude rules
  override the earlier captures, the redirection on lo0 then finds the proxy port, and blocking UDP
  or, for IPv4, IPv6 does not change it.
\<close>

lemma pf_tcp_policy:
  assumes "pk_proto p = PfTcp" "\<not> pk_srcLo p" "pm_blockIPv6 m \<Longrightarrow> pk_fam p = Fam4"
  shows "pf_fate inn m a p =
    (if \<not> pk_root p \<and> in_subnets pf_port_ok inn a p \<and> \<not> excluded inn a p then Divert (sa_proxyPort a) else Deliver)"
  using assms by (simp add: pf_tcp_fate pf_redirect_cases pf_rdr_holds)

lemma pf_last_quick:
  "list_all pf_quick rs \<Longrightarrow> list_ex h rs \<Longrightarrow> \<exists>r\<in>set rs. pf_last h (rs @ ss) best = Some r"
  by (induction rs) auto

lemma pf_dns_decide:
  "r \<in> set (pf_dns_rules q a) \<Longrightarrow> pf_decide inn a p (Some r) = pf_redirect inn a p"
  by (auto simp: pf_decide_def pf_route_dns_def pf_plain_def split: if_splits)

lemma pf_dns_quick:
  "list_all (\<lambda>r. pf_quick r = q) (pf_dns_rules q a)"
  by (auto simp: pf_route_dns_def pf_plain_def)

text \<open>What the block of UDP lets through.\<close>

definition udp_allowed :: "bool \<Rightarrow> setup_args \<Rightarrow> packet \<Rightarrow> bool" where
  "udp_allowed allowRootUDP a p \<longleftrightarrow>
     (case pk_fam p of
        Fam4 \<Rightarrow> pk_sport p = 68 \<and> pk_dport p = 67 \<or> pk_dport p = 53 \<and> \<not> (sa_dnsPort a > 0 \<and> v4DNS a \<noteq> [])
      | Fam6 \<Rightarrow> pk_sport p = 546 \<and> pk_dport p = 547 \<or> pk_dport p = 53 \<and> \<not> (sa_dnsPort a > 0 \<and> v6DNS a \<noteq> [])) \<or>
     allowRootUDP \<and> pk_root p"

lemma pf_udp_last:
  assumes "pk_proto p = PfUdp"
  shows "pf_decide inn a p (pf_last (pf_holds inn a p) (pf_udp_rules b a @ ss) None) =
    (if udp_allowed b a p then Deliver else Refuse)"
  using assms
  by (cases "pk_fam p")
    (auto simp: pf_udp_rules_def pf_holds_def pf_udp_port_def pf_udp_root_def pf_block_udp_def pf_plain_def pf_decide_def
      udp_allowed_def in_range_def pf_dest_def)

text \<open>
  The pf rules for UDP: DNS to a captured server goes to the DNS port, from every user and also
  when the server is excluded; with UDP blocked, DHCP, DNS of a family that is not captured and, when
  allowed, root's packets pass, and every other UDP packet (QUIC among them) is refused; with UDP not
  blocked all of it passes.
\<close>

lemma pf_udp_policy:
  assumes udp: "pk_proto p = PfUdp" and v6: "pm_blockIPv6 m \<Longrightarrow> pk_fam p = Fam4"
  shows "pf_fate inn m a p =
    (if to_dns inn a p then Divert (sa_dnsPort a)
     else if pm_blockUDP m \<and> \<not> udp_allowed (pm_allowRootUDP m) a p then Refuse else Deliver)"
proof -
  let ?h = "pf_holds inn a p"
  let ?rest = "(if pm_blockUDP m then pf_udp_rules (pm_allowRootUDP m) a else []) @ (if pm_blockIPv6 m then pf_block6_rules else [])"
  have "\<not> list_ex ?h (pf_routes a)" "\<not> list_ex ?h (pf_excludes a)"
    unfolding pf_routes_ex pf_excludes_ex using udp by auto
  then have none: "list_all (\<lambda>r. \<not> ?h r) (pf_routes a)" "list_all (\<lambda>r. \<not> ?h r) (pf_excludes a)"
    by (simp_all only: not_list_ex)
  have b6: "list_all (\<lambda>r. \<not> ?h r) (if pm_blockIPv6 m then pf_block6_rules else [])"
    using v6 by (simp add: pf_block6_holds)
  have last: "pf_last ?h (pf_filters m a) None = pf_last ?h (pf_dns_rules (pm_blockUDP m) a @ pf_excludes a @ ?rest) None"
    unfolding pf_filters_groups by (simp only: pf_last_skip [OF none(1)])
  show ?thesis
  proof (cases "to_dns inn a p")
    case True
    then have ex: "list_ex ?h (pf_dns_rules (pm_blockUDP m) a)"
      by (simp only: pf_dns_holds)
    have "\<exists>r\<in>set (pf_dns_rules (pm_blockUDP m) a). pf_last ?h (pf_filters m a) None = Some r"
    proof (cases "pm_blockUDP m")
      case q: True
      then show ?thesis
        using pf_last_quick [OF _ ex] pf_dns_quick [of "pm_blockUDP m" a] unfolding last by (simp only: simp_thms)
    next
      case q: False
      then have "list_all (\<lambda>r. \<not> pf_quick r) (pf_dns_rules (pm_blockUDP m) a)"
        using pf_dns_quick [of "pm_blockUDP m" a] by (simp only: simp_thms)
      moreover from this have "\<exists>r\<in>set (pf_dns_rules (pm_blockUDP m) a). pf_last ?h (pf_dns_rules (pm_blockUDP m) a) None = Some r"
        using ex by (rule pf_last_hit)
      ultimately show ?thesis
        unfolding last using q b6
        by (simp only: pf_last_append pf_last_skip [OF none(2)] if_False append_Nil pf_last_none)
    qed
    then show ?thesis
      using True udp by (auto simp only: pf_fate_def pf_dns_decide pf_redirect_cases pf_rdr_holds if_True pf_proto.distinct if_False)
  next
    case False
    then have "list_all (\<lambda>r. \<not> ?h r) (pf_dns_rules (pm_blockUDP m) a)"
      by (simp only: pf_dns_holds flip: not_list_ex) simp
    then have l: "pf_last ?h (pf_filters m a) None = pf_last ?h ?rest None"
      unfolding last by (simp only: pf_last_skip none(2))
    show ?thesis
    proof (cases "pm_blockUDP m")
      case True
      then show ?thesis
        using False udp by (simp add: pf_fate_def l pf_udp_last)
    next
      case q: False
      then show ?thesis
        using False b6 by (simp only: pf_fate_def l if_False append_Nil pf_last_none) (simp add: pf_decide_def)
    qed
  qed
qed

section \<open>Instances\<close>

definition web_packet :: packet where
  "web_packet =
     \<lparr>pk_fam = Fam4, pk_proto = PfTcp, pk_dst = [1, 2, 3, 4], pk_sport = 5000, pk_dport = 443, pk_local = False,
      pk_bypass = False, pk_root = False, pk_srcLo = False\<rparr>"

definition dns6_setup :: setup_args where
  "dns6_setup =
     \<lparr>sa_subnets = [], sa_excludes = [], sa_proxyPort = 12300, sa_dnsPort = 12299,
      sa_dnsServers = [ip_string (replicate 15 0 @ [2])]\<rparr>"

lemma dns6_servers: "v6DNS dns6_setup = [ip_string (replicate 15 0 @ [2])]" "v6Subnets dns6_setup = []"
proof -
  have "is_ip (replicate 15 0 @ [2])"
    by (simp add: is_ip_def)
  then have ip: "ParseIP (ip_string (replicate 15 0 @ [2])) = Some (replicate 15 0 @ [2])"
    by (rule ParseIP_ip_string)
  have "To4 (replicate 15 0 @ [2]) = None"
    by (simp add: To4_def eval_nat_numeral)
  then show "v6DNS dns6_setup = [ip_string (replicate 15 0 @ [2])]"
    by (simp add: v6DNS_def SplitDNSByFamily_def dns6_setup_def ip)
  show "v6Subnets dns6_setup = []"
    by (simp add: v6Subnets_def SplitByFamily_def dns6_setup_def)
qed

end
