(* ===== verification/DnsProxy.thy ===== *)
theory DnsProxy
  imports RelayServer "HOL-Library.Multiset"
begin

text \<open>
  The client's DNS interceptor, \<^verbatim>\<open>internal/proxy/dns.go\<close> with its platform files, and the
  resolver connection of \<^verbatim>\<open>internal/proxy/tunnel_resolver.go\<close>. The answers of the tunnel are
  the argument \<open>dns\<close>, what \<^verbatim>\<open>client.DNSRequest\<close> returns for a query; the goroutines that wait
  for them are the pending queries of \<open>dns_server\<close>, finished in any order.
\<close>

section \<open>Reading a query\<close>

definition dnsTypeAAAA :: u16 where "dnsTypeAAAA = 28"

text \<open>The position behind QNAME; \<open>None\<close> where a compression pointer stops the walk.\<close>

function qname_end :: "bytes \<Rightarrow> nat \<Rightarrow> nat option" where
  "qname_end msg pos =
     (if pos < length msg then
        let l = msg ! pos in
        if l = 0 then Some (pos + 1)
        else if l AND 0xc0 \<noteq> 0 then None
        else qname_end msg (pos + 1 + unat l)
      else Some pos)"
  by pat_completeness auto
termination
  by (relation "measure (\<lambda>(msg, pos). length msg - pos)") auto

declare qname_end.simps [simp del]

definition be16_of :: "bytes \<Rightarrow> nat \<Rightarrow> u16" where
  "be16_of b i = get_be16 (b ! i) (b ! (i + 1))"

definition isAAAAQuery :: "bytes \<Rightarrow> bool" where
  "isAAAAQuery msg =
     (if length msg < 12 then False
      else if be16_of msg 2 AND 0x8000 \<noteq> 0 then False
      else if be16_of msg 4 \<noteq> 1 then False
      else
        (case qname_end msg 12 of
           None \<Rightarrow> False
         | Some pos \<Rightarrow> if pos + 4 > length msg then False else be16_of msg pos = dnsTypeAAAA))"

section \<open>Building a reply\<close>

text \<open>\<^verbatim>\<open>binary.BigEndian.PutUint16(b[i:i+2], w)\<close>.\<close>

definition put16_at :: "bytes \<Rightarrow> nat \<Rightarrow> u16 \<Rightarrow> bytes" where
  "put16_at b i w = b[i := ucast (drop_bit 8 w), i + 1 := ucast w]"

definition buildEmptyNoError :: "bytes \<Rightarrow> bytes option" where
  "buildEmptyNoError query =
     (if length query < 12 then None
      else
        (case qname_end query 12 of
           None \<Rightarrow> None
         | Some pos \<Rightarrow>
             if pos + 4 > length query then None
             else
               let qend = pos + 4;
                   resp = take qend query;
                   flags = be16_of query 2;
                   opcode = flags AND 0x7800;
                   rd = flags AND 0x0100;
                   resp = put16_at resp 2 (0x8080 OR opcode OR rd);
                   resp = put16_at resp 6 0;
                   resp = put16_at resp 8 0;
                   resp = put16_at resp 10 0
               in Some resp))"

definition BuildDNSServFail :: "bytes \<Rightarrow> bytes option" where
  "BuildDNSServFail query =
     (if length query < 12 then None
      else
        let resp = take 2 query @ replicate 10 0;
            opcode = be16_of query 2 AND 0x7800
        in Some (put16_at resp 2 (0x8002 OR opcode)))"

section \<open>The interceptor\<close>

text \<open>
  \<open>dn_pending\<close> holds a query and its sender for every goroutine that has not finished,
  \<open>dn_sent\<close> the datagrams written, oldest first.
\<close>

record 'a dns_server =
  dn_pending :: "(bytes \<times> 'a) list"
  dn_sent :: "(bytes \<times> 'a) list"
  dn_meters :: "meters option"

definition dns_start :: "meters option \<Rightarrow> 'a dns_server" where
  "dns_start counters = \<lparr>dn_pending = [], dn_sent = [], dn_meters = counters\<rparr>"

definition write_to :: "bytes option \<Rightarrow> 'a \<Rightarrow> 'a dns_server \<Rightarrow> 'a dns_server" where
  "write_to reply src s =
     (case reply of Some r \<Rightarrow> s\<lparr>dn_sent := dn_sent s @ [(r, src)]\<rparr> | None \<Rightarrow> s)"

text \<open>One datagram in the loop of \<^verbatim>\<open>ServeDNS\<close>.\<close>

definition dns_arrive :: "bool \<Rightarrow> int \<Rightarrow> bytes \<Rightarrow> 'a \<Rightarrow> 'a dns_server \<Rightarrow> 'a dns_server" where
  "dns_arrive FilterAAAA now query src s =
     (let s = s\<lparr>dn_meters := map_option (AddDNS now) (dn_meters s)\<rparr> in
      if FilterAAAA \<and> isAAAAQuery query then write_to (buildEmptyNoError query) src s
      else s\<lparr>dn_pending := dn_pending s @ [(query, src)]\<rparr>)"

text \<open>The end of a goroutine, with what the tunnel answered.\<close>

definition answer_of :: "(bytes \<Rightarrow> error + bytes) \<Rightarrow> bytes \<Rightarrow> bytes option" where
  "answer_of dns q = (case dns q of Inl err \<Rightarrow> BuildDNSServFail q | Inr resp \<Rightarrow> Some resp)"

inductive serve_dns ::
    "bool \<Rightarrow> (bytes \<Rightarrow> error + bytes) \<Rightarrow> (bytes \<times> 'a) list \<Rightarrow> 'a dns_server \<Rightarrow> (bytes \<times> 'a) list \<Rightarrow> 'a dns_server \<Rightarrow> bool"
  for filt :: bool and dns :: "bytes \<Rightarrow> error + bytes"
  where
    arrive: "serve_dns filt dns ((q, src) # input) s input (dns_arrive filt now q src s)"
  | finish: "dn_pending s = before @ (q, src) # after \<Longrightarrow>
      serve_dns filt dns input s input
        (write_to (answer_of dns q) src (s\<lparr>dn_pending := before @ after\<rparr>))"

text \<open>Runs of the interceptor from a list of datagrams still to come.\<close>

inductive dns_run ::
    "bool \<Rightarrow> (bytes \<Rightarrow> error + bytes) \<Rightarrow> (bytes \<times> 'a) list \<Rightarrow> 'a dns_server \<Rightarrow> (bytes \<times> 'a) list \<Rightarrow> 'a dns_server \<Rightarrow> bool"
  for filt dns
  where
    stop: "dns_run filt dns input s input s"
  | step: "serve_dns filt dns input s input1 s1 \<Longrightarrow> dns_run filt dns input1 s1 input2 s2 \<Longrightarrow>
      dns_run filt dns input s input2 s2"

section \<open>The servers to intercept\<close>

text \<open>Linux and Windows ask no tool; macOS reads the output of \<^verbatim>\<open>scutil --dns\<close>.\<close>

definition scutil_server :: "string \<Rightarrow> string option" where
  "scutil_server line =
     (let line = trim_space line in
      if has_prefix line ''nameserver['' then
        (case cut_sub '' : '' line of
           None \<Rightarrow> None
         | Some (_, value) \<Rightarrow>
             let ip = trim_space value in if ParseIP ip \<noteq> None then Some ip else None)
      else None)"

fun detect_loop :: "string list \<Rightarrow> string list \<Rightarrow> string list" where
  "detect_loop servers [] = servers"
| "detect_loop servers (line # ls) =
     (case scutil_server line of
        Some ip \<Rightarrow> if ip \<in> set servers then detect_loop servers ls else detect_loop (servers @ [ip]) ls
      | None \<Rightarrow> detect_loop servers ls)"

definition detectDNSPlatform :: "string option \<Rightarrow> string list" where
  "detectDNSPlatform scutil =
     (case scutil of None \<Rightarrow> [] | Some out \<Rightarrow> detect_loop [] (split_on (CHR 0x0A) out))"

definition local_nameserver :: "string \<Rightarrow> string list" where
  "local_nameserver line =
     (if length line > 11 \<and> take 11 line = ''nameserver '' then
        let ip = trim_space (drop 11 line) in if ParseIP ip \<noteq> None then [ip] else []
      else [])"

definition parseResolvConf :: "string option \<Rightarrow> string list" where
  "parseResolvConf file =
     (case file of None \<Rightarrow> [] | Some data \<Rightarrow> concat (map local_nameserver (split_on (CHR 0x0A) data)))"

definition DetectDNSServers :: "string list \<Rightarrow> string option \<Rightarrow> string list" where
  "DetectDNSServers platform resolv =
     (let servers = platform;
          servers = (if servers = [] then parseResolvConf resolv else servers)
      in if servers = [] then [''8.8.8.8'', ''8.8.4.4''] else servers)"

section \<open>The resolver connection\<close>

record shim_conn =
  sh_in :: bytes
  sh_out :: bytes

text \<open>The loop of \<^verbatim>\<open>dnsShimConn.Write\<close> over the buffered bytes.\<close>

function shim_loop :: "(bytes \<Rightarrow> error + bytes) \<Rightarrow> shim_conn \<Rightarrow> error option \<times> shim_conn" where
  "shim_loop dns c =
     (if length (sh_in c) < 2 then (None, c)
      else
        let n = unat (be16_of (sh_in c) 0) in
        if length (sh_in c) < 2 + n then (None, c)
        else
          let query = take n (drop 2 (sh_in c));
              c = c\<lparr>sh_in := drop n (drop 2 (sh_in c))\<rparr>
          in (case dns query of
                Inl err \<Rightarrow> (Some err, c)
              | Inr resp \<Rightarrow>
                  shim_loop dns (c\<lparr>sh_out := sh_out c @ put_be16 (word_of_nat (length resp)) @ resp\<rparr>)))"
  by pat_completeness auto
termination
  by (relation "measure (\<lambda>(dns, c). length (sh_in c))") auto

declare shim_loop.simps [simp del]

definition shim_Write :: "(bytes \<Rightarrow> error + bytes) \<Rightarrow> bytes \<Rightarrow> shim_conn \<Rightarrow> (error + nat) \<times> shim_conn" where
  "shim_Write dns p c =
     (case shim_loop dns (c\<lparr>sh_in := sh_in c @ p\<rparr>) of
        (Some err, c') \<Rightarrow> (Inl err, c')
      | (None, c') \<Rightarrow> (Inr (length p), c'))"

definition shim_Read :: "nat \<Rightarrow> shim_conn \<Rightarrow> (error + bytes) \<times> shim_conn" where
  "shim_Read n c =
     (if sh_out c = [] then (Inl EOF, c)
      else (Inr (take n (sh_out c)), c\<lparr>sh_out := drop n (sh_out c)\<rparr>))"

section \<open>The AAAA short cut\<close>

text \<open>A query with one question, as RFC 1035 lays it out.\<close>

definition qname :: "bytes list \<Rightarrow> bytes" where
  "qname labels = concat (map (\<lambda>l. word_of_nat (length l) # l) labels) @ [0]"

definition dns_query :: "u16 \<Rightarrow> u16 \<Rightarrow> bytes \<Rightarrow> bytes list \<Rightarrow> u16 \<Rightarrow> u16 \<Rightarrow> bytes \<Rightarrow> bytes" where
  "dns_query xid flags counts labels qtype qclass rest =
     put_be16 xid @ put_be16 flags @ put_be16 1 @ counts @ qname labels @ put_be16 qtype @ put_be16 qclass @ rest"

lemma small_label: "n < 64 \<Longrightarrow> (word_of_nat n :: byte) AND 0xc0 = 0"
proof -
  have "list_all (\<lambda>n. (word_of_nat n :: byte) AND 0xc0 = 0) [0..<64]" by code_simp
  then show "n < 64 \<Longrightarrow> (word_of_nat n :: byte) AND 0xc0 = 0" by (simp add: list_all_iff)
qed

lemma label_byte: "0 < n \<Longrightarrow> n < 64 \<Longrightarrow> (word_of_nat n :: byte) \<noteq> 0 \<and> unat (word_of_nat n :: byte) = n"
  by (auto simp: unat_of_nat word_eq_iff_unsigned dest: arg_cong [of _ _ unat])

lemma qname_end_labels:
  "\<forall>l\<in>set labels. 0 < length l \<and> length l < 64 \<Longrightarrow>
     qname_end (pre @ qname labels @ rest) (length pre) = Some (length pre + length (qname labels))"
proof (induction labels arbitrary: pre)
  case Nil
  then show ?case by (subst qname_end.simps) (simp add: qname_def)
next
  case (Cons l labels)
  have b: "(word_of_nat (length l) :: byte) \<noteq> 0" "unat (word_of_nat (length l) :: byte) = length l"
    "(word_of_nat (length l) :: byte) AND 0xc0 = 0"
    using Cons.prems label_byte [of "length l"] small_label [of "length l"] by auto
  have "qname_end (pre @ qname (l # labels) @ rest) (length pre) =
      qname_end (pre @ qname (l # labels) @ rest) (length pre + 1 + length l)"
    by (subst qname_end.simps) (simp add: qname_def b Let_def)
  also have "\<dots> = qname_end ((pre @ word_of_nat (length l) # l) @ qname labels @ rest)
      (length (pre @ word_of_nat (length l) # l))"
    by (simp add: qname_def)
  also have "\<dots> = Some (length pre + length (qname (l # labels)))"
    using Cons.prems by (subst Cons.IH) (simp_all add: qname_def)
  finally show ?case .
qed

lemma be16_of_append: "length pre = i \<Longrightarrow> be16_of (pre @ put_be16 w @ rest) i = w"
  by (simp add: be16_of_def put_be16_def nth_append)

lemma put16_at_append: "length pre = i \<Longrightarrow> put16_at (pre @ a # b # rest) i w = pre @ put_be16 w @ rest"
  by (simp add: put16_at_def put_be16_def list_update_append)

lemma query_fields:
  assumes "length counts = 6" "\<forall>l\<in>set labels. 0 < length l \<and> length l < 64"
  shows "be16_of (dns_query xid flags counts labels qtype qclass rest) 2 = flags"
    "be16_of (dns_query xid flags counts labels qtype qclass rest) 4 = 1"
    "qname_end (dns_query xid flags counts labels qtype qclass rest) 12 = Some (12 + length (qname labels))"
    "be16_of (dns_query xid flags counts labels qtype qclass rest) (12 + length (qname labels)) = qtype"
    "length (dns_query xid flags counts labels qtype qclass rest) = 16 + length (qname labels) + length rest"
proof -
  let ?q = "dns_query xid flags counts labels qtype qclass rest"
  let ?h = "put_be16 xid @ put_be16 flags @ put_be16 1 @ counts"
  show "be16_of ?q 2 = flags"
    using be16_of_append [of "put_be16 xid" 2] by (simp add: dns_query_def)
  show "be16_of ?q 4 = 1"
    using be16_of_append [of "put_be16 xid @ put_be16 flags" 4] by (simp add: dns_query_def)
  show "qname_end ?q 12 = Some (12 + length (qname labels))"
    using qname_end_labels [OF assms(2), of ?h "put_be16 qtype @ put_be16 qclass @ rest"] assms(1)
    by (simp add: dns_query_def)
  show "be16_of ?q (12 + length (qname labels)) = qtype"
    using be16_of_append [of "?h @ qname labels" "12 + length (qname labels)"] assms(1)
    by (simp add: dns_query_def)
  show "length ?q = 16 + length (qname labels) + length rest"
    using assms(1) by (simp add: dns_query_def)
qed

text \<open>
  The AAAA short cut. A standard query with one question is taken for an AAAA query exactly
  when its type is 28, whatever stands behind the question; the reply has the identifier of the
  query, its opcode and recursion bit, no error, the question alone and no record.
\<close>

lemma aaaa_short_cut:
  assumes "length counts = 6" "\<forall>l\<in>set labels. 0 < length l \<and> length l < 64" "flags AND 0x8000 = 0"
  shows "(isAAAAQuery (dns_query xid flags counts labels qtype qclass rest) \<longleftrightarrow> qtype = 28) \<and>
    buildEmptyNoError (dns_query xid flags counts labels qtype qclass rest) =
      Some (dns_query xid (0x8080 OR (flags AND 0x7800) OR (flags AND 0x0100)) (replicate 6 0) labels qtype qclass [])"
proof
  let ?q = "dns_query xid flags counts labels qtype qclass rest"
  note f = query_fields [OF assms(1,2), of xid flags qtype qclass rest]
  show "isAAAAQuery ?q \<longleftrightarrow> qtype = 28"
    using assms(3) by (simp add: isAAAAQuery_def f dnsTypeAAAA_def)
  obtain c0 c1 c2 c3 c4 c5 where c: "counts = [c0, c1, c2, c3, c4, c5]"
    using assms(1) by (auto simp: length_Suc_conv numeral_eq_Suc)
  define tail where "tail = qname labels @ put_be16 qtype @ put_be16 qclass"
  have "take (12 + length (qname labels) + 4) ?q =
      put_be16 xid @ put_be16 flags @ put_be16 1 @ counts @ tail"
    using append_eq_conv_conj [of "put_be16 xid @ put_be16 flags @ put_be16 1 @ counts @ tail" rest ?q] assms(1)
    by (simp add: dns_query_def tail_def add.commute)
  then have t: "take (12 + length (qname labels) + 4) ?q =
      put_be16 xid @ ucast (drop_bit 8 flags) # ucast flags # put_be16 1 @ c0 # c1 # c2 # c3 # c4 # c5 # tail"
    by (simp add: c put_be16_def)
  note put = put16_at_append [of "put_be16 xid" 2] put16_at_append [of "put_be16 xid @ v @ put_be16 1" 6 for v]
    put16_at_append [of "put_be16 xid @ v @ put_be16 1 @ put_be16 0" 8 for v]
    put16_at_append [of "put_be16 xid @ v @ put_be16 1 @ put_be16 0 @ put_be16 0" 10 for v]
  have z: "put_be16 0 @ put_be16 0 @ put_be16 0 @ tail = replicate 6 0 @ tail"
    by (simp add: put_be16_def numeral_eq_Suc)
  show "buildEmptyNoError ?q =
      Some (dns_query xid (0x8080 OR (flags AND 0x7800) OR (flags AND 0x0100)) (replicate 6 0) labels qtype qclass [])"
    unfolding buildEmptyNoError_def f Let_def
    using put z t by (simp add: dns_query_def flip: tail_def)
qed

section \<open>Every query is answered once\<close>

text \<open>What a query is to be answered with, whatever else goes on.\<close>

definition reply_for :: "bool \<Rightarrow> (bytes \<Rightarrow> error + bytes) \<Rightarrow> bytes \<times> 'a \<Rightarrow> (bytes \<times> 'a) list" where
  "reply_for filt dns x =
     (case (if filt \<and> isAAAAQuery (fst x) then buildEmptyNoError (fst x) else answer_of dns (fst x)) of
        Some r \<Rightarrow> [(r, snd x)] | None \<Rightarrow> [])"

definition tunnel_reply :: "(bytes \<Rightarrow> error + bytes) \<Rightarrow> bytes \<times> 'a \<Rightarrow> (bytes \<times> 'a) list" where
  "tunnel_reply dns x = (case answer_of dns (fst x) of Some r \<Rightarrow> [(r, snd x)] | None \<Rightarrow> [])"

definition dns_balance ::
    "bool \<Rightarrow> (bytes \<Rightarrow> error + bytes) \<Rightarrow> (bytes \<times> 'a) list \<Rightarrow> 'a dns_server \<Rightarrow> (bytes \<times> 'a) multiset" where
  "dns_balance filt dns input s =
     mset (dn_sent s) + mset (concat (map (tunnel_reply dns) (dn_pending s)))
       + mset (concat (map (reply_for filt dns) input))"

lemma write_to_sent:
  "dn_sent (write_to r src s) = dn_sent s @ (case r of Some b \<Rightarrow> [(b, src)] | None \<Rightarrow> [])"
  "dn_pending (write_to r src s) = dn_pending s"
  by (simp_all add: write_to_def split: option.split)

lemma dns_balance_step:
  "serve_dns filt dns input s input' s' \<Longrightarrow> dns_balance filt dns input' s' = dns_balance filt dns input s"
proof (induction rule: serve_dns.induct)
  case (arrive q src input s now)
  then show ?case
    by (simp add: dns_balance_def dns_arrive_def reply_for_def tunnel_reply_def write_to_sent Let_def ac_simps
        split: option.split)
next
  case (finish s before q src after input)
  then show ?case
    by (simp add: dns_balance_def write_to_sent tunnel_reply_def ac_simps split: option.split)
qed

lemma dns_balance_run:
  "dns_run filt dns input s input' s' \<Longrightarrow> dns_balance filt dns input' s' = dns_balance filt dns input s"
  by (induction rule: dns_run.induct) (simp_all add: dns_balance_step)


text \<open>A run in which the second query is answered first.\<close>

definition ex_query :: "byte \<Rightarrow> bytes" where
  "ex_query i = i # replicate 11 0"


section \<open>The resolver connection and its chunks\<close>

definition more_in :: "bytes \<Rightarrow> shim_conn \<Rightarrow> shim_conn" where
  "more_in p c = c\<lparr>sh_in := sh_in c @ p\<rparr>"

lemma shim_swap: "c\<lparr>sh_in := a, sh_out := b\<rparr> = c\<lparr>sh_out := b, sh_in := a\<rparr>"
  by (cases c) simp

lemma shim_loop_append:
  "shim_loop dns c = (r, c') \<Longrightarrow>
     shim_loop dns (more_in p c) = (case r of None \<Rightarrow> shim_loop dns (more_in p c') | Some e \<Rightarrow> (Some e, more_in p c'))"
proof (induction dns c arbitrary: c' rule: shim_loop.induct)
  case (1 dns c)
  define n where "n = unat (be16_of (sh_in c) 0)"
  show ?case
  proof (cases "length (sh_in c) < 2 + n \<or> length (sh_in c) < 2")
    case True
    then have "shim_loop dns c = (None, c)" by (subst shim_loop.simps) (auto simp: n_def Let_def)
    then show ?thesis using "1.prems" by simp
  next
    case False
    let ?c = "c\<lparr>sh_in := drop n (drop 2 (sh_in c))\<rparr>"
    have len: "\<not> length (sh_in c) < 2" "\<not> length (sh_in c) < 2 + n" using False by auto
    have "0 < length (sh_in c)" "1 < length (sh_in c)" using len by linarith+
    then have n': "unat (be16_of (sh_in c @ p) 0) = n" by (simp add: n_def be16_of_def nth_append)
    show ?thesis
    proof (cases "dns (take n (drop 2 (sh_in c)))")
      case (Inl e)
      then have "shim_loop dns c = (Some e, ?c)"
        using len by (subst shim_loop.simps) (simp add: n_def [symmetric] Let_def)
      moreover have "shim_loop dns (more_in p c) = (Some e, more_in p ?c)"
        using len Inl by (subst shim_loop.simps) (simp add: n' Let_def more_in_def)
      ultimately show ?thesis using "1.prems" by auto
    next
      case (Inr resp)
      let ?o = "sh_out c @ put_be16 (word_of_nat (length resp)) @ resp"
      have "shim_loop dns (?c\<lparr>sh_out := ?o\<rparr>) = (r, c')"
        using "1.prems" len Inr by (subst (asm) shim_loop.simps) (simp add: n_def [symmetric] Let_def)
      from "1.IH" [OF len(1) n_def len(2) refl refl Inr] this
      have "shim_loop dns (more_in p (?c\<lparr>sh_out := ?o\<rparr>)) =
          (case r of None \<Rightarrow> shim_loop dns (more_in p c') | Some e \<Rightarrow> (Some e, more_in p c'))"
        by simp
      moreover have "shim_loop dns (more_in p c) = shim_loop dns (more_in p (?c\<lparr>sh_out := ?o\<rparr>))"
        using len Inr by (subst shim_loop.simps) (simp add: n' Let_def more_in_def shim_swap)
      ultimately show ?thesis by simp
    qed
  qed
qed

text \<open>The writes of the resolver one after the other, up to the first error.\<close>

fun shim_writes :: "(bytes \<Rightarrow> error + bytes) \<Rightarrow> bytes list \<Rightarrow> shim_conn \<Rightarrow> error option \<times> shim_conn" where
  "shim_writes dns [] c = (None, c)"
| "shim_writes dns (p # ps) c =
     (case shim_Write dns p c of (Inl err, c') \<Rightarrow> (Some err, c') | (Inr n, c') \<Rightarrow> shim_writes dns ps c')"

lemma more_in_append: "more_in q (more_in p c) = more_in (p @ q) c"
  by (simp add: more_in_def)

lemma shim_writes_chunks:
  "shim_loop dns c = (None, c) \<Longrightarrow> shim_loop dns (more_in (concat ps) c) = (None, c') \<Longrightarrow>
     shim_writes dns ps c = (None, c')"
proof (induction ps arbitrary: c)
  case Nil
  then show ?case by (simp add: more_in_def)
next
  case (Cons p ps)
  obtain r c1 where c1: "shim_loop dns (more_in p c) = (r, c1)" by fastforce
  have "shim_loop dns (more_in (concat ps) (more_in p c)) = (None, c')"
    using Cons.prems(2) by (simp add: more_in_append)
  with shim_loop_append [OF c1, of "concat ps"] have r: "r = None"
    and rest: "shim_loop dns (more_in (concat ps) c1) = (None, c')"
    by (auto split: option.splits)
  have "shim_loop dns c1 = (None, c1)"
    using shim_loop_append [OF c1, of "[]"] c1 r by (simp add: more_in_def)
  from Cons.IH [OF this rest] show ?case using c1 r by (simp add: shim_Write_def more_in_def)
qed

definition dns_frame :: "bytes \<Rightarrow> bytes" where
  "dns_frame m = put_be16 (word_of_nat (length m)) @ m"

lemma shim_loop_frames:
  "\<forall>q\<in>set qs. length q < 65536 \<and> dns q = Inr (ans q) \<Longrightarrow>
     shim_loop dns \<lparr>sh_in = concat (map dns_frame qs), sh_out = out\<rparr> =
       (None, \<lparr>sh_in = [], sh_out = out @ concat (map (\<lambda>q. dns_frame (ans q)) qs)\<rparr>)"
proof (induction qs arbitrary: out)
  case Nil
  then show ?case by (subst shim_loop.simps) simp
next
  case (Cons q qs)
  then have q: "unat (be16_of (dns_frame q @ t) 0) = length q" for t
    by (simp add: dns_frame_def be16_of_def put_be16_def unat_u16_of_nat)
  have d: "drop 2 (dns_frame q @ t) = q @ t" for t by (simp add: dns_frame_def)
  have l: "\<not> length (dns_frame q @ t) < 2 + length q" for t by (simp add: dns_frame_def)
  show ?case
    by (subst shim_loop.simps, use Cons l in \<open>simp add: q d Let_def del: append_assoc\<close>)
      (simp add: dns_frame_def)
qed

text \<open>
  The resolver may cut its stream anywhere. However the length-framed queries are cut into
  writes, inside a length or inside a message, the connection asks the tunnel once for every
  message, in order, and what can be read afterwards is one length-framed answer for each.
\<close>

lemma shim_chunks:
  assumes "concat ps = concat (map dns_frame qs)"
    and "\<forall>q\<in>set qs. length q < 65536 \<and> dns q = Inr (ans q)"
  shows "shim_writes dns ps \<lparr>sh_in = [], sh_out = []\<rparr> =
    (None, \<lparr>sh_in = [], sh_out = concat (map (\<lambda>q. dns_frame (ans q)) qs)\<rparr>)"
proof (rule shim_writes_chunks)
  show "shim_loop dns \<lparr>sh_in = [], sh_out = []\<rparr> = (None, \<lparr>sh_in = [], sh_out = []\<rparr>)"
    by (subst shim_loop.simps) simp
  show "shim_loop dns (more_in (concat ps) \<lparr>sh_in = [], sh_out = []\<rparr>) =
      (None, \<lparr>sh_in = [], sh_out = concat (map (\<lambda>q. dns_frame (ans q)) qs)\<rparr>)"
    using shim_loop_frames [OF assms(2), of "[]"] by (simp add: more_in_def assms(1))
qed

section \<open>The detected servers\<close>

lemma DetectDNSServers_some: "DetectDNSServers platform resolv \<noteq> []"
  by (simp add: DetectDNSServers_def Let_def)

lemma detect_loop_ips:
  "\<forall>ip\<in>set servers. ParseIP ip \<noteq> None \<Longrightarrow> distinct servers \<Longrightarrow>
     distinct (detect_loop servers ls) \<and> (\<forall>ip\<in>set (detect_loop servers ls). ParseIP ip \<noteq> None)"
proof (induction servers ls rule: detect_loop.induct)
  case (2 servers line ls)
  have "scutil_server line = Some ip \<Longrightarrow> ParseIP ip \<noteq> None" for ip
    by (auto simp: scutil_server_def Let_def split: if_splits option.splits)
  with 2 show ?case by (auto split: option.split)
qed simp

text \<open>The client's reader of \<^verbatim>\<open>resolv.conf\<close> and the server's agree on plain files.\<close>

lemma parseResolvConf_server:
  assumes "\<forall>l\<in>set (split_on (CHR 0x0A) data). CHR ''#'' \<notin> set l \<and> CHR '';'' \<notin> set l \<and> trim_space l = l"
  shows "parseResolvConf (Some data) = readResolvConf (Some data)"
proof -
  have "local_nameserver l = nameserver_of_line l" if "l \<in> set (split_on (CHR 0x0A) data)" for l
  proof -
    have l: "CHR ''#'' \<notin> set l" "CHR '';'' \<notin> set l" "trim_space l = l" using assms that by auto
    have tw: "takeWhile (\<lambda>c. c \<noteq> CHR ''#'' \<and> c \<noteq> CHR '';'') l = l"
      using l(1,2) by (induction l) auto
    have e: "ParseIP [] = None" by (simp add: ParseIP_def)
    have k: "length ''nameserver '' = 11" by simp
    show ?thesis
    proof (cases "length l \<le> 11")
      case True
      then show ?thesis
        by (simp only: local_nameserver_def nameserver_of_line_def tw l(3) Let_def has_prefix_def k drop_all)
          (simp add: e trim_space_def trim_right_by_def)
    next
      case False
      then show ?thesis
        by (simp only: local_nameserver_def nameserver_of_line_def tw l(3) Let_def has_prefix_def k) simp
    qed
  qed
  then have "map local_nameserver (split_on (CHR 0x0A) data) = map nameserver_of_line (split_on (CHR 0x0A) data)"
    by simp
  then show ?thesis by (simp only: parseResolvConf_def readResolvConf_def option.case)
qed

end
