(* ===== verification/TuiSession.thy ===== *)
theory TuiSession
  imports Contracts
begin

text \<open>
  The session of the terminal interface, \<^verbatim>\<open>internal/tui/session.go\<close>: it connects, notices that the
  link dropped, reconnects and stops. Every call of \<open>Connect\<close> starts a goroutine, \<open>loop\<close>; old ones may
  still be stopping when a new one runs. The state is the session with its goroutines, each at a
  place of its code (\<open>phase\<close>); a step is what one goroutine, or a caller, does up to the end of one
  locked section. What an engine does (starting fails or gives an engine, it becomes ready, its run
  ends) are events. Engines and stop channels are known by number.
\<close>

section \<open>State\<close>

datatype status = StatusDisconnected | StatusConnecting | StatusConnected | StatusReconnecting | StatusError

definition ReconnectInterval :: int where "ReconnectInterval = 5 * 10 ^ 9"
definition countdownStep :: int where "countdownStep = 10 ^ 9"
definition maxTunnelErrors :: nat where "maxTunnelErrors = 50"

record 's sess_state =
  st_Status :: status
  st_Message :: string
  st_Spec :: "'s option"
  st_Attempt :: nat
  st_DeployReason :: string
  st_DeploySent :: int
  st_DeployTotal :: int
  st_Errors :: "(string \<times> int) list"

datatype 'r phase =
    Starting
  | Applying nat 'r
  | Waiting nat
  | Running nat bool
  | Returned nat bool "string option" bool
  | Closed nat bool "string option" bool
  | Losing string
  | Counting int nat
  | Ticking int nat
  | Finishing status string
  | Ended

record ('s, 'r) run_loop =
  rl_gen :: nat
  rl_spec :: 's
  rl_stop :: nat
  rl_ever :: bool
  rl_attempt :: nat
  rl_last :: "nat option"
  rl_phase :: "'r phase"

record ('s, 'r) session =
  ss_state :: "'s sess_state"
  ss_rules :: 'r
  ss_eng :: "nat option"
  ss_stopCh :: "nat option"
  ss_gen :: nat
  ss_stops :: "bool list"
  ss_loops :: "('s, 'r) run_loop list"
  ss_engines :: nat
  ss_applied :: "nat \<rightharpoonup> 'r"
  ss_closed :: "nat list"
  ss_released :: "nat list"
  ss_queue :: "'s sess_state list"

text \<open>\<open>ss_stops\<close> tells which stop channels are closed; \<open>ss_queue\<close> the states emitted so far.\<close>

definition idle_state :: "'s sess_state" where
  "idle_state =
     \<lparr>st_Status = StatusDisconnected, st_Message = [], st_Spec = None, st_Attempt = 0, st_DeployReason = [],
      st_DeploySent = 0, st_DeployTotal = 0, st_Errors = []\<rparr>"

definition NewSession :: "'r \<Rightarrow> ('s, 'r) session" where
  "NewSession r =
     \<lparr>ss_state = idle_state, ss_rules = r, ss_eng = None, ss_stopCh = None, ss_gen = 0, ss_stops = [], ss_loops = [],
      ss_engines = 0, ss_applied = Map.empty, ss_closed = [], ss_released = [], ss_queue = []\<rparr>"

fun active_status :: "status \<Rightarrow> bool" where
  "active_status StatusConnecting = True"
| "active_status StatusConnected = True"
| "active_status StatusReconnecting = True"
| "active_status _ = False"

definition Active :: "('s, 'r) session \<Rightarrow> bool" where
  "Active s = active_status (st_Status (ss_state s))"

definition emitState :: "('s, 'r) session \<Rightarrow> ('s, 'r) session" where
  "emitState s = s\<lparr>ss_queue := ss_queue s @ [ss_state s]\<rparr>"

definition setLocked :: "status \<Rightarrow> string \<Rightarrow> ('s, 'r) session \<Rightarrow> ('s, 'r) session" where
  "setLocked st msg s = emitState (s\<lparr>ss_state := (ss_state s)\<lparr>st_Status := st, st_Message := msg\<rparr>\<rparr>)"

definition ellipsis :: string where
  "ellipsis = [CHR 0xE2, CHR 0x80, CHR 0xA6]"

section \<open>The callers\<close>

definition SetRules :: "'r \<Rightarrow> ('s, 'r) session \<Rightarrow> ('s, 'r) session" where
  "SetRules r s =
     (let s1 = s\<lparr>ss_rules := r\<rparr> in
      case ss_eng s of None \<Rightarrow> s1 | Some e \<Rightarrow> s1\<lparr>ss_applied := (ss_applied s1)(e \<mapsto> r)\<rparr>)"

definition new_loop :: "nat \<Rightarrow> 's \<Rightarrow> nat \<Rightarrow> ('s, 'r) run_loop" where
  "new_loop g sp c =
     \<lparr>rl_gen = g, rl_spec = sp, rl_stop = c, rl_ever = False, rl_attempt = 0, rl_last = None, rl_phase = Starting\<rparr>"

definition Connect :: "'s \<Rightarrow> ('s, 'r) session \<Rightarrow> error option \<times> ('s, 'r) session" where
  "Connect sp s =
     (if Active s then (Some (Msg ''a tunnel is already running''), s)
      else
        (let gen = ss_gen s + 1; stop = length (ss_stops s);
             s1 = s\<lparr>ss_gen := gen, ss_stops := ss_stops s @ [False], ss_stopCh := Some stop,
                    ss_state := idle_state\<lparr>st_Status := StatusConnecting, st_Message := ''Starting tunnel'' @ ellipsis,
                                           st_Spec := Some sp\<rparr>\<rparr>
         in (None, (emitState s1)\<lparr>ss_loops := ss_loops s @ [new_loop gen sp stop]\<rparr>)))"

definition Disconnect :: "('s, 'r) session \<Rightarrow> ('s, 'r) session" where
  "Disconnect s =
     (let s1 = (case ss_stopCh s of
                  None \<Rightarrow> s
                | Some c \<Rightarrow> s\<lparr>ss_stops := (ss_stops s)[c := True], ss_stopCh := None\<rparr>);
          s2 = s1\<lparr>ss_gen := ss_gen s + 1\<rparr>
      in if ss_eng s \<noteq> None \<or> st_Status (ss_state s2) = StatusError then s2
         else setLocked StatusDisconnected ''Disconnected'' s2)"

definition errorKeywords :: "string list" where
  "errorKeywords =
     [''fatal:'', ''warning:'', ''connection refused'', ''connection reset'', ''no route to host'',
      ''ssh: connect to host'', ''permission denied'', ''host key verification failed'']"

text \<open>One \<^verbatim>\<open>%d\<close> of \<^verbatim>\<open>fmt.Sscanf\<close> with the rest of the text, and the format \<^verbatim>\<open>%d/%d\<close>.\<close>

definition scan_int :: "string \<Rightarrow> (int \<times> string) option" where
  "scan_int s =
     (let t = dropWhile (\<lambda>c. is_space c \<and> c \<noteq> CHR 0x0A) s;
          neg = has_prefix t ''-'';
          u = (if neg \<or> has_prefix t ''+'' then drop 1 t else t);
          ds = takeWhile is_digit u
      in case parse_int64 ((if neg then ''-'' else []) @ ds) of
           IntOk n \<Rightarrow> Some (n, dropWhile is_digit u) | _ \<Rightarrow> None)"

definition scan_progress :: "string \<Rightarrow> (int \<times> int) option" where
  "scan_progress s =
     (case scan_int s of
        Some (sent, c # r) \<Rightarrow>
          if c \<noteq> CHR ''/'' then None
          else (case scan_int r of None \<Rightarrow> None | Some (n, _) \<Rightarrow> Some (sent, n))
      | _ \<Rightarrow> None)"

definition add_error :: "string \<times> int \<Rightarrow> (string \<times> int) list \<Rightarrow> (string \<times> int) list" where
  "add_error e es = (let es' = es @ [e] in
     if length es' > maxTunnelErrors then drop (length es' - maxTunnelErrors) es' else es')"

definition observe_reason :: "string \<Rightarrow> 's sess_state \<Rightarrow> bool \<times> 's sess_state" where
  "observe_reason trimmed st =
     (if has_prefix trimmed ''deploy-reason: '' then
        (case go_fields (trim_prefix trimmed ''deploy-reason: '') of
           [] \<Rightarrow> (False, st) | r # _ \<Rightarrow> (True, st\<lparr>st_DeployReason := r\<rparr>))
      else (False, st))"

definition observe_progress :: "string \<Rightarrow> 's sess_state \<Rightarrow> bool \<times> 's sess_state" where
  "observe_progress trimmed st =
     (if has_prefix trimmed ''deploy-progress: '' then
        (case scan_progress (trim_prefix trimmed ''deploy-progress: '') of
           None \<Rightarrow> (False, st) | Some (a, b) \<Rightarrow> (True, st\<lparr>st_DeploySent := a, st_DeployTotal := b\<rparr>))
      else (False, st))"

definition observe_error :: "int \<Rightarrow> string \<Rightarrow> 's sess_state \<Rightarrow> bool \<times> 's sess_state" where
  "observe_error now line st =
     (if list_ex (contains_sub (to_lower line)) errorKeywords
      then (True, st\<lparr>st_Errors := add_error (trim_space line, now) (st_Errors st)\<rparr>) else (False, st))"

definition ObserveLog :: "int \<Rightarrow> string \<Rightarrow> ('s, 'r) session \<Rightarrow> ('s, 'r) session" where
  "ObserveLog now line s =
     (let trimmed = trim_space (trim_prefix (trim_space line) ''c :'');
          (c1, st1) = observe_reason trimmed (ss_state s);
          (c2, st2) = observe_progress trimmed st1;
          (c3, st3) = observe_error now line st2;
          s1 = s\<lparr>ss_state := st3\<rparr>
      in if c1 \<or> c2 \<or> c3 then emitState s1 else s1)"

section \<open>The goroutine\<close>

datatype loop_event =
    StartFails string
  | StartOk
  | Ready bool
  | RunEnds "string option" bool
  | SeeStop
  | Tick
  | Go

text \<open>
  \<open>RunEnds err dropped\<close> carries the error of \<^verbatim>\<open>Run\<close> and whether \<^verbatim>\<open>isReconnect\<close> accepts it; \<open>SeeStop\<close> and
  \<open>Tick\<close> are the arms of a \<^verbatim>\<open>select\<close>; \<open>Go\<close> is the next locked section.
\<close>

definition update :: "nat \<Rightarrow> status \<Rightarrow> string \<Rightarrow> nat \<Rightarrow> ('s, 'r) session \<Rightarrow> ('s, 'r) session" where
  "update g st msg attempt s =
     (if ss_gen s \<noteq> g then s
      else
        (let st1 = (ss_state s)\<lparr>st_Attempt := attempt\<rparr>;
             st2 = (if st = StatusConnected then st1\<lparr>st_DeployReason := [], st_DeploySent := 0, st_DeployTotal := 0\<rparr> else st1)
         in setLocked st msg (s\<lparr>ss_state := st2\<rparr>)))"

definition finish :: "nat \<Rightarrow> status \<Rightarrow> string \<Rightarrow> ('s, 'r) session \<Rightarrow> ('s, 'r) session" where
  "finish g st msg s =
     (if ss_gen s \<noteq> g \<and> ss_stopCh s \<noteq> None then s
      else setLocked st msg (s\<lparr>ss_state := (ss_state s)\<lparr>st_Attempt := 0\<rparr>\<rparr>))"

definition release :: "('s, 'r) run_loop \<Rightarrow> ('s, 'r) session \<Rightarrow> ('s, 'r) run_loop \<times> ('s, 'r) session" where
  "release l s =
     (case rl_last l of
        None \<Rightarrow> (l, s)
      | Some e \<Rightarrow> (l\<lparr>rl_last := None\<rparr>, s\<lparr>ss_released := ss_released s @ [e]\<rparr>))"

definition stop_closed :: "('s, 'r) run_loop \<Rightarrow> ('s, 'r) session \<Rightarrow> bool" where
  "stop_closed l s \<longleftrightarrow> ss_stops s ! rl_stop l"

definition num :: "nat \<Rightarrow> string" where "num n = itoa (int n)"

definition failed_msg :: "nat \<Rightarrow> string \<Rightarrow> string" where
  "failed_msg attempt m = ''Reconnect failed (attempt #'' @ num attempt @ ''): '' @ m"

definition start_failed :: "string \<Rightarrow> ('s, 'r) run_loop \<Rightarrow> ('s, 'r) session \<Rightarrow> ('s, 'r) run_loop \<times> ('s, 'r) session" where
  "start_failed m l s =
     (if \<not> rl_ever l then
        (case release l s of (l1, s1) \<Rightarrow> (l1\<lparr>rl_phase := Finishing StatusError m\<rparr>, s1))
      else
        (let a = rl_attempt l + 1 in
         (l\<lparr>rl_attempt := a, rl_phase := Counting ReconnectInterval (a + 1)\<rparr>,
          update (rl_gen l) StatusReconnecting (failed_msg a m) a s)))"

definition started :: "('s, 'r) run_loop \<Rightarrow> ('s, 'r) session \<Rightarrow> ('s, 'r) run_loop \<times> ('s, 'r) session" where
  "started l s =
     (let e = ss_engines s; s1 = s\<lparr>ss_engines := e + 1\<rparr> in
      if ss_gen s \<noteq> rl_gen l then
        (case release l (s1\<lparr>ss_closed := ss_closed s @ [e]\<rparr>) of (l1, s2) \<Rightarrow> (l1\<lparr>rl_phase := Ended\<rparr>, s2))
      else (l\<lparr>rl_phase := Applying e (ss_rules s)\<rparr>, s1\<lparr>ss_eng := Some e\<rparr>))"

definition ready :: "bool \<Rightarrow> nat \<Rightarrow> ('s, 'r) run_loop \<Rightarrow> ('s, 'r) session \<Rightarrow> ('s, 'r) run_loop \<times> ('s, 'r) session" where
  "ready ok e l s =
     (if ok then
        (l\<lparr>rl_last := None, rl_ever := True, rl_attempt := 0, rl_phase := Running e True\<rparr>,
         update (rl_gen l) StatusConnected ''Tunnel established'' 0 s)
      else (l\<lparr>rl_phase := Running e False\<rparr>, s))"

definition close_engine :: "nat \<Rightarrow> bool \<Rightarrow> string option \<Rightarrow> bool \<Rightarrow> ('s, 'r) run_loop \<Rightarrow> ('s, 'r) session \<Rightarrow> ('s, 'r) run_loop \<times> ('s, 'r) session" where
  "close_engine e readyNow err dropped l s =
     (l\<lparr>rl_phase := Closed e readyNow err dropped\<rparr>,
      s\<lparr>ss_closed := ss_closed s @ [e], ss_eng := (if ss_eng s = Some e then None else ss_eng s)\<rparr>)"

definition after_run :: "nat \<Rightarrow> bool \<Rightarrow> string option \<Rightarrow> bool \<Rightarrow> ('s, 'r) run_loop \<Rightarrow> ('s, 'r) session \<Rightarrow> ('s, 'r) run_loop \<times> ('s, 'r) session" where
  "after_run e readyNow err dropped l s =
     (let l1 = (if dropped then l\<lparr>rl_last := Some e\<rparr> else l) in
      if stop_closed l s then
        (case release l1 s of (l2, s2) \<Rightarrow> (l2\<lparr>rl_phase := Finishing StatusDisconnected ''Disconnected''\<rparr>, s2))
      else if \<not> rl_ever l then
        (case release l1 s of
           (l2, s2) \<Rightarrow>
             (l2\<lparr>rl_phase := Finishing StatusError
                   (case err of Some m \<Rightarrow> m | None \<Rightarrow> ''Tunnel process exited unexpectedly'')\<rparr>, s2))
      else
        (let a = rl_attempt l + 1 in
         (l1\<lparr>rl_attempt := a,
             rl_phase := Losing
               (if readyNow \<or> dropped then ''Network lost, waiting to reconnect'' @ ellipsis
                else failed_msg a (case err of Some m \<Rightarrow> m | None \<Rightarrow> ''tunnel exited''))\<rparr>, s)))"

definition count :: "int \<Rightarrow> nat \<Rightarrow> ('s, 'r) run_loop \<Rightarrow> ('s, 'r) session \<Rightarrow> ('s, 'r) run_loop \<times> ('s, 'r) session" where
  "count left attempt l s =
     (if left > 0 then
        (l\<lparr>rl_phase := Ticking left attempt\<rparr>,
         update (rl_gen l) StatusReconnecting
           (''Reconnecting in '' @ itoa ((left + 10 ^ 9 - 1) div 10 ^ 9) @ ''s (attempt #'' @ num attempt @ '')'' @ ellipsis) attempt s)
      else
        (l\<lparr>rl_phase := Starting\<rparr>,
         update (rl_gen l) StatusReconnecting (''Reconnecting now (attempt #'' @ num attempt @ '')'' @ ellipsis) attempt s))"

definition settle :: "status \<Rightarrow> string \<Rightarrow> ('s, 'r) run_loop \<Rightarrow> ('s, 'r) session \<Rightarrow> ('s, 'r) run_loop \<times> ('s, 'r) session" where
  "settle st msg l s =
     (case release l (finish (rl_gen l) st msg s) of (l1, s1) \<Rightarrow> (l1\<lparr>rl_phase := Ended\<rparr>, s1))"

fun loop_step :: "loop_event \<Rightarrow> ('s, 'r) run_loop \<Rightarrow> ('s, 'r) session \<Rightarrow> ('s, 'r) run_loop \<times> ('s, 'r) session" where
  "loop_step ev l s =
     (case (rl_phase l, ev) of
        (Starting, StartFails m) \<Rightarrow> start_failed m l s
      | (Starting, StartOk) \<Rightarrow> started l s
      | (Applying e r, Go) \<Rightarrow> (l\<lparr>rl_phase := Waiting e\<rparr>, s\<lparr>ss_applied := (ss_applied s)(e \<mapsto> r)\<rparr>)
      | (Waiting e, Ready ok) \<Rightarrow> ready ok e l s
      | (Waiting e, RunEnds err d) \<Rightarrow> (l\<lparr>rl_phase := Returned e False err d\<rparr>, s)
      | (Waiting e, SeeStop) \<Rightarrow> if stop_closed l s then (l\<lparr>rl_phase := Running e False\<rparr>, s) else (l, s)
      | (Running e r, RunEnds err d) \<Rightarrow> (l\<lparr>rl_phase := Returned e r err d\<rparr>, s)
      | (Returned e r err d, Go) \<Rightarrow> close_engine e r err d l s
      | (Closed e r err d, Go) \<Rightarrow> after_run e r err d l s
      | (Losing msg, Go) \<Rightarrow>
          (l\<lparr>rl_phase := Counting ReconnectInterval (rl_attempt l)\<rparr>,
           update (rl_gen l) StatusReconnecting msg (rl_attempt l) s)
      | (Counting left a, Go) \<Rightarrow> count left a l s
      | (Ticking left a, SeeStop) \<Rightarrow>
          if stop_closed l s then (l\<lparr>rl_phase := Finishing StatusDisconnected ''Disconnected''\<rparr>, s) else (l, s)
      | (Ticking left a, Tick) \<Rightarrow> (l\<lparr>rl_phase := Counting (left - countdownStep) a\<rparr>, s)
      | (Finishing st msg, Go) \<Rightarrow> settle st msg l s
      | _ \<Rightarrow> (l, s))"

declare loop_step.simps [simp del]

datatype ('s, 'r) sess_event =
    EvConnect 's
  | EvDisconnect
  | EvSetRules 'r
  | EvLog int string
  | EvLoop nat loop_event

fun sess_step :: "('s, 'r) session \<Rightarrow> ('s, 'r) sess_event \<Rightarrow> ('s, 'r) session" where
  "sess_step s (EvConnect sp) = snd (Connect sp s)"
| "sess_step s EvDisconnect = Disconnect s"
| "sess_step s (EvSetRules r) = SetRules r s"
| "sess_step s (EvLog now line) = ObserveLog now line s"
| "sess_step s (EvLoop i ev) =
     (if i < length (ss_loops s)
      then (case loop_step ev (ss_loops s ! i) s of (l, s1) \<Rightarrow> s1\<lparr>ss_loops := (ss_loops s)[i := l]\<rparr>)
      else s)"

section \<open>At most one engine\<close>

fun engine_of :: "'r phase \<Rightarrow> nat option" where
  "engine_of (Applying e r) = Some e"
| "engine_of (Waiting e) = Some e"
| "engine_of (Running e b) = Some e"
| "engine_of (Returned e b err d) = Some e"
| "engine_of _ = None"

text \<open>The places from which a stopped goroutine goes on to settle the state.\<close>

fun leaving :: "'r phase \<Rightarrow> bool" where
  "leaving (Closed e b err d) = True"
| "leaving (Finishing st msg) = True"
| "leaving p = (engine_of p \<noteq> None)"

abbreviation live :: "('s, 'r) run_loop \<Rightarrow> bool" where
  "live l \<equiv> rl_phase l \<noteq> Ended"

definition current :: "('s, 'r) session \<Rightarrow> ('s, 'r) run_loop \<Rightarrow> bool" where
  "current s l \<longleftrightarrow> live l \<and> rl_gen l = ss_gen s"

definition settling :: "('s, 'r) session \<Rightarrow> ('s, 'r) run_loop \<Rightarrow> bool" where
  "settling s l \<longleftrightarrow> stop_closed l s \<and> leaving (rl_phase l)"

definition loop_ok :: "('s, 'r) session \<Rightarrow> ('s, 'r) run_loop \<Rightarrow> bool" where
  "loop_ok s l \<longleftrightarrow>
     rl_gen l \<le> ss_gen s \<and> rl_stop l < length (ss_stops s) \<and>
     (current s l \<longrightarrow>
        Active s \<and> ss_stopCh s = Some (rl_stop l) \<and> \<not> stop_closed l s \<and> (engine_of (rl_phase l) = None \<longrightarrow> ss_eng s = None)) \<and>
     (live l \<and> \<not> current s l \<longrightarrow> stop_closed l s) \<and>
     (engine_of (rl_phase l) = None \<or> engine_of (rl_phase l) = ss_eng s) \<and>
     (case rl_phase l of Finishing st msg \<Rightarrow> \<not> active_status st | _ \<Rightarrow> True)"

definition holders :: "('s, 'r) session \<Rightarrow> nat set" where
  "holders s = {i. i < length (ss_loops s) \<and> engine_of (rl_phase (ss_loops s ! i)) \<noteq> None}"

definition sess_ok :: "('s, 'r) session \<Rightarrow> bool" where
  "sess_ok s \<longleftrightarrow>
     list_all (loop_ok s) (ss_loops s) \<and> distinct (map rl_gen (ss_loops s)) \<and>
     (\<forall>i\<in>holders s. \<forall>j\<in>holders s. i = j) \<and>
     (ss_eng s \<noteq> None \<longrightarrow> Active s \<and> holders s \<noteq> {}) \<and>
     (Active s \<longrightarrow> list_ex (current s) (ss_loops s) \<or> (ss_stopCh s = None \<and> list_ex (settling s) (ss_loops s)))"

lemma leaving_live: "leaving p \<Longrightarrow> p \<noteq> Ended"
  by (cases p) auto

lemma engine_leaving: "engine_of p \<noteq> None \<Longrightarrow> leaving p"
  by (cases p) auto

lemma emitState_simps [simp]:
  "ss_gen (emitState s) = ss_gen s" "ss_stopCh (emitState s) = ss_stopCh s" "ss_stops (emitState s) = ss_stops s"
  "ss_loops (emitState s) = ss_loops s" "ss_eng (emitState s) = ss_eng s" "ss_state (emitState s) = ss_state s"
  "ss_rules (emitState s) = ss_rules s" "ss_applied (emitState s) = ss_applied s" "ss_engines (emitState s) = ss_engines s"
  by (simp_all add: emitState_def)

lemma setLocked_simps [simp]:
  "ss_gen (setLocked st m s) = ss_gen s" "ss_stopCh (setLocked st m s) = ss_stopCh s"
  "ss_stops (setLocked st m s) = ss_stops s" "ss_loops (setLocked st m s) = ss_loops s"
  "ss_eng (setLocked st m s) = ss_eng s" "st_Status (ss_state (setLocked st m s)) = st"
  "ss_rules (setLocked st m s) = ss_rules s" "ss_applied (setLocked st m s) = ss_applied s"
  "ss_engines (setLocked st m s) = ss_engines s"
  by (simp_all add: setLocked_def)

lemma Active_setLocked [simp]: "Active (setLocked st m s) = active_status st"
  by (simp add: Active_def)

lemma update_simps [simp]:
  "ss_gen (update g st m a s) = ss_gen s" "ss_stopCh (update g st m a s) = ss_stopCh s"
  "ss_stops (update g st m a s) = ss_stops s" "ss_loops (update g st m a s) = ss_loops s"
  "ss_eng (update g st m a s) = ss_eng s" "ss_rules (update g st m a s) = ss_rules s"
  "ss_applied (update g st m a s) = ss_applied s" "ss_engines (update g st m a s) = ss_engines s"
  "Active (update g st m a s) = (if ss_gen s = g then active_status st else Active s)"
  by (simp_all add: update_def Let_def)

lemma finish_simps [simp]:
  "ss_gen (finish g st m s) = ss_gen s" "ss_stopCh (finish g st m s) = ss_stopCh s"
  "ss_stops (finish g st m s) = ss_stops s" "ss_loops (finish g st m s) = ss_loops s"
  "ss_eng (finish g st m s) = ss_eng s" "ss_rules (finish g st m s) = ss_rules s"
  "ss_applied (finish g st m s) = ss_applied s" "ss_engines (finish g st m s) = ss_engines s"
  "Active (finish g st m s) = (if ss_gen s \<noteq> g \<and> ss_stopCh s \<noteq> None then Active s else active_status st)"
  by (simp_all add: finish_def)

lemma release_simps [simp]:
  "ss_gen (snd (release l s)) = ss_gen s" "ss_stopCh (snd (release l s)) = ss_stopCh s"
  "ss_stops (snd (release l s)) = ss_stops s" "ss_loops (snd (release l s)) = ss_loops s"
  "ss_eng (snd (release l s)) = ss_eng s" "ss_rules (snd (release l s)) = ss_rules s"
  "ss_applied (snd (release l s)) = ss_applied s" "Active (snd (release l s)) = Active s"
  "rl_gen (fst (release l s)) = rl_gen l" "rl_stop (fst (release l s)) = rl_stop l"
  by (simp_all add: release_def Active_def split: option.split)

definition same_frame :: "('s, 'r) run_loop \<Rightarrow> ('s, 'r) session \<Rightarrow> ('s, 'r) run_loop \<times> ('s, 'r) session \<Rightarrow> bool" where
  "same_frame l s p \<longleftrightarrow>
     ss_gen (snd p) = ss_gen s \<and> ss_stopCh (snd p) = ss_stopCh s \<and> ss_stops (snd p) = ss_stops s \<and>
     ss_loops (snd p) = ss_loops s \<and> ss_rules (snd p) = ss_rules s \<and>
     rl_gen (fst p) = rl_gen l \<and> rl_stop (fst p) = rl_stop l"

lemma part_frames:
  "same_frame l s (start_failed m l s)" "same_frame l s (started l s)" "same_frame l s (ready ok e l s)"
  "same_frame l s (close_engine e b err d l s)" "same_frame l s (after_run e b err d l s)"
  "same_frame l s (count left a l s)" "same_frame l s (settle st msg l s)"
  by (simp_all add: same_frame_def start_failed_def started_def ready_def close_engine_def after_run_def count_def
      settle_def Let_def split_beta)

lemma loop_step_frame: "same_frame l s (loop_step ev l s)"
  unfolding loop_step.simps
  by (auto simp: part_frames split: phase.split loop_event.split) (auto simp: same_frame_def)

text \<open>What a step of a goroutine can do to the engine that is registered and to the activity.\<close>

definition quiet :: "('s, 'r) session \<Rightarrow> ('s, 'r) run_loop \<Rightarrow> ('s, 'r) session \<Rightarrow> ('s, 'r) run_loop \<Rightarrow> bool" where
  "quiet s l s' l' \<longleftrightarrow>
     engine_of (rl_phase l') = engine_of (rl_phase l) \<and> ss_eng s' = ss_eng s \<and> Active s' = Active s \<and>
     (live l' \<longleftrightarrow> live l) \<and> (stop_closed l s \<and> leaving (rl_phase l) \<longrightarrow> leaving (rl_phase l')) \<and>
     (case rl_phase l' of Finishing st msg \<Rightarrow> \<not> active_status st | _ \<Rightarrow> True)"

definition quits :: "('s, 'r) session \<Rightarrow> ('s, 'r) run_loop \<Rightarrow> ('s, 'r) session \<Rightarrow> ('s, 'r) run_loop \<Rightarrow> bool" where
  "quits s l s' l' \<longleftrightarrow>
     rl_phase l = Starting \<and> rl_gen l \<noteq> ss_gen s \<and> rl_phase l' = Ended \<and> ss_eng s' = ss_eng s \<and> Active s' = Active s"

definition registers :: "('s, 'r) session \<Rightarrow> ('s, 'r) run_loop \<Rightarrow> ('s, 'r) session \<Rightarrow> ('s, 'r) run_loop \<Rightarrow> bool" where
  "registers s l s' l' \<longleftrightarrow>
     current s l \<and> rl_phase l = Starting \<and> ss_eng s' \<noteq> None \<and> engine_of (rl_phase l') = ss_eng s' \<and> Active s' = Active s"

definition drops :: "('s, 'r) session \<Rightarrow> ('s, 'r) run_loop \<Rightarrow> ('s, 'r) session \<Rightarrow> ('s, 'r) run_loop \<Rightarrow> bool" where
  "drops s l s' l' \<longleftrightarrow>
     engine_of (rl_phase l) \<noteq> None \<and> engine_of (rl_phase l') = None \<and> ss_eng s' = None \<and> leaving (rl_phase l') \<and>
     (\<forall>st msg. rl_phase l' \<noteq> Finishing st msg) \<and> Active s' = Active s"

definition ends :: "('s, 'r) session \<Rightarrow> ('s, 'r) run_loop \<Rightarrow> ('s, 'r) session \<Rightarrow> ('s, 'r) run_loop \<Rightarrow> bool" where
  "ends s l s' l' \<longleftrightarrow>
     (\<exists>st msg. rl_phase l = Finishing st msg) \<and> rl_phase l' = Ended \<and> ss_eng s' = ss_eng s \<and>
     Active s' = (rl_gen l \<noteq> ss_gen s \<and> ss_stopCh s \<noteq> None \<and> Active s)"

lemma current_gen: "rl_phase l \<noteq> Ended \<Longrightarrow> current s l \<longleftrightarrow> rl_gen l = ss_gen s"
  by (simp add: current_def)

lemma start_failed_kind:
  assumes "rl_phase l = Starting" "rl_gen l = ss_gen s \<Longrightarrow> Active s"
  shows "quiet s l (snd (start_failed m l s)) (fst (start_failed m l s))"
  using assms by (cases "rl_ever l") (auto simp: quiet_def start_failed_def Let_def split_beta)

lemma started_kind:
  assumes "rl_phase l = Starting"
  shows "quits s l (snd (started l s)) (fst (started l s)) \<or> registers s l (snd (started l s)) (fst (started l s))"
  using assms
  by (cases "rl_gen l = ss_gen s")
    (simp_all add: quits_def registers_def started_def current_def Let_def split_beta Active_def [of "s\<lparr>ss_engines := _, ss_eng := _\<rparr>"]
      Active_def [of "s\<lparr>ss_engines := _, ss_closed := _\<rparr>"] flip: Active_def [of s])

lemma ready_kind:
  assumes "rl_phase l = Waiting e" "rl_gen l = ss_gen s \<Longrightarrow> Active s"
  shows "quiet s l (snd (ready ok e l s)) (fst (ready ok e l s))"
  using assms by (cases ok) (auto simp: quiet_def ready_def)

lemma close_kind:
  assumes "rl_phase l = Returned e b err d" "ss_eng s = Some e"
  shows "drops s l (snd (close_engine e b err d l s)) (fst (close_engine e b err d l s))"
  using assms by (simp add: drops_def close_engine_def Active_def)

lemma after_run_kind:
  assumes "rl_phase l = Closed e b err d"
  shows "quiet s l (snd (after_run e b err d l s)) (fst (after_run e b err d l s))"
  using assms by (simp add: quiet_def after_run_def Let_def split_beta)

lemma count_kind:
  assumes "rl_phase l = Counting left a" "rl_gen l = ss_gen s \<Longrightarrow> Active s"
  shows "quiet s l (snd (count left a l s)) (fst (count left a l s))"
  using assms by (auto simp: quiet_def count_def)

lemma settle_kind:
  assumes "rl_phase l = Finishing st msg" "\<not> active_status st"
  shows "ends s l (snd (settle st msg l s)) (fst (settle st msg l s))"
  using assms by (simp add: ends_def settle_def split_beta)

definition kinds :: "('s, 'r) session \<Rightarrow> ('s, 'r) run_loop \<Rightarrow> ('s, 'r) run_loop \<times> ('s, 'r) session \<Rightarrow> bool" where
  "kinds s l p \<longleftrightarrow>
     quiet s l (snd p) (fst p) \<or> quits s l (snd p) (fst p) \<or> registers s l (snd p) (fst p) \<or>
     drops s l (snd p) (fst p) \<or> ends s l (snd p) (fst p)"

lemma quiet_kinds: "quiet s l (snd p) (fst p) \<Longrightarrow> kinds s l p"
  by (simp add: kinds_def)

lemma started_kinds: "rl_phase l = Starting \<Longrightarrow> kinds s l (started l s)"
  using started_kind [of l s] by (auto simp: kinds_def)

lemma quiet_refl: "loop_ok s l \<Longrightarrow> quiet s l s l"
  by (simp add: quiet_def loop_ok_def)

lemma quiet_phase:
  "engine_of q = engine_of (rl_phase l) \<Longrightarrow> q \<noteq> Ended \<Longrightarrow> live l \<Longrightarrow> (leaving (rl_phase l) \<Longrightarrow> leaving q) \<Longrightarrow>
   (case q of Finishing st msg \<Rightarrow> \<not> active_status st | _ \<Rightarrow> True) \<Longrightarrow> ss_eng s' = ss_eng s \<Longrightarrow> Active s' = Active s \<Longrightarrow>
   kinds s l (l\<lparr>rl_phase := q\<rparr>, s')"
  by (simp add: kinds_def quiet_def)

lemma loop_step_kind:
  assumes ok: "loop_ok s l"
  shows "kinds s l (loop_step ev l s)"
proof -
  have act: "live l \<Longrightarrow> rl_gen l = ss_gen s \<Longrightarrow> Active s"
    and eng: "engine_of (rl_phase l) = None \<or> engine_of (rl_phase l) = ss_eng s"
    and fin: "\<And>st msg. rl_phase l = Finishing st msg \<Longrightarrow> \<not> active_status st"
    using ok by (auto simp: loop_ok_def current_def)
  have refl: "kinds s l (l, s)"
    using quiet_refl [OF ok] by (simp add: kinds_def)
  have upd: "live l \<Longrightarrow> active_status st \<Longrightarrow> Active (update (rl_gen l) st m a s) = Active s" for st m a
    using act by auto
  show ?thesis
  proof (cases "rl_phase l")
    case Starting
    then show ?thesis
      using act refl quiet_kinds [OF start_failed_kind [OF Starting act]] started_kinds [OF Starting]
      by (cases ev) (simp_all add: loop_step.simps)
  next
    case (Applying e r)
    then show ?thesis
      using refl by (cases ev) (simp_all add: loop_step.simps quiet_phase Active_def)
  next
    case (Waiting e)
    then show ?thesis
      using act refl quiet_kinds [OF ready_kind [OF Waiting act]]
      by (cases ev) (simp_all add: loop_step.simps quiet_phase)
  next
    case (Running e b)
    then show ?thesis
      using refl by (cases ev) (simp_all add: loop_step.simps quiet_phase)
  next
    case (Returned e b err d)
    then have "ss_eng s = Some e"
      using eng by simp
    from close_kind [OF Returned this] show ?thesis
      using refl Returned by (cases ev) (simp_all add: loop_step.simps kinds_def)
  next
    case (Closed e b err d)
    then show ?thesis
      using refl quiet_kinds [OF after_run_kind [OF Closed]] by (cases ev) (simp_all add: loop_step.simps)
  next
    case (Losing msg)
    then have "kinds s l (l\<lparr>rl_phase := Counting ReconnectInterval (rl_attempt l)\<rparr>,
        update (rl_gen l) StatusReconnecting msg (rl_attempt l) s)"
      by (intro quiet_phase upd) simp_all
    then show ?thesis
      using refl Losing by (cases ev) (simp_all add: loop_step.simps)
  next
    case (Counting left a)
    then show ?thesis
      using act refl quiet_kinds [OF count_kind [OF Counting act]] by (cases ev) (simp_all add: loop_step.simps)
  next
    case (Ticking left a)
    then have "kinds s l (l\<lparr>rl_phase := Counting (left - countdownStep) a\<rparr>, s)"
      by (intro quiet_phase) simp_all
    then show ?thesis
      using refl Ticking by (cases ev) (simp_all add: loop_step.simps quiet_phase)
  next
    case (Finishing st msg)
    then show ?thesis
      using refl settle_kind [OF Finishing fin [OF Finishing], of s] by (cases ev) (simp_all add: loop_step.simps kinds_def)
  next
    case Ended
    then show ?thesis
      using refl by (cases ev) (simp_all add: loop_step.simps)
  qed
qed

text \<open>
  A goroutine that was superseded and settles the state while the engine of another one is still
  registered.
\<close>

fun settles_late :: "('s, 'r) session \<Rightarrow> ('s, 'r) sess_event \<Rightarrow> bool" where
  "settles_late s (EvLoop i Go) =
     (i < length (ss_loops s) \<and> (case rl_phase (ss_loops s ! i) of Finishing _ _ \<Rightarrow> True | _ \<Rightarrow> False) \<and>
      rl_gen (ss_loops s ! i) \<noteq> ss_gen s \<and> ss_stopCh s = None \<and> ss_eng s \<noteq> None)"
| "settles_late s _ = False"

lemma gens_unique:
  assumes "distinct (map rl_gen ls)" "i < length ls" "j < length ls" "rl_gen (ls ! i) = rl_gen (ls ! j)"
  shows "i = j"
  using assms by (metis length_map nth_eq_iff_index_eq nth_map)

lemma sess_okD:
  assumes "sess_ok s"
  shows "i < length (ss_loops s) \<Longrightarrow> loop_ok s (ss_loops s ! i)"
    and "i \<in> holders s \<Longrightarrow> j \<in> holders s \<Longrightarrow> i = j"
    and "distinct (map rl_gen (ss_loops s))"
    and "ss_eng s \<noteq> None \<Longrightarrow> Active s \<and> holders s \<noteq> {}"
    and "Active s \<Longrightarrow> list_ex (current s) (ss_loops s) \<or> (ss_stopCh s = None \<and> list_ex (settling s) (ss_loops s))"
  using assms by (auto simp: sess_ok_def list_all_length)

lemma list_ex_nth: "list_ex P xs \<longleftrightarrow> (\<exists>j<length xs. P (xs ! j))"
  by (simp add: list_ex_length)

text \<open>
  The step of goroutine \<open>i\<close> keeps the invariant when the others still agree with the registered
  engine and the activity.
\<close>

lemma step_assemble:
  assumes ok: "sess_ok s" and i: "i < length (ss_loops s)"
    and fr: "ss_gen s' = ss_gen s" "ss_stopCh s' = ss_stopCh s" "ss_stops s' = ss_stops s"
      "rl_gen l' = rl_gen (ss_loops s ! i)" "rl_stop l' = rl_stop (ss_loops s ! i)"
    and others: "\<And>j. j < length (ss_loops s) \<Longrightarrow> j \<noteq> i \<Longrightarrow>
      (current s (ss_loops s ! j) \<longrightarrow> Active s' \<and> (engine_of (rl_phase (ss_loops s ! j)) = None \<longrightarrow> ss_eng s' = None)) \<and>
      (engine_of (rl_phase (ss_loops s ! j)) = None \<or> engine_of (rl_phase (ss_loops s ! j)) = ss_eng s')"
    and mine: "loop_ok s' l'"
    and uniq: "engine_of (rl_phase l') \<noteq> None \<Longrightarrow> holders s \<subseteq> {i}"
    and eng: "ss_eng s' \<noteq> None \<Longrightarrow> Active s' \<and> (engine_of (rl_phase l') \<noteq> None \<or> holders s - {i} \<noteq> {})"
    and act: "Active s' \<Longrightarrow>
      (\<exists>j<length (ss_loops s). j \<noteq> i \<and> current s (ss_loops s ! j)) \<or> current s' l' \<or>
      ss_stopCh s = None \<and> ((\<exists>j<length (ss_loops s). j \<noteq> i \<and> settling s (ss_loops s ! j)) \<or> settling s' l')"
  shows "sess_ok (s'\<lparr>ss_loops := (ss_loops s)[i := l']\<rparr>)"
proof -
  let ?t = "s'\<lparr>ss_loops := (ss_loops s)[i := l']\<rparr>"
  have same: "Active ?t = Active s'" "loop_ok ?t = loop_ok s'" "current ?t = current s'" "settling ?t = settling s'"
    by (auto simp: Active_def loop_ok_def current_def settling_def stop_closed_def fun_eq_iff)
  have cur: "current s' = current s" "settling s' = settling s"
    by (simp_all add: current_def settling_def stop_closed_def fr fun_eq_iff)
  have nth: "j < length (ss_loops s) \<Longrightarrow> (ss_loops s)[i := l'] ! j = (if j = i then l' else ss_loops s ! j)" for j
    by (auto simp: nth_list_update)
  have "loop_ok s' (ss_loops s ! j)" if "j < length (ss_loops s)" "j \<noteq> i" for j
    using sess_okD(1) [OF ok that(1)] others [OF that] by (auto simp: loop_ok_def cur stop_closed_def fr)
  then have loops: "list_all (loop_ok s') ((ss_loops s)[i := l'])"
    using mine by (auto simp: list_all_length nth)
  have gens: "distinct (map rl_gen ((ss_loops s)[i := l']))"
    using sess_okD(3) [OF ok] i fr(4) by (metis list_update_id map_update)
  have hold: "holders ?t = (if engine_of (rl_phase l') \<noteq> None then insert i (holders s) else holders s - {i})"
    using i by (auto simp: holders_def nth split: if_splits)
  have one: "\<forall>a\<in>holders ?t. \<forall>b\<in>holders ?t. a = b"
    using sess_okD(2) [OF ok] uniq unfolding hold by auto
  have "ss_eng s' \<noteq> None \<longrightarrow> Active s' \<and> holders ?t \<noteq> {}"
    using eng unfolding hold by auto
  moreover have "Active s' \<longrightarrow> list_ex (current s') ((ss_loops s)[i := l']) \<or>
      (ss_stopCh s' = None \<and> list_ex (settling s') ((ss_loops s)[i := l']))"
  proof
    assume "Active s'"
    from act [OF this] show "list_ex (current s') ((ss_loops s)[i := l']) \<or>
        (ss_stopCh s' = None \<and> list_ex (settling s') ((ss_loops s)[i := l']))"
      unfolding list_ex_nth length_list_update fr(2) cur using i nth by metis
  qed
  ultimately show ?thesis
    using loops gens one unfolding sess_ok_def same by simp
qed

lemma holdersI: "i < length (ss_loops s) \<Longrightarrow> engine_of (rl_phase (ss_loops s ! i)) \<noteq> None \<Longrightarrow> i \<in> holders s"
  by (simp add: holders_def)

lemma holder_eng:
  assumes "sess_ok s" "i \<in> holders s"
  shows "ss_eng s = engine_of (rl_phase (ss_loops s ! i)) \<and> ss_eng s \<noteq> None"
  using assms sess_okD(1) [OF assms(1), of i] by (auto simp: holders_def loop_ok_def)

lemma alone:
  assumes "sess_ok s" "i < length (ss_loops s)" "current s (ss_loops s ! i)"
  shows "\<And>j. j < length (ss_loops s) \<Longrightarrow> j \<noteq> i \<Longrightarrow> \<not> current s (ss_loops s ! j)"
  using gens_unique [OF sess_okD(3) [OF assms(1)]] assms by (auto simp: current_def)

lemma active_reason:
  assumes "sess_ok s" "Active s"
  shows "(\<exists>j<length (ss_loops s). current s (ss_loops s ! j)) \<or>
    ss_stopCh s = None \<and> (\<exists>j<length (ss_loops s). settling s (ss_loops s ! j))"
  using sess_okD(5) [OF assms] by (simp add: list_ex_nth)

lemma quiet_ok:
  assumes ok: "sess_ok s" and i: "i < length (ss_loops s)" and q: "quiet s (ss_loops s ! i) s' l'"
    and fr: "ss_gen s' = ss_gen s" "ss_stopCh s' = ss_stopCh s" "ss_stops s' = ss_stops s"
      "rl_gen l' = rl_gen (ss_loops s ! i)" "rl_stop l' = rl_stop (ss_loops s ! i)"
  shows "sess_ok (s'\<lparr>ss_loops := (ss_loops s)[i := l']\<rparr>)"
proof -
  let ?l = "ss_loops s ! i"
  have l: "loop_ok s ?l" by (rule sess_okD(1) [OF ok i])
  have c: "current s' l' \<longleftrightarrow> current s ?l" "settling s ?l \<Longrightarrow> settling s' l'"
    using q by (auto simp: quiet_def current_def settling_def stop_closed_def fr)
  show ?thesis
  proof (rule step_assemble [OF ok i fr])
    fix j assume j: "j < length (ss_loops s)" "j \<noteq> i"
    show "(current s (ss_loops s ! j) \<longrightarrow> Active s' \<and> (engine_of (rl_phase (ss_loops s ! j)) = None \<longrightarrow> ss_eng s' = None)) \<and>
        (engine_of (rl_phase (ss_loops s ! j)) = None \<or> engine_of (rl_phase (ss_loops s ! j)) = ss_eng s')"
      using sess_okD(1) [OF ok j(1)] q by (simp add: loop_ok_def quiet_def)
  next
    show "loop_ok s' l'"
      using l q c by (auto simp: loop_ok_def quiet_def current_def stop_closed_def fr)
  next
    assume "engine_of (rl_phase l') \<noteq> None"
    then have "i \<in> holders s" using q i by (simp add: quiet_def holders_def)
    then show "holders s \<subseteq> {i}" using sess_okD(2) [OF ok] by blast
  next
    assume "ss_eng s' \<noteq> None"
    then have "Active s" "holders s \<noteq> {}" using q sess_okD(4) [OF ok] by (simp_all add: quiet_def)
    moreover have "i \<in> holders s \<Longrightarrow> engine_of (rl_phase l') \<noteq> None" using q by (simp add: quiet_def holders_def)
    ultimately show "Active s' \<and> (engine_of (rl_phase l') \<noteq> None \<or> holders s - {i} \<noteq> {})"
      using q by (auto simp: quiet_def)
  next
    assume "Active s'"
    then have "Active s" using q by (simp add: quiet_def)
    from active_reason [OF ok this] show
      "(\<exists>j<length (ss_loops s). j \<noteq> i \<and> current s (ss_loops s ! j)) \<or> current s' l' \<or>
       ss_stopCh s = None \<and> ((\<exists>j<length (ss_loops s). j \<noteq> i \<and> settling s (ss_loops s ! j)) \<or> settling s' l')"
      using c by metis
  qed
qed

lemma quits_ok:
  assumes ok: "sess_ok s" and i: "i < length (ss_loops s)" and q: "quits s (ss_loops s ! i) s' l'"
    and fr: "ss_gen s' = ss_gen s" "ss_stopCh s' = ss_stopCh s" "ss_stops s' = ss_stops s"
      "rl_gen l' = rl_gen (ss_loops s ! i)" "rl_stop l' = rl_stop (ss_loops s ! i)"
  shows "sess_ok (s'\<lparr>ss_loops := (ss_loops s)[i := l']\<rparr>)"
proof -
  let ?l = "ss_loops s ! i"
  have l: "loop_ok s ?l" by (rule sess_okD(1) [OF ok i])
  have no: "i \<notin> holders s" "\<not> current s ?l" "\<not> settling s ?l"
    using q by (auto simp: quits_def holders_def current_def settling_def)
  show ?thesis
  proof (rule step_assemble [OF ok i fr])
    fix j assume j: "j < length (ss_loops s)" "j \<noteq> i"
    show "(current s (ss_loops s ! j) \<longrightarrow> Active s' \<and> (engine_of (rl_phase (ss_loops s ! j)) = None \<longrightarrow> ss_eng s' = None)) \<and>
        (engine_of (rl_phase (ss_loops s ! j)) = None \<or> engine_of (rl_phase (ss_loops s ! j)) = ss_eng s')"
      using sess_okD(1) [OF ok j(1)] q by (simp add: loop_ok_def quits_def)
  next
    show "loop_ok s' l'" using l q by (simp add: loop_ok_def quits_def current_def fr)
  next
    show "engine_of (rl_phase l') \<noteq> None \<Longrightarrow> holders s \<subseteq> {i}" using q by (simp add: quits_def)
  next
    assume "ss_eng s' \<noteq> None"
    then show "Active s' \<and> (engine_of (rl_phase l') \<noteq> None \<or> holders s - {i} \<noteq> {})"
      using q sess_okD(4) [OF ok] no(1) by (auto simp: quits_def)
  next
    assume "Active s'"
    then have "Active s" using q by (simp add: quits_def)
    from active_reason [OF ok this] show
      "(\<exists>j<length (ss_loops s). j \<noteq> i \<and> current s (ss_loops s ! j)) \<or> current s' l' \<or>
       ss_stopCh s = None \<and> ((\<exists>j<length (ss_loops s). j \<noteq> i \<and> settling s (ss_loops s ! j)) \<or> settling s' l')"
      using no by metis
  qed
qed

lemma registers_ok:
  assumes ok: "sess_ok s" and i: "i < length (ss_loops s)" and q: "registers s (ss_loops s ! i) s' l'"
    and fr: "ss_gen s' = ss_gen s" "ss_stopCh s' = ss_stopCh s" "ss_stops s' = ss_stops s"
      "rl_gen l' = rl_gen (ss_loops s ! i)" "rl_stop l' = rl_stop (ss_loops s ! i)"
  shows "sess_ok (s'\<lparr>ss_loops := (ss_loops s)[i := l']\<rparr>)"
proof -
  let ?l = "ss_loops s ! i"
  have l: "loop_ok s ?l" by (rule sess_okD(1) [OF ok i])
  have free: "ss_eng s = None" "Active s" "current s ?l"
    using l q by (auto simp: loop_ok_def registers_def)
  then have none: "holders s = {}"
    using holder_eng [OF ok] by blast
  have "rl_phase l' \<noteq> Ended" "\<And>st m. rl_phase l' \<noteq> Finishing st m"
    using q by (auto simp: registers_def)
  then have cur: "current s' l'" "(case rl_phase l' of Finishing st msg \<Rightarrow> \<not> active_status st | _ \<Rightarrow> True)"
    using free(3) by (auto simp: current_def fr split: phase.split)
  show ?thesis
  proof (rule step_assemble [OF ok i fr])
    fix j assume j: "j < length (ss_loops s)" "j \<noteq> i"
    then have "\<not> current s (ss_loops s ! j)" "engine_of (rl_phase (ss_loops s ! j)) = None"
      using alone [OF ok i free(3)] none by (auto simp: holders_def)
    then show "(current s (ss_loops s ! j) \<longrightarrow> Active s' \<and> (engine_of (rl_phase (ss_loops s ! j)) = None \<longrightarrow> ss_eng s' = None)) \<and>
        (engine_of (rl_phase (ss_loops s ! j)) = None \<or> engine_of (rl_phase (ss_loops s ! j)) = ss_eng s')"
      by simp
  next
    show "loop_ok s' l'"
      using l q cur free by (auto simp: loop_ok_def registers_def stop_closed_def fr)
  next
    show "holders s \<subseteq> {i}" using none by simp
  next
    show "Active s' \<and> (engine_of (rl_phase l') \<noteq> None \<or> holders s - {i} \<noteq> {})"
      using q free(2) by (auto simp: registers_def)
  qed (use cur in simp)
qed

lemma drops_ok:
  assumes ok: "sess_ok s" and i: "i < length (ss_loops s)" and q: "drops s (ss_loops s ! i) s' l'"
    and fr: "ss_gen s' = ss_gen s" "ss_stopCh s' = ss_stopCh s" "ss_stops s' = ss_stops s"
      "rl_gen l' = rl_gen (ss_loops s ! i)" "rl_stop l' = rl_stop (ss_loops s ! i)"
  shows "sess_ok (s'\<lparr>ss_loops := (ss_loops s)[i := l']\<rparr>)"
proof -
  let ?l = "ss_loops s ! i"
  have l: "loop_ok s ?l" by (rule sess_okD(1) [OF ok i])
  have h: "i \<in> holders s" using q i by (auto simp: drops_def holders_def)
  have live: "live ?l" "live l'" using q leaving_live by (auto simp: drops_def)
  then have c: "current s' l' \<longleftrightarrow> current s ?l" "settling s ?l \<Longrightarrow> settling s' l'"
    using q by (auto simp: drops_def current_def settling_def stop_closed_def fr)
  have no: "(case rl_phase l' of Finishing st msg \<Rightarrow> \<not> active_status st | _ \<Rightarrow> True)"
    using q by (auto simp: drops_def split: phase.split)
  show ?thesis
  proof (rule step_assemble [OF ok i fr])
    fix j assume j: "j < length (ss_loops s)" "j \<noteq> i"
    then have "engine_of (rl_phase (ss_loops s ! j)) = None"
      using sess_okD(2) [OF ok h, of j] holdersI [of j s] by blast
    then show "(current s (ss_loops s ! j) \<longrightarrow> Active s' \<and> (engine_of (rl_phase (ss_loops s ! j)) = None \<longrightarrow> ss_eng s' = None)) \<and>
        (engine_of (rl_phase (ss_loops s ! j)) = None \<or> engine_of (rl_phase (ss_loops s ! j)) = ss_eng s')"
      using sess_okD(1) [OF ok j(1)] q by (simp add: loop_ok_def drops_def)
  next
    show "loop_ok s' l'"
      using l q c live no by (auto simp: loop_ok_def drops_def stop_closed_def fr)
  next
    assume "Active s'"
    then have "Active s" using q by (simp add: drops_def)
    from active_reason [OF ok this] show
      "(\<exists>j<length (ss_loops s). j \<noteq> i \<and> current s (ss_loops s ! j)) \<or> current s' l' \<or>
       ss_stopCh s = None \<and> ((\<exists>j<length (ss_loops s). j \<noteq> i \<and> settling s (ss_loops s ! j)) \<or> settling s' l')"
      using c by metis
  qed (use q in \<open>simp_all add: drops_def\<close>)
qed

lemma ends_ok:
  assumes ok: "sess_ok s" and i: "i < length (ss_loops s)" and q: "ends s (ss_loops s ! i) s' l'"
    and late: "rl_gen (ss_loops s ! i) \<noteq> ss_gen s \<Longrightarrow> ss_stopCh s = None \<Longrightarrow> ss_eng s = None"
    and fr: "ss_gen s' = ss_gen s" "ss_stopCh s' = ss_stopCh s" "ss_stops s' = ss_stops s"
      "rl_gen l' = rl_gen (ss_loops s ! i)" "rl_stop l' = rl_stop (ss_loops s ! i)"
  shows "sess_ok (s'\<lparr>ss_loops := (ss_loops s)[i := l']\<rparr>)"
proof -
  let ?l = "ss_loops s ! i"
  have l: "loop_ok s ?l" by (rule sess_okD(1) [OF ok i])
  have ph: "engine_of (rl_phase ?l) = None" "live ?l" "rl_phase l' = Ended" "ss_eng s' = ss_eng s"
    using q by (auto simp: ends_def)
  then have no: "i \<notin> holders s" by (simp add: holders_def)
  have eng: "ss_eng s = None" if "\<not> Active s'"
  proof (rule ccontr)
    assume e: "ss_eng s \<noteq> None"
    then have "Active s" using sess_okD(4) [OF ok] by blast
    then have "rl_gen ?l = ss_gen s" using that e late q unfolding ends_def by metis
    then have "current s ?l" using ph(2) by (simp add: current_def)
    then show False using l ph(1) e by (simp add: loop_ok_def)
  qed
  have cur: "Active s'" if j: "j < length (ss_loops s)" "j \<noteq> i" "current s (ss_loops s ! j)" for j
  proof -
    have "rl_gen ?l \<noteq> ss_gen s"
      using alone [OF ok i _ j(1,2)] j(3) ph(2) by (auto simp: current_def)
    moreover have "ss_stopCh s \<noteq> None" "Active s"
      using sess_okD(1) [OF ok j(1)] j(3) by (auto simp: loop_ok_def)
    ultimately show ?thesis using q by (simp add: ends_def)
  qed
  show ?thesis
  proof (rule step_assemble [OF ok i fr])
    fix j assume j: "j < length (ss_loops s)" "j \<noteq> i"
    show "(current s (ss_loops s ! j) \<longrightarrow> Active s' \<and> (engine_of (rl_phase (ss_loops s ! j)) = None \<longrightarrow> ss_eng s' = None)) \<and>
        (engine_of (rl_phase (ss_loops s ! j)) = None \<or> engine_of (rl_phase (ss_loops s ! j)) = ss_eng s')"
      using sess_okD(1) [OF ok j(1)] cur [OF j] ph(4) by (simp add: loop_ok_def)
  next
    show "loop_ok s' l'" using l ph by (simp add: loop_ok_def current_def fr)
  next
    show "engine_of (rl_phase l') \<noteq> None \<Longrightarrow> holders s \<subseteq> {i}" using ph by simp
  next
    assume e: "ss_eng s' \<noteq> None"
    then have "Active s'" using eng ph(4) by metis
    moreover have "holders s \<noteq> {}" using e sess_okD(4) [OF ok] ph(4) by simp
    ultimately show "Active s' \<and> (engine_of (rl_phase l') \<noteq> None \<or> holders s - {i} \<noteq> {})"
      using no by simp
  next
    assume "Active s'"
    then have a: "Active s" "rl_gen ?l \<noteq> ss_gen s" "ss_stopCh s \<noteq> None" using q unfolding ends_def by metis+
    have "\<exists>j<length (ss_loops s). current s (ss_loops s ! j)"
      using active_reason [OF ok a(1)] a(3) by simp
    then obtain j where "j < length (ss_loops s)" "current s (ss_loops s ! j)"
      by (elim exE conjE)
    moreover from this have "j \<noteq> i" using a(2) by (auto simp: current_def)
    ultimately have "\<exists>j<length (ss_loops s). j \<noteq> i \<and> current s (ss_loops s ! j)"
      by blast
    then show
      "(\<exists>j<length (ss_loops s). j \<noteq> i \<and> current s (ss_loops s ! j)) \<or> current s' l' \<or>
       ss_stopCh s = None \<and> ((\<exists>j<length (ss_loops s). j \<noteq> i \<and> settling s (ss_loops s ! j)) \<or> settling s' l')"
      by (rule disjI1)
  qed
qed

lemma loop_event_ok:
  assumes ok: "sess_ok s" and late: "\<not> settles_late s (EvLoop i ev)"
  shows "sess_ok (sess_step s (EvLoop i ev))"
proof (cases "i < length (ss_loops s)")
  case i: True
  obtain l' s' where step: "loop_step ev (ss_loops s ! i) s = (l', s')" by fastforce
  have fr: "ss_gen s' = ss_gen s" "ss_stopCh s' = ss_stopCh s" "ss_stops s' = ss_stops s"
      "rl_gen l' = rl_gen (ss_loops s ! i)" "rl_stop l' = rl_stop (ss_loops s ! i)"
    using loop_step_frame [of "ss_loops s ! i" s ev] by (simp_all add: same_frame_def step)
  have late': "ss_eng s = None"
    if e: "ends s (ss_loops s ! i) s' l'" and st: "rl_gen (ss_loops s ! i) \<noteq> ss_gen s" "ss_stopCh s = None"
  proof -
    obtain st msg where f: "rl_phase (ss_loops s ! i) = Finishing st msg" "rl_phase l' = Ended"
      using e by (auto simp: ends_def)
    then have "ev = Go" using step by (cases ev) (auto simp: loop_step.simps)
    then show ?thesis using late f st i by simp
  qed
  have "sess_ok (s'\<lparr>ss_loops := (ss_loops s)[i := l']\<rparr>)"
    using loop_step_kind [OF sess_okD(1) [OF ok i], of ev] unfolding kinds_def step fst_conv snd_conv
    using quiet_ok [OF ok i _ fr] quits_ok [OF ok i _ fr] registers_ok [OF ok i _ fr] drops_ok [OF ok i _ fr]
      ends_ok [OF ok i _ late' fr] by blast
  then show ?thesis using i by (simp add: step)
qed (use ok in simp)

lemma loop_ok_cong:
  "ss_gen t = ss_gen s \<Longrightarrow> ss_stops t = ss_stops s \<Longrightarrow> ss_stopCh t = ss_stopCh s \<Longrightarrow> ss_eng t = ss_eng s \<Longrightarrow>
   Active t = Active s \<Longrightarrow> ss_loops t = ss_loops s \<Longrightarrow> sess_ok s \<Longrightarrow> sess_ok t"
proof -
  assume e: "ss_gen t = ss_gen s" "ss_stops t = ss_stops s" "ss_stopCh t = ss_stopCh s" "ss_eng t = ss_eng s"
    "Active t = Active s" "ss_loops t = ss_loops s" "sess_ok s"
  then have "loop_ok t = loop_ok s" "current t = current s" "settling t = settling s" "holders t = holders s"
    by (auto simp: loop_ok_def current_def settling_def stop_closed_def holders_def fun_eq_iff)
  then show "sess_ok t" using e by (simp add: sess_ok_def)
qed

lemma observe_status:
  "st_Status (snd (observe_reason x st)) = st_Status st" "st_Status (snd (observe_progress x st)) = st_Status st"
  "st_Status (snd (observe_error n x st)) = st_Status st"
  by (auto simp: observe_reason_def observe_progress_def observe_error_def split: list.split option.split)

lemma ObserveLog_frame:
  "ss_gen (ObserveLog n x s) = ss_gen s \<and> ss_stops (ObserveLog n x s) = ss_stops s \<and> ss_stopCh (ObserveLog n x s) = ss_stopCh s \<and>
   ss_eng (ObserveLog n x s) = ss_eng s \<and> Active (ObserveLog n x s) = Active s \<and> ss_loops (ObserveLog n x s) = ss_loops s \<and>
   ss_rules (ObserveLog n x s) = ss_rules s \<and> ss_applied (ObserveLog n x s) = ss_applied s"
  by (simp add: ObserveLog_def Let_def split_beta Active_def observe_status)

lemma SetRules_frame:
  "ss_gen (SetRules r s) = ss_gen s \<and> ss_stops (SetRules r s) = ss_stops s \<and> ss_stopCh (SetRules r s) = ss_stopCh s \<and>
   ss_eng (SetRules r s) = ss_eng s \<and> Active (SetRules r s) = Active s \<and> ss_loops (SetRules r s) = ss_loops s"
  by (simp add: SetRules_def Let_def Active_def split: option.split)

lemma Connect_ok:
  assumes ok: "sess_ok s"
  shows "sess_ok (snd (Connect sp s))"
proof (cases "Active s")
  case False
  let ?g = "ss_gen s + 1" and ?c = "length (ss_stops s)"
  let ?t = "snd (Connect sp s)" and ?n = "new_loop (ss_gen s + 1) sp (length (ss_stops s)) :: ('a, 'b) run_loop"
  have t: "ss_gen ?t = ?g" "ss_stops ?t = ss_stops s @ [False]" "ss_stopCh ?t = Some ?c" "ss_loops ?t = ss_loops s @ [?n]"
      "ss_eng ?t = ss_eng s" "Active ?t"
    using False by (simp_all add: Connect_def Let_def Active_def)
  have eng: "ss_eng s = None" using sess_okD(4) [OF ok] False by blast
  have old: "rl_gen l \<le> ss_gen s" "rl_stop l < ?c" "\<not> current s l" "live l \<Longrightarrow> stop_closed l s"
      "engine_of (rl_phase l) = None" "(case rl_phase l of Finishing st msg \<Rightarrow> \<not> active_status st | _ \<Rightarrow> True)"
    if "l \<in> set (ss_loops s)" for l
    using ok that False eng by (auto simp: sess_ok_def list_all_iff loop_ok_def)
  have new: "current ?t ?n" "engine_of (rl_phase ?n) = None" by (simp_all add: current_def new_loop_def t)
  have "loop_ok ?t l" if "l \<in> set (ss_loops s)" for l
    using old [OF that] by (auto simp: loop_ok_def current_def stop_closed_def t nth_append)
  moreover have "loop_ok ?t ?n" using eng by (simp add: loop_ok_def current_def stop_closed_def t new_loop_def)
  ultimately have "list_all (loop_ok ?t) (ss_loops ?t)" by (simp add: t list_all_iff)
  moreover have "distinct (map rl_gen (ss_loops ?t))"
    using sess_okD(3) [OF ok] old(1) by (fastforce simp: t new_loop_def)
  moreover have "holders ?t = {}"
    using old(5) [OF nth_mem] new(2) by (auto simp: holders_def t nth_append less_Suc_eq)
  ultimately show ?thesis using eng new by (simp add: sess_ok_def t)
qed (use ok in \<open>simp add: Connect_def\<close>)

lemma close_keeps: "xs ! j \<Longrightarrow> j < length xs \<Longrightarrow> xs[i := True] ! j"
  by (metis nth_list_update_eq nth_list_update_neq)

lemma Disconnect_ok:
  assumes ok: "sess_ok s"
  shows "sess_ok (Disconnect s)"
proof -
  let ?t = "Disconnect s"
  have t: "ss_gen ?t = ss_gen s + 1" "ss_stopCh ?t = None" "ss_loops ?t = ss_loops s" "ss_eng ?t = ss_eng s"
      "ss_stops ?t = (case ss_stopCh s of None \<Rightarrow> ss_stops s | Some c \<Rightarrow> (ss_stops s)[c := True])"
    by (simp_all add: Disconnect_def Let_def split: option.split)
  have act: "Active ?t \<longleftrightarrow> Active s \<and> ss_eng s \<noteq> None"
    by (auto simp: Disconnect_def Let_def Active_def split: option.split)
  have len: "length (ss_stops ?t) = length (ss_stops s)" by (simp add: t split: option.split)
  have l: "rl_gen l \<le> ss_gen s" "rl_stop l < length (ss_stops s)" "live l \<Longrightarrow> stop_closed l ?t"
      "engine_of (rl_phase l) = None \<or> engine_of (rl_phase l) = ss_eng s"
      "(case rl_phase l of Finishing st msg \<Rightarrow> \<not> active_status st | _ \<Rightarrow> True)"
    if "l \<in> set (ss_loops s)" for l
  proof -
    have k: "loop_ok s l" using ok that by (simp add: sess_ok_def list_all_iff)
    then show "rl_gen l \<le> ss_gen s" "rl_stop l < length (ss_stops s)"
      "engine_of (rl_phase l) = None \<or> engine_of (rl_phase l) = ss_eng s"
      "(case rl_phase l of Finishing st msg \<Rightarrow> \<not> active_status st | _ \<Rightarrow> True)"
      by (simp_all add: loop_ok_def)
    show "live l \<Longrightarrow> stop_closed l ?t"
      using k by (cases "current s l") (auto simp: loop_ok_def stop_closed_def t close_keeps split: option.split)
  qed
  have loops: "list_all (loop_ok ?t) (ss_loops ?t)"
  proof -
    have "loop_ok ?t l" if "l \<in> set (ss_loops s)" for l
    proof -
      have "\<not> current ?t l" using l(1) [OF that] by (simp add: current_def t)
      then show ?thesis using l [OF that] by (simp add: loop_ok_def t(1,4) len)
    qed
    then show ?thesis by (simp add: list_all_iff t(3))
  qed
  have hold: "holders ?t = holders s" by (simp add: holders_def t)
  have "list_ex (settling ?t) (ss_loops s)" if e: "ss_eng s \<noteq> None"
  proof -
    obtain i where i: "i \<in> holders s" using sess_okD(4) [OF ok e] by blast
    then have "leaving (rl_phase (ss_loops s ! i))" by (simp add: holders_def engine_leaving)
    then have "settling ?t (ss_loops s ! i)"
      using l(3) [of "ss_loops s ! i"] i leaving_live by (auto simp: settling_def holders_def)
    then show ?thesis using i by (auto simp: list_ex_nth holders_def)
  qed
  then show ?thesis
    using loops sess_okD(2,3,4) [OF ok] act hold by (auto simp: sess_ok_def t)
qed

interpretation tui: guarded_step sess_step sess_ok "\<lambda>s e. \<not> settles_late s e"
proof
  fix s :: "('s, 'r) session" and e
  assume ok: "sess_ok s" and late: "\<not> settles_late s e"
  show "sess_ok (sess_step s e)"
  proof (cases e)
    case (EvLoop i ev)
    then show ?thesis using loop_event_ok [OF ok] late by blast
  next
    case (EvSetRules r)
    then show ?thesis using loop_ok_cong [OF _ _ _ _ _ _ ok] SetRules_frame [of r s] by simp
  next
    case (EvLog n x)
    then show ?thesis using loop_ok_cong [OF _ _ _ _ _ _ ok] ObserveLog_frame [of n x s] by simp
  qed (simp_all add: Connect_ok [OF ok] Disconnect_ok [OF ok])
qed

lemma NewSession_ok: "sess_ok (NewSession r)"
  by (simp add: sess_ok_def NewSession_def holders_def Active_def idle_state_def)


section \<open>Stopping ends\<close>

text \<open>How many steps a stopped goroutine can still take.\<close>

fun steps_left :: "'r phase \<Rightarrow> nat" where
  "steps_left (Applying e r) = 9"
| "steps_left (Waiting e) = 8"
| "steps_left (Running e b) = 7"
| "steps_left (Returned e b err d) = 6"
| "steps_left (Closed e b err d) = 5"
| "steps_left (Counting left a) = (if left > 0 then 3 else 5)"
| "steps_left (Losing msg) = 4"
| "steps_left Starting = 4"
| "steps_left (Ticking left a) = 2"
| "steps_left (Finishing st msg) = 1"
| "steps_left Ended = 0"

fun own_moves :: "nat \<Rightarrow> ('s, 'r) session \<Rightarrow> ('s, 'r) sess_event list \<Rightarrow> nat" where
  "own_moves i s [] = 0"
| "own_moves i s (e # es) =
     (if (case e of EvLoop j _ \<Rightarrow> j = i | _ \<Rightarrow> False) \<and>
         steps_left (rl_phase (ss_loops (sess_step s e) ! i)) \<noteq> steps_left (rl_phase (ss_loops s ! i)) then 1 else 0) +
     own_moves i (sess_step s e) es"

definition stopped :: "('s, 'r) session \<Rightarrow> nat \<Rightarrow> bool" where
  "stopped s i \<longleftrightarrow>
     i < length (ss_loops s) \<and> rl_gen (ss_loops s ! i) < ss_gen s \<and>
     rl_stop (ss_loops s ! i) < length (ss_stops s) \<and> stop_closed (ss_loops s ! i) s"

lemma stopped_step:
  assumes "stop_closed l s" "rl_gen l \<noteq> ss_gen s" "ev \<noteq> Tick"
  shows "steps_left (rl_phase (fst (loop_step ev l s))) < steps_left (rl_phase l) \<or>
         rl_phase (fst (loop_step ev l s)) = rl_phase l"
  using assms
  by (cases "rl_phase l"; cases ev)
    (simp_all add: loop_step.simps start_failed_def started_def ready_def close_engine_def after_run_def count_def
      settle_def Let_def split_beta ReconnectInterval_def)

lemma stopped_keep:
  assumes "stopped s i"
  shows "stopped (sess_step s e) i"
    and "(\<And>ev. e \<noteq> EvLoop i ev) \<Longrightarrow> rl_phase (ss_loops (sess_step s e) ! i) = rl_phase (ss_loops s ! i)"
proof -
  have "stopped (sess_step s e) i \<and>
      ((\<forall>ev. e \<noteq> EvLoop i ev) \<longrightarrow> rl_phase (ss_loops (sess_step s e) ! i) = rl_phase (ss_loops s ! i))"
  proof (cases e)
    case (EvLoop j ev)
    show ?thesis
    proof (cases "j < length (ss_loops s)")
      case True
      then show ?thesis
        using loop_step_frame [of "ss_loops s ! j" s ev] assms EvLoop
        by (cases "i = j") (auto simp: same_frame_def stopped_def stop_closed_def nth_list_update split_beta)
    qed (use assms EvLoop in simp)
  next
    case (EvConnect sp)
    then show ?thesis
      using assms by (auto simp: Connect_def Let_def stopped_def stop_closed_def nth_append)
  next
    case EvDisconnect
    then show ?thesis
      using assms by (auto simp: Disconnect_def Let_def stopped_def stop_closed_def close_keeps split: option.split)
  next
    case (EvSetRules r)
    then show ?thesis using assms SetRules_frame [of r s] by (auto simp: stopped_def stop_closed_def)
  next
    case (EvLog n x)
    then show ?thesis using assms ObserveLog_frame [of n x s] by (auto simp: stopped_def stop_closed_def)
  qed
  then show "stopped (sess_step s e) i"
    and "(\<And>ev. e \<noteq> EvLoop i ev) \<Longrightarrow> rl_phase (ss_loops (sess_step s e) ! i) = rl_phase (ss_loops s ! i)"
    by blast+
qed

lemma own_moves_left:
  assumes "stopped s i" "EvLoop i Tick \<notin> set es"
  shows "own_moves i s es + steps_left (rl_phase (ss_loops (foldl sess_step s es) ! i)) \<le> steps_left (rl_phase (ss_loops s ! i))"
  using assms
proof (induction es arbitrary: s)
  case (Cons e es)
  let ?s = "sess_step s e" and ?p = "\<lambda>s. rl_phase (ss_loops s ! i)"
  have IH: "own_moves i ?s es + steps_left (?p (foldl sess_step ?s es)) \<le> steps_left (?p ?s)"
    using Cons.prems by (intro Cons.IH stopped_keep(1)) auto
  have "steps_left (?p ?s) < steps_left (?p s) \<or> steps_left (?p ?s) = steps_left (?p s)"
  proof (cases "\<exists>ev. e = EvLoop i ev")
    case True
    then obtain ev where ev: "e = EvLoop i ev" "ev \<noteq> Tick" using Cons.prems(2) by auto
    have "i < length (ss_loops s)" "stop_closed (ss_loops s ! i) s" "rl_gen (ss_loops s ! i) \<noteq> ss_gen s"
      using Cons.prems(1) by (auto simp: stopped_def)
    with stopped_step [OF this(2,3) ev(2)] ev(1) show ?thesis by (auto simp: split_beta)
  next
    case False
    then show ?thesis using stopped_keep(2) [OF Cons.prems(1), of e] by auto
  qed
  then show ?case using IH by auto
qed simp

text \<open>
  C22: A stopped goroutine ends. Once its stop channel is closed and its generation superseded, it
  takes at most nine more steps, whatever the other goroutines and the callers do; and until it has
  ended, there is a step it can take: an engine that starts or fails, a run that ends, the closed
  channel or its own next section. (A closed channel is ready at once, so its countdown does not
  take the tick of one second.)
\<close>

theorem stopped_loop_ends:
  assumes "stopped s i" "EvLoop i Tick \<notin> set es"
  shows "own_moves i s es \<le> 9 \<and>
    (rl_phase (ss_loops (foldl sess_step s es) ! i) = Ended \<or>
     (\<exists>ev. ev \<noteq> Tick \<and> own_moves i (foldl sess_step s es) [EvLoop i ev] = 1))"
proof -
  let ?t = "foldl sess_step s es"
  have "stopped ?t i" using assms(1) by (induction es arbitrary: s) (simp_all add: stopped_keep)
  then have t: "i < length (ss_loops ?t)" "rl_gen (ss_loops ?t ! i) \<noteq> ss_gen ?t" "stop_closed (ss_loops ?t ! i) ?t"
    by (auto simp: stopped_def)
  define l where "l = ss_loops ?t ! i"
  have "\<exists>ev. ev \<noteq> Tick \<and> steps_left (rl_phase (fst (loop_step ev l ?t))) \<noteq> steps_left (rl_phase l)" if live: "live l"
  proof -
    define ev where "ev = (case rl_phase l of Starting \<Rightarrow> StartOk | Waiting e \<Rightarrow> RunEnds None False
      | Running e b \<Rightarrow> RunEnds None False | Ticking n a \<Rightarrow> SeeStop | _ \<Rightarrow> Go)"
    have "ev \<noteq> Tick" by (simp add: ev_def split: phase.split)
    moreover have "steps_left (rl_phase (fst (loop_step ev l ?t))) \<noteq> steps_left (rl_phase l)"
      using t(2,3) live unfolding l_def [symmetric] ev_def
      by (cases "rl_phase l")
        (simp_all add: loop_step.simps started_def close_engine_def after_run_def count_def settle_def Let_def split_beta
          ReconnectInterval_def)
    ultimately show ?thesis by blast
  qed
  then have "rl_phase l = Ended \<or> (\<exists>ev. ev \<noteq> Tick \<and> own_moves i ?t [EvLoop i ev] = 1)"
    using t(1) by (auto simp: l_def split_beta)
  moreover have "steps_left p \<le> 9" for p :: "'b phase" by (cases p) auto
  ultimately show ?thesis
    using own_moves_left [OF assms] unfolding l_def by (meson add_leD1 le_trans)
qed

section \<open>Interleavings that go wrong\<close>

text \<open>
  Two engines can run at once. A first connection is stopped while its engine is still being
  built; a second one connects and is stopped in turn; before its engine has ended, the first
  start fails, and its superseded goroutine settles the state, since no stop channel is set any more.
  The session then counts as inactive and accepts a third connection, whose engine runs beside
  the second one.
\<close>

lemma second_engine:
  "length (filter (\<lambda>l. engine_of (rl_phase l) \<noteq> None)
     (ss_loops (foldl sess_step (NewSession r)
        [EvConnect a, EvDisconnect, EvConnect b, EvLoop 1 StartOk, EvLoop 1 Go, EvLoop 1 (Ready True), EvDisconnect,
         EvLoop 0 (StartFails m), EvLoop 0 Go, EvConnect c, EvLoop 2 StartOk, EvLoop 2 Go]))) = 2"
  by (simp add: NewSession_def Connect_def Disconnect_def Active_def idle_state_def new_loop_def loop_step.simps
      started_def start_failed_def ready_def settle_def release_def finish_def update_def setLocked_def emitState_def
      Let_def numeral_2_eq_2)

text \<open>
  An engine can keep running with old rules. The goroutine reads the rules when it registers the
  engine and applies them afterwards, outside the lock: rules saved in between reach the engine first
  and are then overwritten by the old ones.
\<close>

lemma old_rules_applied:
  "let s = foldl sess_step (NewSession r1)
     [EvConnect a, EvLoop 0 StartOk, EvSetRules r2, EvLoop 0 Go, EvLoop 0 (Ready True)] in
   st_Status (ss_state s) = StatusConnected \<and> ss_eng s = Some 0 \<and> ss_rules s = r2 \<and> ss_applied s 0 = Some r1"
  by (simp add: NewSession_def Connect_def Active_def idle_state_def new_loop_def loop_step.simps
      started_def ready_def update_def setLocked_def emitState_def SetRules_def Let_def)

section \<open>The log\<close>

text \<open>The error lines kept are the newest fifty.\<close>

interpretation tunnel_errors: bounded_log add_error "\<lambda>es. es" "\<lambda>_. True" maxTunnelErrors
  by unfold_locales (simp_all add: add_error_def Let_def last_n_def)

section \<open>Instances\<close>


lemma stopped_loop_ends_witness:
  "own_moves 0 (foldl sess_step (NewSession ()) [EvConnect (), EvDisconnect]) [EvLoop 0 StartOk, EvLoop 0 Go] \<le> 9"
  using stopped_loop_ends [of "foldl sess_step (NewSession ()) [EvConnect (), EvDisconnect]" 0 "[EvLoop 0 StartOk, EvLoop 0 Go]"]
  by (simp add: stopped_def stop_closed_def NewSession_def Connect_def Disconnect_def Active_def idle_state_def
      new_loop_def setLocked_def emitState_def Let_def)

end
