(* ===== verification/TuiEvents.thy ===== *)
theory TuiEvents
  imports Contracts
begin

text \<open>
  What reaches the terminal interface from a running tunnel: the log lines kept for the Logs tab
  (\<^verbatim>\<open>internal/tui/logring.go\<close>), the queue through which the session delivers its events, and the
  messages of the statistics stream (\<^verbatim>\<open>internal/tui/session.go\<close>). Decoding a JSON text is an argument.
\<close>

section \<open>Log lines\<close>

definition MaxLogLines :: nat where "MaxLogLines = 500"

record log_ring =
  lr_lines :: "string list"
  lr_pending :: string
  lr_subs :: "string list list"
  lr_maxLine :: nat

definition NewLogRing :: "nat \<Rightarrow> log_ring" where
  "NewLogRing n = \<lparr>lr_lines = [], lr_pending = [], lr_subs = [], lr_maxLine = n\<rparr>"

definition LF :: char where "LF = CHR 0x0A"

text \<open>A subscriber's channel holds 1024 lines; what does not fit is not sent.\<close>

definition send_line :: "string \<Rightarrow> string list \<Rightarrow> string list" where
  "send_line x ch = (if length ch < 1024 then ch @ [x] else ch)"

definition clean_line :: "nat \<Rightarrow> string \<Rightarrow> string" where
  "clean_line n line = trim_right_by (\<lambda>c. c = CHR 0x0D) (if length line > n then take n line else line)"

definition keep_line :: "string \<Rightarrow> string list \<Rightarrow> string list" where
  "keep_line x xs = (let ys = xs @ [x] in if length ys > MaxLogLines then drop (length ys - MaxLogLines) ys else ys)"

definition add_line :: "string \<Rightarrow> log_ring \<Rightarrow> log_ring" where
  "add_line x r = r\<lparr>lr_lines := keep_line x (lr_lines r), lr_subs := map (send_line x) (lr_subs r)\<rparr>"

function ring_loop :: "log_ring \<Rightarrow> log_ring" where
  "ring_loop r =
     (case index_char LF (lr_pending r) of
        None \<Rightarrow> r
      | Some i \<Rightarrow>
          ring_loop (add_line (clean_line (lr_maxLine r) (take i (lr_pending r)))
                       (r\<lparr>lr_pending := drop (i + 1) (lr_pending r)\<rparr>)))"
  by auto
termination
  by (relation "measure (\<lambda>r. length (lr_pending r))") (auto simp: add_line_def dest: index_char_SomeD)

declare ring_loop.simps [simp del]

definition ring_Write :: "string \<Rightarrow> log_ring \<Rightarrow> log_ring" where
  "ring_Write p r =
     (let r1 = ring_loop (r\<lparr>lr_pending := lr_pending r @ p\<rparr>) in
      if length (lr_pending r1) > lr_maxLine r1 then r1\<lparr>lr_pending := []\<rparr> else r1)"

definition ring_Clear :: "log_ring \<Rightarrow> log_ring" where
  "ring_Clear r = r\<lparr>lr_lines := []\<rparr>"

definition ring_Subscribe :: "log_ring \<Rightarrow> log_ring" where
  "ring_Subscribe r = r\<lparr>lr_subs := lr_subs r @ [[]]\<rparr>"

lemma ring_loop_done: "LF \<notin> set (lr_pending r) \<Longrightarrow> ring_loop r = r"
  by (subst ring_loop.simps) (simp add: index_char_None_iff [THEN iffD2])

lemma index_char_first: "c \<notin> set a \<Longrightarrow> index_char c (a @ c # b) = Some (length a)"
  by (induction a) auto

lemma ring_loop_line:
  "LF \<notin> set a \<Longrightarrow> lr_pending r = a @ LF # b \<Longrightarrow>
   ring_loop r = ring_loop (add_line (clean_line (lr_maxLine r) a) (r\<lparr>lr_pending := b\<rparr>))"
  by (subst ring_loop.simps) (simp add: index_char_first)

text \<open>Every complete line is taken out; what is left is the part after the last line end.\<close>

fun complete_lines :: "string \<Rightarrow> string list" where
  "complete_lines s = butlast (split_on LF s)"

definition rest_line :: "string \<Rightarrow> string" where
  "rest_line s = last (split_on LF s)"

lemma split_cases:
  obtains (whole) "LF \<notin> set s" | (line) a b where "LF \<notin> set a" "s = a @ LF # b"
  by (metis split_list_first)

lemma ring_loop_lines:
  "ring_loop r =
     (fold add_line (map (clean_line (lr_maxLine r)) (complete_lines (lr_pending r))) r)\<lparr>lr_pending := rest_line (lr_pending r)\<rparr>"
proof (induction "length (lr_pending r)" arbitrary: r rule: less_induct)
  case less
  show ?case
  proof (cases rule: split_cases [of "lr_pending r"])
    case whole
    then show ?thesis
      by (simp add: ring_loop_done split_on_no_sep rest_line_def)
  next
    case (line a b)
    let ?x = "clean_line (lr_maxLine r) a"
    let ?r = "add_line ?x (r\<lparr>lr_pending := b\<rparr>)"
    have p: "lr_pending ?r = b" "lr_maxLine ?r = lr_maxLine r"
      by (simp_all add: add_line_def)
    have swap: "add_line x (r\<lparr>lr_pending := y\<rparr>) = (add_line x r)\<lparr>lr_pending := y\<rparr>" for x y r
      by (simp add: add_line_def)
    have swaps: "fold add_line xs (r\<lparr>lr_pending := y\<rparr>) = (fold add_line xs r)\<lparr>lr_pending := y\<rparr>" for xs y r
      by (induction xs arbitrary: r) (simp_all add: swap)
    have "ring_loop r = ring_loop ?r"
      by (rule ring_loop_line [OF line])
    also have "\<dots> = (fold add_line (map (clean_line (lr_maxLine r)) (complete_lines b)) ?r)\<lparr>lr_pending := rest_line b\<rparr>"
      using less [of ?r] line(2) by (simp add: p)
    also have "\<dots> = (fold add_line (map (clean_line (lr_maxLine r)) (complete_lines (lr_pending r))) r)\<lparr>lr_pending := rest_line (lr_pending r)\<rparr>"
      using line by (simp add: split_on_append_sep rest_line_def swap swaps)
    finally show ?thesis .
  qed
qed

interpretation log_lines: bounded_log keep_line "\<lambda>xs. xs" "\<lambda>_. True" MaxLogLines
  by unfold_locales (simp_all add: keep_line_def Let_def last_n_def)

lemma add_lines: "lr_lines (fold add_line xs r) = fold keep_line xs (lr_lines r)"
  by (induction xs arbitrary: r) (simp_all add: add_line_def)

lemma add_lines_max [simp]: "lr_maxLine (fold add_line xs r) = lr_maxLine r"
  by (induction xs arbitrary: r) (simp_all add: add_line_def)

lemma complete_lines_append:
  "complete_lines (s @ t) = complete_lines s @ complete_lines (rest_line s @ t) \<and> rest_line (s @ t) = rest_line (rest_line s @ t)"
proof (induction "length s" arbitrary: s rule: less_induct)
  case less
  show ?case
  proof (cases rule: split_cases [of s])
    case whole
    then show ?thesis
      by (simp add: split_on_no_sep rest_line_def)
  next
    case (line a b)
    then show ?thesis
      using less [of b] by (simp add: split_on_append_sep rest_line_def)
  qed
qed

text \<open>
  The log kept for the terminal does not depend on how the output is cut into writes, as long as no
  unfinished line outgrows the limit: after any writes the ring holds the newest 500 complete lines,
  each cut to the limit and without carriage returns at its end, and the unfinished rest.
\<close>

lemma log_ring_lines:
  assumes "list_all (\<lambda>k. length (rest_line (concat (take k ps))) \<le> n) [0..<Suc (length ps)]"
  shows "lr_lines (fold ring_Write ps (NewLogRing n)) =
      last_n MaxLogLines (map (clean_line n) (complete_lines (concat ps))) \<and>
    lr_pending (fold ring_Write ps (NewLogRing n)) = rest_line (concat ps)"
proof -
  have "lr_lines (fold ring_Write ps (NewLogRing n)) =
      last_n MaxLogLines (map (clean_line n) (complete_lines (concat ps))) \<and>
    lr_pending (fold ring_Write ps (NewLogRing n)) = rest_line (concat ps) \<and>
    lr_maxLine (fold ring_Write ps (NewLogRing n)) = n"
    using assms
  proof (induction ps rule: rev_induct)
    case Nil
    then show ?case by (simp add: NewLogRing_def rest_line_def)
  next
    case (snoc p ps)
    define r where "r = fold ring_Write ps (NewLogRing n)"
    let ?s = "concat ps"
    have "list_all (\<lambda>k. length (rest_line (concat (take k ps))) \<le> n) [0..<Suc (length ps)]"
      using snoc.prems by (simp add: list_all_iff less_Suc_eq)
    then have IH: "lr_lines r = last_n MaxLogLines (map (clean_line n) (complete_lines ?s))"
        "lr_pending r = rest_line ?s" "lr_maxLine r = n"
      using snoc.IH unfolding r_def by auto
    have short: "length (rest_line (?s @ p)) \<le> n"
      using snoc.prems by simp
    let ?q = "r\<lparr>lr_pending := lr_pending r @ p\<rparr>"
    have loop: "ring_loop ?q = (fold add_line (map (clean_line n) (complete_lines (rest_line ?s @ p))) ?q)\<lparr>lr_pending := rest_line (?s @ p)\<rparr>"
      using ring_loop_lines [of ?q] IH complete_lines_append [of ?s p] by simp
    have "lr_lines (ring_loop ?q) = fold keep_line (map (clean_line n) (complete_lines (rest_line ?s @ p))) (lr_lines r)"
      by (simp add: loop add_lines)
    also have "\<dots> = last_n MaxLogLines (lr_lines r @ map (clean_line n) (complete_lines (rest_line ?s @ p)))"
      by (rule log_lines.contents_adds) (simp_all add: IH)
    also have "\<dots> = last_n MaxLogLines (map (clean_line n) (complete_lines (?s @ p)))"
      using complete_lines_append [of ?s p] by (simp only: IH last_n_last_n_append) (simp only: map_append)
    finally have lines: "lr_lines (ring_loop ?q) = last_n MaxLogLines (map (clean_line n) (complete_lines (?s @ p)))" .
    show ?case
    proof -
      have "ring_Write p r = ring_loop ?q"
        using short IH(3) by (simp add: ring_Write_def Let_def loop)
      then have "fold ring_Write (ps @ [p]) (NewLogRing n) = ring_loop ?q"
        by (simp add: r_def)
      then show ?thesis
        using lines IH(3) loop by simp
    qed
  qed
  then show ?thesis by blast
qed

text \<open>
  A line that outgrows the limit before its end arrives is dropped, and what follows it counts as the
  whole line; the same line in one write is cut at the limit.
\<close>

lemma long_line_loses_head:
  "lr_lines (ring_Write ''gh\<newline>'' (ring_Write ''abcdef'' (NewLogRing 4))) = [''gh''] \<and>
   lr_lines (ring_Write ''abcdefgh\<newline>'' (NewLogRing 4)) = [''abcd'']"
  by (simp add: ring_Write_def ring_loop_lines NewLogRing_def LF_def rest_line_def clean_line_def add_line_def
      keep_line_def MaxLogLines_def trim_right_by_def Let_def)

section \<open>Delivery of events\<close>

text \<open>
  \<open>emit\<close> appends to the queue and leaves a wake-up in a channel of capacity one; the pump takes the
  wake-up, then empties the queue batch by batch. Its place: waiting, about to look at the queue, or
  with a batch to deliver.
\<close>

datatype 'e pump_place = PumpWaits | PumpLooks | PumpDelivers "'e list"

record 'e event_pump =
  ep_queue :: "'e list"
  ep_ready :: bool
  ep_sunk :: "'e list"
  ep_place :: "'e pump_place"

definition new_pump :: "'e event_pump" where
  "new_pump = \<lparr>ep_queue = [], ep_ready = False, ep_sunk = [], ep_place = PumpWaits\<rparr>"

definition emit :: "'e \<Rightarrow> 'e event_pump \<Rightarrow> 'e event_pump" where
  "emit e p = p\<lparr>ep_queue := ep_queue p @ [e], ep_ready := True\<rparr>"

definition pump :: "'e event_pump \<Rightarrow> 'e event_pump" where
  "pump p =
     (case ep_place p of
        PumpWaits \<Rightarrow> if ep_ready p then p\<lparr>ep_ready := False, ep_place := PumpLooks\<rparr> else p
      | PumpLooks \<Rightarrow>
          if ep_queue p = [] then p\<lparr>ep_place := PumpWaits\<rparr>
          else p\<lparr>ep_queue := [], ep_place := PumpDelivers (ep_queue p)\<rparr>
      | PumpDelivers [] \<Rightarrow> p\<lparr>ep_place := PumpLooks\<rparr>
      | PumpDelivers (e # es) \<Rightarrow> p\<lparr>ep_sunk := ep_sunk p @ [e], ep_place := PumpDelivers es\<rparr>)"

text \<open>One event: a call of \<open>emit\<close>, or the next step of the pump.\<close>

fun pump_step :: "'e event_pump \<Rightarrow> 'e option \<Rightarrow> 'e event_pump" where
  "pump_step p (Some e) = emit e p"
| "pump_step p None = pump p"

definition in_hand :: "'e event_pump \<Rightarrow> 'e list" where
  "in_hand p = (case ep_place p of PumpDelivers es \<Rightarrow> es | _ \<Rightarrow> [])"

definition pump_ok :: "'e list \<Rightarrow> 'e event_pump \<Rightarrow> bool" where
  "pump_ok sent p \<longleftrightarrow>
     ep_sunk p @ in_hand p @ ep_queue p = sent \<and> (ep_queue p \<noteq> [] \<and> ep_place p = PumpWaits \<longrightarrow> ep_ready p)"

lemma pump_step_ok:
  "pump_ok sent p \<Longrightarrow> pump_ok (sent @ (case e of None \<Rightarrow> [] | Some x \<Rightarrow> [x])) (pump_step p e)"
  by (cases e; cases "ep_place p")
    (auto simp: pump_ok_def in_hand_def emit_def pump_def split: list.split)

lemma pump_run_ok:
  "pump_ok sent p \<Longrightarrow> pump_ok (sent @ List.map_filter id es) (foldl pump_step p es)"
proof (induction es arbitrary: sent p)
  case (Cons e es)
  from Cons.IH [OF pump_step_ok [OF Cons.prems, of e]] show ?case
    by (cases e) (simp_all add: List.map_filter_def)
qed (simp add: List.map_filter_def)

text \<open>
  No event is lost or overtaken: what the sink got is a prefix of what was emitted, and all of it when
  the pump waits without a wake-up.
\<close>

lemma events_in_order:
  assumes "p = foldl pump_step new_pump es"
  shows "(\<exists>rest. List.map_filter id es = ep_sunk p @ rest) \<and>
    (ep_place p = PumpWaits \<and> \<not> ep_ready p \<longrightarrow> ep_sunk p = List.map_filter id es)"
proof -
  have "pump_ok ([] @ List.map_filter id es) p"
    unfolding assms by (rule pump_run_ok) (simp add: pump_ok_def new_pump_def in_hand_def)
  then show ?thesis
    by (auto simp: pump_ok_def in_hand_def intro: exI [of _ "in_hand p @ ep_queue p"] sym)
qed

section \<open>Messages of the statistics stream\<close>

datatype ('a, 'b, 'c, 'd) sse_event = SseStats 'a | SseConn 'b | SseConns 'c | SseDests 'd

definition sse_field :: "string \<times> string \<Rightarrow> string \<Rightarrow> string \<times> string" where
  "sse_field nd line =
     (if has_prefix line ''event: '' then (trim_prefix line ''event: '', snd nd)
      else if has_prefix line ''data: '' then (fst nd, trim_prefix line ''data: '')
      else nd)"

definition parseSSE ::
    "(string \<Rightarrow> 'a option) \<Rightarrow> (string \<Rightarrow> 'b option) \<Rightarrow> (string \<Rightarrow> 'c option) \<Rightarrow> (string \<Rightarrow> 'd option) \<Rightarrow>
     string \<Rightarrow> ('a, 'b, 'c, 'd) sse_event option" where
  "parseSSE stats conn conns dests msg =
     (case foldl sse_field ([], []) (split_on LF msg) of
        (name, data) \<Rightarrow>
          if name = ''stats'' then map_option SseStats (stats data)
          else if name = ''connection'' then map_option SseConn (conn data)
          else if name = ''connections_snapshot'' then map_option SseConns (conns data)
          else if name = ''destinations_snapshot'' then map_option SseDests (dests data)
          else None)"

text \<open>The messages the counters write, \<^verbatim>\<open>"event: %s\ndata: %s\n\n"\<close>, are taken apart again.\<close>

definition sse_message :: "string \<Rightarrow> string \<Rightarrow> string" where
  "sse_message name data = ''event: '' @ name @ LF # ''data: '' @ data @ [LF, LF]"

lemma sse_message_fields:
  assumes "LF \<notin> set name" "LF \<notin> set data"
  shows "foldl sse_field ([], []) (split_on LF (sse_message name data)) = (name, data)"
proof -
  have n: "LF \<notin> set (''event: '' @ name)" and d: "LF \<notin> set (''data: '' @ data)"
    using assms by (simp_all add: LF_def)
  have "split_on LF (sse_message name data) = [''event: '' @ name, ''data: '' @ data, [], []]"
    using split_on_append_sep [OF n, of "''data: '' @ data @ [LF, LF]"] split_on_append_sep [OF d, of "[LF]"]
      split_on_append_sep [of LF "[]" "[]"]
    by (simp add: sse_message_def)
  moreover have "trim_prefix (''event: '' @ name) ''event: '' = name" "trim_prefix (''data: '' @ data) ''data: '' = data"
    by (rule trim_prefix_append)+
  ultimately show ?thesis
    by (simp add: sse_field_def has_prefix_def)
qed

end
