(* ===== verification/SshConfig.thy ===== *)
theory SshConfig
  imports RuleStore GoNet
begin

text \<open>
  Importing hosts from an SSH configuration: \<^verbatim>\<open>internal/sshconfig\<close> (\<^verbatim>\<open>parse.go\<close>, \<^verbatim>\<open>profile.go\<close>,
  \<^verbatim>\<open>default_identity.go\<close>) and the target text of \<^verbatim>\<open>internal/sshconn/config.go\<close>. The files are the list
  of those that can be read or exist, by cleaned absolute path; what a glob pattern expands to is an
  argument. The recursion of the source through \<^verbatim>\<open>Include\<close> is a list of the work still to do: lines
  and files, those of an included file in front.
\<close>

section \<open>Paths (path/filepath on Unix)\<close>

fun clean_comps :: "bool \<Rightarrow> string list \<Rightarrow> string list \<Rightarrow> string list" where
  "clean_comps rooted acc [] = rev acc"
| "clean_comps rooted acc (c # cs) =
     (if c = [] \<or> c = ''.'' then clean_comps rooted acc cs
      else if c = ''..'' then
        (if acc = [] then clean_comps rooted (if rooted then [] else [c]) cs
         else if hd acc = ''..'' then clean_comps rooted (c # acc) cs
         else clean_comps rooted (tl acc) cs)
      else clean_comps rooted (c # acc) cs)"

definition is_abs :: "string \<Rightarrow> bool" where
  "is_abs p = has_prefix p ''/''"

definition path_clean :: "string \<Rightarrow> string" where
  "path_clean p =
     (let r = is_abs p; cs = clean_comps r [] (split_on (CHR ''/'') p); t = join_with ''/'' cs in
      if r then CHR ''/'' # t else if cs = [] then ''.'' else t)"

definition path_join :: "string list \<Rightarrow> string" where
  "path_join ps = (let qs = filter (\<lambda>p. p \<noteq> []) ps in if qs = [] then [] else path_clean (join_with ''/'' qs))"

definition path_dir :: "string \<Rightarrow> string" where
  "path_dir p = path_clean (case last_index_char (CHR ''/'') p of None \<Rightarrow> [] | Some i \<Rightarrow> take (i + 1) p)"

definition path_abs :: "string \<Rightarrow> string \<Rightarrow> string" where
  "path_abs cwd p = (if is_abs p then path_clean p else path_join [cwd, p])"

definition expandTilde :: "string \<Rightarrow> string \<Rightarrow> string" where
  "expandTilde path home =
     (if path = ''~'' then home else if has_prefix path ''~/'' then path_join [home, drop 2 path] else path)"

section \<open>Entries\<close>

record host_entry =
  he_Host :: string
  he_HostName :: "string option"
  he_User :: "string option"
  he_Port :: "int option"
  he_IdentityFile :: "string option"
  he_ProxyJump :: "string option"
  he_ProxyCommand :: "string option"

definition new_entry :: "string \<Rightarrow> host_entry" where
  "new_entry h =
     \<lparr>he_Host = h, he_HostName = None, he_User = None, he_Port = None, he_IdentityFile = None, he_ProxyJump = None,
      he_ProxyCommand = None\<rparr>"

record accumulator =
  ac_entries :: "host_entry list"
  ac_wildcard :: host_entry
  ac_current :: "host_entry option"
  ac_isWildcard :: bool
  ac_skipping :: bool

definition newAccumulator :: accumulator where
  "newAccumulator =
     \<lparr>ac_entries = [], ac_wildcard = new_entry ''*'', ac_current = None, ac_isWildcard = False, ac_skipping = False\<rparr>"

definition or_else :: "'a option \<Rightarrow> 'a option \<Rightarrow> 'a option" where
  "or_else a b = (if a = None then b else a)"

definition fill_wildcard :: "host_entry \<Rightarrow> host_entry \<Rightarrow> host_entry" where
  "fill_wildcard w p =
     w\<lparr>he_HostName := or_else (he_HostName w) (he_HostName p), he_User := or_else (he_User w) (he_User p),
       he_Port := or_else (he_Port w) (he_Port p), he_IdentityFile := or_else (he_IdentityFile w) (he_IdentityFile p),
       he_ProxyJump := or_else (he_ProxyJump w) (he_ProxyJump p),
       he_ProxyCommand := or_else (he_ProxyCommand w) (he_ProxyCommand p)\<rparr>"

definition flush :: "accumulator \<Rightarrow> accumulator" where
  "flush a =
     (case ac_current a of
        None \<Rightarrow> a
      | Some p \<Rightarrow>
          if ac_isWildcard a then a\<lparr>ac_current := None, ac_wildcard := fill_wildcard (ac_wildcard a) p\<rparr>
          else a\<lparr>ac_current := None, ac_entries := ac_entries a @ [p]\<rparr>)"

section \<open>Lines\<close>

fun index_by :: "(char \<Rightarrow> bool) \<Rightarrow> string \<Rightarrow> nat option" where
  "index_by P [] = None"
| "index_by P (c # s) = (if P c then Some 0 else map_option Suc (index_by P s))"

definition parseKV :: "string \<Rightarrow> (string \<times> string) option" where
  "parseKV line =
     (let t = trim_space line in
      if t = [] \<or> has_prefix t ''#'' then None
      else
        (case index_by (\<lambda>c. c = CHR '' '' \<or> c = CHR 0x09) t of
           None \<Rightarrow> None
         | Some i \<Rightarrow>
             let k = trim_space (take i t); v = trim_space (drop (i + 1) t) in
             if k = [] \<or> v = [] then None else Some (to_lower k, v)))"

definition glob_char :: "char \<Rightarrow> bool" where
  "glob_char c \<longleftrightarrow> c = CHR ''*'' \<or> c = CHR ''?''"

definition isWildcardHost :: "string \<Rightarrow> bool" where
  "isWildcardHost host =
     (let ps = filter (\<lambda>p. \<not> has_prefix p ''!'') (go_fields host) in
      ps \<noteq> [] \<and> list_all (list_ex glob_char) ps)"

definition set_field :: "string \<Rightarrow> string \<Rightarrow> string \<Rightarrow> host_entry \<Rightarrow> host_entry" where
  "set_field home key v e =
     (if key = ''hostname'' then e\<lparr>he_HostName := Some v\<rparr>
      else if key = ''user'' then e\<lparr>he_User := Some v\<rparr>
      else if key = ''port'' then (case atoi v of Some n \<Rightarrow> e\<lparr>he_Port := Some n\<rparr> | None \<Rightarrow> e)
      else if key = ''identityfile'' then e\<lparr>he_IdentityFile := Some (expandTilde v home)\<rparr>
      else if key = ''proxyjump'' then e\<lparr>he_ProxyJump := Some v\<rparr>
      else if key = ''proxycommand'' then e\<lparr>he_ProxyCommand := Some v\<rparr>
      else e)"

definition applyDirective :: "string \<Rightarrow> string \<Rightarrow> string \<Rightarrow> accumulator \<Rightarrow> accumulator" where
  "applyDirective home key v a = a\<lparr>ac_current := map_option (set_field home key v) (ac_current a)\<rparr>"

text \<open>What a line that is no \<^verbatim>\<open>Include\<close> does.\<close>

definition directive :: "string \<Rightarrow> string \<Rightarrow> string \<Rightarrow> accumulator \<Rightarrow> accumulator" where
  "directive home key v a =
     (if key = ''host'' then
        (flush a)\<lparr>ac_skipping := False, ac_isWildcard := isWildcardHost v, ac_current := Some (new_entry v)\<rparr>
      else if key = ''match'' then (flush a)\<lparr>ac_skipping := True\<rparr>
      else if ac_skipping a \<or> ac_current a = None then a
      else applyDirective home key v a)"

section \<open>Files\<close>

datatype ssh_file = NoAccess | SshText string

record ssh_env =
  sv_home :: string
  sv_cwd :: string
  sv_files :: "(string \<times> ssh_file) list"
  sv_glob :: "string \<Rightarrow> string list"

definition include_paths :: "ssh_env \<Rightarrow> string \<Rightarrow> string \<Rightarrow> string list" where
  "include_paths env spec base =
     concat (map (\<lambda>raw.
       let p = expandTilde raw (sv_home env); path = (if is_abs p then p else path_join [base, p]);
           matches = sv_glob env path
       in sort (if matches = [] then [path] else matches)) (go_fields spec))"

datatype work = WLine string string | WFile string

definition line_includes :: "ssh_env \<Rightarrow> string \<Rightarrow> string \<Rightarrow> string list option" where
  "line_includes env line base =
     (case parseKV line of
        Some (key, v) \<Rightarrow>
          if key = ''include'' then Some (if base = [] then [] else include_paths env v base) else None
      | None \<Rightarrow> None)"

fun work_size :: "ssh_env \<Rightarrow> work \<Rightarrow> nat" where
  "work_size env (WLine l b) = Suc (case line_includes env l b of Some ps \<Rightarrow> length ps | None \<Rightarrow> 0)"
| "work_size env (WFile p) = 1"

definition unread :: "ssh_env \<Rightarrow> string list \<Rightarrow> nat" where
  "unread env visited = length (filter (\<lambda>f. fst f \<notin> set visited) (sv_files env))"

text \<open>
  \<open>visited\<close> are the files seen so far, the latest first. A file that was seen, is missing or
  cannot be read is passed over.
\<close>

function process :: "ssh_env \<Rightarrow> work list \<Rightarrow> string list \<Rightarrow> accumulator \<Rightarrow> string list \<times> accumulator" where
  "process env [] visited a = (visited, a)"
| "process env (WLine l b # ws) visited a =
     (case line_includes env l b of
        Some ps \<Rightarrow> process env (map WFile ps @ ws) visited a
      | None \<Rightarrow>
          (case parseKV l of
             None \<Rightarrow> process env ws visited a
           | Some (key, v) \<Rightarrow> process env ws visited (directive (sv_home env) key v a)))"
| "process env (WFile p # ws) visited a =
     (let ab = path_abs (sv_cwd env) p in
      if ab \<in> set visited then process env ws visited (flush a)
      else
        (case map_of (sv_files env) ab of
           Some (SshText raw) \<Rightarrow>
             process env (map (\<lambda>l. WLine l (path_dir p)) (split_on (CHR 0x0A) raw) @ ws) (ab # visited) (flush a)
         | _ \<Rightarrow> process env ws (ab # visited) (flush a)))"
  by pat_completeness auto

lemma filter_shrinks:
  "(\<And>x. P x \<Longrightarrow> Q x) \<Longrightarrow> length (filter P xs) \<le> length (filter Q xs)"
  "(\<And>x. P x \<Longrightarrow> Q x) \<Longrightarrow> y \<in> set xs \<Longrightarrow> Q y \<Longrightarrow> \<not> P y \<Longrightarrow> length (filter P xs) < length (filter Q xs)"
proof -
  show le: "length (filter P xs) \<le> length (filter Q xs)" if "\<And>x. P x \<Longrightarrow> Q x" for xs
    using that by (induction xs) auto
  show "length (filter P xs) < length (filter Q xs)" if pq: "\<And>x. P x \<Longrightarrow> Q x" and y: "y \<in> set xs" "Q y" "\<not> P y"
    using y
  proof (induction xs)
    case (Cons x xs)
    then show ?case using le [OF pq, of xs] pq [of x] by (cases "x = y") auto
  qed simp
qed

lemma unread_mono: "unread env (x # visited) \<le> unread env visited"
  unfolding unread_def by (rule filter_shrinks(1)) simp

lemma unread_less: "map_of (sv_files env) p = Some t \<Longrightarrow> p \<notin> set visited \<Longrightarrow> unread env (p # visited) < unread env visited"
  unfolding unread_def by (rule filter_shrinks(2)) (auto dest: map_of_SomeD)

termination process
proof -
  let ?R = "measures [\<lambda>(env :: ssh_env, ws :: work list, visited, a :: accumulator). unread env visited,
    \<lambda>(env, ws, visited, a). sum_list (map (work_size env) ws)]"
  have reads: "((env, ws, ab # visited, flush a), env, WFile p # ws, visited, a) \<in> ?R" for env ws ab visited a p
    using unread_mono [of env ab visited] by (auto simp: le_less)
  have expands: "((env, map WFile ps @ ws, visited, a), env, WLine l b # ws, visited, a) \<in> ?R"
    if "line_includes env l b = Some ps" for env ps ws visited a l b
    using that by (simp add: comp_def sum_list_triv)
  show ?thesis
    by (relation ?R) (rule expands reads | assumption | (simp add: unread_less; fail))+
qed

text \<open>
  C28: Reading an SSH configuration ends, also when the files include each other in a cycle (the
  function is total), and reads no file twice.
\<close>

theorem includes_read_once:
  assumes "distinct visited"
  shows "distinct (fst (process env ws visited a)) \<and> set visited \<subseteq> set (fst (process env ws visited a))"
  using assms
proof (induction env ws visited a rule: process.induct)
  case (3 env p ws visited a)
  then show ?case by (simp add: Let_def split: option.splits ssh_file.splits)
qed (auto split: option.splits)

section \<open>Results\<close>

definition fill_defaults :: "host_entry \<Rightarrow> host_entry \<Rightarrow> host_entry" where
  "fill_defaults w e =
     e\<lparr>he_IdentityFile := or_else (he_IdentityFile e) (he_IdentityFile w), he_User := or_else (he_User e) (he_User w),
       he_Port := or_else (he_Port e) (he_Port w), he_ProxyJump := or_else (he_ProxyJump e) (he_ProxyJump w),
       he_ProxyCommand := or_else (he_ProxyCommand e) (he_ProxyCommand w)\<rparr>"

definition finalize :: "accumulator \<Rightarrow> host_entry list" where
  "finalize a = (let b = flush a in sort_key he_Host (map (fill_defaults (ac_wildcard b)) (ac_entries b)))"

definition text_work :: "string \<Rightarrow> string \<Rightarrow> work list" where
  "text_work raw base = map (\<lambda>l. WLine l base) (split_on (CHR 0x0A) raw)"

definition no_files :: "string \<Rightarrow> ssh_env" where
  "no_files home = \<lparr>sv_home = home, sv_cwd = [], sv_files = [], sv_glob = (\<lambda>_. [])\<rparr>"

definition Parse :: "string \<Rightarrow> string \<Rightarrow> host_entry list" where
  "Parse raw home = finalize (snd (process (no_files home) (text_work raw []) [] newAccumulator))"

definition ParseDefault :: "ssh_env \<Rightarrow> error + host_entry list" where
  "ParseDefault env =
     (let path = path_join [sv_home env, ''.ssh'', ''config''] in
      case map_of (sv_files env) (path_abs (sv_cwd env) path) of
        None \<Rightarrow> Inr []
      | Some NoAccess \<Rightarrow> Inl (Msg ''read'')
      | Some (SshText _) \<Rightarrow> Inr (finalize (snd (process env [WFile path] [] newAccumulator))))"

fun default_identity :: "string \<Rightarrow> bool \<Rightarrow> string list \<Rightarrow> string" where
  "default_identity home w [] = []"
| "default_identity home w (l # ls) =
     (case parseKV l of
        None \<Rightarrow> default_identity home w ls
      | Some (key, v) \<Rightarrow>
          if key = ''host'' then default_identity home (isWildcardHost v) ls
          else if w \<and> key = ''identityfile'' then expandTilde v home
          else default_identity home w ls)"

definition DefaultIdentityFile :: "ssh_env \<Rightarrow> string" where
  "DefaultIdentityFile env =
     (case map_of (sv_files env) (path_abs (sv_cwd env) (path_join [sv_home env, ''.ssh'', ''config''])) of
        Some (SshText raw) \<Rightarrow> default_identity (sv_home env) False (split_on (CHR 0x0A) raw)
      | _ \<Rightarrow> [])"

section \<open>Profiles\<close>

definition is_given :: "string option \<Rightarrow> bool" where
  "is_given x \<longleftrightarrow> (case x of None \<Rightarrow> False | Some s \<Rightarrow> s \<noteq> [])"

definition BuildRemote :: "host_entry \<Rightarrow> string" where
  "BuildRemote e =
     (let h = (if is_given (he_HostName e) then the (he_HostName e) else he_Host e);
          u = (if is_given (he_User e) then the (he_User e) @ ''@'' @ h else h)
      in case he_Port e of None \<Rightarrow> u | Some n \<Rightarrow> u @ CHR '':'' # itoa n)"

definition findHost :: "host_entry list \<Rightarrow> string \<Rightarrow> host_entry option" where
  "findHost es h = find (\<lambda>e. he_Host e = h) es"

definition jump_to :: "string \<Rightarrow> string \<Rightarrow> jump_host" where
  "jump_to r i = \<lparr>jh_Remote = r, jh_IdentityFile = i, jh_IdentityKey = []\<rparr>"

definition entry_jump :: "string \<Rightarrow> host_entry \<Rightarrow> jump_host" where
  "entry_jump i e = jump_to (BuildRemote e) (case he_IdentityFile e of Some f \<Rightarrow> f | None \<Rightarrow> i)"

definition ResolveJumpHosts :: "string \<Rightarrow> host_entry list \<Rightarrow> jump_host list" where
  "ResolveJumpHosts pj es =
     map (\<lambda>h. case findHost es h of Some e \<Rightarrow> entry_jump [] e | None \<Rightarrow> jump_to h [])
       (filter (\<lambda>h. h \<noteq> []) (map trim_space (split_on (CHR '','') pj)))"

text \<open>The class \<^verbatim>\<open>\s\<close> of a regular expression, and the two expressions of the source.\<close>

definition re_space :: "char \<Rightarrow> bool" where
  "re_space c \<longleftrightarrow> c \<in> {CHR 0x09, CHR 0x0A, CHR 0x0C, CHR 0x0D, CHR '' ''}"

definition ssh_prefix :: "string \<Rightarrow> string option" where
  "ssh_prefix t =
     (if to_lower (take 3 t) = ''ssh'' \<and> drop 3 t \<noteq> [] \<and> re_space (hd (drop 3 t))
      then Some (dropWhile re_space (drop 3 t)) else None)"

definition match_dashW :: "string \<Rightarrow> string option" where
  "match_dashW s =
     (if has_prefix s ''-W'' then
        (let r = drop 2 s; r' = dropWhile re_space r in
         if r \<noteq> r' \<and> has_prefix r' ''%h:%p'' then Some (drop 5 r') else None)
      else None)"

lemma match_dashW_shorter: "match_dashW s = Some r \<Longrightarrow> length r < length s"
proof -
  assume m: "match_dashW s = Some r"
  then have p: "has_prefix s ''-W''" "r = drop 5 (dropWhile re_space (drop 2 s))"
    by (auto simp: match_dashW_def Let_def split: if_splits)
  have "length (dropWhile re_space (drop 2 s)) \<le> length (drop 2 s)"
    by (rule length_dropWhile_le)
  moreover have "s \<noteq> []" using p(1) by (auto simp: has_prefix_iff)
  ultimately show ?thesis using p(2) by (cases s) auto
qed

function strip_dashW :: "string \<Rightarrow> string" where
  "strip_dashW [] = []"
| "strip_dashW (c # s) =
     (case match_dashW (c # s) of Some r \<Rightarrow> strip_dashW r | None \<Rightarrow> c # strip_dashW s)"
  by pat_completeness auto
termination
  by (relation "measure length") (auto dest: match_dashW_shorter)

fun jump_tokens :: "string list \<Rightarrow> string \<Rightarrow> string \<Rightarrow> string list \<Rightarrow> string \<times> string \<times> string list" where
  "jump_tokens [] port ident rest = (port, ident, rest)"
| "jump_tokens (t # ts) port ident rest =
     (if t = ''-p'' then (case ts of [] \<Rightarrow> (port, ident, rest) | v # us \<Rightarrow> jump_tokens us v ident rest)
      else if t = ''-i'' then (case ts of [] \<Rightarrow> (port, ident, rest) | v # us \<Rightarrow> jump_tokens us port v rest)
      else if t = ''-o'' then (case ts of [] \<Rightarrow> (port, ident, rest) | v # us \<Rightarrow> jump_tokens us port ident rest)
      else if has_prefix t ''-'' then jump_tokens ts port ident rest
      else jump_tokens ts port ident (rest @ [t]))"

definition ParseProxyCommandAsJump :: "string \<Rightarrow> host_entry list \<Rightarrow> jump_host list" where
  "ParseProxyCommandAsJump cmd es =
     (let t = trim_space cmd in
      case ssh_prefix t of
        None \<Rightarrow> []
      | Some r \<Rightarrow>
          if \<not> contains_sub t ''-W %h:%p'' then []
          else
            (case jump_tokens (go_fields (trim_space (strip_dashW r))) [] [] [] of
               (port, ident, rest) \<Rightarrow>
                 if rest = [] then []
                 else
                   (case findHost es (last rest) of
                      Some e \<Rightarrow> [entry_jump ident e]
                    | None \<Rightarrow> [jump_to (if port \<noteq> [] then last rest @ CHR '':'' # port else last rest) ident])))"

record imported_profile = profile +
  pi_ExtraSSHOpts :: string

definition ApplyToProfile :: "host_entry \<Rightarrow> host_entry list \<Rightarrow> imported_profile \<Rightarrow> imported_profile" where
  "ApplyToProfile e es p =
     (let p1 = p\<lparr>pf_Name := he_Host e, pf_Remote := BuildRemote e,
                 pf_IdentityFile := (case he_IdentityFile e of Some f \<Rightarrow> f | None \<Rightarrow> pf_IdentityFile p), pf_Imported := True\<rparr>;
          jumps = (case he_ProxyJump e of None \<Rightarrow> [] | Some pj \<Rightarrow> ResolveJumpHosts pj es);
          (js, p2) =
            (case (he_ProxyCommand e, he_ProxyJump e) of
               (Some pc, None) \<Rightarrow>
                 let parsed = ParseProxyCommandAsJump pc es in
                 if parsed \<noteq> [] then (parsed, p1)
                 else (jumps, p1\<lparr>pi_ExtraSSHOpts := ''-o ProxyCommand='' @ CHR 0x27 # pc @ [CHR 0x27]\<rparr>)
             | _ \<Rightarrow> (jumps, p1))
      in if js \<noteq> [] then p2\<lparr>pf_JumpHosts := js\<rparr> else p2)"

section \<open>Connecting to a target\<close>

record host_config =
  hc_User :: string
  hc_HostName :: string
  hc_Port :: int
  hc_IdentityFile :: string
  hc_ProxyJump :: string
  hc_ProxyCommand :: string

definition splitUserHost :: "string \<Rightarrow> string \<times> string" where
  "splitUserHost s =
     (case last_index_char (CHR ''@'') s of None \<Rightarrow> ([], s) | Some i \<Rightarrow> (take i s, drop (i + 1) s))"

definition split_port :: "string \<Rightarrow> int \<times> string" where
  "split_port host =
     (case last_index_char (CHR '':'') host of
        None \<Rightarrow> (0, host)
      | Some i \<Rightarrow> (case atoi (drop (i + 1) host) of Some p \<Rightarrow> (p, take i host) | None \<Rightarrow> (0, host)))"

text \<open>
  \<open>cfg\<close> is what the third-party parser makes of the file, if there is one; \<open>envUser\<close> the variable
  \<^verbatim>\<open>USER\<close>, \<open>home\<close> the home directory.
\<close>

definition ParseSSHConfig ::
    "(error + (string \<Rightarrow> string \<Rightarrow> string)) option \<Rightarrow> string \<Rightarrow> (string \<Rightarrow> string) \<Rightarrow> string \<Rightarrow> error + host_config" where
  "ParseSSHConfig cfg envUser expandHome alias =
     (let (user, h0) = splitUserHost alias; (cliPort, host) = split_port h0 in
      case cfg of
        None \<Rightarrow>
          Inr \<lparr>hc_User = (if user = [] then envUser else user), hc_HostName = host,
               hc_Port = (if cliPort > 0 then cliPort else 22), hc_IdentityFile = [], hc_ProxyJump = [], hc_ProxyCommand = []\<rparr>
      | Some (Inl e) \<Rightarrow> Inl (Wrapped ''ssh_config'' e)
      | Some (Inr c) \<Rightarrow>
          let get = c host;
              p0 = (if cliPort > 0 then cliPort else 22);
              u1 = (if get ''User'' \<noteq> [] \<and> user = [] then get ''User'' else user);
              u2 = (if u1 = [] then envUser else u1)
          in Inr \<lparr>hc_User = (if u2 = [] then ''root'' else u2),
                  hc_HostName = (if get ''HostName'' \<noteq> [] then get ''HostName'' else host),
                  hc_Port = (if cliPort = 0 \<and> get ''Port'' \<noteq> [] then (case atoi (get ''Port'') of Some n \<Rightarrow> n | None \<Rightarrow> p0) else p0),
                  hc_IdentityFile = (if get ''IdentityFile'' \<noteq> [] then expandHome (get ''IdentityFile'') else []),
                  hc_ProxyJump = get ''ProxyJump'', hc_ProxyCommand = get ''ProxyCommand''\<rparr>)"

section \<open>Writing and reading a configuration\<close>

definition LFc :: char where "LFc = CHR 0x0A"

definition value_ok :: "string \<Rightarrow> bool" where
  "value_ok v \<longleftrightarrow> v \<noteq> [] \<and> trim_space v = v \<and> LFc \<notin> set v"

definition opt_line :: "string \<Rightarrow> string option \<Rightarrow> string list" where
  "opt_line key v = (case v of None \<Rightarrow> [] | Some x \<Rightarrow> [key @ '' '' @ x])"

definition print_entry :: "host_entry \<Rightarrow> string list" where
  "print_entry e =
     [''Host '' @ he_Host e] @ opt_line ''HostName'' (he_HostName e) @ opt_line ''User'' (he_User e) @
     opt_line ''Port'' (map_option itoa (he_Port e)) @ opt_line ''IdentityFile'' (he_IdentityFile e) @
     opt_line ''ProxyJump'' (he_ProxyJump e) @ opt_line ''ProxyCommand'' (he_ProxyCommand e)"

definition opt_ok :: "string option \<Rightarrow> bool" where
  "opt_ok v \<longleftrightarrow> (case v of None \<Rightarrow> True | Some x \<Rightarrow> value_ok x)"

definition entry_ok :: "string \<Rightarrow> host_entry \<Rightarrow> bool" where
  "entry_ok home e \<longleftrightarrow>
     value_ok (he_Host e) \<and> opt_ok (he_HostName e) \<and> opt_ok (he_User e) \<and> opt_ok (he_IdentityFile e) \<and>
     opt_ok (he_ProxyJump e) \<and> opt_ok (he_ProxyCommand e) \<and>
     (case he_Port e of None \<Rightarrow> True | Some n \<Rightarrow> int64_min \<le> n \<and> n \<le> int64_max) \<and>
     (case he_IdentityFile e of None \<Rightarrow> True | Some f \<Rightarrow> expandTilde f home = f)"

definition print_config :: "host_entry list \<Rightarrow> string" where
  "print_config es = concat (map (\<lambda>l. l @ [LFc]) (concat (map print_entry es)))"

lemma index_by_append: "list_all (\<lambda>c. \<not> P c) k \<Longrightarrow> P c \<Longrightarrow> index_by P (k @ c # s) = Some (length k)"
  by (induction k) auto

lemma value_ok_ends:
  assumes "value_ok v"
  shows "v \<noteq> []" "\<not> is_space (last v)" "trim_space v = v"
  using assms trim_right_by_Nil_or_last [of is_space "dropWhile is_space v"]
  by (auto simp: value_ok_def trim_space_def)

lemma trim_spaced:
  assumes "s \<noteq> []" "\<not> is_space (hd s)" "\<not> is_space (last s)"
  shows "trim_space s = s"
  using assms by (intro trim_space_fixed) auto

lemma parseKV_line:
  assumes key: "list_all (\<lambda>c. \<not> is_space c) key" "key \<noteq> []" "hd key \<noteq> CHR ''#''" and v: "value_ok v"
  shows "parseKV (key @ '' '' @ v) = Some (to_lower key, v)"
proof -
  have k: "\<not> is_space (hd key)" "\<not> is_space (last key)"
    using key by (auto simp: list_all_iff)
  have "trim_space (key @ '' '' @ v) = key @ '' '' @ v"
    using k key(2) value_ok_ends [OF v] by (intro trim_spaced) auto
  moreover have "index_by (\<lambda>c. c = CHR '' '' \<or> c = CHR 0x09) (key @ '' '' @ v) = Some (length key)"
    using key(1) index_by_append [of "\<lambda>c. c = CHR '' '' \<or> c = CHR 0x09" key "CHR '' ''" v]
    by (auto simp: list_all_iff is_space_def)
  moreover have "\<not> has_prefix (key @ '' '' @ v) ''#''"
    using key by (cases key) (auto simp: has_prefix_iff)
  moreover have "trim_space key = key"
    using k key(2) by (intro trim_spaced)
  ultimately show ?thesis
    using key(2) value_ok_ends [OF v] by (simp add: parseKV_def to_lower_def)
qed

text \<open>A text without files: one directive after the other.\<close>

definition line_step :: "string \<Rightarrow> accumulator \<Rightarrow> string \<Rightarrow> accumulator" where
  "line_step home a l =
     (case parseKV l of None \<Rightarrow> a | Some (k, v) \<Rightarrow> if k = ''include'' then a else directive home k v a)"

lemma process_text:
  "process env (map (\<lambda>l. WLine l []) ls) visited a = (visited, foldl (line_step (sv_home env)) a ls)"
  by (induction ls arbitrary: a) (auto simp: line_includes_def line_step_def split: option.split)

definition block_start :: "host_entry \<Rightarrow> accumulator \<Rightarrow> host_entry \<Rightarrow> accumulator" where
  "block_start h a e = (flush a)\<lparr>ac_skipping := False, ac_isWildcard := isWildcardHost (he_Host h), ac_current := Some e\<rparr>"

lemma keywords_lower:
  "to_lower ''Host'' = ''host''" "to_lower ''HostName'' = ''hostname''" "to_lower ''User'' = ''user''"
  "to_lower ''Port'' = ''port''" "to_lower ''IdentityFile'' = ''identityfile''"
  "to_lower ''ProxyJump'' = ''proxyjump''" "to_lower ''ProxyCommand'' = ''proxycommand''"
  by code_simp+

lemma host_line:
  "value_ok (he_Host h) \<Longrightarrow> line_step home a (''Host '' @ he_Host h) = block_start h a (new_entry (he_Host h))"
  using parseKV_line [of "''Host''" "he_Host h"]
  by (simp add: line_step_def directive_def block_start_def keywords_lower is_space_def)

lemma field_line:
  assumes "list_all (\<lambda>c. \<not> is_space c) key" "key \<noteq> []" "hd key \<noteq> CHR ''#''"
    and "to_lower key \<notin> {''include'', ''host'', ''match''}"
    and "opt_ok v"
  shows "foldl (line_step home) (block_start h a e) (opt_line key v) =
    block_start h a (case v of None \<Rightarrow> e | Some x \<Rightarrow> set_field home (to_lower key) x e)"
proof (cases v)
  case (Some x)
  then have "parseKV (key @ '' '' @ x) = Some (to_lower key, x)"
    using assms by (intro parseKV_line) (auto simp: opt_ok_def)
  then show ?thesis
    using assms(4) Some by (simp add: opt_line_def line_step_def directive_def applyDirective_def block_start_def)
qed (simp add: opt_line_def)

lemma itoa_value: "value_ok (itoa n)"
proof -
  have c: "c \<in> set (itoa n) \<Longrightarrow> \<not> is_space c" for c
    using itoa_chars [of c n] digit_not_space [of c] by (auto simp: is_space_def)
  have "LFc \<notin> set (itoa n)"
    using c [of LFc] by (auto simp: LFc_def is_space_def)
  moreover have "trim_space (itoa n) = itoa n"
    using c [of "hd (itoa n)"] c [of "last (itoa n)"] by (intro trim_spaced) auto
  ultimately show ?thesis
    by (simp add: value_ok_def)
qed

lemma entry_lines:
  assumes ok: "entry_ok home e"
  shows "foldl (line_step home) a (print_entry e) = block_start e a e"
proof -
  have v: "opt_ok (he_HostName e)" "opt_ok (he_User e)" "opt_ok (he_IdentityFile e)" "opt_ok (he_ProxyJump e)"
      "opt_ok (he_ProxyCommand e)" "opt_ok (map_option itoa (he_Port e))"
    using ok itoa_value by (auto simp: entry_ok_def opt_ok_def split: option.split)
  note line = field_line [where h = e and a = a and home = home]
  have sets:
      "foldl (line_step home) (block_start e a d) (opt_line ''HostName'' (he_HostName e)) =
        block_start e a (d\<lparr>he_HostName := or_else (he_HostName e) (he_HostName d)\<rparr>)"
      "foldl (line_step home) (block_start e a d) (opt_line ''User'' (he_User e)) =
        block_start e a (d\<lparr>he_User := or_else (he_User e) (he_User d)\<rparr>)"
      "foldl (line_step home) (block_start e a d) (opt_line ''ProxyJump'' (he_ProxyJump e)) =
        block_start e a (d\<lparr>he_ProxyJump := or_else (he_ProxyJump e) (he_ProxyJump d)\<rparr>)"
      "foldl (line_step home) (block_start e a d) (opt_line ''ProxyCommand'' (he_ProxyCommand e)) =
        block_start e a (d\<lparr>he_ProxyCommand := or_else (he_ProxyCommand e) (he_ProxyCommand d)\<rparr>)" for d
    using v by (simp_all add: line keywords_lower is_space_def set_field_def or_else_def split: option.split)
  have ident: "foldl (line_step home) (block_start e a d) (opt_line ''IdentityFile'' (he_IdentityFile e)) =
      block_start e a (d\<lparr>he_IdentityFile := or_else (he_IdentityFile e) (he_IdentityFile d)\<rparr>)" for d
    using v ok by (auto simp: line keywords_lower is_space_def set_field_def or_else_def entry_ok_def split: option.splits)
  have port: "foldl (line_step home) (block_start e a d) (opt_line ''Port'' (map_option itoa (he_Port e))) =
      block_start e a (d\<lparr>he_Port := or_else (he_Port e) (he_Port d)\<rparr>)" for d
    using v ok by (auto simp: line keywords_lower is_space_def set_field_def or_else_def entry_ok_def split: option.splits)
  have host: "value_ok (he_Host e)"
    using ok by (simp add: entry_ok_def)
  have "foldl (line_step home) a (print_entry e) =
      block_start e a (new_entry (he_Host e)
        \<lparr>he_HostName := or_else (he_HostName e) None, he_User := or_else (he_User e) None,
          he_Port := or_else (he_Port e) None, he_IdentityFile := or_else (he_IdentityFile e) None,
          he_ProxyJump := or_else (he_ProxyJump e) None, he_ProxyCommand := or_else (he_ProxyCommand e) None\<rparr>)"
    unfolding print_entry_def foldl_append foldl.simps host_line [OF host] sets ident port
    by (simp add: new_entry_def)
  also have "\<dots> = block_start e a e"
    by (cases e) (simp add: new_entry_def or_else_def)
  finally show ?thesis .
qed

definition wild :: "host_entry \<Rightarrow> bool" where
  "wild e = isWildcardHost (he_Host e)"

lemma blocks_flushed:
  "ac_entries (flush (foldl (\<lambda>a e. block_start e a e) a es)) = ac_entries (flush a) @ filter (\<lambda>e. \<not> wild e) es"
  "ac_wildcard (flush (foldl (\<lambda>a e. block_start e a e) a es)) = foldl fill_wildcard (ac_wildcard (flush a)) (filter wild es)"
  by (induction es arbitrary: a) (auto simp: block_start_def flush_def wild_def)

lemma opt_line_no_newline:
  "LFc \<notin> set key \<Longrightarrow> opt_ok v \<Longrightarrow> l \<in> set (opt_line key v) \<Longrightarrow> LFc \<notin> set l"
  by (auto simp: opt_line_def opt_ok_def value_ok_def LFc_def split: option.splits)

lemma entry_no_newline:
  assumes ok: "entry_ok home e" and l: "l \<in> set (print_entry e)"
  shows "LFc \<notin> set l"
proof -
  have v: "opt_ok (Some (he_Host e))" "opt_ok (he_HostName e)" "opt_ok (he_User e)" "opt_ok (he_IdentityFile e)"
      "opt_ok (he_ProxyJump e)" "opt_ok (he_ProxyCommand e)" "opt_ok (map_option itoa (he_Port e))"
    using ok itoa_value by (auto simp: entry_ok_def opt_ok_def split: option.split)
  have keys: "LFc \<notin> set ''Host''" "LFc \<notin> set ''HostName''" "LFc \<notin> set ''User''" "LFc \<notin> set ''IdentityFile''"
      "LFc \<notin> set ''ProxyJump''" "LFc \<notin> set ''ProxyCommand''" "LFc \<notin> set ''Port''"
    by (simp_all add: LFc_def)
  have first: "[''Host '' @ he_Host e] = opt_line ''Host'' (Some (he_Host e))"
    by (simp add: opt_line_def)
  show ?thesis
    using l unfolding print_entry_def first set_append Un_iff
    by (elim disjE) (rule opt_line_no_newline [OF keys(1) v(1)] opt_line_no_newline [OF keys(2) v(2)]
        opt_line_no_newline [OF keys(3) v(3)] opt_line_no_newline [OF keys(4) v(4)] opt_line_no_newline [OF keys(5) v(5)]
        opt_line_no_newline [OF keys(6) v(6)] opt_line_no_newline [OF keys(7) v(7)], assumption)+
qed

lemma parseKV_empty: "parseKV [] = None"
  by code_simp

lemma split_lines:
  "(\<And>l. l \<in> set ls \<Longrightarrow> LFc \<notin> set l) \<Longrightarrow> split_on LFc (concat (map (\<lambda>l. l @ [LFc]) ls)) = ls @ [[]]"
  by (induction ls) (auto simp: split_on_append_sep)

lemma config_lines:
  "list_all (entry_ok home) es \<Longrightarrow>
    foldl (line_step home) a (concat (map print_entry es)) = foldl (\<lambda>a e. block_start e a e) a es"
  by (induction es arbitrary: a) (auto simp: entry_lines)

text \<open>
  C26: Writing host entries as an SSH configuration and parsing it gives the entries that are no
  wildcard, in the order of their names, each with the defaults the wildcard entries supply: the
  first one that sets a field counts, and a value of the entry itself wins. The values have no line
  break and no space around them, and the identity files need no expansion.
\<close>

theorem parse_print:
  assumes ok: "list_all (entry_ok home) es"
  shows "Parse (print_config es) home =
    sort_key he_Host (map (fill_defaults (foldl fill_wildcard (new_entry ''*'') (filter wild es))) (filter (\<lambda>e. \<not> wild e) es))"
proof -
  let ?ls = "concat (map print_entry es)"
  have "split_on (CHR 0x0A) (print_config es) = ?ls @ [[]]"
    unfolding print_config_def LFc_def [symmetric]
    using ok entry_no_newline by (intro split_lines) (auto simp: list_all_iff)
  then have "snd (process (no_files home) (text_work (print_config es) []) [] newAccumulator) =
      foldl (line_step home) newAccumulator (?ls @ [[]])"
    unfolding text_work_def by (simp only: process_text) (simp add: no_files_def)
  also have "\<dots> = foldl (\<lambda>a e. block_start e a e) newAccumulator es"
    by (simp add: config_lines [OF ok] line_step_def parseKV_empty)
  finally show ?thesis
    using blocks_flushed [of newAccumulator es]
    by (simp add: Parse_def finalize_def Let_def) (simp add: flush_def newAccumulator_def)
qed

lemma parse_print_witness:
  "Parse (print_config [new_entry ''b'', new_entry ''a'', (new_entry ''*'')\<lparr>he_User := Some ''joe''\<rparr>]) ''/h'' =
    [(new_entry ''a'')\<lparr>he_User := Some ''joe''\<rparr>, (new_entry ''b'')\<lparr>he_User := Some ''joe''\<rparr>]"
proof -
  have "list_all (entry_ok ''/h'') [new_entry ''b'', new_entry ''a'', (new_entry ''*'')\<lparr>he_User := Some ''joe''\<rparr>]"
    by code_simp
  note parse_print [OF this]
  also have "sort_key he_Host
      (map (fill_defaults (foldl fill_wildcard (new_entry ''*'')
          (filter wild [new_entry ''b'', new_entry ''a'', (new_entry ''*'')\<lparr>he_User := Some ''joe''\<rparr>])))
        (filter (\<lambda>e. \<not> wild e) [new_entry ''b'', new_entry ''a'', (new_entry ''*'')\<lparr>he_User := Some ''joe''\<rparr>])) =
      [(new_entry ''a'')\<lparr>he_User := Some ''joe''\<rparr>, (new_entry ''b'')\<lparr>he_User := Some ''joe''\<rparr>]"
    by code_simp
  finally show ?thesis .
qed

lemma process_directive:
  "parseKV l = Some (k, v) \<Longrightarrow> k \<noteq> ''include'' \<Longrightarrow>
    process env (WLine l b # ws) visited a = process env ws visited (directive (sv_home env) k v a)"
  by (simp add: line_includes_def)

lemma process_include:
  "line_includes env l b = Some ps \<Longrightarrow> process env (WLine l b # ws) visited a = process env (map WFile ps @ ws) visited a"
  by simp

lemma process_read:
  "map_of (sv_files env) (path_abs (sv_cwd env) p) = Some (SshText raw) \<Longrightarrow> path_abs (sv_cwd env) p \<notin> set visited \<Longrightarrow>
    process env (WFile p # ws) visited a =
      process env (map (\<lambda>l. WLine l (path_dir p)) (split_on LFc raw) @ ws) (path_abs (sv_cwd env) p # visited) (flush a)"
  by (simp add: Let_def LFc_def)

text \<open>
  Only the directives of a \<^verbatim>\<open>Host\<close> block describe its host, yet what follows an
  \<^verbatim>\<open>Include\<close> line is added to the last block of the included file: a \<^verbatim>\<open>User\<close> line after the include
  becomes the user of the host named in the other file, although the block that was open is closed
  "so Host blocks don't span files".
\<close>

lemma block_spans_files:
  assumes inc: "line_includes env l base = Some [p]" and new: "path_abs (sv_cwd env) p \<notin> set visited"
    and content: "map_of (sv_files env) (path_abs (sv_cwd env) p) = Some (SshText (''Host '' @ h))"
    and ok: "value_ok h" "value_ok u"
  shows "snd (process env [WLine l base, WLine (''User '' @ u) base] visited a) =
    block_start (new_entry h) (flush a) ((new_entry h)\<lparr>he_User := Some u\<rparr>)"
proof -
  have nl: "LFc \<notin> set (''Host '' @ h)" using ok by (simp add: value_ok_def LFc_def)
  have h: "parseKV (''Host '' @ h) = Some (''host'', h)"
    using parseKV_line [of "''Host''" h] ok by (simp add: keywords_lower is_space_def)
  have u: "parseKV (''User '' @ u) = Some (''user'', u)"
    using parseKV_line [of "''User''" u] ok by (simp add: keywords_lower is_space_def)
  define host_text user_text where "host_text = ''Host '' @ h" and "user_text = ''User '' @ u"
  note fold = host_text_def [symmetric] user_text_def [symmetric]
  have "process env [WLine l base, WLine user_text base] visited a =
      process env [WFile p, WLine user_text base] visited a"
    using process_include [OF inc] by simp
  also have "\<dots> = process env [WLine host_text (path_dir p), WLine user_text base] (path_abs (sv_cwd env) p # visited) (flush a)"
    using process_read [OF content [unfolded fold] new] split_on_no_sep [OF nl [unfolded fold]] by simp
  also have "\<dots> = process env [] (path_abs (sv_cwd env) p # visited)
        (directive (sv_home env) ''user'' u (directive (sv_home env) ''host'' h (flush a)))"
    by (simp del: process.simps add: process_directive [OF h [unfolded fold]] process_directive [OF u [unfolded fold]])
  finally have "process env [WLine l base, WLine user_text base] visited a =
      (path_abs (sv_cwd env) p # visited, directive (sv_home env) ''user'' u (directive (sv_home env) ''host'' h (flush a)))"
    by simp
  then show ?thesis
    unfolding fold by (simp del: process.simps add: directive_def new_entry_def block_start_def applyDirective_def set_field_def)
qed

lemma last_index_char_None: "c \<notin> set s \<Longrightarrow> last_index_char c s = None"
  by (simp add: last_index_char_def index_char_None_iff [THEN iffD2])

lemma split_port_itoa: "0 < n \<Longrightarrow> n \<le> int64_max \<Longrightarrow> split_port (h @ CHR '':'' # itoa n) = (n, h)"
proof -
  assume n: "0 < n" "n \<le> int64_max"
  then have "int64_min \<le> n" by (simp add: int64_min_def)
  then show ?thesis
    using n last_index_char_append [OF itoa_no_char [of "CHR '':''" n], of h]
    by (simp add: split_port_def is_digit_def)
qed

text \<open>
  The target text built for an entry is read back as its user, host and port when the host has
  neither a colon nor an at sign; the user may have either.
\<close>

lemma remote_read_back:
  assumes "CHR '':'' \<notin> set h \<and> CHR ''@'' \<notin> set h" and "h = (if is_given (he_HostName e) then the (he_HostName e) else he_Host e)"
    and "case he_Port e of None \<Rightarrow> True | Some n \<Rightarrow> 0 < n \<and> n \<le> int64_max"
  shows "ParseSSHConfig None envUser expandHome (BuildRemote e) =
    Inr \<lparr>hc_User = (if is_given (he_User e) then the (he_User e) else envUser), hc_HostName = h,
         hc_Port = (case he_Port e of None \<Rightarrow> 22 | Some n \<Rightarrow> n), hc_IdentityFile = [], hc_ProxyJump = [], hc_ProxyCommand = []\<rparr>"
proof -
  define t where "t = (case he_Port e of None \<Rightarrow> h | Some n \<Rightarrow> h @ CHR '':'' # itoa n)"
  have at: "CHR ''@'' \<notin> set t"
    using assms(1) itoa_no_char [of "CHR ''@''"] by (auto simp: t_def is_digit_def split: option.splits)
  have remote: "BuildRemote e = (if is_given (he_User e) then the (he_User e) @ CHR ''@'' # t else t)"
    unfolding BuildRemote_def assms(2) [symmetric] t_def by (simp split: option.split)
  have user: "splitUserHost (BuildRemote e) = (if is_given (he_User e) then the (he_User e) else [], t)"
    using last_index_char_append [OF at] at by (simp add: remote splitUserHost_def last_index_char_None)
  have port: "split_port t = (case he_Port e of None \<Rightarrow> 0 | Some n \<Rightarrow> n, h)"
    using assms(1,3) split_port_itoa
    by (cases "he_Port e") (simp_all add: t_def split_port_itoa, simp add: split_port_def last_index_char_None)
  show ?thesis
    using assms(3) by (auto simp: ParseSSHConfig_def user port is_given_def split: option.splits)
qed

text \<open>
  An entry whose host name is an IPv6 address ending in a decimal group and that has no port is
  imported as a target that, read back for connecting, loses the last group: it is taken for the
  port. So \<^verbatim>\<open>2001:db8::22\<close> becomes the host \<^verbatim>\<open>2001:db8:\<close> with port 22.
\<close>

lemma colon_host_misread:
  assumes "he_HostName e = Some (h @ CHR '':'' # itoa n)" "he_Port e = None" "CHR ''@'' \<notin> set h" "0 < n" "n \<le> int64_max"
  shows "\<exists>c. ParseSSHConfig None envUser expandHome (BuildRemote e) = Inr c \<and> hc_HostName c = h \<and> hc_Port c = n"
proof -
  let ?t = "h @ CHR '':'' # itoa n"
  have at: "CHR ''@'' \<notin> set ?t"
    using assms(3) itoa_no_char [of "CHR ''@''"] by (auto simp: is_digit_def)
  have "snd (splitUserHost (BuildRemote e)) = ?t"
    using assms(1,2) last_index_char_append [OF at] at
    by (simp add: BuildRemote_def Let_def is_given_def splitUserHost_def last_index_char_None split: option.split)
  then show ?thesis
    using assms(4) split_port_itoa [OF assms(4,5), of h]
    by (auto simp: ParseSSHConfig_def split: prod.split)
qed

lemma includes_read_once_witness:
  "distinct (fst (process \<lparr>sv_home = ''/h'', sv_cwd = ''/'', sv_files = [(''/a'', SshText ''Include /a /a''), (''/b'', NoAccess)],
      sv_glob = (\<lambda>_. [])\<rparr> [WFile ''/a'', WFile ''/b''] [] newAccumulator))"
  by (rule includes_read_once [THEN conjunct1]) simp

definition spanning_files :: ssh_env where
  "spanning_files = \<lparr>sv_home = ''/h'', sv_cwd = ''/'', sv_files = [(''/b'', SshText ''Host h1'')], sv_glob = (\<lambda>_. [])\<rparr>"

text \<open>
  Of an unknown option only the option itself is skipped: its argument, after the host, is taken for
  the destination, and before it the user is lost.
\<close>

lemma option_argument_is_destination:
  "ParseProxyCommandAsJump ''ssh -W %h:%p bastion'' [] = [jump_to ''bastion'' []]"
  "ParseProxyCommandAsJump ''ssh bastion -l joe -W %h:%p'' [] = [jump_to ''joe'' []]"
  "ParseProxyCommandAsJump ''ssh -l joe -W %h:%p bastion'' [] = [jump_to ''bastion'' []]"
  by code_simp+

end
