(* ===== verification/Deploy.thy ===== *)
theory Deploy
  imports GoText
begin

text \<open>
  Bringing the server program to the remote host: \<^verbatim>\<open>internal/deploy/deploy.go\<close> and \<^verbatim>\<open>fectun.go\<close>. What a
  command prints on the remote host is a function of the command; the session of the upload is a
  sink. \<open>sh_word\<close> is what the POSIX shell makes of quotes; it is the specification the commands are
  measured with.
\<close>

section \<open>Words of the shell\<close>

datatype quoting = Bare | Single | Double

definition SQ :: char where "SQ = CHR 0x27"
definition DQ :: char where "DQ = CHR 0x22"

definition sh_special :: "char \<Rightarrow> bool" where
  "sh_special c \<longleftrightarrow> c \<in> set ''$&;|<>()`*?[#~'' \<or> c \<in> {CHR 0x5C, CHR 0x0A, CHR 0x09}"

text \<open>The first word of a command and the text behind it; no expansion is modelled.\<close>

fun sh_word :: "quoting \<Rightarrow> string \<Rightarrow> (string \<times> string) option" where
  "sh_word Bare [] = Some ([], [])"
| "sh_word Bare (c # s) =
     (if c = CHR '' '' then Some ([], c # s)
      else if c = SQ then sh_word Single s
      else if c = DQ then sh_word Double s
      else if sh_special c then None
      else map_option (apfst ((#) c)) (sh_word Bare s))"
| "sh_word Single [] = None"
| "sh_word Single (c # s) = (if c = SQ then sh_word Bare s else map_option (apfst ((#) c)) (sh_word Single s))"
| "sh_word Double [] = None"
| "sh_word Double (c # s) =
     (if c = DQ then sh_word Bare s
      else if c = CHR ''$'' \<or> c = CHR ''`'' \<or> c = CHR 0x5C then None
      else map_option (apfst ((#) c)) (sh_word Double s))"

definition shellQuote :: "string \<Rightarrow> string" where
  "shellQuote s = SQ # concat (map (\<lambda>c. if c = SQ then [SQ, DQ, SQ, DQ, SQ] else [c]) s) @ [SQ]"

lemma quoted_char: "sh_word Single ((if c = SQ then [SQ, DQ, SQ, DQ, SQ] else [c]) @ s) = map_option (apfst ((#) c)) (sh_word Single s)"
  by (simp add: SQ_def DQ_def option.map_comp comp_def)

lemma quoted_body:
  "sh_word Single (concat (map (\<lambda>c. if c = SQ then [SQ, DQ, SQ, DQ, SQ] else [c]) s) @ SQ # t) = map_option (apfst ((@) s)) (sh_word Bare t)"
proof (induction s)
  case Nil
  then show ?case by (simp add: apfst_def map_prod_def option.map_ident split_beta)
next
  case (Cons c s)
  have "sh_word Single (concat (map (\<lambda>c. if c = SQ then [SQ, DQ, SQ, DQ, SQ] else [c]) (c # s)) @ SQ # t) =
      map_option (apfst ((#) c)) (sh_word Single (concat (map (\<lambda>c. if c = SQ then [SQ, DQ, SQ, DQ, SQ] else [c]) s) @ SQ # t))"
    by (simp only: list.map concat.simps append_assoc quoted_char)
  then show ?case
    by (simp only: Cons) (cases "sh_word Bare t"; auto)
qed

text \<open>
  The shell reads a quoted text as one word, which is the text, whatever characters it has, also
  quotes, spaces and dollar signs.
\<close>

lemma shell_quote_word: "sh_word Bare (shellQuote s @ CHR '' '' # rest) = Some (s, CHR '' '' # rest)"
proof -
  have "sh_word Bare (shellQuote s @ CHR '' '' # rest) = map_option (apfst ((@) s)) (sh_word Bare (CHR '' '' # rest))"
    using quoted_body [of s "CHR '' '' # rest"] by (simp add: shellQuote_def SQ_def)
  then show ?thesis by simp
qed

section \<open>The binary for a host\<close>

definition arch_map :: "(string \<times> string) list" where
  "arch_map =
     [(''x86_64'', ''amd64''), (''amd64'', ''amd64''), (''aarch64'', ''arm64''), (''arm64'', ''arm64''), (''mips'', ''mips''),
      (''mipsel'', ''mipsle''), (''mipsle'', ''mipsle'')]"

definition parseUname :: "string \<Rightarrow> string" where
  "parseUname s =
     (case go_fields s of
        sys # arch # _ \<Rightarrow>
          to_lower sys @ ''-'' @ (case map_of arch_map arch of Some a \<Rightarrow> a | None \<Rightarrow> to_lower arch)
      | _ \<Rightarrow> ''linux-amd64'')"

text \<open>\<open>run\<close> is what a command on the remote host gives.\<close>

definition detectArch :: "(string \<Rightarrow> error + string) \<Rightarrow> error + string" where
  "detectArch run = (case run ''uname -ms'' of Inl e \<Rightarrow> Inl e | Inr out \<Rightarrow> Inr (parseUname (trim_space out)))"

definition remoteCachePath :: "(string \<Rightarrow> error + string) \<Rightarrow> string \<Rightarrow> string \<Rightarrow> error + string" where
  "remoteCachePath run version arch =
     (let home = trim_space (case run ''echo $HOME'' of Inl _ \<Rightarrow> [] | Inr out \<Rightarrow> out);
          binaryName = ''/server-'' @ version @ ''-'' @ arch;
          fallback =
            (case run (''mkdir -p '' @ shellQuote ''/tmp/.netferry'') of
               Inl e \<Rightarrow> Inl (Wrapped ''cannot create cache dir'' e)
             | Inr _ \<Rightarrow> Inr (''/tmp/.netferry'' @ binaryName))
      in if home \<noteq> [] \<and> home \<noteq> ''/'' then
           (case run (''mkdir -p '' @ shellQuote (home @ ''/.cache/netferry'')) of
              Inr _ \<Rightarrow> Inr (home @ ''/.cache/netferry'' @ binaryName)
            | Inl _ \<Rightarrow> fallback)
         else fallback)"

definition shouldReuseRemote :: "int \<Rightarrow> int \<Rightarrow> bool" where
  "shouldReuseRemote remoteSize localSize \<longleftrightarrow> remoteSize = localSize"

text \<open>\<open>scan_size\<close> is \<^verbatim>\<open>fmt.Sscanf(out, "%d", &size)\<close>, None when it fails.\<close>

definition scan_size :: "string \<Rightarrow> int option" where
  "scan_size s =
     (let t = dropWhile (\<lambda>c. is_space c \<and> c \<noteq> CHR 0x0A) s;
          neg = has_prefix t ''-'';
          u = (if neg \<or> has_prefix t ''+'' then drop 1 t else t);
          ds = takeWhile is_digit u
      in case parse_int64 ((if neg then ''-'' else []) @ ds) of IntOk n \<Rightarrow> Some n | _ \<Rightarrow> None)"

definition remoteFileSize :: "(string \<Rightarrow> error + string) \<Rightarrow> string \<Rightarrow> int" where
  "remoteFileSize run path =
     (case run (''wc -c < '' @ shellQuote path) of
        Inl _ \<Rightarrow> -1
      | Inr out \<Rightarrow> (case scan_size (trim_space out) of None \<Rightarrow> -1 | Some n \<Rightarrow> n))"

section \<open>The upload\<close>

definition chunkSize :: nat where "chunkSize = 64 * 1024"

definition progress_line :: "nat \<Rightarrow> nat \<Rightarrow> string" where
  "progress_line sent len = ''deploy-progress: '' @ itoa (int sent) @ ''/'' @ itoa (int len)"

function upload_loop :: "nat \<Rightarrow> nat \<Rightarrow> bytes \<Rightarrow> sink \<Rightarrow> string list \<Rightarrow> error option \<times> sink \<times> string list" where
  "upload_loop len sent data w lg =
     (if data = [] then (None, w, lg)
      else
        (let chunk = take chunkSize data in
         case sink_write chunk w of
           (Some e, w') \<Rightarrow> (Some (Wrapped ''write to remote'' e), w', lg)
         | (None, w') \<Rightarrow>
             upload_loop len (sent + length chunk) (drop chunkSize data) w' (lg @ [progress_line (sent + length chunk) len])))"
  by auto
termination
  by (relation "measure (\<lambda>(len, sent, data, w, lg). length data)") (auto simp: chunkSize_def)

declare upload_loop.simps [simp del]

record upload_world =
  up_session :: "error option"
  up_stdin :: "error option"
  up_start :: "string \<Rightarrow> error option"
  up_sink :: sink
  up_close :: "error option"
  up_wait :: "error option"

definition upload_command :: "string \<Rightarrow> string" where
  "upload_command path =
     (let tmp = path @ ''.tmp'' in
      ''cat > '' @ shellQuote tmp @ '' && chmod +x '' @ shellQuote tmp @ '' && mv '' @ shellQuote tmp @ '' '' @ shellQuote path)"

definition wrap :: "string \<Rightarrow> error option \<Rightarrow> error option" where
  "wrap t e = map_option (Wrapped t) e"

text \<open>The result, what was written to the command and the log.\<close>

definition uploadData :: "upload_world \<Rightarrow> bytes \<Rightarrow> string \<Rightarrow> error option \<times> sink \<times> string list" where
  "uploadData w data path =
     (if up_session w \<noteq> None then (wrap ''new session'' (up_session w), up_sink w, [])
      else if up_stdin w \<noteq> None then (wrap ''stdin pipe'' (up_stdin w), up_sink w, [])
      else if up_start w (upload_command path) \<noteq> None then
        (wrap ''start upload command'' (up_start w (upload_command path)), up_sink w, [])
      else
        (case upload_loop (length data) 0 data (up_sink w) [progress_line 0 (length data)] of
           (Some e, k, lg) \<Rightarrow> (Some e, k, lg)
         | (None, k, lg) \<Rightarrow>
             (if up_close w \<noteq> None then wrap ''close stdin'' (up_close w) else wrap ''upload command'' (up_wait w), k, lg)))"

definition EnsureServer ::
    "(string \<Rightarrow> error + string) \<Rightarrow> (string \<Rightarrow> error + bytes) option \<Rightarrow> upload_world \<Rightarrow> string \<Rightarrow> (error + string) \<times> sink \<times> string list" where
  "EnsureServer run binaries w version =
     (case detectArch run of
        Inl e \<Rightarrow> (Inl (Wrapped ''detect arch'' e), up_sink w, [])
      | Inr arch \<Rightarrow>
          (case remoteCachePath run version arch of
             Inl e \<Rightarrow> (Inl (Wrapped ''remote path'' e), up_sink w, [])
           | Inr path \<Rightarrow>
               (case binaries of
                  None \<Rightarrow> (Inl (Msg ''ServerBinaries not set''), up_sink w, [])
                | Some bin \<Rightarrow>
                    (case bin (''binaries/server-'' @ arch) of
                       Inl e \<Rightarrow> (Inl (Wrapped ''no embedded binary'' e), up_sink w, [])
                     | Inr data \<Rightarrow>
                         let len = remoteFileSize run path in
                         if shouldReuseRemote len (int (length data)) then (Inr path, up_sink w, [''deploy-reason: up-to-date''])
                         else
                           let reason = (if len < 0 then ''deploy-reason: first-deploy''
                                         else ''deploy-reason: size-mismatch remote='' @ itoa len @ '' local='' @ itoa (int (length data)))
                           in case uploadData w data path of
                                (Some e, k, lg) \<Rightarrow> (Inl (Wrapped ''upload server binary'' e), k, reason # lg)
                              | (None, k, lg) \<Rightarrow> (Inr path, k, reason # lg)))))"

lemma upload_loop_open:
  "\<exists>lg'. upload_loop len sent data (open_sink out) lg = (None, open_sink (out @ data), lg @ lg') \<and>
    (if data = [] then lg' = [] else lg' \<noteq> [] \<and> last lg' = progress_line (sent + length data) len)"
proof (induction data arbitrary: sent out lg rule: length_induct)
  case (1 data)
  let ?c = "take chunkSize data" and ?d = "drop chunkSize data"
  show ?case
  proof (cases "data = []")
    case False
    then have "length ?d < length data"
      by (simp add: chunkSize_def)
    from 1 [rule_format, OF this] obtain lg' where
      lg': "upload_loop len (sent + length ?c) ?d (open_sink (out @ ?c)) (lg @ [progress_line (sent + length ?c) len]) =
          (None, open_sink ((out @ ?c) @ ?d), (lg @ [progress_line (sent + length ?c) len]) @ lg')"
        "if ?d = [] then lg' = [] else lg' \<noteq> [] \<and> last lg' = progress_line (sent + length ?c + length ?d) len"
      by blast
    have "upload_loop len sent data (open_sink out) lg =
        (None, open_sink (out @ data), lg @ progress_line (sent + length ?c) len # lg')"
      using False lg'(1) by (subst upload_loop.simps) (simp add: Let_def)
    moreover have "last (progress_line (sent + length ?c) len # lg') = progress_line (sent + length data) len"
      using lg'(2) by (cases "lg' = []") (auto simp: min_def split: if_splits)
    ultimately show ?thesis using False by (intro exI [of _ "progress_line (sent + length ?c) len # lg'"]) simp
  qed (simp add: upload_loop.simps)
qed

text \<open>
  On a connection that holds, the upload writes exactly the bytes of the binary to the command,
  and the last progress it reports is all of them.
\<close>

lemma upload_complete:
  assumes "up_sink w = open_sink []" "uploadData w data path = (None, k, lg)"
  shows "sk_out k = data \<and> last lg = progress_line (length data) (length data)"
proof -
  obtain lg' where lg': "upload_loop (length data) 0 data (open_sink []) [progress_line 0 (length data)] =
      (None, open_sink data, progress_line 0 (length data) # lg')"
      "if data = [] then lg' = [] else lg' \<noteq> [] \<and> last lg' = progress_line (length data) (length data)"
    using upload_loop_open [of "length data" 0 data "[]" "[progress_line 0 (length data)]"] by auto
  have "k = open_sink data \<and> lg = progress_line 0 (length data) # lg'"
    using assms lg'(1) by (auto simp: uploadData_def wrap_def split: if_splits)
  with lg'(2) show ?thesis by (auto split: if_splits)
qed

definition good_upload :: upload_world where
  "good_upload =
     \<lparr>up_session = None, up_stdin = None, up_start = (\<lambda>_. None), up_sink = open_sink [], up_close = None, up_wait = None\<rparr>"

lemma good_upload_ends: "\<exists>k lg. uploadData good_upload data path = (None, k, lg)"
  using upload_loop_open [of "length data" 0 data "[]" "[progress_line 0 (length data)]"]
  by (auto simp: uploadData_def good_upload_def wrap_def)

text \<open>
  The path is not quoted in the command that runs the server: with a space in the home directory the
  directory is made and the binary uploaded, and the shell then runs a program of another name.
\<close>

lemma unquoted_path_splits:
  assumes "list_all (\<lambda>c. c \<noteq> CHR '' '' \<and> c \<noteq> SQ \<and> c \<noteq> DQ \<and> \<not> sh_special c) dir"
  shows "sh_word Bare (dir @ CHR '' '' # rest) = Some (dir, CHR '' '' # rest)"
  using assms by (induction dir) simp_all

section \<open>The key of the fectun daemon\<close>

definition fectun_up_command :: "string \<Rightarrow> string \<Rightarrow> string \<Rightarrow> string \<Rightarrow> bool \<Rightarrow> string" where
  "fectun_up_command path port rate rateMin restart =
     shellQuote path @ '' --fectun-up --fectun-port '' @ port @ '' --fectun-rate '' @ rate @ '' --fectun-rate-min '' @ rateMin @
     (if restart then '' --fectun-restart'' else [])"

definition cut_prefix :: "string \<Rightarrow> string \<Rightarrow> string option" where
  "cut_prefix s p = (if has_prefix s p then Some (drop (length p) s) else None)"

definition parseFectunKey :: "string \<Rightarrow> error + string" where
  "parseFectunKey out =
     (case List.map_filter (\<lambda>l. case cut_prefix (trim_space l) ''fectun-key '' of
          Some k \<Rightarrow> if k \<noteq> [] then Some k else None | None \<Rightarrow> None) (split_on (CHR 0x0A) out) of
        [] \<Rightarrow> Inl (Msg ''fectun-up: no key in output'')
      | k # _ \<Rightarrow> Inr k)"

text \<open>\<open>rate\<close> and \<open>rateMin\<close> are the numbers as text.\<close>

definition FectunUp ::
    "(string \<Rightarrow> error + string) \<Rightarrow> (string \<Rightarrow> error + bytes) option \<Rightarrow> upload_world \<Rightarrow> string \<Rightarrow> int \<Rightarrow> string \<Rightarrow> string \<Rightarrow> bool \<Rightarrow>
     error + string" where
  "FectunUp run binaries w version port rate rateMin restart =
     (case EnsureServer run binaries w version of
        (Inl e, _) \<Rightarrow> Inl e
      | (Inr path, _) \<Rightarrow>
          (case run (fectun_up_command path (itoa port) rate rateMin restart) of
             Inl e \<Rightarrow> Inl (Wrapped ''fectun-up'' e)
           | Inr out \<Rightarrow> parseFectunKey out))"

definition key_ok :: "string \<Rightarrow> bool" where
  "key_ok k \<longleftrightarrow> k \<noteq> [] \<and> trim_space k = k \<and> CHR 0x0A \<notin> set k"

lemma parseFectunKey_printed:
  assumes "key_ok k"
  shows "parseFectunKey (''fectun-key '' @ k @ [CHR 0x0A]) = Inr k"
proof -
  have k: "\<not> is_space (last k)" "k \<noteq> []" "CHR 0x0A \<notin> set k"
    using assms trim_right_by_Nil_or_last [of is_space "dropWhile is_space k"]
    by (auto simp: key_ok_def trim_space_def)
  have "trim_space (''fectun-key '' @ k) = ''fectun-key '' @ k"
    using k by (intro trim_space_fixed) (auto simp: is_space_def)
  then have "cut_prefix (trim_space (''fectun-key '' @ k)) ''fectun-key '' = Some k"
    by (simp only:) (simp add: cut_prefix_def has_prefix_iff)
  moreover have "split_on (CHR 0x0A) ((''fectun-key '' @ k) @ CHR 0x0A # []) = [''fectun-key '' @ k, []]"
    using k(3) by (subst split_on_append_sep) auto
  ultimately show ?thesis
    using k(2) unfolding parseFectunKey_def append_assoc by (simp only: List.map_filter_simps option.case if_True not_False_eq_True list.case)
qed

end
