(* ===== verification/FectunDaemon.thy ===== *)
theory FectunDaemon
  imports Deploy Contracts
begin

text \<open>
  The fectun daemon on the remote host (\<^verbatim>\<open>cmd/server/fectun.go\<close>): what \<^verbatim>\<open>server --fectun-up\<close> does with the
  key file, the pid file and the UDP port, and how long the daemon lives. The state is that of one
  port; the lock file makes concurrent runs follow each other. What the system answers is an
  argument.
\<close>

section \<open>State of a port\<close>

text \<open>
  Of another process only the command line is known. A daemon that is exiting has closed its port but
  not yet removed the pid file.
\<close>

datatype proc = Serving string | Exiting | Other string

datatype owner = Free | Ours int | Foreign

record port_state =
  ps_key :: "string option"
  ps_pid :: "string option"
  ps_procs :: "int \<rightharpoonup> proc"
  ps_port :: owner

definition LFd :: char where "LFd = CHR 0x0A"

definition fectunTarget :: "string \<Rightarrow> string" where
  "fectunTarget conn = (case go_fields conn of [_, _, h, p] \<Rightarrow> h @ '':'' @ p | _ \<Rightarrow> ''127.0.0.1:22'')"

section \<open>Bringing it up\<close>

record up_env =
  ue_lock :: "error option"
  ue_random :: "error + string"
  ue_write :: "error option"
  ue_probe :: "error option"
  ue_proc :: bool
  ue_prepare :: "error option"
  ue_pid :: int
  ue_server :: "error option"
  ue_late :: bool

text \<open>
  \<open>ue_random\<close> are 32 random bytes in hexadecimal, \<open>ue_probe\<close> an error of the probe other than the
  port being in use, \<open>ue_proc\<close> whether there is a \<^verbatim>\<open>/proc\<close>, \<open>ue_prepare\<close> an error before the process
  runs, \<open>ue_pid\<close> the id it gets, \<open>ue_server\<close> an error of the fectun package, and \<open>ue_late\<close> that it
  reports after the five seconds the caller waits.
\<close>

record fectun_args =
  fa_port :: int
  fa_restart :: bool

definition loadOrCreateFectunKey :: "up_env \<Rightarrow> port_state \<Rightarrow> (error + string) \<times> port_state" where
  "loadOrCreateFectunKey e s =
     (let k = (case ps_key s of Some b \<Rightarrow> trim_space b | None \<Rightarrow> []) in
      if k \<noteq> [] then (Inr k, s)
      else
        (case ue_random e of
           Inl err \<Rightarrow> (Inl err, s)
         | Inr new \<Rightarrow>
             (case ue_write e of
                Some err \<Rightarrow> (Inl (Wrapped ''write key'' err), s)
              | None \<Rightarrow> (Inr new, s\<lparr>ps_key := Some (new @ [LFd])\<rparr>))))"

definition fectunPortInUse :: "up_env \<Rightarrow> port_state \<Rightarrow> error + bool" where
  "fectunPortInUse e s =
     (if ps_port s \<noteq> Free then Inr True
      else case ue_probe e of Some err \<Rightarrow> Inl (Wrapped ''probe udp port'' err) | None \<Rightarrow> Inr False)"

text \<open>The process dies of the first signal or of the second, after three seconds.\<close>

definition kill_process :: "int \<Rightarrow> port_state \<Rightarrow> port_state" where
  "kill_process p s =
     s\<lparr>ps_procs := (ps_procs s)(p := None), ps_port := (if ps_port s = Ours p then Free else ps_port s)\<rparr>"

definition our_cmdline :: "proc \<Rightarrow> bool" where
  "our_cmdline p = (case p of Other c \<Rightarrow> contains_sub c ''--fectun-serve'' | _ \<Rightarrow> True)"

definition stopFectunDaemon :: "up_env \<Rightarrow> port_state \<Rightarrow> port_state" where
  "stopFectunDaemon e s =
     (case ps_pid s of
        None \<Rightarrow> s
      | Some b \<Rightarrow>
          (case atoi (trim_space b) of
             None \<Rightarrow> s
           | Some pid \<Rightarrow>
               if pid \<le> 1 then s
               else
                 (case ps_procs s pid of
                    None \<Rightarrow> s
                  | Some p \<Rightarrow> if ue_proc e \<and> \<not> our_cmdline p then s else kill_process pid s)))"

text \<open>The start of the daemon: what it reports on the pipe, if anything.\<close>

definition serve_start :: "int \<Rightarrow> string \<Rightarrow> up_env \<Rightarrow> port_state \<Rightarrow> string \<times> port_state" where
  "serve_start pid key e s =
     (if key = [] then (''error: NETFERRY_FECTUN_KEY not set'', s)
      else if ps_port s \<noteq> Free then (''error: address already in use'', s)
      else if ue_server e \<noteq> None then (''error: server'', s)
      else (''ready'', s\<lparr>ps_procs := (ps_procs s)(pid \<mapsto> Serving key), ps_port := Ours pid, ps_pid := Some (itoa pid @ [LFd])\<rparr>))"

definition startFectunDaemon :: "string \<Rightarrow> up_env \<Rightarrow> port_state \<Rightarrow> error option \<times> port_state" where
  "startFectunDaemon key e s =
     (case ue_prepare e of
        Some err \<Rightarrow> (Some err, s)
      | None \<Rightarrow>
          (case serve_start (ue_pid e) key e s of
             (line, s') \<Rightarrow>
               if ue_late e then (Some (Msg ''fectun daemon did not report ready''), s')
               else if line \<noteq> ''ready'' then (Some (Msg ''fectun daemon failed to start''), s')
               else (None, s')))"

definition runFectunUp :: "fectun_args \<Rightarrow> up_env \<Rightarrow> port_state \<Rightarrow> (error + string) \<times> port_state" where
  "runFectunUp a e s =
     (if fa_port a \<le> 0 \<or> fa_port a > 65535 then (Inl (Msg ''invalid --fectun-port''), s)
      else
        (case ue_lock e of
           Some err \<Rightarrow> (Inl (Wrapped ''lock'' err), s)
         | None \<Rightarrow>
             (case loadOrCreateFectunKey e s of
                (Inl err, s1) \<Rightarrow> (Inl err, s1)
              | (Inr key, s1) \<Rightarrow>
                  let s2 = (if fa_restart a then stopFectunDaemon e s1 else s1) in
                  (case fectunPortInUse e s2 of
                     Inl err \<Rightarrow> (Inl err, s2)
                   | Inr running \<Rightarrow>
                       (case (if running then (None, s2) else startFectunDaemon key e s2) of
                          (Some err, s3) \<Rightarrow> (Inl err, s3)
                        | (None, s3) \<Rightarrow> (Inr (''fectun-key '' @ key @ [LFd]), s3))))))"

section \<open>How it ends\<close>

definition fectunIdleExit :: int where "fectunIdleExit = 600"

text \<open>
  The ticks of the daemon: the time in seconds and the number of peers. The result is how many ticks
  it saw before it closed, None while it runs.
\<close>

fun serve_loop :: "int \<Rightarrow> (int \<times> nat) list \<Rightarrow> nat option" where
  "serve_loop lastBusy [] = None"
| "serve_loop lastBusy ((now, peers) # ts) =
     (if peers > 0 then map_option Suc (serve_loop now ts)
      else if now - lastBusy \<ge> fectunIdleExit then Some 0
      else map_option Suc (serve_loop lastBusy ts))"

definition srv_Close :: "int \<Rightarrow> port_state \<Rightarrow> port_state" where
  "srv_Close p s = s\<lparr>ps_procs := (ps_procs s)(p \<mapsto> Exiting), ps_port := (if ps_port s = Ours p then Free else ps_port s)\<rparr>"

definition remove_pid :: "int \<Rightarrow> port_state \<Rightarrow> port_state" where
  "remove_pid p s = s\<lparr>ps_procs := (ps_procs s)(p := None), ps_pid := None\<rparr>"

text \<open>What happens to a port: runs of \<^verbatim>\<open>--fectun-up\<close>, a daemon that closes and then removes its file, and
  one that is killed from outside.\<close>

datatype daemon_event = Up fectun_args up_env | Closes int | Removes int | Killed int

fun daemon_step :: "port_state \<Rightarrow> daemon_event \<Rightarrow> port_state" where
  "daemon_step s (Up a e) = snd (runFectunUp a e s)"
| "daemon_step s (Closes p) = (case ps_procs s p of Some (Serving _) \<Rightarrow> srv_Close p s | _ \<Rightarrow> s)"
| "daemon_step s (Removes p) = (if ps_procs s p = Some Exiting then remove_pid p s else s)"
| "daemon_step s (Killed p) = kill_process p s"

text \<open>The system gives a new process an id no other process has, and random bytes a key in hexadecimal.\<close>

definition event_fits :: "port_state \<Rightarrow> daemon_event \<Rightarrow> bool" where
  "event_fits s ev =
     (case ev of
        Up a e \<Rightarrow> ps_procs s (ue_pid e) = None \<and> 1 < ue_pid e \<and> ue_pid e \<le> int64_max \<and> (case ue_random e of Inr k \<Rightarrow> key_ok k | Inl _ \<Rightarrow> True)
      | _ \<Rightarrow> True)"

text \<open>
  A daemon serves with the key in the file, and the owner of the port is a daemon.
\<close>

definition endpoint_ok :: "port_state \<Rightarrow> bool" where
  "endpoint_ok s \<longleftrightarrow>
     (\<forall>p k. ps_procs s p = Some (Serving k) \<longrightarrow> (\<exists>b. ps_key s = Some b \<and> trim_space b = k \<and> key_ok k) \<and> ps_port s = Ours p) \<and>
     (\<forall>p. ps_port s = Ours p \<longrightarrow> (\<exists>k. ps_procs s p = Some (Serving k))) \<and>
     (\<forall>b. ps_key s = Some b \<longrightarrow> trim_space b = [] \<or> key_ok (trim_space b))"

lemma key_ok_line:
  assumes "key_ok k"
  shows "trim_space (k @ [LFd]) = k"
proof -
  have ends: "\<not> is_space (hd k)" "\<not> is_space (last k)" "k \<noteq> []"
    using assms trim_space_no_edge [of k] by (auto simp: key_ok_def)
  then have "dropWhile is_space (k @ [LFd]) = k @ [LFd]"
    by (cases k) auto
  moreover have "trim_right_by is_space (k @ [LFd]) = trim_right_by is_space k"
    by (simp add: trim_right_by_def LFd_def is_space_def)
  ultimately show ?thesis
    using trim_right_by_id [of k is_space] ends(2) by (simp add: trim_space_def)
qed

lemma load_key:
  assumes ok: "endpoint_ok s" and load: "loadOrCreateFectunKey e s = (Inr key, s1)"
    and random: "case ue_random e of Inr k \<Rightarrow> key_ok k | Inl _ \<Rightarrow> True"
  shows "endpoint_ok s1 \<and> key_ok key \<and> (\<exists>b. ps_key s1 = Some b \<and> trim_space b = key) \<and>
    ps_procs s1 = ps_procs s \<and> ps_port s1 = ps_port s \<and> ps_pid s1 = ps_pid s"
proof (cases "(case ps_key s of Some b \<Rightarrow> trim_space b | None \<Rightarrow> []) = []")
  case True
  then obtain new where new: "ue_random e = Inr new" "key = new" "s1 = s\<lparr>ps_key := Some (new @ [LFd])\<rparr>"
    using load by (auto simp: loadOrCreateFectunKey_def Let_def split: sum.splits option.splits)
  have no: "ps_procs s p \<noteq> Some (Serving k)" for p k
    using ok True unfolding endpoint_ok_def by (auto simp: key_ok_def split: option.splits)
  then show ?thesis
    using ok random new key_ok_line [of new] by (auto simp: endpoint_ok_def)
next
  case False
  then have "s1 = s" "\<exists>b. ps_key s = Some b \<and> trim_space b = key" "key \<noteq> []"
    using load by (auto simp: loadOrCreateFectunKey_def Let_def split: option.splits)
  then show ?thesis
    using ok by (auto simp: endpoint_ok_def)
qed

lemma kill_ok: "endpoint_ok s \<Longrightarrow> endpoint_ok (kill_process p s)"
  unfolding endpoint_ok_def kill_process_def by (auto split: if_splits)

lemma stop_frame:
  "endpoint_ok s \<Longrightarrow> endpoint_ok (stopFectunDaemon e s) \<and> ps_key (stopFectunDaemon e s) = ps_key s \<and>
   (ps_procs s q = None \<longrightarrow> ps_procs (stopFectunDaemon e s) q = None)"
  using kill_ok by (auto simp: stopFectunDaemon_def kill_process_def split: option.splits proc.splits)

lemma serve_start_ok:
  assumes ok: "endpoint_ok s" and key: "key_ok key" "ps_key s = Some b" "trim_space b = key"
  shows "endpoint_ok (snd (serve_start pid key e s)) \<and> ps_key (snd (serve_start pid key e s)) = ps_key s \<and>
    (fst (serve_start pid key e s) = ''ready'' \<longrightarrow>
      ps_port (snd (serve_start pid key e s)) = Ours pid \<and> ps_procs (snd (serve_start pid key e s)) pid = Some (Serving key))"
proof (cases "key \<noteq> [] \<and> ps_port s = Free \<and> ue_server e = None")
  case True
  then have "ps_procs s p \<noteq> Some (Serving k)" for p k
    using ok unfolding endpoint_ok_def by auto
  then show ?thesis
    using True ok key by (auto simp: serve_start_def endpoint_ok_def)
qed (use ok in \<open>auto simp: serve_start_def\<close>)

lemma start_ok:
  assumes "endpoint_ok s" "key_ok key" "ps_key s = Some b" "trim_space b = key" and start: "startFectunDaemon key e s = (r, s')"
  shows "endpoint_ok s' \<and> ps_key s' = ps_key s \<and> (r = None \<longrightarrow> ps_port s' = Ours (ue_pid e) \<and> ps_procs s' (ue_pid e) = Some (Serving key))"
proof (cases "ue_prepare e")
  case None
  then show ?thesis
    using start serve_start_ok [OF assms(1-4), of "ue_pid e" e]
    by (auto simp: startFectunDaemon_def split: prod.splits if_splits)
qed (use assms in \<open>auto simp: startFectunDaemon_def\<close>)

text \<open>The error branches of \<^verbatim>\<open>runFectunUp\<close> leave one of the states its steps go through.\<close>

lemma up_ok:
  assumes ok: "endpoint_ok s" and fits: "event_fits s (Up a e)" and up: "runFectunUp a e s = (r, s')"
  shows "endpoint_ok s' \<and> (\<forall>out. r = Inr out \<longrightarrow> (\<exists>k. key_ok k \<and> out = ''fectun-key '' @ k @ [LFd] \<and>
    (ps_port s' = Foreign \<or> (\<exists>p. ps_port s' = Ours p \<and> ps_procs s' p = Some (Serving k)))))"
proof (cases "fa_port a \<le> 0 \<or> fa_port a > 65535 \<or> ue_lock e \<noteq> None")
  case True
  then show ?thesis using ok up by (auto simp: runFectunUp_def split: option.splits if_splits)
next
  case early: False
  show ?thesis
  proof (cases "loadOrCreateFectunKey e s")
    case (Pair res s1)
    show ?thesis
    proof (cases res)
      case (Inl err)
      then have "s1 = s" using Pair by (auto simp: loadOrCreateFectunKey_def Let_def split: if_splits sum.splits option.splits)
      then show ?thesis using ok up early Pair Inl by (auto simp: runFectunUp_def)
    next
      case (Inr key)
      define s2 where "s2 = (if fa_restart a then stopFectunDaemon e s1 else s1)"
      obtain b where s1: "endpoint_ok s1" "key_ok key" "ps_key s1 = Some b" "trim_space b = key" "ps_procs s1 (ue_pid e) = None"
        using load_key [OF ok Pair [unfolded Inr]] fits by (auto simp: event_fits_def)
      have s2: "endpoint_ok s2" "ps_key s2 = Some b" "ps_procs s2 (ue_pid e) = None"
        using s1 stop_frame [OF s1(1), of e "ue_pid e"] by (simp_all add: s2_def)
      have up2: "runFectunUp a e s =
          (case fectunPortInUse e s2 of
             Inl err \<Rightarrow> (Inl err, s2)
           | Inr running \<Rightarrow>
               (case (if running then (None, s2) else startFectunDaemon key e s2) of
                  (Some err, s3) \<Rightarrow> (Inl err, s3)
                | (None, s3) \<Rightarrow> (Inr (''fectun-key '' @ key @ [LFd]), s3)))"
        using early Pair Inr unfolding s2_def by (simp add: runFectunUp_def Let_def)
      show ?thesis
      proof (cases "ps_port s2 = Free")
        case True
        then show ?thesis
        proof (cases "ue_probe e")
          case None
          obtain r3 s3 where start: "startFectunDaemon key e s2 = (r3, s3)" by (cases "startFectunDaemon key e s2")
          from start_ok [OF s2(1) s1(2) s2(2) s1(4) start] show ?thesis
            using up up2 True None start s1(2) by (cases r3) (auto simp: fectunPortInUse_def)
        qed (use up up2 True s2(1) in \<open>auto simp: fectunPortInUse_def\<close>)
      next
        case False
        then have "ps_port s2 = Foreign \<or> (\<exists>p. ps_port s2 = Ours p \<and> ps_procs s2 p = Some (Serving key))"
        proof (cases "ps_port s2")
          case (Ours p)
          then obtain k where k: "ps_procs s2 p = Some (Serving k)" using s2(1) unfolding endpoint_ok_def by blast
          moreover have "trim_space b = k" using s2(1) k s2(2) unfolding endpoint_ok_def by fastforce
          ultimately show ?thesis using Ours s1(4) by simp
        qed simp_all
        then show ?thesis
          using up up2 False s2(1) s1(2) by (auto simp: fectunPortInUse_def)
      qed
    qed
  qed
qed

lemma daemon_step_ok: "endpoint_ok s \<Longrightarrow> event_fits s ev \<Longrightarrow> endpoint_ok (daemon_step s ev)"
proof (induction s ev rule: daemon_step.induct)
  case (1 s a e)
  then show ?case using up_ok [of s a e "fst (runFectunUp a e s)" "snd (runFectunUp a e s)"] by simp
next
  case (2 s p)
  have one: "q = p" if "ps_procs s p = Some (Serving k)" "ps_procs s q = Some (Serving k')" for q k k'
    using 2(1) that unfolding endpoint_ok_def by (metis owner.inject)
  show ?case
    using 2(1) by (auto simp: endpoint_ok_def srv_Close_def dest: one split: option.splits proc.splits)
next
  case (3 s p)
  then show ?case by (auto simp: endpoint_ok_def remove_pid_def)
qed (simp add: kill_ok)

interpretation daemon: guarded_step daemon_step endpoint_ok event_fits
  by unfold_locales (rule daemon_step_ok)

text \<open>
  C29: After any history of a port, a successful \<^verbatim>\<open>--fectun-up\<close> prints a line from which the client reads
  exactly the key the daemon on the port serves with, unless another program has the port: a daemon
  that already runs is used with its key, and several clients get the same one.
\<close>

theorem fectun_key_agrees:
  assumes init: "endpoint_ok s0" "run_allowed daemon_step event_fits s0 es" and s: "s = foldl daemon_step s0 es"
    and up: "event_fits s (Up a e)" "runFectunUp a e s = (Inr out, s')"
  shows "\<exists>k. parseFectunKey out = Inr k \<and>
    (ps_port s' = Foreign \<or> (\<exists>p. ps_port s' = Ours p \<and> ps_procs s' p = Some (Serving k)))"
proof -
  have "endpoint_ok s"
    unfolding s using init by (rule daemon.run_inv)
  from up_ok [OF this up] obtain k where k: "key_ok k" "out = ''fectun-key '' @ k @ [LFd]"
    "ps_port s' = Foreign \<or> (\<exists>p. ps_port s' = Ours p \<and> ps_procs s' p = Some (Serving k))"
    by auto
  have "parseFectunKey out = Inr k"
    unfolding k(2) LFd_def by (rule parseFectunKey_printed [OF k(1)])
  with k(3) show ?thesis by blast
qed

definition example_up :: up_env where
  "example_up = \<lparr>ue_lock = None, ue_random = Inr ''c0ffee'', ue_write = None, ue_probe = None, ue_proc = True, ue_prepare = None,
    ue_pid = 77, ue_server = None, ue_late = False\<rparr>"

definition empty_port :: port_state where
  "empty_port = \<lparr>ps_key = None, ps_pid = None, ps_procs = Map.empty, ps_port = Free\<rparr>"

lemma fectun_key_agrees_witness:
  "\<exists>k. parseFectunKey (''fectun-key c0ffee'' @ [LFd]) = Inr k"
proof -
  have init: "endpoint_ok empty_port" by (simp add: endpoint_ok_def empty_port_def)
  have fits: "event_fits empty_port (Up \<lparr>fa_port = 55700, fa_restart = False\<rparr> example_up)"
    by (simp add: event_fits_def example_up_def empty_port_def int64_max_def key_ok_def trim_space_def trim_right_by_def is_space_def)
  have up: "fst (runFectunUp \<lparr>fa_port = 55700, fa_restart = False\<rparr> example_up empty_port) = Inr (''fectun-key c0ffee'' @ [LFd])"
    by (simp add: runFectunUp_def example_up_def empty_port_def loadOrCreateFectunKey_def fectunPortInUse_def startFectunDaemon_def serve_start_def)
  show ?thesis
    using fectun_key_agrees [OF init, of "[]" empty_port "\<lparr>fa_port = 55700, fa_restart = False\<rparr>" example_up
        "''fectun-key c0ffee'' @ [LFd]" "snd (runFectunUp \<lparr>fa_port = 55700, fa_restart = False\<rparr> example_up empty_port)"] fits up
    by (auto simp: prod_eq_iff)
qed

text \<open>
  A daemon that exits when idle frees its port before it removes the pid file. If a new daemon is
  started in between, the old one removes the new one's file: a restart asked for later finds no pid,
  stops nothing and reports success although the old daemon still serves.
\<close>

lemma restart_loses_daemon:
  assumes old: "ps_procs s p = Some (Serving k)" "ps_port s = Ours p" "ue_pid e \<noteq> p"
    and up: "daemon_step (daemon_step s (Closes p)) (Up a e) = s2" "ps_procs s2 p = Some Exiting" "ps_port s2 = Ours (ue_pid e)"
    and s3: "s3 = daemon_step s2 (Removes p)"
  shows "stopFectunDaemon e' s3 = s3 \<and> ps_port s3 = Ours (ue_pid e) \<and>
    (\<forall>a' out s4. runFectunUp a' e' s3 = (Inr out, s4) \<longrightarrow> ps_procs s4 = ps_procs s3 \<and> ps_port s4 = Ours (ue_pid e))"
proof -
  have s3': "s3 = remove_pid p s2" using up(2) by (simp add: s3)
  then have pid: "ps_pid s3 = None" "ps_port s3 = Ours (ue_pid e)"
    using up(3) by (simp_all add: remove_pid_def)
  have stop: "stopFectunDaemon e' t = t" if "ps_pid t = None" for t
    using that by (simp add: stopFectunDaemon_def)
  have "ps_procs s4 = ps_procs s3 \<and> ps_port s4 = Ours (ue_pid e)" if run: "runFectunUp a' e' s3 = (Inr out, s4)" for a' out s4
  proof -
    obtain key s1 where s1: "loadOrCreateFectunKey e' s3 = (Inr key, s1)"
      using run by (auto simp: runFectunUp_def split: if_splits option.splits prod.splits sum.splits)
    then have "ps_procs s1 = ps_procs s3" "ps_port s1 = ps_port s3" "ps_pid s1 = None"
      using pid(1) by (auto simp: loadOrCreateFectunKey_def Let_def split: if_splits sum.splits option.splits)
    with run s1 pid show ?thesis
      by (auto simp: runFectunUp_def fectunPortInUse_def stop split: if_splits option.splits)
  qed
  then show ?thesis
    using stop [OF pid(1)] pid(2) by blast
qed

text \<open>
  The daemon ends only when it saw no client for ten minutes: at every tick of the last ten minutes
  the number of peers was zero.
\<close>

lemma daemon_idle_exit:
  assumes "serve_loop lastBusy ts = Some n" "sorted (lastBusy # map fst ts)"
  shows "n < length ts \<and> lastBusy + fectunIdleExit \<le> fst (ts ! n) \<and>
    (\<forall>k\<le>n. fst (ts ! n) - fst (ts ! k) < fectunIdleExit \<longrightarrow> snd (ts ! k) = 0)"
  using assms
proof (induction lastBusy ts arbitrary: n rule: serve_loop.induct)
  case (2 lastBusy now peers ts)
  show ?case
  proof (cases "peers > 0 \<or> now - lastBusy < fectunIdleExit")
    case True
    then obtain m where m: "n = Suc m" "serve_loop (if peers > 0 then now else lastBusy) ts = Some m"
      using "2.prems"(1) by (auto split: if_splits)
    have "sorted ((if peers > 0 then now else lastBusy) # map fst ts)"
      using "2.prems"(2) by auto
    with m "2.IH" True "2.prems"(2) have rec: "m < length ts" "(if peers > 0 then now else lastBusy) + fectunIdleExit \<le> fst (ts ! m)"
        "\<forall>k\<le>m. fst (ts ! m) - fst (ts ! k) < fectunIdleExit \<longrightarrow> snd (ts ! k) = 0"
      by (auto split: if_splits)
    have "lastBusy \<le> now" using "2.prems"(2) by simp
    moreover have "snd (((now, peers) # ts) ! k) = 0" if k: "k \<le> n" "fst (((now, peers) # ts) ! n) - fst (((now, peers) # ts) ! k) < fectunIdleExit" for k
      using k rec m(1) by (cases k) (auto split: if_splits)
    ultimately show ?thesis
      using rec(1,2) m(1) by (auto split: if_splits)
  qed (use "2.prems"(1) in \<open>simp\<close>)
qed simp

text \<open>
  The check of the command line is skipped where there is no \<^verbatim>\<open>/proc\<close>: a pid file left behind by a
  killed daemon makes a restart kill whatever process has the id now.
\<close>

lemma restart_kills_other:
  assumes "ps_pid s = Some (itoa p @ [LFd])" "1 < p" "p \<le> int64_max" "ps_procs s p = Some (Other c)" "\<not> ue_proc e"
  shows "ps_procs (stopFectunDaemon e s) p = None"
proof -
  have c: "c \<in> set (itoa p) \<Longrightarrow> \<not> is_space c" for c
    using itoa_chars [of c p] digit_not_space [of c] by (auto simp: is_space_def)
  then have "key_ok (itoa p)"
    unfolding key_ok_def using c [of "CHR 0x0A"] by (auto simp: is_space_def intro!: trim_space_fixed)
  then have "trim_space (itoa p @ [LFd]) = itoa p"
    by (rule key_ok_line)
  moreover have "int64_min \<le> p"
    using assms(2) by (simp add: int64_min_def)
  ultimately show ?thesis
    using assms by (simp add: stopFectunDaemon_def kill_process_def)
qed

end
