(* ===== verification/FectunClient.thy ===== *)
theory FectunClient
  imports Contracts Complex_Main
begin

text \<open>
  The client side of fectun, FEC over UDP (\<^verbatim>\<open>internal/sshconn/fectun.go\<close>): the table of shared
  clients with their reference counts and idle timers, the keys learned per endpoint, and the
  connection of the first hop. The fectun package and SSH are parameters: whether a socket, a client
  or a handshake succeeds is an argument. Every locked section is one step.
\<close>

section \<open>Configuration\<close>

record fectun_config =
  fc_Port :: int
  fc_Key :: string
  fc_K :: int
  fc_M :: int
  fc_RateMbps :: rat
  fc_RateMinMbps :: rat

record fectun_options =
  fo_K :: int
  fo_M :: int
  fo_RateMbps :: rat
  fo_RateMinMbps :: rat
  fo_Key :: "string option"

definition DefaultFectunRateMinMbps :: rat where
  "DefaultFectunRateMinMbps = 10"

definition Enabled :: "fectun_config option \<Rightarrow> bool" where
  "Enabled fc = (case fc of None \<Rightarrow> False | Some c \<Rightarrow> fc_Port c > 0)"

definition RateMin :: "fectun_config \<Rightarrow> rat" where
  "RateMin fc =
     (if fc_RateMinMbps fc < 0 then 0 else if fc_RateMinMbps fc = 0 then DefaultFectunRateMinMbps else fc_RateMinMbps fc)"

definition fectun_opts :: "fectun_config \<Rightarrow> fectun_options" where
  "fectun_opts fc =
     \<lparr>fo_K = fc_K fc, fo_M = fc_M fc, fo_RateMbps = fc_RateMbps fc, fo_RateMinMbps = RateMin fc,
      fo_Key = (if fc_Key fc \<noteq> [] then Some (fc_Key fc) else None)\<rparr>"

section \<open>Shared clients\<close>

text \<open>
  The key of the table is the text of the address and the parameters; here it is what the text
  is made of. Entries, timers and connections are known by their position. A timer that fires
  starts a goroutine that waits for the lock: stopping it then comes too late.
\<close>

datatype client_key = ClientKey string int int rat rat string

definition client_key :: "string \<Rightarrow> fectun_config \<Rightarrow> client_key" where
  "client_key raddr fc = ClientKey raddr (fc_K fc) (fc_M fc) (fc_RateMbps fc) (RateMin fc) (fc_Key fc)"

datatype timer_state = Armed | Stopped | Firing | Ran

record fectun_entry =
  fe_key :: client_key
  fe_refs :: int
  fe_idle :: "nat option"
  fe_closes :: nat

record fectun_clients =
  fr_m :: "client_key \<rightharpoonup> nat"
  fr_entries :: "fectun_entry list"
  fr_timers :: "(nat \<times> timer_state) list"
  fr_conns :: "(nat \<times> bool) list"

text \<open>\<open>fe_closes\<close> counts the calls of the client's \<^verbatim>\<open>Close\<close>; a connection is its entry and
  whether its reference was given back.\<close>

definition no_clients :: fectun_clients where
  "no_clients = \<lparr>fr_m = Map.empty, fr_entries = [], fr_timers = [], fr_conns = []\<rparr>"

definition on_entry :: "nat \<Rightarrow> (fectun_entry \<Rightarrow> fectun_entry) \<Rightarrow> fectun_clients \<Rightarrow> fectun_clients" where
  "on_entry i f r = r\<lparr>fr_entries := (fr_entries r)[i := f (fr_entries r ! i)]\<rparr>"

definition listed :: "fectun_clients \<Rightarrow> nat \<Rightarrow> bool" where
  "listed r i \<longleftrightarrow> fr_m r (fe_key (fr_entries r ! i)) = Some i"

definition close_client :: "nat \<Rightarrow> fectun_clients \<Rightarrow> fectun_clients" where
  "close_client i = on_entry i (\<lambda>e. e\<lparr>fe_closes := fe_closes e + 1\<rparr>)"

definition unlist :: "nat \<Rightarrow> fectun_clients \<Rightarrow> fectun_clients" where
  "unlist i r = r\<lparr>fr_m := (fr_m r)(fe_key (fr_entries r ! i) := None)\<rparr>"

definition stop_timer :: "nat option \<Rightarrow> fectun_clients \<Rightarrow> fectun_clients" where
  "stop_timer t r =
     (case t of
        Some k \<Rightarrow>
          if snd (fr_timers r ! k) = Armed then r\<lparr>fr_timers := (fr_timers r)[k := (fst (fr_timers r ! k), Stopped)]\<rparr> else r
      | None \<Rightarrow> r)"

definition take_client ::
    "error option \<Rightarrow> error option \<Rightarrow> client_key \<Rightarrow> fectun_clients \<Rightarrow> (error + nat) \<times> fectun_clients" where
  "take_client listen new k r =
     (case fr_m r k of
        Some i \<Rightarrow> (Inr i, r)
      | None \<Rightarrow>
          (case listen of
             Some e \<Rightarrow> (Inl (Wrapped ''fectun udp socket'' e), r)
           | None \<Rightarrow>
               (case new of
                  Some e \<Rightarrow> (Inl e, r)
                | None \<Rightarrow>
                    (Inr (length (fr_entries r)),
                     r\<lparr>fr_m := (fr_m r)(k \<mapsto> length (fr_entries r)),
                       fr_entries := fr_entries r @ [\<lparr>fe_key = k, fe_refs = 0, fe_idle = None, fe_closes = 0\<rparr>]\<rparr>))))"

definition dialFectun ::
    "error + string \<Rightarrow> error option \<Rightarrow> error option \<Rightarrow> fectun_config \<Rightarrow> fectun_clients \<Rightarrow> (error + nat) \<times> fectun_clients" where
  "dialFectun resolved listen new fc r =
     (case resolved of
        Inl e \<Rightarrow> (Inl (Wrapped ''fectun resolve'' e), r)
      | Inr raddr \<Rightarrow>
          (case take_client listen new (client_key raddr fc) r of
             (Inl e, r1) \<Rightarrow> (Inl e, r1)
           | (Inr i, r1) \<Rightarrow>
               let r2 = stop_timer (fe_idle (fr_entries r1 ! i)) r1;
                   r3 = on_entry i (\<lambda>e. e\<lparr>fe_idle := None, fe_refs := fe_refs e + 1\<rparr>) r2
               in (Inr (length (fr_conns r3)), r3\<lparr>fr_conns := fr_conns r3 @ [(i, False)]\<rparr>)))"

definition entry_release :: "nat \<Rightarrow> fectun_clients \<Rightarrow> fectun_clients" where
  "entry_release i r =
     (let r1 = on_entry i (\<lambda>e. e\<lparr>fe_refs := fe_refs e - 1\<rparr>) r in
      if fe_refs (fr_entries r1 ! i) > 0 then r1
      else if \<not> listed r1 i then close_client i r1
      else on_entry i (\<lambda>e. e\<lparr>fe_idle := Some (length (fr_timers r1))\<rparr>) (r1\<lparr>fr_timers := fr_timers r1 @ [(i, Armed)]\<rparr>))"

definition idle_close :: "nat \<Rightarrow> fectun_clients \<Rightarrow> fectun_clients" where
  "idle_close i r =
     (if fe_refs (fr_entries r ! i) > 0 \<or> \<not> listed r i then r else close_client i (unlist i r))"

definition entry_evict :: "nat \<Rightarrow> fectun_clients \<Rightarrow> fectun_clients" where
  "entry_evict i r =
     (if \<not> listed r i then r
      else
        let r1 = unlist i r in
        if fe_refs (fr_entries r ! i) = 0 then close_client i (stop_timer (fe_idle (fr_entries r ! i)) r1) else r1)"

definition fectunConn_Close :: "nat \<Rightarrow> fectun_clients \<Rightarrow> fectun_clients" where
  "fectunConn_Close j r =
     (if snd (fr_conns r ! j) then r
      else entry_release (fst (fr_conns r ! j)) (r\<lparr>fr_conns := (fr_conns r)[j := (fst (fr_conns r ! j), True)]\<rparr>))"

text \<open>What the goroutines of the program and the timers do, in any order.\<close>

datatype client_event =
    Dial "error + string" "error option" "error option" fectun_config
  | CloseConn nat
  | Evict nat
  | Expire nat
  | RunTimer nat

fun client_step :: "fectun_clients \<Rightarrow> client_event \<Rightarrow> fectun_clients" where
  "client_step r (Dial resolved listen new fc) = snd (dialFectun resolved listen new fc r)"
| "client_step r (CloseConn j) = (if j < length (fr_conns r) then fectunConn_Close j r else r)"
| "client_step r (Evict i) = (if i < length (fr_entries r) then entry_evict i r else r)"
| "client_step r (Expire t) =
     (if t < length (fr_timers r) \<and> snd (fr_timers r ! t) = Armed
      then r\<lparr>fr_timers := (fr_timers r)[t := (fst (fr_timers r ! t), Firing)]\<rparr> else r)"
| "client_step r (RunTimer t) =
     (if t < length (fr_timers r) \<and> snd (fr_timers r ! t) = Firing
      then idle_close (fst (fr_timers r ! t)) (r\<lparr>fr_timers := (fr_timers r)[t := (fst (fr_timers r ! t), Ran)]\<rparr>) else r)"

section \<open>Every client is closed once, when nothing can use it\<close>

definition open_in :: "(nat \<times> bool) list \<Rightarrow> nat \<Rightarrow> int" where
  "open_in cs i = int (length (filter (\<lambda>c. c = (i, False)) cs))"

definition open_conns :: "fectun_clients \<Rightarrow> nat \<Rightarrow> int" where
  "open_conns r = open_in (fr_conns r)"

definition pending_timer :: "fectun_clients \<Rightarrow> nat \<Rightarrow> bool" where
  "pending_timer r i \<longleftrightarrow>
     (case fe_idle (fr_entries r ! i) of
        None \<Rightarrow> False
      | Some t \<Rightarrow> t < length (fr_timers r) \<and> fr_timers r ! t \<in> {(i, Armed), (i, Firing)})"

definition entry_ok :: "fectun_clients \<Rightarrow> nat \<Rightarrow> bool" where
  "entry_ok r i \<longleftrightarrow>
     fe_refs (fr_entries r ! i) = open_conns r i \<and>
     fe_closes (fr_entries r ! i) = (if open_conns r i = 0 \<and> \<not> listed r i then 1 else 0) \<and>
     (open_conns r i = 0 \<and> listed r i \<longrightarrow> pending_timer r i) \<and>
     (\<forall>t. fe_idle (fr_entries r ! i) = Some t \<longrightarrow> t < length (fr_timers r) \<and> fst (fr_timers r ! t) = i)"

definition clients_ok :: "fectun_clients \<Rightarrow> bool" where
  "clients_ok r \<longleftrightarrow>
     (\<forall>k i. fr_m r k = Some i \<longrightarrow> i < length (fr_entries r) \<and> fe_key (fr_entries r ! i) = k) \<and>
     (\<forall>i<length (fr_entries r). entry_ok r i) \<and>
     (\<forall>t<length (fr_timers r). fst (fr_timers r ! t) < length (fr_entries r)) \<and>
     (\<forall>j<length (fr_conns r). fst (fr_conns r ! j) < length (fr_entries r))"

lemma entry_ok_frame:
  assumes "entry_ok r j" "fr_entries r' ! j = fr_entries r ! j" "open_conns r' j = open_conns r j" "listed r' j = listed r j"
    and "\<And>t. t < length (fr_timers r) \<Longrightarrow> fst (fr_timers r ! t) = j \<Longrightarrow> t < length (fr_timers r') \<and> fr_timers r' ! t = fr_timers r ! t"
  shows "entry_ok r' j"
  using assms unfolding entry_ok_def pending_timer_def
  by (cases "fe_idle (fr_entries r ! j)") auto

lemma clients_okD:
  assumes "clients_ok r"
  shows "fr_m r k = Some i \<Longrightarrow> i < length (fr_entries r) \<and> fe_key (fr_entries r ! i) = k"
    and "i < length (fr_entries r) \<Longrightarrow> entry_ok r i"
    and "t < length (fr_timers r) \<Longrightarrow> fst (fr_timers r ! t) < length (fr_entries r)"
    and "j < length (fr_conns r) \<Longrightarrow> fst (fr_conns r ! j) < length (fr_entries r)"
  using assms by (auto simp: clients_ok_def)

text \<open>The invariant without one entry, as between two steps of a dial.\<close>

definition clients_ok_but :: "nat \<Rightarrow> fectun_clients \<Rightarrow> bool" where
  "clients_ok_but x r \<longleftrightarrow>
     (\<forall>k i. fr_m r k = Some i \<longrightarrow> i < length (fr_entries r) \<and> fe_key (fr_entries r ! i) = k) \<and>
     (\<forall>i<length (fr_entries r). i \<noteq> x \<longrightarrow> entry_ok r i) \<and>
     (\<forall>t<length (fr_timers r). fst (fr_timers r ! t) < length (fr_entries r)) \<and>
     (\<forall>j<length (fr_conns r). fst (fr_conns r ! j) < length (fr_entries r))"

lemma clients_ok_but: "clients_ok r \<Longrightarrow> clients_ok_but x r"
  by (simp add: clients_ok_def clients_ok_but_def)

lemma clients_ok_butD:
  assumes "clients_ok_but x r"
  shows "fr_m r k = Some i \<Longrightarrow> i < length (fr_entries r) \<and> fe_key (fr_entries r ! i) = k"
    and "i < length (fr_entries r) \<Longrightarrow> i \<noteq> x \<Longrightarrow> entry_ok r i"
    and "t < length (fr_timers r) \<Longrightarrow> fst (fr_timers r ! t) < length (fr_entries r)"
    and "j < length (fr_conns r) \<Longrightarrow> fst (fr_conns r ! j) < length (fr_entries r)"
  using assms by (auto simp: clients_ok_but_def)

text \<open>
  What an operation on entry \<open>i\<close> may touch: the entry itself, its place in the table, its timers
  and its connections.
\<close>

definition touches :: "nat \<Rightarrow> fectun_clients \<Rightarrow> fectun_clients \<Rightarrow> bool" where
  "touches i r r' \<longleftrightarrow>
     length (fr_entries r') = length (fr_entries r) \<and> (\<forall>j. j \<noteq> i \<longrightarrow> fr_entries r' ! j = fr_entries r ! j) \<and>
     fe_key (fr_entries r' ! i) = fe_key (fr_entries r ! i) \<and>
     (fr_m r' = fr_m r \<or> listed r i \<and> fr_m r' = (fr_m r)(fe_key (fr_entries r ! i) := None)) \<and>
     length (fr_timers r) \<le> length (fr_timers r') \<and>
     (\<forall>t<length (fr_timers r'). t < length (fr_timers r) \<and> fr_timers r' ! t = fr_timers r ! t \<or> fst (fr_timers r' ! t) = i) \<and>
     (\<forall>t<length (fr_timers r). fst (fr_timers r ! t) \<noteq> i \<longrightarrow> fr_timers r' ! t = fr_timers r ! t) \<and>
     (\<forall>j. j \<noteq> i \<longrightarrow> open_conns r' j = open_conns r j) \<and>
     (\<forall>c<length (fr_conns r'). fst (fr_conns r' ! c) = i \<or> c < length (fr_conns r) \<and> fst (fr_conns r' ! c) = fst (fr_conns r ! c))"

lemma touches_ok:
  assumes ok: "clients_ok_but i r" and i: "i < length (fr_entries r)" and t: "touches i r r'" and entry: "entry_ok r' i"
  shows "clients_ok r'"
proof -
  have len: "length (fr_entries r') = length (fr_entries r)" and same: "\<And>j. j \<noteq> i \<Longrightarrow> fr_entries r' ! j = fr_entries r ! j"
    and key: "fe_key (fr_entries r' ! j) = fe_key (fr_entries r ! j)" for j
    using t unfolding touches_def by (blast, blast, metis)
  have map: "fr_m r' = fr_m r \<or> listed r i \<and> fr_m r' = (fr_m r)(fe_key (fr_entries r ! i) := None)"
    using t unfolding touches_def by blast
  then have m: "fr_m r' k = Some j \<Longrightarrow> fr_m r k = Some j" for k j
    by (auto split: if_splits)
  have listed: "listed r' j = listed r j" if "j \<noteq> i" for j
    using map
  proof
    assume m': "listed r i \<and> fr_m r' = (fr_m r)(fe_key (fr_entries r ! i) := None)"
    then show ?thesis
      using that by (cases "fe_key (fr_entries r ! j) = fe_key (fr_entries r ! i)") (simp_all add: listed_def key)
  qed (simp add: listed_def key)
  have "entry_ok r' j" if j: "j < length (fr_entries r')" for j
  proof (cases "j = i")
    case False
    have "j < length (fr_entries r)" using len j by simp
    from clients_ok_butD(2) [OF ok this False] show ?thesis
    proof (rule entry_ok_frame)
      show "open_conns r' j = open_conns r j" using t False by (simp add: touches_def)
      show "x < length (fr_timers r') \<and> fr_timers r' ! x = fr_timers r ! x" if "x < length (fr_timers r)" "fst (fr_timers r ! x) = j" for x
        using t False that by (auto simp: touches_def)
    qed (simp_all add: listed [OF False] same [OF False])
  qed (simp add: entry)
  moreover have "\<forall>k j. fr_m r' k = Some j \<longrightarrow> j < length (fr_entries r') \<and> fe_key (fr_entries r' ! j) = k"
    using m clients_ok_butD(1) [OF ok] key len by metis
  moreover have "\<forall>x<length (fr_timers r'). fst (fr_timers r' ! x) < length (fr_entries r')"
    using t clients_ok_butD(3) [OF ok] i len unfolding touches_def by metis
  moreover have "\<forall>x<length (fr_conns r'). fst (fr_conns r' ! x) < length (fr_entries r')"
    using t clients_ok_butD(4) [OF ok] i len unfolding touches_def by metis
  ultimately show ?thesis
    by (simp add: clients_ok_def)
qed

lemmas client_defs = on_entry_def close_client_def unlist_def listed_def open_conns_def

lemma open_in_nonneg [simp]: "0 \<le> open_in cs i"
  by (simp add: open_in_def)

lemma open_in_pos_iff [simp]: "0 < open_in cs i \<longleftrightarrow> open_in cs i \<noteq> 0"
  by (simp add: open_in_def)

lemma open_in_gt_1 [simp]: "1 < open_in cs i \<longleftrightarrow> open_in cs i \<noteq> 0 \<and> open_in cs i \<noteq> 1"
  using open_in_nonneg [of cs i] by linarith

lemma open_in_plus [simp]: "open_in cs i + 1 \<noteq> 0"
  using open_in_nonneg [of cs i] by linarith

lemma expire_ok: 
  assumes ok: "clients_ok r" and t: "t < length (fr_timers r)" "fr_timers r ! t = (i, Armed)"
  shows "clients_ok (r\<lparr>fr_timers := (fr_timers r)[t := (i, Firing)]\<rparr>)" (is "clients_ok ?r")
proof (rule touches_ok [OF clients_ok_but [OF ok]])
  show i: "i < length (fr_entries r)" using clients_okD(3) [OF ok t(1)] t(2) by simp
  show "touches i r ?r"
    using t by (auto simp: touches_def open_conns_def nth_list_update)
  show "entry_ok ?r i"
    using clients_okD(2) [OF ok i] t
    by (auto simp: entry_ok_def client_defs pending_timer_def nth_list_update split: option.splits)
qed

lemma idle_close_ok:
  assumes ok: "clients_ok r" and t: "t < length (fr_timers r)" "fr_timers r ! t = (i, Firing)"
  shows "clients_ok (idle_close i (r\<lparr>fr_timers := (fr_timers r)[t := (i, Ran)]\<rparr>))" (is "clients_ok ?r")
proof (rule touches_ok [OF clients_ok_but [OF ok]])
  show i: "i < length (fr_entries r)" using clients_okD(3) [OF ok t(1)] t(2) by simp
  show "touches i r ?r"
    using t i by (auto simp: touches_def idle_close_def client_defs nth_list_update)
  show "entry_ok ?r i"
    using clients_okD(2) [OF ok i] t i
    by (auto simp: entry_ok_def idle_close_def client_defs pending_timer_def nth_list_update split: option.splits)
qed

lemma length_filter_update:
  "j < length xs \<Longrightarrow>
    length (filter P (xs[j := y])) + (if P (xs ! j) then 1 else 0) = length (filter P xs) + (if P y then 1 else 0)"
proof (induction xs arbitrary: j)
  case (Cons x xs)
  then show ?case by (cases j) auto
qed simp

lemma open_in_snoc [simp]: "open_in (cs @ [(i, False)]) k = open_in cs k + (if k = i then 1 else 0)"
  by (simp add: open_in_def)

lemma open_in_close:
  "j < length cs \<Longrightarrow> cs ! j = (i, False) \<Longrightarrow> open_in (cs[j := (i, True)]) k = open_in cs k - (if k = i then 1 else 0)"
  using length_filter_update [of j cs "\<lambda>c. c = (k, False)" "(i, True)"] by (auto simp: open_in_def)

lemma open_in_pos: "j < length cs \<Longrightarrow> cs ! j = (i, False) \<Longrightarrow> open_in cs i \<noteq> 0"
  using nth_mem [of j cs] by (auto simp: open_in_def filter_empty_conv)

lemma evict_ok:
  assumes ok: "clients_ok r" and i: "i < length (fr_entries r)"
  shows "clients_ok (entry_evict i r)" (is "clients_ok ?r")
proof (rule touches_ok [OF clients_ok_but [OF ok]])
  have t: "fe_idle (fr_entries r ! i) = Some t \<Longrightarrow> t < length (fr_timers r) \<and> fst (fr_timers r ! t) = i" for t
    using clients_okD(2) [OF ok i] by (simp add: entry_ok_def)
  show "touches i r ?r"
    using i t by (auto simp: touches_def entry_evict_def stop_timer_def Let_def client_defs nth_list_update split: option.splits)
  show "entry_ok ?r i"
    using clients_okD(2) [OF ok i] i t
    by (auto simp: entry_ok_def entry_evict_def stop_timer_def Let_def client_defs pending_timer_def nth_list_update split: option.splits)
qed (rule i)

lemma close_conn_ok:
  assumes ok: "clients_ok r" and j: "j < length (fr_conns r)"
  shows "clients_ok (fectunConn_Close j r)" (is "clients_ok ?r")
proof (cases "snd (fr_conns r ! j)")
  case False
  define i where "i = fst (fr_conns r ! j)"
  have c: "fr_conns r ! j = (i, False)" using False by (simp add: i_def prod_eq_iff)
  have i: "i < length (fr_entries r)" using clients_okD(4) [OF ok j] by (simp add: i_def)
  note upd = open_in_close [OF j c] open_in_pos [OF j c]
  show ?thesis
  proof (rule touches_ok [OF clients_ok_but [OF ok] i])
    show "touches i r ?r"
      using i c j upd by (auto simp: touches_def fectunConn_Close_def entry_release_def Let_def client_defs nth_list_update nth_append)
    show "entry_ok ?r i"
      using clients_okD(2) [OF ok i] i c j upd
      by (auto simp: entry_ok_def fectunConn_Close_def entry_release_def Let_def client_defs pending_timer_def nth_list_update nth_append split: option.splits)
  qed
qed (simp add: fectunConn_Close_def ok)

lemma take_client_ok:
  assumes ok: "clients_ok r" and take: "take_client listen new k r = (Inr i, r1)"
  shows "clients_ok_but i r1" "i < length (fr_entries r1)" "listed r1 i" "fe_refs (fr_entries r1 ! i) = open_conns r1 i"
    "fe_closes (fr_entries r1 ! i) = 0"
    "fe_idle (fr_entries r1 ! i) = Some t \<Longrightarrow> t < length (fr_timers r1) \<and> fst (fr_timers r1 ! t) = i"
proof -
  have "clients_ok_but i r1 \<and> i < length (fr_entries r1) \<and> listed r1 i \<and> fe_refs (fr_entries r1 ! i) = open_conns r1 i \<and>
    fe_closes (fr_entries r1 ! i) = 0 \<and>
    (\<forall>t. fe_idle (fr_entries r1 ! i) = Some t \<longrightarrow> t < length (fr_timers r1) \<and> fst (fr_timers r1 ! t) = i)"
  proof (cases "fr_m r k")
    case (Some x)
    then have x: "x = i" "r1 = r" using take by (auto simp: take_client_def)
    with Some show ?thesis
      using clients_okD(1) [OF ok Some] clients_okD(2) [OF ok, of i] clients_ok_but [OF ok]
      by (auto simp: entry_ok_def listed_def)
  next
    case None
    let ?e = "\<lparr>fe_key = k, fe_refs = 0, fe_idle = None, fe_closes = 0\<rparr>"
    have r1: "i = length (fr_entries r)" "r1 = r\<lparr>fr_m := (fr_m r)(k \<mapsto> i), fr_entries := fr_entries r @ [?e]\<rparr>"
      using take None by (auto simp: take_client_def split: option.splits)
    have "entry_ok r1 j" if j: "j < length (fr_entries r)" for j
    proof (rule entry_ok_frame [OF clients_okD(2) [OF ok j]])
      have "fr_m r (fe_key (fr_entries r ! j)) \<noteq> Some j" if "fe_key (fr_entries r ! j) = k"
        using None that by simp
      then show "listed r1 j = listed r j"
        using j by (auto simp: listed_def r1 nth_append)
    qed (use j in \<open>simp_all add: r1 nth_append open_conns_def\<close>)
    moreover have less: "c \<in> set (fr_conns r) \<Longrightarrow> fst c < i" for c
      using clients_okD(4) [OF ok] r1(1) by (auto simp: in_set_conv_nth)
    have "open_conns r1 i = 0"
      using less [of "(i, False)"] by (auto simp: open_conns_def open_in_def r1(2) filter_empty_conv)
    ultimately show ?thesis
      using clients_okD [OF ok] by (auto simp: clients_ok_but_def r1 listed_def nth_append less_Suc_eq)
  qed
  then show "clients_ok_but i r1" "i < length (fr_entries r1)" "listed r1 i" "fe_refs (fr_entries r1 ! i) = open_conns r1 i"
    "fe_closes (fr_entries r1 ! i) = 0"
    "fe_idle (fr_entries r1 ! i) = Some t \<Longrightarrow> t < length (fr_timers r1) \<and> fst (fr_timers r1 ! t) = i"
    by simp_all
qed

lemma take_client_error: "take_client listen new k r = (Inl e, r1) \<Longrightarrow> r1 = r"
  by (auto simp: take_client_def split: option.splits)

lemma dial_ok:
  assumes ok: "clients_ok r"
  shows "clients_ok (snd (dialFectun resolved listen new fc r))"
proof (cases resolved)
  case (Inr raddr)
  show ?thesis
  proof (cases "take_client listen new (client_key raddr fc) r")
    case (Pair res r1)
    show ?thesis
    proof (cases res)
      case (Inl e)
      then show ?thesis
        using Pair Inr ok take_client_error [OF Pair [unfolded Inl]] by (simp add: dialFectun_def)
    next
      case Inr': (Inr i)
      note take = take_client_ok [OF ok Pair [unfolded Inr']]
      have "clients_ok (snd (dialFectun resolved listen new fc r))" (is "clients_ok ?r")
      proof (rule touches_ok [OF take(1,2)])
        have nonneg: "open_conns r1 i \<ge> 0" by (simp add: open_conns_def)
        show "touches i r1 ?r"
          using Inr Pair Inr' take(2) take(6)
          by (auto simp: touches_def dialFectun_def stop_timer_def Let_def client_defs nth_list_update nth_append split: option.splits)
        show "entry_ok ?r i"
          using Inr Pair Inr' take(2,3,4,5) nonneg
          by (auto simp: entry_ok_def dialFectun_def stop_timer_def Let_def client_defs pending_timer_def nth_list_update split: option.splits)
      qed
      then show ?thesis .
    qed
  qed
qed (simp add: dialFectun_def ok)

lemma client_step_ok: "clients_ok r \<Longrightarrow> clients_ok (client_step r e)"
proof (induction r e rule: client_step.induct)
  case (4 r t)
  then show ?case by (cases "fr_timers r ! t") (auto intro: expire_ok)
next
  case (5 r t)
  then show ?case by (cases "fr_timers r ! t") (auto intro: idle_close_ok)
qed (simp_all add: dial_ok close_conn_ok evict_ok)

interpretation fectun_table: invariant_step client_step clients_ok "\<lambda>_. True"
  by unfold_locales (rule client_step_ok)

text \<open>
  C23: Whatever dials, closes, evictions and timers come in any order, also timers that fire while they
  are being stopped: a shared client is closed exactly when no connection uses it and no dial can find
  it any more, and it is closed once. A client that is idle but can still be found has a timer that
  will close it.
\<close>

theorem client_closed_once:
  assumes r: "r = foldl client_step no_clients es" and i: "i < length (fr_entries r)"
  shows "fe_closes (fr_entries r ! i) = (if open_conns r i = 0 \<and> \<not> listed r i then 1 else 0) \<and>
    (if open_conns r i = 0 \<and> listed r i then pending_timer r i else True)"
proof -
  have "clients_ok no_clients"
    by (simp add: clients_ok_def no_clients_def)
  then have "clients_ok r"
    unfolding r by (intro fectun_table.run_inv) (simp_all add: list_all_iff)
  then show ?thesis
    using clients_okD(2) [OF _ i] by (simp add: entry_ok_def)
qed

definition example_hop :: fectun_config where
  "example_hop = \<lparr>fc_Port = 55700, fc_Key = ''k'', fc_K = 20, fc_M = 15, fc_RateMbps = 100, fc_RateMinMbps = 0\<rparr>"

lemma client_closed_once_witness:
  "fe_closes (fr_entries (foldl client_step no_clients
      [Dial (Inr ''h'') None None example_hop, Dial (Inr ''h'') None None example_hop, CloseConn 0, Evict 0, CloseConn 1]) ! 0) = 1"
  using client_closed_once [OF refl, of 0
      "[Dial (Inr ''h'') None None example_hop, Dial (Inr ''h'') None None example_hop, CloseConn 0, Evict 0, CloseConn 1]"]
  by (simp add: dialFectun_def take_client_def no_clients_def stop_timer_def fectunConn_Close_def entry_release_def
      entry_evict_def client_defs open_in_def)

section \<open>Keys of the endpoints\<close>

record fectun_peer =
  fp_key :: string
  fp_gen :: nat

definition new_peer :: fectun_peer where
  "new_peer = \<lparr>fp_key = [], fp_gen = 0\<rparr>"

definition fectunPeerFor :: "string \<Rightarrow> (string \<rightharpoonup> fectun_peer) \<Rightarrow> (string \<rightharpoonup> fectun_peer)" where
  "fectunPeerFor endpoint m = (case m endpoint of None \<Rightarrow> m(endpoint \<mapsto> new_peer) | Some _ \<Rightarrow> m)"

definition peer_current :: "fectun_peer \<Rightarrow> string \<times> nat" where
  "peer_current p = (fp_key p, fp_gen p)"

definition refresh :: "nat \<Rightarrow> error + string \<Rightarrow> fectun_peer \<Rightarrow> (error + string) \<times> nat \<times> fectun_peer" where
  "refresh seen boot p =
     (if fp_gen p \<noteq> seen \<and> fp_key p \<noteq> [] then (Inr (fp_key p), fp_gen p, p)
      else
        (case boot of
           Inl e \<Rightarrow> (Inl e, fp_gen p, p)
         | Inr key \<Rightarrow> (Inr key, fp_gen p + 1, \<lparr>fp_key = key, fp_gen = fp_gen p + 1\<rparr>)))"

text \<open>Callers that read the same generation, in the order in which they get the lock; \<open>boots\<close> is
  what a bootstrap by each of them would give.\<close>

fun refresh_all :: "nat \<Rightarrow> (error + string) list \<Rightarrow> fectun_peer \<Rightarrow> (error + string) list \<times> fectun_peer" where
  "refresh_all seen [] p = ([], p)"
| "refresh_all seen (b # bs) p =
     (case refresh seen b p of (res, g, p1) \<Rightarrow> (case refresh_all seen bs p1 of (rs, p2) \<Rightarrow> (res # rs, p2)))"

lemma refresh_all_known:
  "fp_gen p \<noteq> seen \<Longrightarrow> fp_key p \<noteq> [] \<Longrightarrow> refresh_all seen bs p = (replicate (length bs) (Inr (fp_key p)), p)"
  by (induction bs) (simp_all add: refresh_def)

text \<open>
  A reconnect storm costs one bootstrap: of all callers whose key went stale, those before the
  first bootstrap that succeeds report their error, and that one's key is what all later ones get,
  without a bootstrap of their own.
\<close>

lemma storm_one_bootstrap:
  assumes "fp_gen p = seen" "key \<noteq> []"
  shows "refresh_all seen (map Inl es @ Inr key # bs) p =
    (map Inl es @ replicate (Suc (length bs)) (Inr key), \<lparr>fp_key = key, fp_gen = seen + 1\<rparr>)"
  using assms
proof (induction es)
  case Nil
  then show ?case
    using refresh_all_known [of "\<lparr>fp_key = key, fp_gen = seen + 1\<rparr>" seen bs] by (simp add: refresh_def)
qed (simp add: refresh_def)

section \<open>The first hop\<close>

text \<open>
  What the outside does in one try: the address, the socket, the client, and the SSH handshake, which
  depends on the key.
\<close>

record hop_world =
  hw_resolved :: "error + string"
  hw_listen :: "error option"
  hw_new :: "error option"
  hw_handshake :: "string \<Rightarrow> error option"

definition try_hop :: "hop_world \<Rightarrow> fectun_config \<Rightarrow> string \<Rightarrow> fectun_clients \<Rightarrow> (error + nat) \<times> fectun_clients" where
  "try_hop w fc key r =
     (case dialFectun (hw_resolved w) (hw_listen w) (hw_new w) (fc\<lparr>fc_Key := key\<rparr>) r of
        (Inl e, r1) \<Rightarrow> (Inl e, r1)
      | (Inr c, r1) \<Rightarrow>
          (case hw_handshake w key of
             None \<Rightarrow> (Inr c, r1)
           | Some e \<Rightarrow> (Inl (Wrapped ''ssh handshake'' e), entry_evict (fst (fr_conns r1 ! c)) (fectunConn_Close c r1))))"

fun boot_and_try ::
    "(nat \<Rightarrow> hop_world) \<Rightarrow> (bool \<Rightarrow> error + string) \<Rightarrow> fectun_config \<Rightarrow> bool list \<Rightarrow> nat \<Rightarrow> nat \<Rightarrow> error \<Rightarrow>
     fectun_peer \<Rightarrow> fectun_clients \<Rightarrow> (error + nat) \<times> fectun_peer \<times> fectun_clients" where
  "boot_and_try w boot fc [] n gen err p r = (Inl (Wrapped ''fectun via UDP'' err), p, r)"
| "boot_and_try w boot fc (restart # rs) n gen err p r =
     (case refresh gen (boot restart) p of
        (Inl e, _, p1) \<Rightarrow> (Inl e, p1, r)
      | (Inr key, gen1, p1) \<Rightarrow>
          (case try_hop (w n) fc key r of
             (Inr c, r1) \<Rightarrow> (Inr c, p1, r1)
           | (Inl e, r1) \<Rightarrow> boot_and_try w boot fc rs (n + 1) gen1 e p1 r1))"

definition fectunFirstHop ::
    "(nat \<Rightarrow> hop_world) \<Rightarrow> (bool \<Rightarrow> error + string) \<Rightarrow> fectun_config \<Rightarrow> fectun_peer \<Rightarrow> fectun_clients \<Rightarrow>
     (error + nat) \<times> fectun_peer \<times> fectun_clients" where
  "fectunFirstHop w boot fc p r =
     (case peer_current p of (key, gen) \<Rightarrow>
        if key \<noteq> [] then
          (case try_hop (w 0) fc key r of
             (Inr c, r1) \<Rightarrow> (Inr c, p, r1)
           | (Inl e, r1) \<Rightarrow> boot_and_try w boot fc [False, True] 1 gen e p r1)
        else boot_and_try w boot fc [False, True] 0 gen (Msg ''nil'') p r)"

lemma try_hop_result:
  assumes "hw_resolved w = Inr a" "hw_listen w = None" "hw_new w = None"
  shows "isl (fst (try_hop w fc key r)) \<longleftrightarrow> hw_handshake w key \<noteq> None"
  using assms by (auto simp: try_hop_def dialFectun_def take_client_def Let_def split: option.splits)

text \<open>
  The first hop connects, whatever key is cached, if the daemon can be brought up over TCP and the
  key it has after a restart is accepted: at most three tries and two bootstraps are needed, the
  second one with a restart.
\<close>

lemma first_hop_connects:
  assumes net: "\<And>n. hw_resolved (w n) = Inr a \<and> hw_listen (w n) = None \<and> hw_new (w n) = None"
    and daemon: "boot False = Inr k1" "boot True = Inr k2" "\<And>n. hw_handshake (w n) k2 = None"
  shows "\<exists>c p' r'. fectunFirstHop w boot fc p r = (Inr c, p', r')"
proof -
  have ok: "\<exists>c r'. try_hop (w n) fc k2 r = (Inr c, r')" for n r
    using try_hop_result [of "w n" a fc k2 r] net daemon(3) [of n]
    by (cases "try_hop (w n) fc k2 r"; cases "fst (try_hop (w n) fc k2 r)") auto
  have boots: "\<exists>c p' r'. boot_and_try w boot fc [False, True] n (fp_gen p) e p r = (Inr c, p', r')" for n e r
  proof (cases "try_hop (w n) fc k1 r")
    case (Pair res r1)
    then show ?thesis
      using ok [of "n + 1" r1] daemon by (cases res) (auto simp: refresh_def)
  qed
  show ?thesis
  proof (cases "try_hop (w 0) fc (fp_key p) r")
    case (Pair res r1)
    then show ?thesis
      using boots by (cases res) (auto simp: fectunFirstHop_def peer_current_def)
  qed
qed

definition example_world :: "nat \<Rightarrow> hop_world" where
  "example_world n =
     \<lparr>hw_resolved = Inr ''h'', hw_listen = None, hw_new = None, hw_handshake = (\<lambda>k. if k = ''new'' then None else Some EOF)\<rparr>"

end
