(* ===== verification/SshDial.thy ===== *)
theory SshDial
  imports SshConfig FectunClient
begin

text \<open>
  Dialling an SSH target: \<^verbatim>\<open>internal/sshconn/auth.go\<close> and \<^verbatim>\<open>client.go\<close>. The SSH library, sockets and the
  file system are parameters: a dial, a channel through a client or a handshake succeeds or fails
  by its address, a key is parsed or not. The state is the list of SSH clients made so far, with
  their address and whether they are still open; nothing but an explicit close ends one.
\<close>

section \<open>Authentication\<close>

record auth_config =
  ac_IdentityFile :: string
  ac_IdentityPEM :: string

datatype key_file = KeyMissing | KeyUnreadable error | KeyLocked | KeyBad error | KeyOk string

record jump_spec =
  js_Remote :: string
  js_IdentityFile :: string
  js_IdentityPEM :: string

record dial_env =
  de_agent :: "string list"
  de_pem :: "string \<Rightarrow> error + string"
  de_file :: "string \<Rightarrow> key_file"
  de_home :: "string \<Rightarrow> string"
  de_user :: string
  de_config :: "(error + (string \<Rightarrow> string \<Rightarrow> string)) option"
  de_tcp :: "string \<Rightarrow> error + string option"
  de_fectun :: "string \<Rightarrow> error + string option"
  de_hop :: "string \<Rightarrow> error option"
  de_shake :: "string \<Rightarrow> error option"
  de_command :: "string \<Rightarrow> error option"

text \<open>
  \<open>de_tcp\<close> and \<open>de_fectun\<close> give the peer's IP where there is one; the latter stands for the first hop
  over fectun of theory FectunClient.
\<close>

definition signersFromFile :: "dial_env \<Rightarrow> string \<Rightarrow> error + string list" where
  "signersFromFile env path =
     (case de_file env path of
        KeyMissing \<Rightarrow> Inr []
      | KeyUnreadable e \<Rightarrow> Inl e
      | KeyLocked \<Rightarrow> Inl (Msg ''private key is passphrase-protected'')
      | KeyBad e \<Rightarrow> Inl e
      | KeyOk k \<Rightarrow> Inr [k])"

definition default_keys :: "string list" where
  "default_keys = [''id_ed25519'', ''id_rsa'', ''id_ecdsa'']"

definition default_signers :: "dial_env \<Rightarrow> string list" where
  "default_signers env =
     concat (map (\<lambda>n. case signersFromFile env (path_join [de_home env ''~'', ''.ssh'', n]) of Inr ks \<Rightarrow> ks | Inl _ \<Rightarrow> []) default_keys)"

definition BuildSSHConfig :: "dial_env \<Rightarrow> auth_config \<Rightarrow> error + string list" where
  "BuildSSHConfig env ac =
     (case (if ac_IdentityPEM ac \<noteq> [] then map_sum (Wrapped ''inline identity PEM'') (\<lambda>k. [k]) (de_pem env (ac_IdentityPEM ac)) else Inr []) of
        Inl e \<Rightarrow> Inl e
      | Inr pem \<Rightarrow>
          (case (if ac_IdentityFile ac \<noteq> [] then
                   map_sum (Wrapped ''identity file'') (\<lambda>ks. ks) (signersFromFile env (de_home env (ac_IdentityFile ac))) else Inr []) of
             Inl e \<Rightarrow> Inl e
           | Inr fl \<Rightarrow>
               let ks = de_agent env @ pem @ fl @ (if ac_IdentityFile ac = [] \<and> ac_IdentityPEM ac = [] then default_signers env else [])
               in if ks = [] then Inl (Msg ''no SSH authentication methods available'') else Inr ks))"

section \<open>Clients\<close>

type_synonym ssh_clients = "(string \<times> bool) list"

definition sshClientFromConn :: "dial_env \<Rightarrow> string \<Rightarrow> ssh_clients \<Rightarrow> (error + nat) \<times> ssh_clients" where
  "sshClientFromConn env addr cs =
     (case de_shake env addr of
        Some e \<Rightarrow> (Inl (Wrapped ''ssh handshake'' e), cs)
      | None \<Rightarrow> (Inr (length cs), cs @ [(addr, True)]))"

definition firstHopClient :: "dial_env \<Rightarrow> bool \<Rightarrow> string \<Rightarrow> ssh_clients \<Rightarrow> (error + nat \<times> string option) \<times> ssh_clients" where
  "firstHopClient env fectun addr cs =
     (case (if fectun then de_fectun env addr else map_sum (Wrapped ''ssh dial'') (\<lambda>ip. ip) (de_tcp env addr)) of
        Inl e \<Rightarrow> (Inl e, cs)
      | Inr ip \<Rightarrow>
          (case sshClientFromConn env addr cs of
             (Inl e, cs1) \<Rightarrow> (Inl e, cs1)
           | (Inr c, cs1) \<Rightarrow> (Inr (c, ip), cs1)))"

text \<open>
  A hop of \<^verbatim>\<open>ProxyJump\<close> is looked up in the configuration; an explicit one is taken as written.
\<close>

definition proxy_hop :: "dial_env \<Rightarrow> auth_config \<Rightarrow> string \<Rightarrow> error + string" where
  "proxy_hop env ac jump =
     (case ParseSSHConfig (de_config env) (de_user env) (de_home env) (trim_space jump) of
        Inl e \<Rightarrow> Inl (Wrapped ''ProxyJump'' e)
      | Inr hc \<Rightarrow>
          (case BuildSSHConfig env (if hc_IdentityFile hc \<noteq> [] then ac\<lparr>ac_IdentityFile := hc_IdentityFile hc\<rparr> else ac) of
             Inl e \<Rightarrow> Inl e
           | Inr _ \<Rightarrow> Inr (JoinHostPort (hc_HostName hc) (itoa (hc_Port hc)))))"

definition jump_auth :: "jump_spec \<Rightarrow> auth_config \<Rightarrow> auth_config" where
  "jump_auth jh ac =
     (if js_IdentityPEM jh \<noteq> [] then ac\<lparr>ac_IdentityPEM := js_IdentityPEM jh\<rparr>
      else if js_IdentityFile jh \<noteq> [] then ac\<lparr>ac_IdentityFile := js_IdentityFile jh\<rparr> else ac)"

definition explicit_hop :: "dial_env \<Rightarrow> auth_config \<Rightarrow> jump_spec \<Rightarrow> error + string" where
  "explicit_hop env ac jh =
     (case split_port (snd (splitUserHost (js_Remote jh))) of (p, host) \<Rightarrow>
        let port = (if host = snd (splitUserHost (js_Remote jh)) then 22 else p) in
        (case BuildSSHConfig env (jump_auth jh ac) of
           Inl e \<Rightarrow> Inl (Wrapped ''jump auth'' e)
         | Inr _ \<Rightarrow> Inr (JoinHostPort host (itoa port))))"

text \<open>The loop over the hops: \<open>cur\<close> is the client of the hop before, \<open>ip\<close> that of the first one.\<close>

fun dial_hops ::
    "dial_env \<Rightarrow> bool \<Rightarrow> ('j \<Rightarrow> error + string) \<Rightarrow> 'j list \<Rightarrow> nat option \<Rightarrow> string option \<Rightarrow> ssh_clients \<Rightarrow>
     (error + nat option \<times> string option) \<times> ssh_clients" where
  "dial_hops env fectun hop [] cur ip cs = (Inr (cur, ip), cs)"
| "dial_hops env fectun hop (j # js) cur ip cs =
     (case hop j of
        Inl e \<Rightarrow> (Inl e, cs)
      | Inr addr \<Rightarrow>
          if cur = None then
            (case firstHopClient env fectun addr cs of
               (Inl e, cs1) \<Rightarrow> (Inl (Wrapped ''jump'' e), cs1)
             | (Inr (c, ip1), cs1) \<Rightarrow> dial_hops env fectun hop js (Some c) ip1 cs1)
          else
            (case de_hop env addr of
               Some e \<Rightarrow> (Inl (Wrapped ''jump dial'' e), cs)
             | None \<Rightarrow>
                 (case sshClientFromConn env addr cs of
                    (Inl e, cs1) \<Rightarrow> (Inl (Wrapped ''jump handshake'' e), cs1)
                  | (Inr c, cs1) \<Rightarrow> dial_hops env fectun hop js (Some c) ip cs1)))"

definition final_hop ::
    "dial_env \<Rightarrow> string \<Rightarrow> (error + nat option \<times> string option) \<times> ssh_clients \<Rightarrow> (error + nat \<times> string option) \<times> ssh_clients" where
  "final_hop env target r =
     (case r of
        (Inl e, cs) \<Rightarrow> (Inl e, cs)
      | (Inr (cur, ip), cs) \<Rightarrow>
          (case de_hop env target of
             Some e \<Rightarrow> (Inl (Wrapped ''final dial'' e), cs)
           | None \<Rightarrow>
               (case sshClientFromConn env target cs of
                  (Inl e, cs1) \<Rightarrow> (Inl e, cs1)
                | (Inr c, cs1) \<Rightarrow> (Inr (c, ip), cs1))))"

definition dialViaProxyJump ::
    "dial_env \<Rightarrow> bool \<Rightarrow> string \<Rightarrow> string \<Rightarrow> auth_config \<Rightarrow> ssh_clients \<Rightarrow> (error + nat \<times> string option) \<times> ssh_clients" where
  "dialViaProxyJump env fectun spec target ac cs =
     final_hop env target (dial_hops env fectun (proxy_hop env ac) (split_on (CHR '','') spec) None None cs)"

definition dialViaExplicitJumps ::
    "dial_env \<Rightarrow> bool \<Rightarrow> jump_spec list \<Rightarrow> string \<Rightarrow> auth_config \<Rightarrow> ssh_clients \<Rightarrow> (error + nat \<times> string option) \<times> ssh_clients" where
  "dialViaExplicitJumps env fectun jumps target ac cs =
     final_hop env target (dial_hops env fectun (explicit_hop env ac) jumps None None cs)"

text \<open>The placeholders of a \<^verbatim>\<open>ProxyCommand\<close>.\<close>

function replace_all :: "string \<Rightarrow> string \<Rightarrow> string \<Rightarrow> string" where
  "replace_all old new [] = []"
| "replace_all old new (c # s) =
     (if old \<noteq> [] \<and> has_prefix (c # s) old then new @ replace_all old new (drop (length old) (c # s))
      else c # replace_all old new s)"
  by pat_completeness auto
termination
proof (relation "measure (\<lambda>(old, new, s). length s)", goal_cases)
  case (2 old new c s)
  then show ?case by (cases old) auto
qed auto

definition proxy_command :: "string \<Rightarrow> string \<Rightarrow> int \<Rightarrow> string" where
  "proxy_command cmd host port = replace_all ''%p'' (itoa port) (replace_all ''%h'' host cmd)"

definition dialViaProxyCommand :: "dial_env \<Rightarrow> string \<Rightarrow> string \<Rightarrow> int \<Rightarrow> ssh_clients \<Rightarrow> (error + nat) \<times> ssh_clients" where
  "dialViaProxyCommand env cmd host port cs =
     (case de_command env (proxy_command cmd host port) of
        Some e \<Rightarrow> (Inl (Wrapped ''ProxyCommand'' e), cs)
      | None \<Rightarrow> sshClientFromConn env (host @ '':'' @ itoa port) cs)"

definition ssh_Dial ::
    "dial_env \<Rightarrow> bool \<Rightarrow> host_config \<Rightarrow> auth_config \<Rightarrow> jump_spec list \<Rightarrow> ssh_clients \<Rightarrow> (error + nat \<times> string option) \<times> ssh_clients" where
  "ssh_Dial env fectun hc ac0 jumps cs =
     (let ac = (if hc_IdentityFile hc \<noteq> [] \<and> ac_IdentityFile ac0 = [] then ac0\<lparr>ac_IdentityFile := hc_IdentityFile hc\<rparr> else ac0);
          addr = JoinHostPort (hc_HostName hc) (itoa (hc_Port hc)) in
      case BuildSSHConfig env ac of
        Inl e \<Rightarrow> (Inl e, cs)
      | Inr _ \<Rightarrow>
          if jumps \<noteq> [] then dialViaExplicitJumps env fectun jumps addr ac cs
          else if hc_ProxyCommand hc \<noteq> [] then
            (case dialViaProxyCommand env (hc_ProxyCommand hc) (hc_HostName hc) (hc_Port hc) cs of
               (Inl e, cs1) \<Rightarrow> (Inl e, cs1)
             | (Inr c, cs1) \<Rightarrow> (Inr (c, None), cs1))
          else if hc_ProxyJump hc \<noteq> [] then dialViaProxyJump env fectun (hc_ProxyJump hc) addr ac cs
          else firstHopClient env fectun addr cs)"

definition close_ssh :: "nat \<Rightarrow> ssh_clients \<Rightarrow> ssh_clients" where
  "close_ssh c cs = cs[c := (fst (cs ! c), False)]"

definition open_count :: "ssh_clients \<Rightarrow> nat" where
  "open_count cs = length (filter snd cs)"

section \<open>Clients that stay open\<close>

definition opens :: "ssh_clients \<Rightarrow> nat \<Rightarrow> ssh_clients \<Rightarrow> bool" where
  "opens cs n cs' \<longleftrightarrow> (\<exists>new. cs' = cs @ new \<and> list_all snd new \<and> length new = n)"

lemma opens_refl: "opens cs 0 cs"
  by (simp add: opens_def)

lemma opens_none: "\<exists>n\<le>m. opens cs n cs"
  using opens_refl by blast

lemma opens_trans: "opens cs m cs1 \<Longrightarrow> opens cs1 n cs2 \<Longrightarrow> opens cs (m + n) cs2"
  by (force simp: opens_def)

lemma opens_count: "opens cs n cs' \<Longrightarrow> open_count cs' = open_count cs + n"
  by (auto simp: opens_def open_count_def list_all_iff filter_id_conv)

lemma client_opens:
  "sshClientFromConn env addr cs = (r, cs') \<Longrightarrow>
    (case r of Inl e \<Rightarrow> cs' = cs | Inr c \<Rightarrow> opens cs 1 cs' \<and> Suc c = length cs')"
  by (auto simp: sshClientFromConn_def opens_def split: option.splits)

lemma command_opens:
  "dialViaProxyCommand env cmd host port cs = (r, cs') \<Longrightarrow>
    (case r of Inl e \<Rightarrow> cs' = cs | Inr c \<Rightarrow> opens cs 1 cs' \<and> Suc c = length cs')"
  by (auto simp: dialViaProxyCommand_def dest: client_opens split: option.splits)

lemma first_hop_opens:
  "firstHopClient env fectun addr cs = (r, cs') \<Longrightarrow>
    (case r of Inl e \<Rightarrow> cs' = cs | Inr (c, ip) \<Rightarrow> opens cs 1 cs' \<and> Suc c = length cs')"
  using client_opens [of env addr cs]
  by (auto simp: firstHopClient_def split: sum.splits prod.splits)

lemma hops_open:
  "dial_hops env fectun hop js cur ip cs = (r, cs') \<Longrightarrow>
    (case r of Inl e \<Rightarrow> \<exists>n. n < length js \<and> opens cs n cs' | Inr _ \<Rightarrow> opens cs (length js) cs')"
proof (induction env fectun hop js cur ip cs arbitrary: r cs' rule: dial_hops.induct)
  case (1 env fectun hop cur ip cs)
  then show ?case by (auto intro: opens_refl)
next
  case (2 env fectun hop j js cur ip cs)
  have stop: ?case if "r = Inl e" "cs' = cs" for e
    using that by (auto intro: opens_refl)
  have step: ?case if "opens cs 1 cs1" "dial_hops env fectun hop js (Some c) ip1 cs1 = (r, cs')"
      "case r of Inl e \<Rightarrow> \<exists>n. n < length js \<and> opens cs1 n cs' | Inr _ \<Rightarrow> opens cs1 (length js) cs'" for cs1 c ip1
    using that(3) opens_trans [OF that(1)] by (fastforce split: sum.splits)
  show ?case
  proof (cases "hop j")
    case (Inl e)
    then show ?thesis using 2(3) stop [of e] by simp
  next
    case (Inr addr)
    show ?thesis
    proof (cases "cur = None")
      case True
      obtain r1 cs1 where f: "firstHopClient env fectun addr cs = (r1, cs1)" by (cases "firstHopClient env fectun addr cs")
      show ?thesis
      proof (cases r1)
        case (Inl e)
        then show ?thesis using 2(3) Inr True f first_hop_opens [OF f] stop by auto
      next
        case Inr': (Inr ci)
        obtain c ip1 where ci: "ci = (c, ip1)" by (cases ci)
        have "dial_hops env fectun hop js (Some c) ip1 cs1 = (r, cs')"
          using 2(3) Inr True f Inr' ci by simp
        with 2(1) [OF Inr True f [symmetric] Inr' ci [symmetric]] first_hop_opens [OF f] Inr' ci show ?thesis
          by (intro step) auto
      qed
    next
      case False
      show ?thesis
      proof (cases "de_hop env addr")
        case (Some e)
        then show ?thesis using 2(3) Inr False stop by auto
      next
        case None
        obtain r1 cs1 where f: "sshClientFromConn env addr cs = (r1, cs1)" by (cases "sshClientFromConn env addr cs")
        show ?thesis
        proof (cases r1)
          case (Inl e)
          then show ?thesis using 2(3) Inr False None f client_opens [OF f] stop by auto
        next
          case Inr': (Inr c)
          have "dial_hops env fectun hop js (Some c) ip cs1 = (r, cs')"
            using 2(3) Inr False None f Inr' by simp
          with 2(2) [OF Inr False None f [symmetric] Inr'] client_opens [OF f] Inr' show ?thesis
            by (intro step) auto
        qed
      qed
    qed
  qed
qed

lemma final_opens:
  assumes "dial_hops env fectun hop js None None cs = h" "final_hop env target h = (r, cs')"
  shows "case r of Inl e \<Rightarrow> \<exists>n. n \<le> length js \<and> opens cs n cs' | Inr (c, ip) \<Rightarrow> opens cs (Suc (length js)) cs' \<and> Suc c = length cs'"
proof -
  obtain r1 cs1 where h: "h = (r1, cs1)" by (cases h)
  note o = hops_open [OF assms(1) [unfolded h]]
  show ?thesis
  proof (cases r1)
    case (Inl e)
    then show ?thesis using assms(2) h o less_imp_le by (fastforce simp: final_hop_def)
  next
    case (Inr ci)
    obtain r2 cs2 where f: "sshClientFromConn env target cs1 = (r2, cs2)" by (cases "sshClientFromConn env target cs1")
    show ?thesis
      using assms(2) h o Inr f client_opens [OF f] opens_trans [of cs "length js" cs1 1 cs2]
      by (auto simp: final_hop_def split: option.splits sum.splits prod.splits)
  qed
qed

definition hop_number :: "host_config \<Rightarrow> jump_spec list \<Rightarrow> nat" where
  "hop_number hc jumps =
     (if jumps \<noteq> [] then length jumps
      else if hc_ProxyCommand hc \<noteq> [] then 0
      else if hc_ProxyJump hc \<noteq> [] then length (split_on (CHR '','') (hc_ProxyJump hc)) else 0)"

lemma Dial_opens:
  assumes "ssh_Dial env fectun hc ac jumps cs = (r, cs')"
  shows "case r of Inl e \<Rightarrow> \<exists>n. n \<le> hop_number hc jumps \<and> opens cs n cs'
    | Inr (c, ip) \<Rightarrow> opens cs (Suc (hop_number hc jumps)) cs' \<and> Suc c = length cs'"
proof -
  define ac' where "ac' = (if hc_IdentityFile hc \<noteq> [] \<and> ac_IdentityFile ac = [] then ac\<lparr>ac_IdentityFile := hc_IdentityFile hc\<rparr> else ac)"
  let ?addr = "JoinHostPort (hc_HostName hc) (itoa (hc_Port hc))"
  have eq: "ssh_Dial env fectun hc ac jumps cs =
      (case BuildSSHConfig env ac' of
        Inl e \<Rightarrow> (Inl e, cs)
      | Inr _ \<Rightarrow>
          if jumps \<noteq> [] then dialViaExplicitJumps env fectun jumps ?addr ac' cs
          else if hc_ProxyCommand hc \<noteq> [] then
            (case dialViaProxyCommand env (hc_ProxyCommand hc) (hc_HostName hc) (hc_Port hc) cs of
               (Inl e, cs1) \<Rightarrow> (Inl e, cs1)
             | (Inr c, cs1) \<Rightarrow> (Inr (c, None), cs1))
          else if hc_ProxyJump hc \<noteq> [] then dialViaProxyJump env fectun (hc_ProxyJump hc) ?addr ac' cs
          else firstHopClient env fectun ?addr cs)"
    unfolding ac'_def by (simp add: ssh_Dial_def Let_def)
  show ?thesis
  proof (cases "BuildSSHConfig env ac'")
    case (Inl e)
    then show ?thesis using assms eq opens_none by auto
  next
    case (Inr ks)
    consider "jumps \<noteq> []" | "jumps = []" "hc_ProxyCommand hc \<noteq> []" | "jumps = []" "hc_ProxyCommand hc = []" "hc_ProxyJump hc \<noteq> []"
      | "jumps = []" "hc_ProxyCommand hc = []" "hc_ProxyJump hc = []"
      by blast
    then show ?thesis
    proof cases
      case 1
      then have "hop_number hc jumps = length jumps" by (simp add: hop_number_def)
      with 1 show ?thesis
        using assms eq Inr final_opens [OF refl, of env ?addr fectun "explicit_hop env ac'" jumps cs r cs']
        by (cases r) (simp_all add: dialViaExplicitJumps_def split: prod.splits)
    next
      case 2
      obtain r1 cs1 where f: "dialViaProxyCommand env (hc_ProxyCommand hc) (hc_HostName hc) (hc_Port hc) cs = (r1, cs1)"
        by (cases "dialViaProxyCommand env (hc_ProxyCommand hc) (hc_HostName hc) (hc_Port hc) cs")
      show ?thesis
        using assms eq Inr 2 f command_opens [OF f] opens_none
        by (cases r1) (auto simp: hop_number_def)
    next
      case 3
      then show ?thesis
        using assms eq Inr final_opens [OF refl, of env ?addr fectun "proxy_hop env ac'" "split_on (CHR '','') (hc_ProxyJump hc)" cs r cs']
        by (cases r) (simp_all add: dialViaProxyJump_def hop_number_def split: prod.splits)
    next
      case 4
      then show ?thesis
        using assms eq Inr first_hop_opens [of env fectun ?addr cs r cs']
        by (auto simp: hop_number_def intro: opens_refl split: sum.splits)
    qed
  qed
qed

lemma direct_dial_no_leak:
  "ssh_Dial env fectun hc ac jumps cs = (Inl e, cs') \<Longrightarrow> hop_number hc jumps = 0 \<Longrightarrow> cs' = cs"
  using Dial_opens [of env fectun hc ac jumps cs] by (auto simp: opens_def)

text \<open>A reconnect: the target is dialled, and what is closed at the end is the client \<^verbatim>\<open>Dial\<close> returned.\<close>

definition redial :: "dial_env \<Rightarrow> bool \<Rightarrow> host_config \<Rightarrow> auth_config \<Rightarrow> jump_spec list \<Rightarrow> ssh_clients \<Rightarrow> ssh_clients" where
  "redial env fectun hc ac jumps cs =
     (case ssh_Dial env fectun hc ac jumps cs of
        (Inr (c, _), cs1) \<Rightarrow> close_ssh c cs1
      | (Inl _, cs1) \<Rightarrow> cs1)"

lemma close_last: "opens cs (Suc n) cs' \<Longrightarrow> Suc c = length cs' \<Longrightarrow> open_count (close_ssh c cs') = open_count cs + n"
proof -
  assume "opens cs (Suc n) cs'" and c: "Suc c = length cs'"
  then obtain new where new: "cs' = cs @ new" "list_all snd new" "length new = Suc n" by (auto simp: opens_def)
  then obtain ys y where ys: "new = ys @ [y]" by (cases new rule: rev_cases) auto
  then have "c = length (cs @ ys)" using c new by simp
  then have "close_ssh c cs' = (cs @ ys) @ [(fst y, False)]"
    using new(1) ys by (simp add: close_ssh_def list_update_append nth_append)
  then show ?thesis
    using new(2,3) ys by (simp add: open_count_def filter_id_conv list_all_iff)
qed

text \<open>
  Through jump hosts every reconnect leaves connections behind: closing the client that
  \<^verbatim>\<open>Dial\<close> returned ends the last one only, and nothing keeps the clients of the hops. After \<open>n\<close>
  reconnects \<open>n\<close> times as many clients as there are hops are still open, although the code closes the
  old connection of a member "instead of leaking one per reconnect".
\<close>

lemma hops_never_closed:
  assumes "\<And>cs. \<not> isl (fst (ssh_Dial env fectun hc ac jumps cs))"
  shows "open_count ((redial env fectun hc ac jumps ^^ n) cs) = open_count cs + n * hop_number hc jumps"
proof (induction n)
  case (Suc n)
  let ?cs = "(redial env fectun hc ac jumps ^^ n) cs"
  obtain c ip cs' where d: "ssh_Dial env fectun hc ac jumps ?cs = (Inr (c, ip), cs')"
    using assms [of ?cs] by (cases "ssh_Dial env fectun hc ac jumps ?cs"; cases "fst (ssh_Dial env fectun hc ac jumps ?cs)") auto
  have "open_count (close_ssh c cs') = open_count ?cs + hop_number hc jumps"
    using Dial_opens [OF d] by (intro close_last) auto
  moreover have "redial env fectun hc ac jumps ?cs = close_ssh c cs'"
    using d by (simp add: redial_def)
  ultimately show ?case
    using Suc by simp
qed simp

definition jump_env :: dial_env where
  "jump_env = \<lparr>de_agent = [''k''], de_pem = Inr, de_file = (\<lambda>_. KeyMissing), de_home = (\<lambda>p. p), de_user = ''joe'', de_config = None,
     de_tcp = (\<lambda>_. Inr (Some ''192.0.2.1'')), de_fectun = (\<lambda>_. Inl EOF), de_hop = (\<lambda>_. None), de_shake = (\<lambda>_. None), de_command = (\<lambda>_. None)\<rparr>"

end
