(* ===== verification/PoolMembers.thy ===== *)
theory PoolMembers
  imports SshDial Meters
begin

text \<open>
  The connections of the tunnel pool: \<^verbatim>\<open>cmd/tunnel/muxbuilder.go\<close> and \<^verbatim>\<open>connectBackend\<close> of \<^verbatim>\<open>backend.go\<close>.
  A member is one or, split, two SSH connections; a goroutine per member dials again when it dies.
  SSH sessions, the sync header and the deployment succeed or fail by arguments.
\<close>

section \<open>Commands\<close>

definition remote_command :: "string \<Rightarrow> string list \<Rightarrow> string" where
  "remote_command path args = (if args \<noteq> [] then path @ '' '' @ join_with '' '' args else path)"

definition data_command :: "string \<Rightarrow> string \<Rightarrow> string" where
  "data_command cmd sid = cmd @ '' --session-id '' @ sid @ '' --role main''"

definition ctrl_command :: "string \<Rightarrow> string \<Rightarrow> string" where
  "ctrl_command cmd sid =
     (case index_char (CHR '' '') cmd of None \<Rightarrow> cmd | Some i \<Rightarrow> take i cmd) @ '' --session-id '' @ sid @ '' --role ctrl''"

section \<open>Building the members\<close>

text \<open>
  What fails when the sessions of a member are opened: \<open>mw_mux\<close> anything without split, \<open>mw_data\<close> and
  \<open>mw_ctrl\<close> the session, pipes or start of either connection, \<open>mw_sync_data\<close> and \<open>mw_sync_ctrl\<close> the
  sync headers.
\<close>

record member_world =
  mw_mux :: "error option"
  mw_data :: "error option"
  mw_ctrl :: "error option"
  mw_sync_data :: "error option"
  mw_sync_ctrl :: "error option"

type_synonym dialer = "ssh_clients \<Rightarrow> (error + nat \<times> string option) \<times> ssh_clients"

definition tryMuxClient :: "member_world \<Rightarrow> ssh_clients \<Rightarrow> (error + nat option) \<times> ssh_clients" where
  "tryMuxClient w cs = (case mw_mux w of Some e \<Rightarrow> (Inl e, cs) | None \<Rightarrow> (Inr None, cs))"

text \<open>The result is the client of the control connection, for \<^verbatim>\<open>SetCtrlCloser\<close>.\<close>

definition trySplitMuxClient :: "dialer \<Rightarrow> member_world \<Rightarrow> ssh_clients \<Rightarrow> (error + nat option) \<times> ssh_clients" where
  "trySplitMuxClient dial w cs =
     (case mw_data w of
        Some e \<Rightarrow> (Inl (Wrapped ''split data session'' e), cs)
      | None \<Rightarrow>
          (case dial cs of
             (Inl e, cs1) \<Rightarrow> (Inl (Wrapped ''split ctrl SSH connect'' e), cs1)
           | (Inr (c, _), cs1) \<Rightarrow>
               if mw_ctrl w \<noteq> None then (Inl (Wrapped ''split ctrl session'' (the (mw_ctrl w))), close_ssh c cs1)
               else if mw_sync_data w \<noteq> None then (Inl (Wrapped ''split data handshake'' (the (mw_sync_data w))), close_ssh c cs1)
               else if mw_sync_ctrl w \<noteq> None then (Inl (Wrapped ''split ctrl handshake'' (the (mw_sync_ctrl w))), close_ssh c cs1)
               else (Inr (Some c), cs1)))"

definition try_member :: "bool \<Rightarrow> dialer \<Rightarrow> member_world \<Rightarrow> ssh_clients \<Rightarrow> (error + nat option) \<times> ssh_clients" where
  "try_member split dial w cs = (if split then trySplitMuxClient dial w cs else tryMuxClient w cs)"

fun dial_members :: "dialer \<Rightarrow> nat \<Rightarrow> nat list \<Rightarrow> ssh_clients \<Rightarrow> (error + nat list) \<times> ssh_clients" where
  "dial_members dial 0 got cs = (Inr got, cs)"
| "dial_members dial (Suc n) got cs =
     (case dial cs of
        (Inl e, cs1) \<Rightarrow> (Inl (Wrapped ''ssh connect (pool)'' e), fold close_ssh got cs1)
      | (Inr (c, _), cs1) \<Rightarrow> dial_members dial n (got @ [c]) cs1)"

text \<open>
  The second loop: \<open>everyone\<close> are the SSH clients of all members, closed when one member fails; the
  result are pairs of the data and control client.
\<close>

fun start_members ::
    "bool \<Rightarrow> dialer \<Rightarrow> nat list \<Rightarrow> (nat \<times> member_world) list \<Rightarrow> (nat \<times> nat option) list \<Rightarrow> ssh_clients \<Rightarrow>
     (error + (nat \<times> nat option) list) \<times> ssh_clients" where
  "start_members split dial everyone [] got cs = (Inr got, cs)"
| "start_members split dial everyone ((c, w) # ms) got cs =
     (case try_member split dial w cs of
        (Inl e, cs1) \<Rightarrow> (Inl (Wrapped ''mux handshake'' e), fold close_ssh everyone cs1)
      | (Inr k, cs1) \<Rightarrow> start_members split dial everyone ms (got @ [(c, k)]) cs1)"

text \<open>
  \<open>config\<close> is the result of \<^verbatim>\<open>ParseSSHConfig\<close>, \<open>dial\<close> dials it, \<open>deployed\<close> is that of \<^verbatim>\<open>EnsureServer\<close>; the
  worlds are those of the members in order.
\<close>

definition connectBackend ::
    "error + host_config \<Rightarrow> (host_config \<Rightarrow> dialer) \<Rightarrow> error + string \<Rightarrow> bool \<Rightarrow> nat \<Rightarrow> (nat \<Rightarrow> member_world) \<Rightarrow> ssh_clients \<Rightarrow>
     (error + (nat \<times> nat option) list) \<times> ssh_clients" where
  "connectBackend config dialing deployed split poolSize worlds cs =
     (case config of
        Inl e \<Rightarrow> (Inl (Wrapped ''ssh config'' e), cs)
      | Inr hc \<Rightarrow>
          (case dialing hc cs of
             (Inl e, cs1) \<Rightarrow> (Inl (Wrapped ''ssh connect'' e), cs1)
           | (Inr (first, _), cs1) \<Rightarrow>
               (case deployed of
                  Inl e \<Rightarrow> (Inl (Wrapped ''deploy server'' e), close_ssh first cs1)
                | Inr _ \<Rightarrow>
                    let n = (if poolSize < 1 then 1 else poolSize) in
                    (case dial_members (dialing hc) (n - 1) [first] cs1 of
                       (Inl e, cs2) \<Rightarrow> (Inl e, cs2)
                     | (Inr everyone, cs2) \<Rightarrow>
                         start_members split (dialing hc) everyone (zip everyone (map worlds [0..<n])) [] cs2))))"

section \<open>Reconnecting a member\<close>

definition maxReconnectAttempts :: nat where "maxReconnectAttempts = 10"
definition initialBackoff :: nat where "initialBackoff = 5"
definition maxBackoff :: nat where "maxBackoff = 60"

text \<open>
  A member runs its client, sleeps before its next attempt, or gave up. \<open>pm_rtt\<close> and \<open>pm_ctrl\<close> tell
  whether the keepalives of its connections feed the totals of the tunnel.
\<close>

datatype member_phase = Running | Sleeping nat | GivenUp

record pool_member =
  pm_phase :: member_phase
  pm_backoff :: nat
  pm_counters :: tunnel_counters
  pm_rtt :: bool
  pm_ctrl :: bool
  pm_slept :: nat

record pool_state =
  po_members :: "pool_member list"
  po_fatal :: "error list"
  po_taken :: bool
  po_meters :: meters

text \<open>\<open>pm_slept\<close> are the seconds slept since the client died last; the channel for fatal errors holds one.\<close>

definition buildRTTCallback :: "bool \<Rightarrow> int \<Rightarrow> tunnel_counters \<times> meters \<Rightarrow> tunnel_counters \<times> meters" where
  "buildRTTCallback primary rtt p = (ObserveRTT rtt (fst p), if primary then ObserveKeepaliveRTT rtt (snd p) else snd p)"

definition buildCtrlRTTCallback :: "bool \<Rightarrow> (int \<Rightarrow> meters \<Rightarrow> meters) option" where
  "buildCtrlRTTCallback primary = (if primary then Some ObserveCtrlKeepaliveRTT else None)"

definition new_member :: "nat \<Rightarrow> bool \<Rightarrow> pool_member" where
  "new_member i split =
     \<lparr>pm_phase = Running, pm_backoff = initialBackoff, pm_counters = tc_SetState TunnelAlive new_tunnel_counters,
      pm_rtt = (i = 0), pm_ctrl = (split \<and> i = 0), pm_slept = 0\<rparr>"

definition start_pool :: "nat \<Rightarrow> bool \<Rightarrow> int \<Rightarrow> pool_state" where
  "start_pool n split now =
     \<lparr>po_members = map (\<lambda>i. new_member i split) [0..<n], po_fatal = [], po_taken = False, po_meters = new_meters now\<rparr>"

definition set_state :: "tunnel_state \<Rightarrow> pool_member \<Rightarrow> pool_member" where
  "set_state st m = m\<lparr>pm_counters := tc_SetState st (pm_counters m)\<rparr>"

definition on_member :: "nat \<Rightarrow> (pool_member \<Rightarrow> pool_member) \<Rightarrow> pool_state \<Rightarrow> pool_state" where
  "on_member i f p = p\<lparr>po_members := (po_members p)[i := f (po_members p ! i)]\<rparr>"

definition send_fatal :: "error \<Rightarrow> pool_state \<Rightarrow> pool_state" where
  "send_fatal e p = (if po_fatal p = [] then p\<lparr>po_fatal := [e]\<rparr> else p)"

text \<open>The goroutine: \<^verbatim>\<open>Run\<close> returns; the sleep before an attempt is over and the attempt succeeds or not.\<close>

definition run_ends :: "nat \<Rightarrow> pool_state \<Rightarrow> pool_state" where
  "run_ends i = on_member i (\<lambda>m. (set_state TunnelReconnecting m)\<lparr>pm_phase := Sleeping 1, pm_slept := 0\<rparr>)"

definition attempt_fails :: "nat \<Rightarrow> nat \<Rightarrow> pool_state \<Rightarrow> pool_state" where
  "attempt_fails i n p =
     (let m = po_members p ! i; m1 = m\<lparr>pm_slept := pm_slept m + pm_backoff m, pm_backoff := min (pm_backoff m * 2) maxBackoff\<rparr> in
      if n + 1 > maxReconnectAttempts
      then send_fatal (Msg ''exhausted reconnect attempts'') (on_member i (\<lambda>_. set_state TunnelDead (m1\<lparr>pm_phase := GivenUp\<rparr>)) p)
      else on_member i (\<lambda>_. m1\<lparr>pm_phase := Sleeping (n + 1)\<rparr>) p)"

text \<open>\<^verbatim>\<open>connectPoolMember\<close> installs the callbacks of a member that is not primary, whichever it is.\<close>

definition attempt_works :: "nat \<Rightarrow> pool_state \<Rightarrow> pool_state" where
  "attempt_works i = on_member i (\<lambda>m.
     set_state TunnelAlive (m\<lparr>pm_phase := Running, pm_slept := pm_slept m + pm_backoff m, pm_backoff := initialBackoff, pm_rtt := False, pm_ctrl := False\<rparr>))"

datatype pool_event = RunEnds nat | Attempt nat bool | Reply nat int | CtrlReply nat int | TakeFatal

fun pool_step :: "pool_state \<Rightarrow> pool_event \<Rightarrow> pool_state" where
  "pool_step p (RunEnds i) =
     (if i < length (po_members p) \<and> pm_phase (po_members p ! i) = Running then run_ends i p else p)"
| "pool_step p (Attempt i ok) =
     (if i < length (po_members p)
      then (case pm_phase (po_members p ! i) of Sleeping n \<Rightarrow> if ok then attempt_works i p else attempt_fails i n p | _ \<Rightarrow> p) else p)"
| "pool_step p (Reply i rtt) =
     (if i < length (po_members p) \<and> pm_phase (po_members p ! i) = Running then
        (case buildRTTCallback (pm_rtt (po_members p ! i)) rtt (pm_counters (po_members p ! i), po_meters p) of
           (tc, mt) \<Rightarrow> (on_member i (\<lambda>m. m\<lparr>pm_counters := tc\<rparr>) p)\<lparr>po_meters := mt\<rparr>)
      else p)"
| "pool_step p (CtrlReply i rtt) =
     (if i < length (po_members p) \<and> pm_phase (po_members p ! i) = Running then
        (case buildCtrlRTTCallback (pm_ctrl (po_members p ! i)) of None \<Rightarrow> p | Some f \<Rightarrow> p\<lparr>po_meters := f rtt (po_meters p)\<rparr>)
      else p)"
| "pool_step p TakeFatal = (if po_fatal p = [] then p else p\<lparr>po_fatal := tl (po_fatal p), po_taken := True\<rparr>)"

section \<open>A member that gives up is reported\<close>

definition backoff_at :: "nat \<Rightarrow> nat" where
  "backoff_at k = min (initialBackoff * 2 ^ k) maxBackoff"

definition slept_before :: "nat \<Rightarrow> nat" where
  "slept_before n = sum_list (map backoff_at [0..<n])"

definition member_ok :: "pool_member \<Rightarrow> bool" where
  "member_ok m \<longleftrightarrow>
     (case pm_phase m of
        Running \<Rightarrow> tc_state (pm_counters m) = TunnelAlive \<and> pm_backoff m = initialBackoff
      | Sleeping n \<Rightarrow>
          tc_state (pm_counters m) = TunnelReconnecting \<and> 0 < n \<and> n \<le> maxReconnectAttempts \<and>
          pm_backoff m = backoff_at (n - 1) \<and> pm_slept m = slept_before (n - 1)
      | GivenUp \<Rightarrow> tc_state (pm_counters m) = TunnelDead \<and> pm_slept m = slept_before maxReconnectAttempts)"

definition pool_ok :: "pool_state \<Rightarrow> bool" where
  "pool_ok p \<longleftrightarrow> list_all member_ok (po_members p) \<and> length (po_fatal p) \<le> 1 \<and>
     (list_ex (\<lambda>m. pm_phase m = GivenUp) (po_members p) \<longrightarrow> po_fatal p \<noteq> [] \<or> po_taken p)"

lemma backoff_next: "min (backoff_at k * 2) maxBackoff = backoff_at (Suc k)"
  by (simp add: backoff_at_def maxBackoff_def initialBackoff_def)

lemma slept_next: "slept_before (Suc k) = slept_before k + backoff_at k"
  by (simp add: slept_before_def)

lemma list_all_update: "list_all P xs \<Longrightarrow> P y \<Longrightarrow> list_all P (xs[i := y])"
  using set_update_subset_insert [of xs i y] by (auto simp: list_all_iff)

lemma list_ex_update: "list_ex P (xs[i := y]) \<Longrightarrow> list_ex P xs \<or> P y"
  using set_update_subset_insert [of xs i y] by (auto simp: list_ex_iff)

lemma observe_state [simp]: "tc_state (ObserveRTT rtt tc) = tc_state tc"
  by (simp add: ObserveRTT_def rtt_push_def Let_def)

lemma attempt_fails_ok:
  assumes ok: "pool_ok p" and i: "i < length (po_members p)" "pm_phase (po_members p ! i) = Sleeping n"
  shows "pool_ok (attempt_fails i n p)"
proof -
  define m where "m = po_members p ! i"
  have m: "member_ok m" "pm_phase m = Sleeping n"
    using ok i by (auto simp: pool_ok_def list_all_length m_def)
  obtain k where k: "n = Suc k" using m by (cases n) (auto simp: member_ok_def)
  have bk: "pm_backoff m = backoff_at k" "pm_slept m = slept_before k" "k < maxReconnectAttempts"
    using m k by (auto simp: member_ok_def)
  show ?thesis
  proof (cases "n + 1 > maxReconnectAttempts")
    case True
    then have "Suc k = maxReconnectAttempts" using k bk(3) by simp
    then have "member_ok (set_state TunnelDead (m\<lparr>pm_slept := pm_slept m + pm_backoff m,
        pm_backoff := min (pm_backoff m * 2) maxBackoff, pm_phase := GivenUp\<rparr>))"
      using bk slept_next [of k] by (simp add: member_ok_def set_state_def tc_SetState_def)
    then show ?thesis
      using ok True
      by (auto simp: pool_ok_def attempt_fails_def Let_def m_def [symmetric] send_fatal_def on_member_def intro: list_all_update)
  next
    case False
    let ?m = "m\<lparr>pm_slept := pm_slept m + pm_backoff m, pm_backoff := min (pm_backoff m * 2) maxBackoff, pm_phase := Sleeping (n + 1)\<rparr>"
    have "member_ok ?m"
      using False m bk k slept_next [of k] backoff_next [of k] by (simp add: member_ok_def)
    then show ?thesis
      using ok False
      by (auto simp: pool_ok_def attempt_fails_def Let_def m_def [symmetric] on_member_def intro: list_all_update dest!: list_ex_update)
  qed
qed

lemma on_member_ok:
  "pool_ok p \<Longrightarrow> member_ok (f (po_members p ! i)) \<Longrightarrow> pm_phase (f (po_members p ! i)) \<noteq> GivenUp \<Longrightarrow> pool_ok (on_member i f p)"
  by (auto simp: pool_ok_def on_member_def intro: list_all_update dest!: list_ex_update)

lemma pool_step_ok: "pool_ok p \<Longrightarrow> pool_ok (pool_step p e)"
proof (induction p e rule: pool_step.induct)
  case (1 p i)
  then show ?case
    by (auto simp: run_ends_def intro!: on_member_ok)
      (auto simp: member_ok_def set_state_def tc_SetState_def maxReconnectAttempts_def backoff_at_def slept_before_def pool_ok_def
        list_all_length initialBackoff_def maxBackoff_def)
next
  case (2 p i ok)
  have "pool_ok (attempt_works i p)" if "i < length (po_members p)"
    using 2 unfolding attempt_works_def by (intro on_member_ok) (simp_all add: member_ok_def set_state_def tc_SetState_def)
  then show ?case
    using 2 attempt_fails_ok [of p i] by (auto split: member_phase.splits)
next
  case (3 p i rtt)
  have "pool_ok (on_member i (\<lambda>m. m\<lparr>pm_counters := ObserveRTT rtt (pm_counters (po_members p ! i))\<rparr>) p)"
    if "i < length (po_members p)" "pm_phase (po_members p ! i) = Running"
    using 3 that by (intro on_member_ok) (auto simp: member_ok_def pool_ok_def list_all_length)
  then show ?case
    using 3 by (auto simp: buildRTTCallback_def pool_ok_def)
next
  case (4 p i rtt)
  then show ?case by (auto simp: pool_ok_def split: option.splits)
next
  case (5 p)
  then show ?case by (cases "po_fatal p") (auto simp: pool_ok_def)
qed

interpretation pool_members: invariant_step pool_step pool_ok "\<lambda>_. True"
  by unfold_locales (rule pool_step_ok)

lemma start_pool_ok: "pool_ok (start_pool n split now)"
  by (auto simp: pool_ok_def start_pool_def new_member_def member_ok_def tc_SetState_def list_all_iff list_ex_iff)

text \<open>
  C18: Whatever the members do and in whatever order: a member gives up only after ten failed
  attempts and 435 seconds of sleep since its connection died, it is shown as dead, and then the
  engine has been sent an error, even when several members give up at once and the channel is full.
\<close>

theorem dead_member_reported:
  assumes "p = foldl pool_step (start_pool n split now) es" "i < length (po_members p)" "pm_phase (po_members p ! i) = GivenUp"
  shows "pm_slept (po_members p ! i) = 435 \<and> tc_state (pm_counters (po_members p ! i)) = TunnelDead \<and> (po_fatal p \<noteq> [] \<or> po_taken p)"
proof -
  have "pool_ok p"
    unfolding assms(1) using start_pool_ok by (rule pool_members.run_inv) (simp add: list_all_iff)
  moreover have "slept_before maxReconnectAttempts = 435"
    by code_simp
  ultimately show ?thesis
    using assms(2,3) by (auto simp: pool_ok_def list_all_length list_ex_length member_ok_def)
qed

lemma dead_member_reported_witness:
  "let p = foldl pool_step (start_pool 2 False 0) (RunEnds 1 # replicate 10 (Attempt 1 False)) in
   pm_phase (po_members p ! 1) = GivenUp \<and> pm_slept (po_members p ! 1) = 435"
proof -
  let ?p = "foldl pool_step (start_pool 2 False 0) (RunEnds 1 # replicate 10 (Attempt 1 False))"
  have "1 < length (po_members ?p)" "pm_phase (po_members ?p ! 1) = GivenUp"
    by code_simp+
  with dead_member_reported [OF refl this] show ?thesis
    by (simp only: Let_def simp_thms)
qed

section \<open>Latency after a reconnect\<close>

definition no_primary :: "pool_state \<Rightarrow> bool" where
  "no_primary p \<longleftrightarrow> list_all (\<lambda>m. \<not> pm_rtt m \<and> \<not> pm_ctrl m) (po_members p)"

definition quiet :: "meters \<Rightarrow> pool_state \<Rightarrow> bool" where
  "quiet mt p \<longleftrightarrow> no_primary p \<and> po_meters p = mt"

lemma quiet_step: "quiet mt p \<Longrightarrow> quiet mt (pool_step p e)"
proof -
  assume q: "quiet mt p"
  have m: "i < length (po_members p) \<Longrightarrow> \<not> pm_rtt (po_members p ! i) \<and> \<not> pm_ctrl (po_members p ! i)" for i
    using q by (simp add: quiet_def no_primary_def list_all_length)
  show ?thesis
    using q m
    by (cases e)
      (auto simp: quiet_def no_primary_def run_ends_def attempt_works_def attempt_fails_def on_member_def set_state_def send_fatal_def Let_def
        buildRTTCallback_def buildCtrlRTTCallback_def split: member_phase.splits option.splits intro!: list_all_update)
qed

interpretation no_latency: invariant_step pool_step "quiet mt" "\<lambda>_. True" for mt
  by unfold_locales (rule quiet_step)

definition only_first_primary :: "pool_state \<Rightarrow> bool" where
  "only_first_primary p \<longleftrightarrow> (\<forall>i<length (po_members p). 0 < i \<longrightarrow> \<not> pm_rtt (po_members p ! i) \<and> \<not> pm_ctrl (po_members p ! i))"

lemma first_primary_step: "only_first_primary p \<Longrightarrow> only_first_primary (pool_step p e)"
  by (cases e)
    (auto simp: only_first_primary_def run_ends_def attempt_works_def attempt_fails_def on_member_def set_state_def send_fatal_def Let_def
      buildRTTCallback_def buildCtrlRTTCallback_def nth_list_update split: member_phase.splits option.splits)

interpretation first_primary: invariant_step pool_step only_first_primary "\<lambda>_. True"
  by unfold_locales (rule first_primary_step)

text \<open>
  The latency of the tunnel is measured on the connections of the first member, and once that one
  has reconnected it is never measured again: the connection that replaces it is treated as any other
  member's, so the totals, which drive the latency display and the high latency warning, stay
  as they were, whatever replies arrive.
\<close>

lemma latency_frozen:
  assumes "p = foldl pool_step (start_pool n split now) es" "0 < n" "pm_phase (po_members p ! 0) = Sleeping k"
  shows "po_meters (foldl pool_step p (Attempt 0 True # es')) = po_meters p"
proof -
  have len: "length (po_members (pool_step q e)) = length (po_members q)" for q e
    by (cases e) (auto simp: run_ends_def attempt_works_def attempt_fails_def on_member_def send_fatal_def Let_def buildRTTCallback_def
        split: member_phase.splits option.splits)
  have "length (po_members (foldl pool_step q es)) = length (po_members q)" for q
    by (induction es arbitrary: q) (simp_all add: len)
  then have n: "0 < length (po_members p)"
    using assms(1,2) by (simp add: start_pool_def)
  have "only_first_primary (start_pool n split now)"
    by (simp add: only_first_primary_def start_pool_def new_member_def)
  then have first: "only_first_primary p"
    unfolding assms(1) by (rule first_primary.run_inv) (simp add: list_all_iff)
  have "quiet (po_meters p) (pool_step p (Attempt 0 True))"
    using first n assms(3)
    by (auto simp: quiet_def no_primary_def list_all_length only_first_primary_def attempt_works_def on_member_def set_state_def nth_list_update)
  then have "quiet (po_meters p) (foldl pool_step (pool_step p (Attempt 0 True)) es')"
    by (rule no_latency.run_inv) (simp add: list_all_iff)
  then show ?thesis
    by (simp add: quiet_def)
qed

section \<open>Connections of a start that fails\<close>

text \<open>A dialer that always connects directly.\<close>

definition direct_dialer :: "dialer \<Rightarrow> bool" where
  "direct_dialer dial \<longleftrightarrow> (\<forall>cs. \<exists>addr ip. dial cs = (Inr (length cs, ip), cs @ [(addr, True)]))"

lemma direct_dialerE:
  assumes "direct_dialer dial"
  obtains addr ip where "dial cs = (Inr (length cs, ip), cs @ [(addr, True)])"
  using assms unfolding direct_dialer_def by blast

lemma dial_members_direct:
  assumes "direct_dialer dial"
  shows "\<exists>new. dial_members dial n got cs = (Inr (got @ [length cs..<length cs + n]), cs @ new) \<and> list_all snd new \<and> length new = n"
proof (induction n arbitrary: got cs)
  case (Suc n)
  obtain addr ip where d: "dial cs = (Inr (length cs, ip), cs @ [(addr, True)])"
    using assms by (rule direct_dialerE)
  obtain new where new: "dial_members dial n (got @ [length cs]) (cs @ [(addr, True)]) =
      (Inr ((got @ [length cs]) @ [Suc (length cs)..<Suc (length cs) + n]), (cs @ [(addr, True)]) @ new)" "list_all snd new" "length new = n"
    using Suc [of "got @ [length cs]" "cs @ [(addr, True)]"] by auto
  have "dial_members dial (Suc n) got cs = (Inr (got @ [length cs..<length cs + Suc n]), cs @ ((addr, True) # new))"
    using d new(1) by (simp add: upt_conv_Cons)
  with new(2,3) show ?case
    by (intro exI [of _ "(addr, True) # new"]) simp
qed simp

lemma close_range:
  "fold close_ssh [length cs..<length cs + length new] (cs @ new @ rest) = cs @ map (\<lambda>c. (fst c, False)) new @ rest"
proof (induction new arbitrary: rest rule: rev_induct)
  case (snoc x new)
  have "fold close_ssh [length cs..<length cs + length (new @ [x])] (cs @ (new @ [x]) @ rest) =
      close_ssh (length cs + length new) (fold close_ssh [length cs..<length cs + length new] (cs @ new @ (x # rest)))"
    by simp
  also have "\<dots> = close_ssh (length cs + length new) (cs @ map (\<lambda>c. (fst c, False)) new @ x # rest)"
    by (simp only: snoc)
  also have "\<dots> = cs @ map (\<lambda>c. (fst c, False)) new @ (fst x, False) # rest"
    by (simp add: close_ssh_def list_update_append nth_append)
  finally show ?case
    by simp
qed simp

definition split_ok :: "member_world \<Rightarrow> bool" where
  "split_ok w \<longleftrightarrow> mw_data w = None \<and> mw_ctrl w = None \<and> mw_sync_data w = None \<and> mw_sync_ctrl w = None"

lemma start_members_fail:
  assumes dial: "direct_dialer dial" and good: "list_all (\<lambda>m. split_ok (snd m)) ms" and bad: "mw_data w \<noteq> None"
  shows "\<exists>e ctrls. start_members True dial everyone (ms @ (c, w) # ms') got cs = (Inl e, fold close_ssh everyone (cs @ ctrls)) \<and>
    list_all snd ctrls \<and> length ctrls = length ms"
  using good
proof (induction ms arbitrary: got cs)
  case Nil
  then show ?case using bad by (auto simp: try_member_def trySplitMuxClient_def)
next
  case (Cons m ms)
  obtain d v where m: "m = (d, v)" by (cases m)
  obtain addr ip where a: "dial cs = (Inr (length cs, ip), cs @ [(addr, True)])"
    using dial by (rule direct_dialerE)
  obtain e ctrls where rec: "start_members True dial everyone (ms @ (c, w) # ms') (got @ [(d, Some (length cs))]) (cs @ [(addr, True)]) =
      (Inl e, fold close_ssh everyone ((cs @ [(addr, True)]) @ ctrls))" "list_all snd ctrls" "length ctrls = length ms"
    using Cons by fastforce
  have "start_members True dial everyone ((m # ms) @ (c, w) # ms') got cs =
      (Inl e, fold close_ssh everyone (cs @ ((addr, True) # ctrls)))"
    using rec(1) a Cons.prems m by (simp add: try_member_def trySplitMuxClient_def split_ok_def)
  with rec(2,3) show ?case
    by (intro exI [of _ e] exI [of _ "(addr, True) # ctrls"]) simp
qed

text \<open>
  When a split pool cannot be built because one member's session fails, the control connections
  of the members built before stay open: the error path closes the data connections of all members and
  nothing else, so a start that fails at member \<open>k\<close> leaves \<open>k\<close> connections behind.
\<close>

lemma failed_start_leaks:
  assumes dial: "direct_dialer (dialing hc)" and k: "k < n" and good: "\<And>i. i < k \<Longrightarrow> split_ok (worlds i)"
    and bad: "mw_data (worlds k) \<noteq> None"
  shows "\<exists>e cs'. connectBackend (Inr hc) dialing (Inr path) True n worlds cs = (Inl e, cs') \<and> open_count cs' = open_count cs + k"
proof -
  obtain addr ip where d: "dialing hc cs = (Inr (length cs, ip), cs @ [(addr, True)])"
    using dial by (rule direct_dialerE)
  obtain new where new: "dial_members (dialing hc) (n - 1) [length cs] (cs @ [(addr, True)]) =
      (Inr ([length cs] @ [Suc (length cs)..<Suc (length cs) + (n - 1)]), (cs @ [(addr, True)]) @ new)" "list_all snd new" "length new = n - 1"
    using dial_members_direct [OF dial, of "n - 1" "[length cs]" "cs @ [(addr, True)]"] by auto
  let ?data = "(addr, True) # new"
  let ?all = "[length cs..<length cs + n]"
  have range: "[length cs] @ [Suc (length cs)..<Suc (length cs) + (n - 1)] = ?all"
    using k by (simp add: upt_conv_Cons)
  let ?ms = "zip ?all (map worlds [0..<n])"
  have len: "length ?ms = n" by simp
  have nth: "?ms ! i = (length cs + i, worlds i)" if "i < n" for i
    using that by simp
  have split: "?ms = take k ?ms @ (length cs + k, worlds k) # drop (Suc k) ?ms"
    using id_take_nth_drop [of k ?ms] k nth [OF k] len by simp
  have "list_all (\<lambda>m. split_ok (snd m)) (take k ?ms)"
    using good k by (auto simp: list_all_length)
  from start_members_fail [OF dial this bad, of ?all "length cs + k" "drop (Suc k) ?ms" "[]" "cs @ ?data"]
  obtain e ctrls where sm: "start_members True (dialing hc) ?all ?ms [] (cs @ ?data) =
      (Inl e, fold close_ssh ?all ((cs @ ?data) @ ctrls))" "list_all snd ctrls" "length ctrls = k"
    using split k by auto
  have "fold close_ssh ?all ((cs @ ?data) @ ctrls) = cs @ map (\<lambda>c. (fst c, False)) ?data @ ctrls"
    using close_range [of cs ?data ctrls] new(3) k by simp
  moreover have "connectBackend (Inr hc) dialing (Inr path) True n worlds cs =
      start_members True (dialing hc) ?all ?ms [] (cs @ ?data)"
    using d new(1) range k by (simp add: connectBackend_def Let_def)
  ultimately show ?thesis
    using sm by (auto simp: open_count_def filter_id_conv list_all_iff)
qed

definition always_dials :: "host_config \<Rightarrow> dialer" where
  "always_dials hc cs = (Inr (length cs, None), cs @ [(hc_HostName hc, True)])"

definition fine_world :: member_world where
  "fine_world = \<lparr>mw_mux = None, mw_data = None, mw_ctrl = None, mw_sync_data = None, mw_sync_ctrl = None\<rparr>"

end
