(* ===== verification/TunnelConfig.thy ===== *)
theory TunnelConfig
  imports SshDial FwRules
begin

text \<open>
  From flags and profiles to the configuration of a tunnel: \<^verbatim>\<open>cmd/tunnel/cliconfig.go\<close>, \<^verbatim>\<open>tui_start.go\<close>,
  \<^verbatim>\<open>backend.go\<close> (the parts without a connection) and \<^verbatim>\<open>internal/profile/autolan.go\<close>. The flags are parsed by
  Go's \<^verbatim>\<open>flag\<close> package: what it yields is the record of their values with the names of those that were
  given. The JSON of \<^verbatim>\<open>--jump\<close> and \<^verbatim>\<open>--fectun\<close> is the value its decoder returns.
\<close>

section \<open>Profiles\<close>

record tunnel_profile = imported_profile +
  tn_AutoNets :: bool
  tn_DnsTarget :: string
  tn_DisableIPv6 :: bool
  tn_EnableUDP :: bool
  tn_SplitConn :: bool
  tn_TcpBalance :: string
  tn_Fectun :: "fectun_config option"

definition BlockUDPOrDefault :: "tunnel_profile \<Rightarrow> bool" where
  "BlockUDPOrDefault p = (case pf_BlockUDP p of None \<Rightarrow> True | Some b \<Rightarrow> b)"

definition AutoExcludeLANOrDefault :: "tunnel_profile \<Rightarrow> bool" where
  "AutoExcludeLANOrDefault p = (case pf_AutoExcludeLAN p of None \<Rightarrow> True | Some b \<Rightarrow> b)"

text \<open>The interfaces of the host: up or not, and their addresses, None when they cannot be read.\<close>

type_synonym interfaces = "(bool \<times> nat list list option) list"

definition lan_cidr :: "nat list \<Rightarrow> string option" where
  "lan_cidr ip =
     (case To4 ip of
        None \<Rightarrow> None
      | Some v4 \<Rightarrow>
          if v4 ! 0 = 127 \<or> v4 ! 0 = 169 \<and> v4 ! 1 = 254 then None
          else Some (itoa (int (v4 ! 0)) @ ''.'' @ itoa (int (v4 ! 1)) @ ''.0.0/16''))"

definition add_cidr :: "string list \<Rightarrow> nat list \<Rightarrow> string list" where
  "add_cidr cs ip = (case lan_cidr ip of None \<Rightarrow> cs | Some c \<Rightarrow> if c \<in> set cs then cs else cs @ [c])"

definition AutoExcludeLANCIDRs :: "interfaces option \<Rightarrow> string list" where
  "AutoExcludeLANCIDRs ifs =
     (case ifs of
        None \<Rightarrow> []
      | Some is \<Rightarrow> foldl add_cidr [] (concat (map (\<lambda>i. if fst i then (case snd i of None \<Rightarrow> [] | Some as \<Rightarrow> as) else []) is)))"

section \<open>The backend of a profile\<close>

record backend_config =
  bk_profileID :: string
  bk_remote :: string
  bk_identityFile :: string
  bk_identityPEM :: string
  bk_extraSSHOpts :: string
  bk_jumpHosts :: "jump_spec list"
  bk_poolSize :: int
  bk_splitConn :: bool
  bk_tcpBalance :: string
  bk_fectun :: "fectun_config option"
  bk_extraExcludes :: "string list"

definition nil_list :: "'a list option \<Rightarrow> 'a list" where
  "nil_list x = (case x of None \<Rightarrow> [] | Some xs \<Rightarrow> xs)"

definition profile_jump :: "jump_host \<Rightarrow> jump_spec" where
  "profile_jump jh =
     \<lparr>js_Remote = jh_Remote jh, js_IdentityFile = (if jh_IdentityKey jh \<noteq> [] then [] else jh_IdentityFile jh),
      js_IdentityPEM = jh_IdentityKey jh\<rparr>"

definition profile_excludes :: "interfaces option \<Rightarrow> tunnel_profile \<Rightarrow> string list" where
  "profile_excludes ifs p =
     (if AutoExcludeLANOrDefault p then AutoExcludeLANCIDRs ifs else []) @ nil_list (pf_ExcludeSubnets p)"

definition backendCfgFromProfile :: "interfaces option \<Rightarrow> tunnel_profile \<Rightarrow> backend_config" where
  "backendCfgFromProfile ifs p =
     \<lparr>bk_profileID = pf_ID p, bk_remote = pf_Remote p,
      bk_identityFile = (if pf_IdentityKey p \<noteq> [] then [] else pf_IdentityFile p), bk_identityPEM = pf_IdentityKey p,
      bk_extraSSHOpts = pi_ExtraSSHOpts p, bk_jumpHosts = map profile_jump (pf_JumpHosts p),
      bk_poolSize = (if pf_PoolSize p \<le> 0 then 4 else pf_PoolSize p), bk_splitConn = tn_SplitConn p,
      bk_tcpBalance = (if tn_TcpBalance p = [] then ''least-loaded'' else tn_TcpBalance p), bk_fectun = tn_Fectun p,
      bk_extraExcludes = profile_excludes ifs p\<rparr>"

section \<open>Names that need a resolver\<close>

definition sshHostPart :: "string \<Rightarrow> string" where
  "sshHostPart remote =
     (let r = (case last_index_char (CHR ''@'') remote of None \<Rightarrow> remote | Some i \<Rightarrow> drop (i + 1) remote) in
      if length (filter (\<lambda>c. c = CHR '':'') r) = 1
      then (case last_index_char (CHR '':'') r of None \<Rightarrow> r | Some i \<Rightarrow> take i r) else r)"

definition reconnectNeedsDNS :: "string \<Rightarrow> string \<Rightarrow> string list \<Rightarrow> bool" where
  "reconnectNeedsDNS hostName proxyJump jumps \<longleftrightarrow>
     ParseIP hostName = None \<or> proxyJump \<noteq> [] \<and> ParseIP (sshHostPart proxyJump) = None \<or>
     list_ex (\<lambda>j. ParseIP (sshHostPart j) = None) jumps"

section \<open>The configuration of the engine\<close>

record engine_config =
  ec_Backend :: backend_config
  ec_SubnetStrings :: "string list"
  ec_FirewallMethod :: string
  ec_AutoNets :: bool
  ec_DNSEnabled :: bool
  ec_DNSTarget :: string
  ec_UDPProxy :: bool
  ec_NoIPv6 :: bool
  ec_NoIPv6Lockdown :: bool
  ec_NoBlockUDP :: bool
  ec_ExcludeNets :: "string list"
  ec_TProxyMark :: int
  ec_TProxyTable :: int
  ec_Verbose :: bool
  ec_LANSocks5 :: string
  ec_LANHTTP :: string

definition lan_port :: "u16 option \<Rightarrow> string" where
  "lan_port p = (case p of None \<Rightarrow> [] | Some n \<Rightarrow> if n > 0 then itoa (uint n) else [])"

definition engineConfigForSpec ::
    "interfaces option \<Rightarrow> tunnel_profile \<Rightarrow> u16 option \<Rightarrow> u16 option \<Rightarrow> bool \<Rightarrow> error + engine_config" where
  "engineConfigForSpec ifs p socks http verbose =
     (let backend = backendCfgFromProfile ifs p;
          subnets = filter (\<lambda>s. s \<noteq> []) (map trim_space (nil_list (pf_Subnets p)));
          method = trim_space (pf_Method p) in
      if trim_space (bk_remote backend) = [] then Inl (Msg ''profile has no remote'')
      else Inr \<lparr>ec_Backend = backend, ec_SubnetStrings = (if subnets = [] then [''0.0.0.0/0''] else subnets),
                ec_FirewallMethod = (if method = [] then ''auto'' else method), ec_AutoNets = tn_AutoNets p,
                ec_DNSEnabled = (pf_Dns p \<noteq> ''off''), ec_DNSTarget = trim_space (tn_DnsTarget p), ec_UDPProxy = tn_EnableUDP p,
                ec_NoIPv6 = tn_DisableIPv6 p, ec_NoIPv6Lockdown = False, ec_NoBlockUDP = (\<not> BlockUDPOrDefault p), ec_ExcludeNets = [],
                ec_TProxyMark = 1, ec_TProxyTable = 100, ec_Verbose = verbose, ec_LANSocks5 = lan_port socks, ec_LANHTTP = lan_port http\<rparr>)"

section \<open>The command line\<close>

record cli_flags =
  cf_remote :: string
  cf_identity :: string
  cf_autoNets :: bool
  cf_dns :: bool
  cf_dnsTarget :: string
  cf_method :: string
  cf_noIPv6 :: bool
  cf_noIPv6Lockdown :: bool
  cf_noBlockUDP :: bool
  cf_udpProxy :: bool
  cf_tproxyMark :: int
  cf_tproxyTable :: int
  cf_verbose :: bool
  cf_extraSSHOpts :: string
  cf_jump :: "(error + jump_spec list) option"
  cf_exclude :: string
  cf_pool :: int
  cf_split :: bool
  cf_lanSocks5 :: string
  cf_lanHTTP :: string
  cf_tcpBalance :: string
  cf_fectun :: "(error + fectun_config) option"
  cf_subnets :: "string list"

definition default_flags :: cli_flags where
  "default_flags =
     \<lparr>cf_remote = [], cf_identity = [], cf_autoNets = False, cf_dns = False, cf_dnsTarget = [], cf_method = ''auto'', cf_noIPv6 = False,
      cf_noIPv6Lockdown = False, cf_noBlockUDP = False, cf_udpProxy = False, cf_tproxyMark = 1, cf_tproxyTable = 100, cf_verbose = False,
      cf_extraSSHOpts = [], cf_jump = None, cf_exclude = [], cf_pool = 1, cf_split = False, cf_lanSocks5 = [], cf_lanHTTP = [],
      cf_tcpBalance = ''least-loaded'', cf_fectun = None, cf_subnets = []\<rparr>"

definition applyStrDefault :: "string list \<Rightarrow> string \<Rightarrow> string \<Rightarrow> string \<Rightarrow> string" where
  "applyStrDefault given name src dst = (if name \<notin> set given \<and> src \<noteq> [] then src else dst)"

definition applyBoolDefault :: "string list \<Rightarrow> string \<Rightarrow> bool \<Rightarrow> bool \<Rightarrow> bool" where
  "applyBoolDefault given name src dst = (if name \<notin> set given then src else dst)"

text \<open>The jump hosts of a profile as \<^verbatim>\<open>--jump\<close> would give them: the inline keys are not part of it.\<close>

definition cli_jump :: "jump_host \<Rightarrow> jump_spec" where
  "cli_jump jh =
     \<lparr>js_Remote = jh_Remote jh, js_IdentityFile = (if jh_IdentityKey jh = [] then jh_IdentityFile jh else []), js_IdentityPEM = []\<rparr>"

definition apply_profile :: "string list \<Rightarrow> tunnel_profile \<Rightarrow> cli_flags \<Rightarrow> cli_flags" where
  "apply_profile given p f =
     f\<lparr>cf_remote := applyStrDefault given ''remote'' (pf_Remote p) (cf_remote f),
       cf_identity := (if pf_IdentityKey p = [] then applyStrDefault given ''identity'' (pf_IdentityFile p) (cf_identity f) else cf_identity f),
       cf_method := applyStrDefault given ''method'' (pf_Method p) (cf_method f),
       cf_dnsTarget := applyStrDefault given ''dns-target'' (tn_DnsTarget p) (cf_dnsTarget f),
       cf_extraSSHOpts := applyStrDefault given ''extra-ssh-opts'' (pi_ExtraSSHOpts p) (cf_extraSSHOpts f),
       cf_tcpBalance := applyStrDefault given ''tcp-balance'' (tn_TcpBalance p) (cf_tcpBalance f),
       cf_autoNets := applyBoolDefault given ''auto-nets'' (tn_AutoNets p) (cf_autoNets f),
       cf_noIPv6 := applyBoolDefault given ''no-ipv6'' (tn_DisableIPv6 p) (cf_noIPv6 f),
       cf_udpProxy := applyBoolDefault given ''udp'' (tn_EnableUDP p) (cf_udpProxy f),
       cf_noBlockUDP := applyBoolDefault given ''no-block-udp'' (\<not> BlockUDPOrDefault p) (cf_noBlockUDP f),
       cf_split := applyBoolDefault given ''split'' (tn_SplitConn p) (cf_split f),
       cf_pool := (if ''pool'' \<notin> set given then (if pf_PoolSize p \<le> 0 then 4 else pf_PoolSize p) else cf_pool f),
       cf_dns := (if ''dns'' \<notin> set given \<and> pf_Dns p \<noteq> [] then pf_Dns p \<noteq> ''off'' else cf_dns f),
       cf_subnets := (if cf_subnets f = [] \<and> nil_list (pf_Subnets p) \<noteq> [] then nil_list (pf_Subnets p) else cf_subnets f),
       cf_fectun := (if ''fectun'' \<notin> set given \<and> Enabled (tn_Fectun p) then Some (Inr ((the (tn_Fectun p))\<lparr>fc_Key := []\<rparr>)) else cf_fectun f),
       cf_jump := (if ''jump'' \<notin> set given \<and> cf_jump f = None \<and> pf_JumpHosts p \<noteq> [] then Some (Inr (map cli_jump (pf_JumpHosts p))) else cf_jump f)\<rparr>"

record cli_env =
  ce_pem :: string
  ce_jumpKey :: "nat \<Rightarrow> string"
  ce_root :: bool
  ce_ifaces :: "interfaces option"

definition env_jumps :: "cli_env \<Rightarrow> jump_spec list \<Rightarrow> jump_spec list" where
  "env_jumps e js = map (\<lambda>(i, j). if ce_jumpKey e i \<noteq> [] then j\<lparr>js_IdentityPEM := ce_jumpKey e i\<rparr> else j) (enumerate 0 js)"

definition key_jumps :: "tunnel_profile option \<Rightarrow> jump_spec list \<Rightarrow> jump_spec list" where
  "key_jumps p js =
     (case p of
        None \<Rightarrow> js
      | Some p \<Rightarrow>
          if length js = length (pf_JumpHosts p)
          then map2 (\<lambda>j jh. if js_IdentityPEM j = [] \<and> jh_IdentityKey jh \<noteq> [] then j\<lparr>js_IdentityPEM := jh_IdentityKey jh\<rparr> else j) js (pf_JumpHosts p)
          else js)"

definition exclude_list :: "string \<Rightarrow> string list" where
  "exclude_list s = (if s = [] then [] else filter (\<lambda>c. c \<noteq> []) (map trim_space (split_on (CHR '','') s)))"

definition cli_pem :: "cli_env \<Rightarrow> tunnel_profile option \<Rightarrow> string" where
  "cli_pem e p = (if ce_pem e = [] then (case p of None \<Rightarrow> [] | Some p \<Rightarrow> pf_IdentityKey p) else ce_pem e)"

text \<open>
  \<^verbatim>\<open>parseAndBuildConfig\<close> after the flags that only print something: \<open>given\<close> are the names of the flags on
  the command line, \<open>pr\<close> the loaded profile. An error ends the program.
\<close>

definition parseAndBuildConfig :: "cli_env \<Rightarrow> string list \<Rightarrow> cli_flags \<Rightarrow> tunnel_profile option \<Rightarrow> error + engine_config" where
  "parseAndBuildConfig e given f0 pr =
     (let f = (case pr of None \<Rightarrow> f0 | Some p \<Rightarrow> apply_profile given p f0) in
      if cf_remote f = [] then Inl (Msg ''--remote is required'')
      else
        (case (case cf_jump f of None \<Rightarrow> Inr [] | Some j \<Rightarrow> j) of
           Inl err \<Rightarrow> Inl (Wrapped ''--jump JSON'' err)
         | Inr js \<Rightarrow>
             (case (case cf_fectun f of None \<Rightarrow> Inr None | Some x \<Rightarrow> map_sum id Some x) of
                Inl err \<Rightarrow> Inl (Wrapped ''--fectun JSON'' err)
              | Inr fct \<Rightarrow>
                  if cf_method f \<noteq> ''socks5'' \<and> \<not> ce_root e then Inl (Msg ''requires root'')
                  else Inr
                    \<lparr>ec_Backend =
                       \<lparr>bk_profileID = (case pr of None \<Rightarrow> [] | Some p \<Rightarrow> pf_ID p), bk_remote = cf_remote f, bk_identityFile = cf_identity f,
                        bk_identityPEM = cli_pem e pr, bk_extraSSHOpts = cf_extraSSHOpts f,
                        bk_jumpHosts = key_jumps pr (env_jumps e js), bk_poolSize = cf_pool f, bk_splitConn = cf_split f,
                        bk_tcpBalance = cf_tcpBalance f, bk_fectun = fct,
                        bk_extraExcludes = (case pr of None \<Rightarrow> [] | Some p \<Rightarrow> profile_excludes (ce_ifaces e) p)\<rparr>,
                     ec_SubnetStrings = cf_subnets f, ec_FirewallMethod = cf_method f, ec_AutoNets = cf_autoNets f, ec_DNSEnabled = cf_dns f,
                     ec_DNSTarget = cf_dnsTarget f, ec_UDPProxy = cf_udpProxy f, ec_NoIPv6 = cf_noIPv6 f,
                     ec_NoIPv6Lockdown = cf_noIPv6Lockdown f, ec_NoBlockUDP = cf_noBlockUDP f, ec_ExcludeNets = exclude_list (cf_exclude f),
                     ec_TProxyMark = cf_tproxyMark f, ec_TProxyTable = cf_tproxyTable f, ec_Verbose = cf_verbose f,
                     ec_LANSocks5 = trim_space (cf_lanSocks5 f), ec_LANHTTP = trim_space (cf_lanHTTP f)\<rparr>)))"

section \<open>Flags and profile\<close>

lemma build_with_profile:
  assumes "parseAndBuildConfig e given f (Some p) = Inr c"
  defines "g \<equiv> apply_profile given p f"
  shows "bk_remote (ec_Backend c) = cf_remote g" "bk_identityFile (ec_Backend c) = cf_identity g" "ec_FirewallMethod c = cf_method g"
    "ec_DNSTarget c = cf_dnsTarget g" "bk_extraSSHOpts (ec_Backend c) = cf_extraSSHOpts g" "bk_tcpBalance (ec_Backend c) = cf_tcpBalance g"
    "ec_AutoNets c = cf_autoNets g" "ec_NoIPv6 c = cf_noIPv6 g" "ec_UDPProxy c = cf_udpProxy g" "ec_NoBlockUDP c = cf_noBlockUDP g"
    "bk_splitConn (ec_Backend c) = cf_split g" "bk_poolSize (ec_Backend c) = cf_pool g" "ec_DNSEnabled c = cf_dns g"
    "ec_SubnetStrings c = cf_subnets g" "bk_fectun (ec_Backend c) = (case cf_fectun g of Some (Inr x) \<Rightarrow> Some x | _ \<Rightarrow> None)"
    "bk_jumpHosts (ec_Backend c) = key_jumps (Some p) (env_jumps e (case cf_jump g of Some (Inr js) \<Rightarrow> js | _ \<Rightarrow> []))"
    "bk_identityPEM (ec_Backend c) = cli_pem e (Some p)"
  using assms(1) unfolding g_def
  by (auto simp: parseAndBuildConfig_def Let_def split: if_splits sum.splits option.splits)

text \<open>
  With a profile loaded, every flag given on the command line has the value given there in the
  configuration that results, and positional subnets replace those of the profile.
\<close>

lemma explicit_flags_win:
  assumes "parseAndBuildConfig e given f (Some p) = Inr c"
  shows "(''remote'' \<in> set given \<longrightarrow> bk_remote (ec_Backend c) = cf_remote f) \<and>
    (''identity'' \<in> set given \<longrightarrow> bk_identityFile (ec_Backend c) = cf_identity f) \<and>
    (''method'' \<in> set given \<longrightarrow> ec_FirewallMethod c = cf_method f) \<and>
    (''dns-target'' \<in> set given \<longrightarrow> ec_DNSTarget c = cf_dnsTarget f) \<and>
    (''extra-ssh-opts'' \<in> set given \<longrightarrow> bk_extraSSHOpts (ec_Backend c) = cf_extraSSHOpts f) \<and>
    (''tcp-balance'' \<in> set given \<longrightarrow> bk_tcpBalance (ec_Backend c) = cf_tcpBalance f) \<and>
    (''auto-nets'' \<in> set given \<longrightarrow> ec_AutoNets c = cf_autoNets f) \<and>
    (''no-ipv6'' \<in> set given \<longrightarrow> ec_NoIPv6 c = cf_noIPv6 f) \<and>
    (''udp'' \<in> set given \<longrightarrow> ec_UDPProxy c = cf_udpProxy f) \<and>
    (''no-block-udp'' \<in> set given \<longrightarrow> ec_NoBlockUDP c = cf_noBlockUDP f) \<and>
    (''split'' \<in> set given \<longrightarrow> bk_splitConn (ec_Backend c) = cf_split f) \<and>
    (''pool'' \<in> set given \<longrightarrow> bk_poolSize (ec_Backend c) = cf_pool f) \<and>
    (''dns'' \<in> set given \<longrightarrow> ec_DNSEnabled c = cf_dns f) \<and>
    (cf_subnets f \<noteq> [] \<longrightarrow> ec_SubnetStrings c = cf_subnets f)"
  unfolding build_with_profile [OF assms] by (simp add: apply_profile_def applyStrDefault_def applyBoolDefault_def)

definition example_profile :: tunnel_profile where
  "example_profile =
     \<lparr>pf_ID = ''p1'', pf_Name = ''n'', pf_Remote = ''u@h'', pf_IdentityFile = [], pf_IdentityKey = ''key'',
      pf_JumpHosts = [\<lparr>jh_Remote = ''old'', jh_IdentityFile = [], jh_IdentityKey = ''jumpkey''\<rparr>], pf_Subnets = Some [''10.0.0.0/8''],
      pf_Dns = ''all'', pf_ExcludeSubnets = None, pf_Method = ''nft'', pf_BlockUDP = None, pf_AutoExcludeLAN = None, pf_PoolSize = 0,
      pf_LatencyBufferSize = None, pf_Imported = False, pi_ExtraSSHOpts = [], tn_AutoNets = False, tn_DnsTarget = [], tn_DisableIPv6 = False,
      tn_EnableUDP = False, tn_SplitConn = False, tn_TcpBalance = [], tn_Fectun = None\<rparr>"

definition example_env :: cli_env where
  "example_env = \<lparr>ce_pem = [], ce_jumpKey = (\<lambda>_. []), ce_root = True, ce_ifaces = None\<rparr>"



text \<open>
  The jump hosts of \<^verbatim>\<open>--jump\<close> win over those of the profile, yet if there are as many of them, each
  gets the inline key of the profile's host at its position: the key is offered to another host,
  and an identity file given for it is not used.
\<close>

lemma explicit_jump_gets_old_key:
  assumes "parseAndBuildConfig e given f (Some p) = Inr c" "''jump'' \<in> set given" "cf_jump f = Some (Inr js)"
    and "length js = length (pf_JumpHosts p)" "i < length js" "js_IdentityPEM (js ! i) = []" "ce_jumpKey e i = []"
    and "jh_IdentityKey (pf_JumpHosts p ! i) \<noteq> []"
  shows "js_Remote (bk_jumpHosts (ec_Backend c) ! i) = js_Remote (js ! i) \<and>
    jump_auth (bk_jumpHosts (ec_Backend c) ! i) ac = ac\<lparr>ac_IdentityPEM := jh_IdentityKey (pf_JumpHosts p ! i)\<rparr>"
proof -
  have "cf_jump (apply_profile given p f) = Some (Inr js)"
    using assms(2,3) by (simp add: apply_profile_def)
  then have b: "bk_jumpHosts (ec_Backend c) = key_jumps (Some p) (env_jumps e js)"
    using build_with_profile(16) [OF assms(1)] by simp
  have len: "length (env_jumps e js) = length js"
    by (simp add: env_jumps_def)
  have ith: "env_jumps e js ! i = js ! i"
    using assms(5,7) by (simp add: env_jumps_def nth_enumerate_eq)
  have "key_jumps (Some p) (env_jumps e js) ! i = (js ! i)\<lparr>js_IdentityPEM := jh_IdentityKey (pf_JumpHosts p ! i)\<rparr>"
    using assms(4-6,8) len ith by (simp add: key_jumps_def)
  then show ?thesis
    using assms(8) by (simp add: b jump_auth_def)
qed

text \<open>A profile without a DNS mode intercepts DNS from the terminal interface and not from the command line.\<close>

lemma missing_dns_mode:
  assumes "pf_Dns p = []" "parseAndBuildConfig e [] default_flags (Some p) = Inr c" "engineConfigForSpec ifs p None None False = Inr c'"
  shows "\<not> ec_DNSEnabled c \<and> ec_DNSEnabled c'"
  using assms build_with_profile(13) [OF assms(2)]
  by (auto simp: apply_profile_def default_flags_def engineConfigForSpec_def Let_def split: if_splits)

text \<open>The host of a target text: the user is cut off, a port if the text has one colon, and an IPv6
  address stays whole.\<close>

lemma host_part_v4: "CHR '':'' \<notin> set h \<Longrightarrow> CHR ''@'' \<notin> set h \<Longrightarrow> sshHostPart (u @ CHR ''@'' # h @ CHR '':'' # itoa n) = h"
proof -
  assume h: "CHR '':'' \<notin> set h" "CHR ''@'' \<notin> set h"
  have no: "CHR ''@'' \<notin> set (h @ CHR '':'' # itoa n)" "CHR '':'' \<notin> set (itoa n)"
    using h itoa_no_char [of "CHR ''@''"] itoa_no_char [of "CHR '':''"] by (auto simp: is_digit_def)
  have none: "CHR '':'' \<notin> set t \<Longrightarrow> filter (\<lambda>c. c = CHR '':'') t = []" for t
    by (induction t) auto
  have "filter (\<lambda>c. c = CHR '':'') (h @ CHR '':'' # itoa n) = [CHR '':'']"
    using none [OF h(1)] none [OF no(2)] by simp
  then show ?thesis
    using last_index_char_append [OF no(1), of u] last_index_char_append [OF no(2), of h]
    by (simp add: sshHostPart_def Let_def)
qed


end
