(* ===== verification/FwCommands.thy ===== *)
theory FwCommands
  imports FwPolicy
begin

text \<open>
  Setting up and removing the rules on Linux, as the commands that are run (\<^verbatim>\<open>Setup\<close>, \<^verbatim>\<open>Restore\<close> and
  \<^verbatim>\<open>DisableDNS\<close> of \<^verbatim>\<open>internal/firewall/nft.go\<close> and \<^verbatim>\<open>tproxy.go\<close>). What a command does to the kernel and
  whether it succeeds is a parameter \<open>exec\<close>; the input of \<^verbatim>\<open>nft -f /dev/stdin\<close> is written behind its
  arguments.
\<close>

section \<open>Running commands\<close>

type_synonym 'k exec = "string list \<Rightarrow> 'k \<Rightarrow> bool \<times> 'k"

fun run_all :: "'k exec \<Rightarrow> command list \<Rightarrow> 'k \<Rightarrow> bool \<times> 'k" where
  "run_all exec [] k = (True, k)"
| "run_all exec (Try c # cs) k = run_all exec cs (snd (exec c k))"
| "run_all exec (Must c # cs) k = (case exec c k of (True, k1) \<Rightarrow> run_all exec cs k1 | (False, k1) \<Rightarrow> (False, k1))"

definition try_all :: "'k exec \<Rightarrow> string list list \<Rightarrow> 'k \<Rightarrow> 'k" where
  "try_all exec cs = fold (\<lambda>c k. snd (exec c k)) cs"

lemma run_all_append: "run_all exec (cs @ ds) k = (case run_all exec cs k of (True, k1) \<Rightarrow> run_all exec ds k1 | (False, k1) \<Rightarrow> (False, k1))"
  by (induction exec cs k rule: run_all.induct) (auto split: prod.split bool.split)

lemma run_all_try: "run_all exec (map Try cs) k = (True, try_all exec cs k)"
  by (induction cs arbitrary: k) (auto simp: try_all_def)

text \<open>When success depends on the command only, the commands that are run are those of \<open>run_commands\<close>.\<close>

definition logging :: "(string list \<Rightarrow> bool) \<Rightarrow> string list list exec" where
  "logging ok c log = (ok c, log @ [c])"

lemma run_all_logging: "run_all (logging ok) cs log = (case run_commands ok cs of (r, xs) \<Rightarrow> (r, log @ xs))"
  by (induction ok cs arbitrary: log rule: run_commands.induct) (auto simp: logging_def split: prod.split)

section \<open>The methods on Linux\<close>

datatype linux_fw = Nft | Ipt | Tproxy bool

fun method_kind :: "linux_fw \<Rightarrow> fw_method" where
  "method_kind Nft = MNft" | "method_kind Ipt = MIpt" | "method_kind (Tproxy _) = MTproxy"

fun method_name :: "linux_fw \<Rightarrow> string" where
  "method_name Nft = ''nft''" | "method_name Ipt = ''iptables''" | "method_name (Tproxy _) = ''tproxy''"

definition newDefault :: "bool \<Rightarrow> linux_fw" where
  "newDefault hasNft = (if hasNft then Nft else Ipt)"

definition newNamed :: "bool \<Rightarrow> string \<Rightarrow> error + linux_fw" where
  "newNamed hasNft name =
     (case newNamed_linux name of
        Some MNft \<Rightarrow> Inr Nft
      | Some MIpt \<Rightarrow> Inr Ipt
      | Some MTproxy \<Rightarrow> Inr (Tproxy hasNft)
      | _ \<Rightarrow> Inl (Msg ''firewall method not supported on Linux''))"

definition drop_tables :: "command list" where
  "drop_tables = [Try [''nft'', ''delete'', ''table'', ''inet'', ''netferry''], Try [''nft'', ''delete'', ''table'', ''ip'', ''netferry'']]"

definition nft_load :: "string \<Rightarrow> command list" where
  "nft_load script = drop_tables @ [Must [''nft'', ''-f'', ''/dev/stdin'', script]]"

definition ip_rule :: "string list \<Rightarrow> string \<Rightarrow> string \<Rightarrow> string \<Rightarrow> string list" where
  "ip_rule v6 verb mark tbl = [''ip''] @ v6 @ [''rule'', verb, ''fwmark'', mark, ''lookup'', tbl]"

definition ip_route :: "string list \<Rightarrow> string \<Rightarrow> string \<Rightarrow> string \<Rightarrow> string list" where
  "ip_route v6 verb net tbl = [''ip''] @ v6 @ [''route'', verb, ''local'', net, ''dev'', ''lo'', ''table'', tbl]"

definition route_up :: "'k exec \<Rightarrow> string list \<Rightarrow> string \<Rightarrow> string \<Rightarrow> string \<Rightarrow> 'k \<Rightarrow> bool \<times> 'k" where
  "route_up exec v6 net mark tbl k =
     (case exec (ip_rule v6 ''add'' mark tbl) k of
        (False, k1) \<Rightarrow> (False, k1)
      | (True, k1) \<Rightarrow>
          (case exec (ip_route v6 ''add'' net tbl) k1 of
             (True, k2) \<Rightarrow> (True, k2)
           | (False, k2) \<Rightarrow> (False, snd (exec (ip_rule v6 ''del'' mark tbl) k2))))"

definition routes_up :: "'k exec \<Rightarrow> tproxy_config \<Rightarrow> setup_args \<Rightarrow> 'k \<Rightarrow> bool \<times> 'k" where
  "routes_up exec cfg a k =
     (let mark = itoa (tp_FWMark cfg); tbl = itoa (tp_RouteTable cfg) in
      case route_up exec [] ''0.0.0.0/0'' mark tbl k of
        (False, k1) \<Rightarrow> (False, k1)
      | (True, k1) \<Rightarrow> if v6Subnets a = [] then (True, k1) else route_up exec [''-6''] ''::/0'' mark tbl k1)"

fun fw_Setup :: "'k exec \<Rightarrow> linux_fw \<Rightarrow> tproxy_config \<Rightarrow> bool \<Rightarrow> setup_args \<Rightarrow> 'k \<Rightarrow> bool \<times> 'k" where
  "fw_Setup exec Nft cfg blk a k = run_all exec (nft_load (nft_buildNftRules blk a)) k"
| "fw_Setup exec Ipt cfg blk a k = run_all exec (ipt_Setup blk a) k"
| "fw_Setup exec (Tproxy useNft) cfg blk a k =
     (case routes_up exec cfg a k of
        (False, k1) \<Rightarrow> (False, k1)
      | (True, k1) \<Rightarrow> run_all exec (if useNft then nft_load (tproxy_buildNftRules cfg blk a) else setupIpt cfg blk a) k1)"

fun restore_commands :: "linux_fw \<Rightarrow> tproxy_config \<Rightarrow> string list list" where
  "restore_commands Nft cfg = [[''nft'', ''delete'', ''table'', ''inet'', ''netferry'']]"
| "restore_commands Ipt cfg = ipt_Restore"
| "restore_commands (Tproxy useNft) cfg = tproxy_Restore useNft cfg"

definition fw_Restore :: "'k exec \<Rightarrow> linux_fw \<Rightarrow> tproxy_config \<Rightarrow> 'k \<Rightarrow> 'k" where
  "fw_Restore exec m cfg = try_all exec (restore_commands m cfg)"

fun fw_DisableDNS :: "'k exec \<Rightarrow> linux_fw \<Rightarrow> tproxy_config \<Rightarrow> bool \<Rightarrow> setup_args \<Rightarrow> 'k \<Rightarrow> bool \<times> 'k" where
  "fw_DisableDNS exec Nft cfg blk a k = fw_Setup exec Nft cfg blk (without_dns a) k"
| "fw_DisableDNS exec m cfg blk a k = fw_Setup exec m cfg blk (without_dns a) (fw_Restore exec m cfg k)"

definition CleanStaleAnchors :: "'k exec \<Rightarrow> 'k \<Rightarrow> 'k" where
  "CleanStaleAnchors exec = try_all exec CleanStaleAnchors_linux"

definition FlushDNSCache :: "'k exec \<Rightarrow> 'k \<Rightarrow> 'k" where
  "FlushDNSCache exec k =
     (case exec [''resolvectl'', ''flush-caches''] k of
        (True, k1) \<Rightarrow> k1
      | (False, k1) \<Rightarrow> snd (exec [''nscd'', ''-i'', ''hosts''] k1))"

definition FlushExistingConnections :: "'k exec \<Rightarrow> subnet_rule list \<Rightarrow> 'k \<Rightarrow> 'k" where
  "FlushExistingConnections exec subnets = try_all exec (map (\<lambda>s. [''conntrack'', ''-D'', ''-d'', sn_CIDR s]) subnets)"

section \<open>What survives a clean-up\<close>

definition remains :: "'k exec \<Rightarrow> ('k \<Rightarrow> bool) \<Rightarrow> string list \<Rightarrow> bool" where
  "remains exec P c \<longleftrightarrow> (\<forall>k. P k \<longrightarrow> P (snd (exec c k)))"

lemma remains_try_all: "list_all (remains exec P) cs \<Longrightarrow> P k \<Longrightarrow> P (try_all exec cs k)"
  by (induction cs arbitrary: k) (auto simp: try_all_def remains_def)

lemma itoa_eq: "int64_min \<le> m \<Longrightarrow> m \<le> int64_max \<Longrightarrow> int64_min \<le> n \<Longrightarrow> n \<le> int64_max \<Longrightarrow> itoa m = itoa n \<Longrightarrow> m = n"
  by (metis atoi_itoa option.inject)

lemma itoa_100: "itoa 100 = ''100''"
  by code_simp

lemma itoa_not_100:
  assumes "t \<noteq> 100" "int64_min \<le> t" "t \<le> int64_max"
  shows "itoa t \<noteq> ''100''"
  using assms itoa_eq [of t 100] by (auto simp: itoa_100 [symmetric] int64_min_def int64_max_def)

lemma clean_keeps_table:
  assumes "itoa t \<noteq> ''100''"
  shows "list_all (\<lambda>c. c \<noteq> ip_route [] ''del'' ''0.0.0.0/0'' (itoa t)) CleanStaleAnchors_linux"
  using assms by (simp add: CleanStaleAnchors_linux_def ipt_Restore_def drop_chain_def drop_block_def ip_route_def)


text \<open>A kernel that only has routes, each at most once.\<close>

definition route_exec :: "string list list exec" where
  "route_exec c k =
     (if take 3 c = [''ip'', ''route'', ''add''] then (if drop 3 c \<in> set k then (False, k) else (True, drop 3 c # k))
      else if take 3 c = [''ip'', ''route'', ''del''] then (drop 3 c \<in> set k, remove1 (drop 3 c) k)
      else (True, k))"

definition table_200 :: tproxy_config where
  "table_200 = DefaultTProxyConfig\<lparr>tp_RouteTable := 200\<rparr>"

definition route_200 :: "string list" where
  "route_200 = drop 3 (ip_route [] ''add'' ''0.0.0.0/0'' (itoa 200))"

lemma take_drop_route: "take 3 c = [''ip'', ''route'', v] \<Longrightarrow> drop 3 c = route_200 \<Longrightarrow> c = ip_route [] v ''0.0.0.0/0'' (itoa 200)"
proof -
  assume "take 3 c = [''ip'', ''route'', v]" "drop 3 c = route_200"
  then have "c = [''ip'', ''route'', v] @ route_200" by (metis append_take_drop_id)
  then show ?thesis by (simp add: route_200_def ip_route_def)
qed

lemma route_exec_remains:
  assumes "c \<noteq> ip_route [] ''del'' ''0.0.0.0/0'' (itoa 200)"
  shows "remains route_exec (\<lambda>k. route_200 \<in> set k) c"
proof -
  have "route_200 \<in> set (remove1 (drop 3 c) k)" if "take 3 c = [''ip'', ''route'', ''del'']" "route_200 \<in> set k" for k
    using take_drop_route [OF that(1)] assms that(2) by (cases "drop 3 c = route_200") auto
  then show ?thesis by (auto simp: remains_def route_exec_def)
qed


text \<open>
  \<^verbatim>\<open>DisableDNS\<close> of nftables is not the atomic load its comment describes: the table is deleted by a
  command of its own before the new rules are loaded.
\<close>

lemma nft_disable_not_atomic:
  "\<exists>script. fw_DisableDNS (logging ok) Nft cfg blk a [] =
     (ok [''nft'', ''-f'', ''/dev/stdin'', script],
      [[''nft'', ''delete'', ''table'', ''inet'', ''netferry''], [''nft'', ''delete'', ''table'', ''ip'', ''netferry''],
       [''nft'', ''-f'', ''/dev/stdin'', script]])"
  by (intro exI [of _ "nft_buildNftRules blk (without_dns a)"]) (simp add: nft_load_def drop_tables_def logging_def split: bool.split)

end
