(* ===== verification/IfaceIPv6.thy ===== *)
theory IfaceIPv6
  imports GoText
begin

text \<open>
  Taking IPv6 off the interfaces on Linux (\<^verbatim>\<open>internal/firewall/iface_ipv6_linux.go\<close>): the settings of the
  kernel by interface and leaf, and the file with the values to put back. What a write to a setting does
  is a parameter; so is the order in which a Go map is iterated.
\<close>

section \<open>Settings and the state file\<close>

type_synonym sysctls = "string \<times> string \<rightharpoonup> string"

type_synonym saved_ifaces = "(string \<times> (string \<times> string) list) list"

datatype state_file = NoFile | Unreadable error | BadJson error | Saved saved_ifaces

record ipv6_host =
  ih_sysctl :: sysctls
  ih_state :: state_file

type_synonym sysctl_write = "string \<Rightarrow> string \<Rightarrow> string \<Rightarrow> sysctls \<Rightarrow> sysctls"

text \<open>A write that fails leaves the settings as they are; both callers go on.\<close>

definition linuxIPv6SysctlLeaves :: "string list" where
  "linuxIPv6SysctlLeaves = [''disable_ipv6'', ''accept_ra'']"

definition listLinuxIPv6Ifaces :: "string list \<Rightarrow> string list" where
  "listLinuxIPv6Ifaces entries = [''all'', ''default''] @ filter (\<lambda>n. n \<noteq> ''lo'') entries"

definition readIPv6Sysctl :: "sysctls \<Rightarrow> string \<Rightarrow> string \<Rightarrow> string option" where
  "readIPv6Sysctl m i leaf = map_option trim_space (m (i, leaf))"

definition saved_leaves :: "sysctls \<Rightarrow> string \<Rightarrow> (string \<times> string) list" where
  "saved_leaves m i = List.map_filter (\<lambda>l. map_option (Pair l) (readIPv6Sysctl m i l)) linuxIPv6SysctlLeaves"

definition lock_state :: "sysctls \<Rightarrow> string list \<Rightarrow> saved_ifaces" where
  "lock_state m ifaces = filter (\<lambda>p. snd p \<noteq> []) (map (\<lambda>i. (i, saved_leaves m i)) ifaces)"

definition lock_iface :: "sysctl_write \<Rightarrow> string \<Rightarrow> sysctls \<Rightarrow> sysctls" where
  "lock_iface w i m = w i ''accept_ra'' ''0'' (w i ''disable_ipv6'' ''1'' m)"

text \<open>
  \<open>entries\<close> are the names in \<^verbatim>\<open>/sys/class/net\<close>, \<open>stored\<close> whether the state file can be written,
  \<open>order\<close> the iteration of the map.
\<close>

definition disableSystemIPv6 ::
    "sysctl_write \<Rightarrow> (saved_ifaces \<Rightarrow> saved_ifaces) \<Rightarrow> error + string list \<Rightarrow> error option \<Rightarrow> ipv6_host \<Rightarrow> error option \<times> ipv6_host" where
  "disableSystemIPv6 w order entries stored h =
     (case entries of
        Inl e \<Rightarrow> (Some (Wrapped ''enumerate interfaces'' e), h)
      | Inr names \<Rightarrow>
          let st = lock_state (ih_sysctl h) (listLinuxIPv6Ifaces names) in
          (case stored of
             Some e \<Rightarrow> (Some (Wrapped ''persist state'' e), h)
           | None \<Rightarrow> (None, \<lparr>ih_sysctl = fold (lock_iface w) (map fst (order st)) (ih_sysctl h), ih_state = Saved st\<rparr>)))"

definition restore_iface :: "sysctl_write \<Rightarrow> string \<times> (string \<times> string) list \<Rightarrow> sysctls \<Rightarrow> sysctls" where
  "restore_iface w p m = fold (\<lambda>(l, v). w (fst p) l v) (snd p) m"

definition restoreSystemIPv6 :: "sysctl_write \<Rightarrow> (saved_ifaces \<Rightarrow> saved_ifaces) \<Rightarrow> ipv6_host \<Rightarrow> error option \<times> ipv6_host" where
  "restoreSystemIPv6 w order h =
     (case ih_state h of
        NoFile \<Rightarrow> (None, h)
      | Unreadable e \<Rightarrow> (Some (Wrapped ''read state'' e), h)
      | BadJson e \<Rightarrow> (Some (Wrapped ''parse state'' e), h\<lparr>ih_state := NoFile\<rparr>)
      | Saved st \<Rightarrow> (None, \<lparr>ih_sysctl = fold (restore_iface w) (order st) (ih_sysctl h), ih_state = NoFile\<rparr>))"

section \<open>Putting back what was there\<close>

text \<open>A write that concerns its own setting only.\<close>

definition own_write :: sysctl_write where
  "own_write i l v m = (if (i, l) \<in> dom m then m((i, l) \<mapsto> v) else m)"

lemma own_write_other [simp]: "k \<noteq> (i, l) \<Longrightarrow> own_write i l v m k = m k"
  by (simp add: own_write_def)

lemma own_write_dom [simp]: "own_write i l v m k = None \<longleftrightarrow> m k = None"
  by (auto simp: own_write_def)

lemma lock_iface_other: "fst k \<noteq> i \<Longrightarrow> lock_iface own_write i m k = m k"
  by (cases k) (simp add: lock_iface_def)

lemma lock_iface_leaf: "snd k \<notin> set linuxIPv6SysctlLeaves \<Longrightarrow> lock_iface own_write i m k = m k"
  by (cases k) (simp add: lock_iface_def linuxIPv6SysctlLeaves_def)

lemma lock_iface_dom: "lock_iface own_write i m k = None \<longleftrightarrow> m k = None"
  by (simp add: lock_iface_def)

lemma lock_all:
  "(fst k \<notin> set is \<or> snd k \<notin> set linuxIPv6SysctlLeaves \<longrightarrow> fold (lock_iface own_write) is m k = m k) \<and>
   (fold (lock_iface own_write) is m k = None \<longleftrightarrow> m k = None)"
proof (induction "is" arbitrary: m)
  case (Cons i js)
  then show ?case
    using lock_iface_other [of k i m] lock_iface_leaf [of k i m] lock_iface_dom [of i m k] by auto
qed simp

lemma restore_one_other: "fst k \<noteq> i \<Longrightarrow> restore_iface own_write (i, ls) m k = m k"
proof (induction ls arbitrary: m)
  case (Cons p ls)
  then show ?case by (cases p; cases k) (auto simp: restore_iface_def)
qed (simp add: restore_iface_def)

lemma restore_one_value:
  assumes "\<And>l v. (l, v) \<in> set ls \<Longrightarrow> m0 (i, l) = Some v" "\<And>k. m k = None \<longleftrightarrow> m0 k = None"
  shows "restore_iface own_write (i, ls) m (i, l) = (if l \<in> fst ` set ls then m0 (i, l) else m (i, l))"
  using assms
proof (induction ls arbitrary: m)
  case (Cons p ls)
  obtain a v where p: "p = (a, v)" by (cases p)
  have av: "m0 (i, a) = Some v" using Cons.prems(1) p by simp
  have "restore_iface own_write (i, ls) (own_write i a v m) (i, l) =
        (if l \<in> fst ` set ls then m0 (i, l) else own_write i a v m (i, l))"
    using Cons.prems by (intro Cons.IH) auto
  moreover have "own_write i a v m (i, a) = m0 (i, a)"
    using av Cons.prems(2) [of "(i, a)"] by (auto simp: own_write_def)
  ultimately show ?case
    by (auto simp: restore_iface_def p)
qed (simp add: restore_iface_def)

lemma restore_one_dom: "restore_iface own_write p m k = None \<longleftrightarrow> m k = None"
proof -
  obtain i ls where p: "p = (i, ls)" by (cases p)
  show ?thesis unfolding p
  proof (induction ls arbitrary: m)
    case (Cons q ls)
    then show ?case by (cases q) (simp add: restore_iface_def)
  qed (simp add: restore_iface_def)
qed

lemma restore_all:
  assumes "\<And>i ls l v. (i, ls) \<in> set st \<Longrightarrow> (l, v) \<in> set ls \<Longrightarrow> m0 (i, l) = Some v"
    "\<And>k. m k = None \<longleftrightarrow> m0 k = None"
  shows "fold (restore_iface own_write) st m (i, l) =
    (if \<exists>ls. (i, ls) \<in> set st \<and> l \<in> fst ` set ls then m0 (i, l) else m (i, l))"
  using assms
proof (induction st arbitrary: m)
  case (Cons p st)
  obtain j ls where p: "p = (j, ls)" by (cases p)
  let ?m = "restore_iface own_write (j, ls) m"
  have IH: "fold (restore_iface own_write) st ?m (i, l) =
    (if \<exists>ls. (i, ls) \<in> set st \<and> l \<in> fst ` set ls then m0 (i, l) else ?m (i, l))"
    using Cons.prems by (intro Cons.IH) (auto simp: restore_one_dom)
  have "?m (i, l) = (if i = j \<and> l \<in> fst ` set ls then m0 (i, l) else m (i, l))"
  proof (cases "i = j")
    case True
    have "(a, v) \<in> set ls \<Longrightarrow> m0 (j, a) = Some v" for a v using Cons.prems(1) [of j ls a v] p by simp
    then show ?thesis
      using restore_one_value [of ls m0 j m l] Cons.prems(2) True by simp
  qed (simp add: restore_one_other)
  then show ?case
    using IH p by auto
qed simp

lemma saved_leaves_mem: "(l, v) \<in> set (saved_leaves m i) \<longleftrightarrow> l \<in> set linuxIPv6SysctlLeaves \<and> readIPv6Sysctl m i l = Some v"
  by (auto simp: saved_leaves_def map_filter_def linuxIPv6SysctlLeaves_def)


definition wlan_host :: ipv6_host where
  "wlan_host = \<lparr>ih_sysctl = [(''all'', ''disable_ipv6'') \<mapsto> ''0'', (''eth0'', ''disable_ipv6'') \<mapsto> ''0'', (''eth0'', ''accept_ra'') \<mapsto> ''2'',
     (''wlan0'', ''disable_ipv6'') \<mapsto> ''1''], ih_state = NoFile\<rparr>"

lemma wlan_values: "ih_sysctl wlan_host k = Some v \<Longrightarrow> trim_space v = v"
  by (auto simp: wlan_host_def trim_space_def trim_right_by_def is_space_def split: if_splits)


section \<open>The settings of all interfaces\<close>

text \<open>
  The kernel passes a write to \<^verbatim>\<open>conf/all/disable_ipv6\<close> on to every interface. \<open>spreading_write\<close> does that.
\<close>

definition spreading_write :: sysctl_write where
  "spreading_write i l v m =
     (if i = ''all'' \<and> l = ''disable_ipv6'' then (\<lambda>k. if snd k = l then map_option (\<lambda>_. v) (m k) else m k)
      else own_write i l v m)"

lemma spreading_all: "spreading_write ''all'' ''disable_ipv6'' v m = (\<lambda>k. if snd k = ''disable_ipv6'' then map_option (\<lambda>_. v) (m k) else m k)"
  by (simp add: spreading_write_def)

lemma restore_all_last:
  assumes "st = pre @ [(''all'', [(''disable_ipv6'', v)])]"
  shows "fold (restore_iface spreading_write) st m (i, ''disable_ipv6'') =
    map_option (\<lambda>_. v) (fold (restore_iface spreading_write) pre m (i, ''disable_ipv6''))"
  by (simp add: assms restore_iface_def spreading_all)

lemma spreading_keeps: "spreading_write i l v m k = None \<longleftrightarrow> m k = None"
  by (auto simp: spreading_write_def)

lemma spreading_restore_keeps: "fold (restore_iface spreading_write) st m k = None \<longleftrightarrow> m k = None"
proof (induction st arbitrary: m)
  case (Cons p st)
  have "fold (\<lambda>(l, v). spreading_write j l v) ls m k = None \<longleftrightarrow> m k = None" for ls j m
  proof (induction ls arbitrary: m)
    case (Cons q ls)
    then show ?case by (cases q) (simp add: spreading_keeps)
  qed simp
  then show ?case using Cons by (simp add: restore_iface_def)
qed simp

text \<open>
  With that kernel the value of an interface is lost whenever the iteration of the saved map ends with
  \<open>all\<close>: IPv6 is switched on also where the user had it off. Go iterates a map in random order.
\<close>

lemma ipv6_restore_overwrites:
  assumes "ih_state h = Saved st" "order st = pre @ [(''all'', [(''disable_ipv6'', ''0'')])]"
    and "ih_sysctl h (i, ''disable_ipv6'') \<noteq> None"
  shows "ih_sysctl (snd (restoreSystemIPv6 spreading_write order h)) (i, ''disable_ipv6'') = Some ''0''"
proof -
  obtain x where "fold (restore_iface spreading_write) pre (ih_sysctl h) (i, ''disable_ipv6'') = Some x"
    using spreading_restore_keeps [of pre "ih_sysctl h" "(i, ''disable_ipv6'')"] assms(3) by blast
  then show ?thesis
    using assms(1,2) restore_all_last [OF assms(2)] by (simp add: restoreSystemIPv6_def)
qed

end
