(* ===== verification/TunnelEngine.thy ===== *)
theory TunnelEngine
  imports TunnelConfig FwCommands IfaceIPv6
begin

text \<open>
  One run of the tunnel on Linux (\<^verbatim>\<open>cmd/tunnel/engine.go\<close>, \<^verbatim>\<open>portcache.go\<close>): from the connection to the
  server over the configuration of the firewall and the listeners to the way it ends. The state is what
  outlives a run: the kernel, the port cache, the variables of package \<^verbatim>\<open>proxy\<close>, and the sockets and
  pools nobody closes.
\<close>

section \<open>Ports\<close>

record port_cache =
  pc_ProxyPort :: int
  pc_DNSPort :: int
  pc_StatsPort :: int

text \<open>
  The file holds a cache, or is missing or no JSON; without a cache directory it is neither read nor
  written.
\<close>

datatype cache_file = NoDir | CacheFile "port_cache option"

fun loadPortCache :: "cache_file \<Rightarrow> port_cache" where
  "loadPortCache (CacheFile (Some pc)) = pc"
| "loadPortCache _ = \<lparr>pc_ProxyPort = 0, pc_DNSPort = 0, pc_StatsPort = 0\<rparr>"

fun savePortCache :: "port_cache \<Rightarrow> cache_file \<Rightarrow> cache_file" where
  "savePortCache pc NoDir = NoDir"
| "savePortCache pc (CacheFile _) = CacheFile (Some pc)"

text \<open>\<open>used\<close> are the ports in use, \<open>free\<close> the port the system gives, None when it gives none.\<close>

definition pick_port :: "(int \<Rightarrow> bool) \<Rightarrow> int option \<Rightarrow> int \<Rightarrow> int option" where
  "pick_port used free preferred = (if preferred > 0 \<and> \<not> used preferred then Some preferred else free)"

section \<open>Excluded networks\<close>

definition base_excludes :: "engine_config \<Rightarrow> string list" where
  "base_excludes c =
     [''127.0.0.0/8'', ''169.254.0.0/16''] @ (if ec_NoIPv6 c then [] else [''::1/128'', ''fe80::/10'']) @
     filter (\<lambda>x. x \<noteq> []) (map trim_space (ec_ExcludeNets c))"

definition addEx :: "string \<Rightarrow> string list \<Rightarrow> string list" where
  "addEx x excludes = (let c = trim_space x in if c \<noteq> [] \<and> c \<notin> set excludes then excludes @ [c] else excludes)"

definition engine_excludes :: "engine_config \<Rightarrow> string \<Rightarrow> string option \<Rightarrow> string list" where
  "engine_excludes c serverIP firstHop =
     fold addEx
       ([serverIP @ ''/32''] @ (case firstHop of Some ip \<Rightarrow> [ip @ ''/32''] | None \<Rightarrow> []) @ bk_extraExcludes (ec_Backend c))
       (base_excludes c)"

section \<open>The state that outlives a run\<close>

record 'k host =
  hs_kernel :: 'k
  hs_ipv6 :: ipv6_host
  hs_cache :: cache_file
  hs_UseTProxy :: bool
  hs_OrigDst :: bool
  hs_FilterAAAA :: bool
  hs_BindAddr :: string
  hs_tcp :: "int list"
  hs_udp :: "int list"
  hs_pools :: nat

text \<open>
  \<open>hs_OrigDst\<close> is whether \<^verbatim>\<open>QueryOrigDstFunc\<close> is set, \<open>hs_tcp\<close> and \<open>hs_udp\<close> are the ports this process
  listens on, \<open>hs_pools\<close> the pools whose members still run.
\<close>

datatype routes_reply = Routes "string list" | NoRoutes | MuxBroke error

datatype run_end = MuxDied | ProxyEnded | NetChanged | StopAsked

record run_world =
  rw_backend :: "error + string \<times> string option \<times> bool"
  rw_routes :: routes_reply
  rw_hasNft :: bool
  rw_dnsServers :: "string list"
  rw_tcpUsed :: "int \<Rightarrow> bool"
  rw_tcpFree :: "int option"
  rw_udpUsed :: "int \<Rightarrow> bool"
  rw_udpFree :: "int option"
  rw_statsPort :: int
  rw_write :: sysctl_write
  rw_order :: "saved_ifaces \<Rightarrow> saved_ifaces"
  rw_entries :: "error + string list"
  rw_stored :: "error option"
  rw_end :: run_end

text \<open>
  \<open>rw_backend\<close> is the result of \<^verbatim>\<open>connectBackend\<close>: address of the server, first hop, and whether dialling
  again needs a resolver. The ports used are those of other processes.
\<close>

datatype run_result = RunFailed error | Fatal error | ForReconnect | RunDone

datatype kept = Kept linux_fw tproxy_config bool

record engine =
  eg_ready :: "bool option"
  eg_kept :: "kept option"

definition signalReady :: "engine \<Rightarrow> engine" where
  "signalReady e = (if eg_ready e = None then e\<lparr>eg_ready := Some True\<rparr> else e)"

definition signalEnded :: "engine \<Rightarrow> engine" where
  "signalEnded e = (if eg_ready e = None then e\<lparr>eg_ready := Some False\<rparr> else e)"

definition new_engine :: engine where
  "new_engine = \<lparr>eg_ready = None, eg_kept = None\<rparr>"

section \<open>Configuring the capture\<close>

definition effective_subnets :: "engine_config \<Rightarrow> string list \<Rightarrow> error + subnet_rule list" where
  "effective_subnets c auto =
     (let strings = ec_SubnetStrings c @ auto in
      if strings = [] then Inl (Msg ''no subnets to proxy'')
      else
        (case ParseSubnetRules strings of
           None \<Rightarrow> Inl (Wrapped ''parse subnets'' (Msg ''subnet''))
         | Some rs \<Rightarrow> Inr (if ec_NoIPv6 c then filter (\<lambda>s. \<not> sn_IsIPv6 s) rs else rs)))"

definition choose_method :: "engine_config \<Rightarrow> bool \<Rightarrow> error + linux_fw" where
  "choose_method c hasNft =
     (if ec_FirewallMethod c = ''auto'' \<or> ec_FirewallMethod c = [] then Inr (newDefault hasNft)
      else (case newNamed hasNft (ec_FirewallMethod c) of Inl e \<Rightarrow> Inl (Wrapped ''firewall'' e) | Inr m \<Rightarrow> Inr m))"

definition missing_feature :: "engine_config \<Rightarrow> linux_fw \<Rightarrow> subnet_rule list \<Rightarrow> error option" where
  "missing_feature c m subnets =
     (let kind = method_kind m in
      if list_ex sn_IsIPv6 subnets \<and> \<not> Supports kind [FeatureIPv6] then Some (Msg ''method does not support IPv6'')
      else if list_ex HasPortRange subnets \<and> \<not> Supports kind [FeaturePortRange] then Some (Msg ''method does not support port ranges'')
      else if ec_UDPProxy c \<and> \<not> Supports kind [FeatureUDP] then Some (Msg ''method does not support UDP proxy'')
      else None)"

definition engine_tproxy :: "engine_config \<Rightarrow> tproxy_config" where
  "engine_tproxy c = \<lparr>tp_FWMark = ec_TProxyMark c, tp_RouteTable = ec_TProxyTable c\<rparr>"

definition configure_proxy :: "linux_fw \<Rightarrow> 'k host \<Rightarrow> 'k host" where
  "configure_proxy m h =
     (let h1 = h\<lparr>hs_BindAddr := ''127.0.0.1''\<rparr> in
      if method_name m = ''tproxy'' then h1\<lparr>hs_UseTProxy := True, hs_OrigDst := False\<rparr> else h1)"

text \<open>The DNS listener; its port is 0 when DNS is not intercepted.\<close>

definition listen_dns :: "engine_config \<Rightarrow> run_world \<Rightarrow> 'k host \<Rightarrow> (error + int) \<times> 'k host" where
  "listen_dns c w h =
     (if \<not> ec_DNSEnabled c then (Inr 0, h)
      else
        (case pick_port (\<lambda>p. rw_udpUsed w p \<or> p \<in> set (hs_udp h)) (rw_udpFree w) (pc_DNSPort (loadPortCache (hs_cache h))) of
           None \<Rightarrow> (Inl (Wrapped ''dns listen'' (Msg ''bind'')), h)
         | Some p \<Rightarrow> (Inr p, h\<lparr>hs_udp := p # hs_udp h\<rparr>)))"

definition pick_proxy_port :: "run_world \<Rightarrow> 'k host \<Rightarrow> int option" where
  "pick_proxy_port w h =
     pick_port (\<lambda>p. rw_tcpUsed w p \<or> p \<in> set (hs_tcp h)) (rw_tcpFree w) (pc_ProxyPort (loadPortCache (hs_cache h)))"

section \<open>A run\<close>

definition restore_system :: "'k exec \<Rightarrow> run_world \<Rightarrow> kept \<Rightarrow> 'k host \<Rightarrow> 'k host" where
  "restore_system exec w k h =
     (case k of Kept m cfg lockdown \<Rightarrow>
        let h1 = h\<lparr>hs_kernel := fw_Restore exec m cfg (hs_kernel h)\<rparr> in
        if lockdown then h1\<lparr>hs_ipv6 := snd (restoreSystemIPv6 (rw_write w) (rw_order w) (hs_ipv6 h1))\<rparr> else h1)"

text \<open>
  What follows the set-up: IPv6 is taken off the interfaces, caches and connections are flushed and the
  listeners opened; then the run ends, and the rules stay or go.
\<close>

definition locks_ipv6 :: "engine_config \<Rightarrow> bool" where
  "locks_ipv6 c \<longleftrightarrow> ec_NoIPv6 c \<and> \<not> ec_NoIPv6Lockdown c"

definition listening :: "'k exec \<Rightarrow> engine_config \<Rightarrow> run_world \<Rightarrow> setup_args \<Rightarrow> 'k host \<Rightarrow> 'k host" where
  "listening exec c w a h =
     h\<lparr>hs_ipv6 := (if locks_ipv6 c
                  then snd (disableSystemIPv6 (rw_write w) (rw_order w) (rw_entries w) (rw_stored w) (hs_ipv6 h)) else hs_ipv6 h),
       hs_kernel := FlushExistingConnections exec (sa_subnets a) (FlushDNSCache exec (hs_kernel h)),
       hs_tcp := sa_proxyPort a # hs_tcp h,
       hs_udp := (if ec_UDPProxy c \<and> hs_UseTProxy h \<and> \<not> rw_udpUsed w (sa_proxyPort a) \<and> sa_proxyPort a \<notin> set (hs_udp h)
                  then sa_proxyPort a # hs_udp h else hs_udp h)\<rparr>"

definition prepareReconnectExit :: "'k exec \<Rightarrow> engine_config \<Rightarrow> linux_fw \<Rightarrow> setup_args \<Rightarrow> bool \<Rightarrow> 'k host \<Rightarrow> 'k host" where
  "prepareReconnectExit exec c m a needsDNS h =
     (if needsDNS then h\<lparr>hs_kernel := snd (fw_DisableDNS exec m (engine_tproxy c) (ec_NoIPv6 c) a (hs_kernel h))\<rparr> else h)"

definition operate ::
    "'k exec \<Rightarrow> engine_config \<Rightarrow> run_world \<Rightarrow> linux_fw \<Rightarrow> setup_args \<Rightarrow> bool \<Rightarrow> engine \<Rightarrow> 'k host \<Rightarrow> run_result \<times> engine \<times> 'k host" where
  "operate exec c w m a needsDNS e h =
     (let k = Kept m (engine_tproxy c) (locks_ipv6 c); e1 = signalReady e; h1 = listening exec c w a h in
      case rw_end w of
        MuxDied \<Rightarrow> (ForReconnect, e1\<lparr>eg_kept := Some k\<rparr>, prepareReconnectExit exec c m a needsDNS h1)
      | NetChanged \<Rightarrow> (ForReconnect, e1\<lparr>eg_kept := Some k\<rparr>, prepareReconnectExit exec c m a needsDNS h1)
      | ProxyEnded \<Rightarrow> (RunDone, e1, restore_system exec w k (h1\<lparr>hs_tcp := hs_tcp h\<rparr>))
      | StopAsked \<Rightarrow> (RunDone, e1, restore_system exec w k h1))"

definition capture ::
    "'k exec \<Rightarrow> engine_config \<Rightarrow> run_world \<Rightarrow> string list \<Rightarrow> subnet_rule list \<Rightarrow> bool \<Rightarrow> engine \<Rightarrow> 'k host \<Rightarrow> run_result \<times> engine \<times> 'k host" where
  "capture exec c w excludes subnets needsDNS e h0 =
     (let h = h0\<lparr>hs_kernel := CleanStaleAnchors exec (hs_kernel h0),
                hs_ipv6 := snd (restoreSystemIPv6 (rw_write w) (rw_order w) (hs_ipv6 h0))\<rparr> in
      case choose_method c (rw_hasNft w) of
        Inl err \<Rightarrow> (RunFailed err, e, h)
      | Inr m \<Rightarrow>
          let h1 = h\<lparr>hs_FilterAAAA := ec_NoIPv6 c\<rparr> in
          (case missing_feature c m subnets of
             Some err \<Rightarrow> (RunFailed err, e, h1)
           | None \<Rightarrow>
               (case listen_dns c w (configure_proxy m h1) of
                  (Inl err, h2) \<Rightarrow> (RunFailed err, e, h2)
                | (Inr dnsPort, h2) \<Rightarrow>
                    (case pick_proxy_port w h2 of
                       None \<Rightarrow> (Fatal (Msg ''pick free TCP port''), e, h2)
                     | Some port \<Rightarrow>
                         let h3 = h2\<lparr>hs_cache := savePortCache \<lparr>pc_ProxyPort = port, pc_DNSPort = dnsPort, pc_StatsPort = rw_statsPort w\<rparr> (hs_cache h2)\<rparr>;
                             a = \<lparr>sa_subnets = subnets, sa_excludes = excludes, sa_proxyPort = port, sa_dnsPort = dnsPort,
                                  sa_dnsServers = (if ec_DNSEnabled c then rw_dnsServers w else [])\<rparr> in
                         (case fw_Setup exec m (engine_tproxy c) (ec_NoIPv6 c) a (hs_kernel h3) of
                            (False, k) \<Rightarrow> (RunFailed (Wrapped ''firewall setup'' (Msg (method_name m))), e, h3\<lparr>hs_kernel := k\<rparr>)
                          | (True, k) \<Rightarrow> operate exec c w m a needsDNS e (h3\<lparr>hs_kernel := k\<rparr>))))))"

definition engine_Run :: "'k exec \<Rightarrow> engine_config \<Rightarrow> run_world \<Rightarrow> engine \<Rightarrow> 'k host \<Rightarrow> run_result \<times> engine \<times> 'k host" where
  "engine_Run exec c w e h =
     (let (r, e1, h1) =
        (case rw_backend w of
           Inl err \<Rightarrow> (RunFailed (Wrapped ''backend'' err), e, h)
         | Inr (serverIP, firstHop, needsDNS) \<Rightarrow>
             let h1 = h\<lparr>hs_pools := hs_pools h + 1\<rparr> in
             (case rw_routes w of
                MuxBroke err \<Rightarrow> (RunFailed (Wrapped ''mux'' err), e, h1)
              | reply \<Rightarrow>
                  let auto = (case reply of Routes rs \<Rightarrow> if ec_AutoNets c then rs else [] | _ \<Rightarrow> []) in
                  (case effective_subnets c auto of
                     Inl err \<Rightarrow> (RunFailed err, e, h1)
                   | Inr subnets \<Rightarrow> capture exec c w (engine_excludes c serverIP firstHop) subnets needsDNS e h1)))
      in (r, signalEnded e1, h1))"

definition ReleaseFirewall :: "'k exec \<Rightarrow> run_world \<Rightarrow> engine \<Rightarrow> 'k host \<Rightarrow> engine \<times> 'k host" where
  "ReleaseFirewall exec w e h =
     (case eg_kept e of None \<Rightarrow> (e, h) | Some k \<Rightarrow> (e\<lparr>eg_kept := None\<rparr>, restore_system exec w k h))"

section \<open>How a run ends\<close>

definition operational :: "run_result \<Rightarrow> bool" where
  "operational r \<longleftrightarrow> r = ForReconnect \<or> r = RunDone"

lemma operational_simps [simp]:
  "operational ForReconnect" "operational RunDone" "\<not> operational (RunFailed e)" "\<not> operational (Fatal e)"
  by (simp_all add: operational_def)

definition engine_setup :: "'k exec \<Rightarrow> engine_config \<Rightarrow> linux_fw \<Rightarrow> setup_args \<Rightarrow> 'k \<Rightarrow> bool \<times> 'k" where
  "engine_setup exec c m = fw_Setup exec m (engine_tproxy c) (ec_NoIPv6 c)"

definition with_kernel :: "'k \<Rightarrow> 'k host \<Rightarrow> 'k host" where
  "with_kernel k h = h\<lparr>hs_kernel := k\<rparr>"

text \<open>
  What is known of a run that went as far as the firewall: the method, the arguments of \<^verbatim>\<open>Setup\<close>, and
  the state before it.
\<close>

definition reached :: "engine_config \<Rightarrow> run_world \<Rightarrow> 'k host \<Rightarrow> linux_fw \<Rightarrow> setup_args \<Rightarrow> 'k host \<Rightarrow> bool" where
  "reached c w h m a h2 \<longleftrightarrow>
     choose_method c (rw_hasNft w) = Inr m \<and> missing_feature c m (sa_subnets a) = None \<and>
     hs_cache h2 = savePortCache \<lparr>pc_ProxyPort = sa_proxyPort a, pc_DNSPort = sa_dnsPort a, pc_StatsPort = rw_statsPort w\<rparr> (hs_cache h) \<and>
     hs_tcp h2 = hs_tcp h \<and> hs_pools h2 = hs_pools h \<and>
     pick_port (\<lambda>p. rw_tcpUsed w p \<or> p \<in> set (hs_tcp h)) (rw_tcpFree w) (pc_ProxyPort (loadPortCache (hs_cache h))) = Some (sa_proxyPort a) \<and>
     (if ec_DNSEnabled c
      then hs_udp h2 = sa_dnsPort a # hs_udp h \<and>
        pick_port (\<lambda>p. rw_udpUsed w p \<or> p \<in> set (hs_udp h)) (rw_udpFree w) (pc_DNSPort (loadPortCache (hs_cache h))) = Some (sa_dnsPort a)
      else hs_udp h2 = hs_udp h \<and> sa_dnsPort a = 0 \<and> sa_dnsServers a = []) \<and>
     (case m of Tproxy _ \<Rightarrow> hs_UseTProxy h2 \<and> \<not> hs_OrigDst h2
      | _ \<Rightarrow> hs_UseTProxy h2 = hs_UseTProxy h \<and> hs_OrigDst h2 = hs_OrigDst h)"

lemma choose_feature_names: "method_name m = ''tproxy'' \<longleftrightarrow> (\<exists>b. m = Tproxy b)"
  by (cases m) auto

lemma configure_frame [simp]:
  "hs_cache (configure_proxy m h) = hs_cache h" "hs_tcp (configure_proxy m h) = hs_tcp h" "hs_udp (configure_proxy m h) = hs_udp h"
  "hs_pools (configure_proxy m h) = hs_pools h" "hs_kernel (configure_proxy m h) = hs_kernel h" "hs_ipv6 (configure_proxy m h) = hs_ipv6 h"
  by (simp_all add: configure_proxy_def Let_def)

lemma configure_flags:
  "case m of Tproxy _ \<Rightarrow> hs_UseTProxy (configure_proxy m h) \<and> \<not> hs_OrigDst (configure_proxy m h)
   | _ \<Rightarrow> hs_UseTProxy (configure_proxy m h) = hs_UseTProxy h \<and> hs_OrigDst (configure_proxy m h) = hs_OrigDst h"
  by (cases m) (simp_all add: configure_proxy_def)

lemma listen_dns_cases:
  "listen_dns c w h = (x, h1) \<Longrightarrow>
     hs_cache h1 = hs_cache h \<and> hs_tcp h1 = hs_tcp h \<and> hs_pools h1 = hs_pools h \<and> hs_kernel h1 = hs_kernel h \<and> hs_ipv6 h1 = hs_ipv6 h \<and>
     hs_UseTProxy h1 = hs_UseTProxy h \<and> hs_OrigDst h1 = hs_OrigDst h \<and>
     (case x of Inl _ \<Rightarrow> hs_udp h1 = hs_udp h
      | Inr p \<Rightarrow> if ec_DNSEnabled c
          then hs_udp h1 = p # hs_udp h \<and>
            pick_port (\<lambda>p. rw_udpUsed w p \<or> p \<in> set (hs_udp h)) (rw_udpFree w) (pc_DNSPort (loadPortCache (hs_cache h))) = Some p
          else hs_udp h1 = hs_udp h \<and> p = 0)"
  by (auto simp: listen_dns_def split: if_splits option.splits)

definition setup_failed :: "run_result \<Rightarrow> bool" where
  "setup_failed r = (\<exists>x. r = RunFailed (Wrapped ''firewall setup'' x))"

text \<open>No other step fails with the error of \<^verbatim>\<open>Setup\<close>.\<close>

lemma not_setup_error [simp]:
  "effective_subnets c auto = Inl err \<Longrightarrow> \<not> setup_failed (RunFailed err)"
  "choose_method c b = Inl err \<Longrightarrow> \<not> setup_failed (RunFailed err)"
  "missing_feature c m subnets = Some err \<Longrightarrow> \<not> setup_failed (RunFailed err)"
  "listen_dns c w g = (Inl err, g') \<Longrightarrow> \<not> setup_failed (RunFailed err)"
  "\<not> setup_failed (RunFailed (Wrapped ''backend'' e))" "\<not> setup_failed (RunFailed (Wrapped ''mux'' e))" "\<not> setup_failed (Fatal e)"
  by (auto simp: setup_failed_def effective_subnets_def choose_method_def missing_feature_def listen_dns_def Let_def
      split: sum.splits option.splits if_splits)

text \<open>
  The three ways through \<open>capture\<close>: it stops before \<^verbatim>\<open>Setup\<close>, \<^verbatim>\<open>Setup\<close> fails, or the run operates.
\<close>

lemma capture_cases:
  assumes "capture exec c w ex subnets needs e h = (r, e', h')"
  obtains
    (early) "\<not> operational r" "\<not> setup_failed r" "e' = e" "hs_kernel h' = CleanStaleAnchors exec (hs_kernel h)" "hs_tcp h' = hs_tcp h"
      "hs_udp h' = hs_udp h \<or> (\<exists>p. hs_udp h' = p # hs_udp h \<and> pick_port (\<lambda>p. rw_udpUsed w p \<or> p \<in> set (hs_udp h)) (rw_udpFree w)
         (pc_DNSPort (loadPortCache (hs_cache h))) = Some p)" "hs_pools h' = hs_pools h"
      "hs_UseTProxy h \<longrightarrow> hs_UseTProxy h'" "hs_OrigDst h' \<longrightarrow> hs_OrigDst h"
  | (failed) m a h2 k where "reached c w h m a h2" "sa_excludes a = ex"
      "engine_setup exec c m a (CleanStaleAnchors exec (hs_kernel h)) = (False, k)" "\<not> operational r" "e' = e" "h' = with_kernel k h2"
  | (running) m a h2 k where "reached c w h m a h2" "sa_excludes a = ex"
      "engine_setup exec c m a (CleanStaleAnchors exec (hs_kernel h)) = (True, k)" "(r, e', h') = operate exec c w m a needs e (with_kernel k h2)"
proof -
  let ?h = "h\<lparr>hs_kernel := CleanStaleAnchors exec (hs_kernel h), hs_ipv6 := snd (restoreSystemIPv6 (rw_write w) (rw_order w) (hs_ipv6 h))\<rparr>"
  show thesis
  proof (cases "choose_method c (rw_hasNft w)")
    case (Inl err)
    then show thesis using assms by (intro early) (auto simp: capture_def Let_def)
  next
    case m: (Inr m)
    let ?h1 = "?h\<lparr>hs_FilterAAAA := ec_NoIPv6 c\<rparr>"
    show thesis
    proof (cases "missing_feature c m subnets")
      case (Some err)
      then show thesis using assms m by (intro early) (auto simp: capture_def Let_def)
    next
      case feat: None
      obtain x h2 where l: "listen_dns c w (configure_proxy m ?h1) = (x, h2)" by (cases "listen_dns c w (configure_proxy m ?h1)")
      note lc = listen_dns_cases [OF l]
      have flags: "hs_UseTProxy h \<longrightarrow> hs_UseTProxy h2" "hs_OrigDst h2 \<longrightarrow> hs_OrigDst h"
        using lc configure_flags [of m ?h1] by (auto split: linux_fw.splits)
      show thesis
      proof (cases x)
        case (Inl err)
        then show thesis using assms m feat l lc flags by (intro early) (auto simp: capture_def Let_def)
      next
        case x: (Inr dns)
        have port: "pick_proxy_port w h2 = pick_port (\<lambda>p. rw_tcpUsed w p \<or> p \<in> set (hs_tcp h)) (rw_tcpFree w) (pc_ProxyPort (loadPortCache (hs_cache h)))"
          using lc by (simp add: pick_proxy_port_def)
        show thesis
        proof (cases "pick_proxy_port w h2")
          case None
          then show thesis using assms m feat l lc x flags by (intro early) (auto simp: capture_def Let_def split: if_splits)
        next
          case p: (Some p)
          define h3 where "h3 = h2\<lparr>hs_cache := savePortCache \<lparr>pc_ProxyPort = p, pc_DNSPort = dns, pc_StatsPort = rw_statsPort w\<rparr> (hs_cache h2)\<rparr>"
          define a where "a = \<lparr>sa_subnets = subnets, sa_excludes = ex, sa_proxyPort = p, sa_dnsPort = dns,
            sa_dnsServers = (if ec_DNSEnabled c then rw_dnsServers w else [])\<rparr>"
          have k3: "hs_kernel h3 = CleanStaleAnchors exec (hs_kernel h)" using lc by (simp add: h3_def)
          have r: "reached c w h m a h3"
            using m feat lc x p configure_flags [of m ?h1] unfolding port
            by (auto simp: reached_def h3_def a_def split: if_splits linux_fw.splits)
          obtain ok k where st: "engine_setup exec c m a (hs_kernel h3) = (ok, k)" by (cases "engine_setup exec c m a (hs_kernel h3)")
          have run: "(r, e', h') = (if ok then operate exec c w m a needs e (h3\<lparr>hs_kernel := k\<rparr>)
              else (RunFailed (Wrapped ''firewall setup'' (Msg (method_name m))), e, h3\<lparr>hs_kernel := k\<rparr>))"
            using assms m feat l x p st unfolding capture_def engine_setup_def Let_def h3_def a_def by (cases ok) simp_all
          have ex: "sa_excludes a = ex" by (simp add: a_def)
          show thesis
          proof (cases ok)
            case True
            then show thesis using running [OF r ex, of k] st k3 run by (simp add: with_kernel_def)
          next
            case False
            then show thesis using failed [OF r ex, of k] st k3 run by (simp add: with_kernel_def)
          qed
        qed
      qed
    qed
  qed
qed

lemma restore_frame [simp]:
  "hs_tcp (restore_system exec w k h) = hs_tcp h" "hs_udp (restore_system exec w k h) = hs_udp h" "hs_pools (restore_system exec w k h) = hs_pools h"
  "hs_UseTProxy (restore_system exec w k h) = hs_UseTProxy h" "hs_OrigDst (restore_system exec w k h) = hs_OrigDst h"
  "hs_cache (restore_system exec w k h) = hs_cache h"
  by (simp_all add: restore_system_def Let_def split: kept.split)

lemma restore_kernel [simp]: "hs_kernel (restore_system exec w (Kept m cfg ld) h) = fw_Restore exec m cfg (hs_kernel h)"
  by (simp add: restore_system_def Let_def)

lemma prepare_frame [simp]:
  "hs_tcp (prepareReconnectExit exec c m a nd h) = hs_tcp h" "hs_udp (prepareReconnectExit exec c m a nd h) = hs_udp h"
  "hs_pools (prepareReconnectExit exec c m a nd h) = hs_pools h" "hs_cache (prepareReconnectExit exec c m a nd h) = hs_cache h"
  "hs_UseTProxy (prepareReconnectExit exec c m a nd h) = hs_UseTProxy h" "hs_OrigDst (prepareReconnectExit exec c m a nd h) = hs_OrigDst h"
  by (simp_all add: prepareReconnectExit_def)

lemma listening_frame [simp]:
  "hs_tcp (listening exec c w a h) = sa_proxyPort a # hs_tcp h" "hs_pools (listening exec c w a h) = hs_pools h"
  "hs_cache (listening exec c w a h) = hs_cache h" "hs_UseTProxy (listening exec c w a h) = hs_UseTProxy h"
  "hs_OrigDst (listening exec c w a h) = hs_OrigDst h"
  by (simp_all add: listening_def)

lemma listening_udp: "hs_udp (listening exec c w a h) = hs_udp h \<or> hs_udp (listening exec c w a h) = sa_proxyPort a # hs_udp h \<and> sa_proxyPort a \<notin> set (hs_udp h)"
  by (simp add: listening_def)

lemma signalReady_kept [simp]: "eg_kept (signalReady e) = eg_kept e"
  by (simp add: signalReady_def)

lemma operate_result:
  assumes "operate exec c w m a needs e h = (r, e', h')"
  shows "operational r" "eg_ready e' = eg_ready (signalReady e)" "hs_pools h' = hs_pools h" "hs_cache h' = hs_cache h"
    "hs_UseTProxy h' = hs_UseTProxy h" "hs_OrigDst h' = hs_OrigDst h"
    "hs_tcp h' = (if rw_end w = ProxyEnded then hs_tcp h else sa_proxyPort a # hs_tcp h)"
    "hs_udp h' = hs_udp h \<or> hs_udp h' = sa_proxyPort a # hs_udp h \<and> sa_proxyPort a \<notin> set (hs_udp h)"
    "r = ForReconnect \<longleftrightarrow> rw_end w = MuxDied \<or> rw_end w = NetChanged"
    "r = ForReconnect \<Longrightarrow> eg_kept e' = Some (Kept m (engine_tproxy c) (locks_ipv6 c))"
    "r = RunDone \<Longrightarrow> eg_kept e' = eg_kept e \<and> (\<exists>k. hs_kernel h' = fw_Restore exec m (engine_tproxy c) k)"
  using assms listening_udp [of exec c w a h] by (cases "rw_end w"; auto simp: operate_def Let_def)+

text \<open>A whole run, by how far it got.\<close>

lemma engine_Run_cases:
  assumes "engine_Run exec c w e h = (r, e', h')"
  obtains
    (unreached) "\<not> operational r" "\<not> setup_failed r" "e' = signalEnded e" "h' = h \<or> h' = h\<lparr>hs_pools := hs_pools h + 1\<rparr>"
  | (early) "\<not> operational r" "\<not> setup_failed r" "e' = signalEnded e" "hs_kernel h' = CleanStaleAnchors exec (hs_kernel h)" "hs_tcp h' = hs_tcp h"
      "hs_udp h' = hs_udp h \<or> (\<exists>p. hs_udp h' = p # hs_udp h \<and> pick_port (\<lambda>p. rw_udpUsed w p \<or> p \<in> set (hs_udp h)) (rw_udpFree w)
         (pc_DNSPort (loadPortCache (hs_cache h))) = Some p)" "hs_pools h' = hs_pools h + 1"
      "hs_UseTProxy h \<longrightarrow> hs_UseTProxy h'" "hs_OrigDst h' \<longrightarrow> hs_OrigDst h"
  | (failed) m a h2 k where "reached c w (h\<lparr>hs_pools := hs_pools h + 1\<rparr>) m a h2"
      "engine_setup exec c m a (CleanStaleAnchors exec (hs_kernel h)) = (False, k)" "\<not> operational r" "e' = signalEnded e" "h' = with_kernel k h2"
  | (running) m a h2 k e2 needs where "reached c w (h\<lparr>hs_pools := hs_pools h + 1\<rparr>) m a h2"
      "\<exists>ip hop. rw_backend w = Inr (ip, hop, needs) \<and> sa_excludes a = engine_excludes c ip hop"
      "engine_setup exec c m a (CleanStaleAnchors exec (hs_kernel h)) = (True, k)"
      "(r, e2, h') = operate exec c w m a needs e (with_kernel k h2)" "e' = signalEnded e2"
proof -
  let ?h = "h\<lparr>hs_pools := hs_pools h + 1\<rparr>"
  show thesis
  proof (cases "rw_backend w")
    case (Inl err)
    then have "\<not> operational r" "\<not> setup_failed r" "e' = signalEnded e" "h' = h" using assms by (auto simp: engine_Run_def)
    then show thesis by (rule unreached [OF _ _ _ disjI1])
  next
    case (Inr b)
    obtain ip hop needs where b: "rw_backend w = Inr (ip, hop, needs)" using Inr by (cases b) auto
    consider (stop) "(\<exists>err. rw_routes w = MuxBroke err) \<or> (\<exists>err auto. effective_subnets c auto = Inl err \<and> r = RunFailed err) \<and> h' = ?h \<and> e' = signalEnded e"
      | (go) subnets e2 where "capture exec c w (engine_excludes c ip hop) subnets needs e ?h = (r, e2, h')" "e' = signalEnded e2"
      using assms b by (auto simp: engine_Run_def Let_def split: routes_reply.splits sum.splits prod.splits)
    then show thesis
    proof cases
      case stop
      then have "\<not> operational r" "\<not> setup_failed r" "e' = signalEnded e" "h' = ?h" using assms b by (auto simp: engine_Run_def Let_def)
      then show thesis by (rule unreached [OF _ _ _ disjI2])
    next
      case go
      show thesis
        by (rule capture_cases [OF go(1)])
          (use go(2) b in \<open>auto intro: early failed running\<close>)
    qed
  qed
qed

section \<open>What the caller can rely on\<close>

text \<open>
  C24: The three signals of a run agree. An engine reports that it is operational exactly when the run
  ended by itself or asks for a reconnect, and then the firewall had been set up; it keeps rules for the
  caller to release exactly when it asks for a reconnect. A run that stops early reports that it ended,
  so that nobody waits for it forever.
\<close>

theorem outcome_agrees:
  assumes "engine_Run exec c w new_engine h = (r, e', h')"
  shows "eg_ready e' = Some (operational r) \<and> (eg_kept e' = None \<longleftrightarrow> r \<noteq> ForReconnect) \<and>
    (if operational r
     then \<exists>m a. choose_method c (rw_hasNft w) = Inr m \<and> fst (fw_Setup exec m (engine_tproxy c) (ec_NoIPv6 c) a (CleanStaleAnchors exec (hs_kernel h)))
     else True)"
  using assms
proof (cases rule: engine_Run_cases)
  case unreached
  then show ?thesis by (auto simp: signalEnded_def new_engine_def)
next
  case early
  then show ?thesis by (auto simp: signalEnded_def new_engine_def)
next
  case (failed m a h2 k)
  then show ?thesis by (auto simp: signalEnded_def new_engine_def)
next
  case (running m a h2 k e2 needs)
  note o = operate_result [OF running(4) [symmetric]]
  have "eg_kept e2 = None \<longleftrightarrow> r \<noteq> ForReconnect"
    using o(1,10,11) by (cases "r = ForReconnect") (auto simp: operational_def new_engine_def)
  moreover have "eg_ready e2 = Some True" using o(2) by (simp add: signalReady_def new_engine_def)
  moreover have "choose_method c (rw_hasNft w) = Inr m" using running(1) by (simp add: reached_def)
  moreover have "fst (fw_Setup exec m (engine_tproxy c) (ec_NoIPv6 c) a (CleanStaleAnchors exec (hs_kernel h)))"
    using running(3) by (simp add: engine_setup_def)
  moreover have "eg_ready e' = eg_ready e2" "eg_kept e' = eg_kept e2"
    using calculation(2) running(5) by (auto simp: signalEnded_def)
  ultimately show ?thesis using o(1) by auto
qed

section \<open>Runs in one process\<close>

definition run_step :: "'k exec \<Rightarrow> 'k host \<Rightarrow> engine_config \<times> run_world \<Rightarrow> 'k host" where
  "run_step exec h cw = snd (snd (engine_Run exec (fst cw) (snd cw) new_engine h))"

text \<open>The system gives ports that are in use by nobody.\<close>

definition fresh_ports :: "'k host \<Rightarrow> engine_config \<times> run_world \<Rightarrow> bool" where
  "fresh_ports h cw \<longleftrightarrow>
     (case rw_tcpFree (snd cw) of Some p \<Rightarrow> p \<notin> set (hs_tcp h) | None \<Rightarrow> True) \<and>
     (case rw_udpFree (snd cw) of Some p \<Rightarrow> p \<notin> set (hs_udp h) | None \<Rightarrow> True)"

lemma pick_port_fresh:
  "pick_port (\<lambda>p. u p \<or> p \<in> S) free pref = Some q \<Longrightarrow> (case free of Some p \<Rightarrow> p \<notin> S | None \<Rightarrow> True) \<Longrightarrow> q \<notin> S"
  by (auto simp: pick_port_def split: if_splits)

definition ports_ok :: "'k host \<Rightarrow> bool" where
  "ports_ok h \<longleftrightarrow> distinct (hs_tcp h) \<and> distinct (hs_udp h)"

lemma reached_ports:
  assumes "reached c w h m a h2" "fresh_ports h (c, w)"
  shows "sa_proxyPort a \<notin> set (hs_tcp h)" "distinct (hs_udp h) \<Longrightarrow> distinct (hs_udp h2)" "hs_tcp h2 = hs_tcp h"
    "hs_pools h2 = hs_pools h" "set (hs_udp h) \<subseteq> set (hs_udp h2)"
proof -
  show "sa_proxyPort a \<notin> set (hs_tcp h)"
    using assms pick_port_fresh [of "rw_tcpUsed w" "set (hs_tcp h)" "rw_tcpFree w"] by (auto simp: reached_def fresh_ports_def)
  show "distinct (hs_udp h2)" if "distinct (hs_udp h)"
    using assms that pick_port_fresh [of "rw_udpUsed w" "set (hs_udp h)" "rw_udpFree w"] by (auto simp: reached_def fresh_ports_def split: if_splits)
qed (use assms in \<open>auto simp: reached_def split: if_splits\<close>)

lemma fresh_ports_pools [simp]: "fresh_ports (h\<lparr>hs_pools := n\<rparr>) cw \<longleftrightarrow> fresh_ports h cw"
  by (simp add: fresh_ports_def split: option.split)

lemma with_kernel_simps [simp]:
  "hs_kernel (with_kernel k h) = k" "hs_tcp (with_kernel k h) = hs_tcp h" "hs_udp (with_kernel k h) = hs_udp h"
  "hs_pools (with_kernel k h) = hs_pools h" "hs_cache (with_kernel k h) = hs_cache h"
  "hs_UseTProxy (with_kernel k h) = hs_UseTProxy h" "hs_OrigDst (with_kernel k h) = hs_OrigDst h"
  by (simp_all add: with_kernel_def)

lemma run_ports:
  assumes "ports_ok h" "fresh_ports h (c, w)" "engine_Run exec c w e h = (r, e', h')"
  shows "ports_ok h'"
  using assms(3)
proof (cases rule: engine_Run_cases)
  case unreached
  then show ?thesis using assms(1) by (auto simp: ports_ok_def)
next
  case early
  then show ?thesis
    using assms(1,2) pick_port_fresh [of "rw_udpUsed w" "set (hs_udp h)" "rw_udpFree w"] by (auto simp: ports_ok_def fresh_ports_def)
next
  case (failed m a h2 k)
  then show ?thesis using assms(1,2) reached_ports [OF failed(1)] by (simp add: ports_ok_def)
next
  case (running m a h2 k e2 needs)
  note p = reached_ports [OF running(1), unfolded fresh_ports_pools, OF assms(2)]
  note o = operate_result(7,8) [OF running(4) [symmetric]]
  have "distinct (hs_tcp h')" using p(1,3) o(1) assms(1) by (simp add: ports_ok_def)
  moreover have "distinct (hs_udp h')" using p(2) o(2) assms(1) by (auto simp: ports_ok_def)
  ultimately show ?thesis by (simp add: ports_ok_def)
qed

interpretation process: guarded_step "run_step exec" ports_ok fresh_ports for exec :: "'k exec"
proof
  fix h :: "'k host" and cw
  assume "ports_ok h" "fresh_ports h cw"
  then show "ports_ok (run_step exec h cw)"
    using run_ports [of h "fst cw" "snd cw" exec new_engine "fst (engine_Run exec (fst cw) (snd cw) new_engine h)"
        "fst (snd (engine_Run exec (fst cw) (snd cw) new_engine h))" "run_step exec h cw"]
    by (simp add: run_step_def)
qed

text \<open>
  In one process no reconnect uses the ports of the run before, although the port cache was written so
  that it does: nobody closes the listener of the old run, so the cached port is found in use and the
  system chooses another. (A process that starts anew does get the cached port.)
\<close>

lemma reconnect_new_port:
  assumes "engine_Run exec c w e1 h = (ForReconnect, e1', h1)" "rw_end w' \<noteq> ProxyEnded" "fresh_ports h1 (c', w')"
    and "engine_Run exec c' w' e2 h1 = (r, e2', h2)" "operational r"
  shows "hd (hs_tcp h2) \<noteq> hd (hs_tcp h1) \<and> hd (hs_tcp h1) \<in> set (hs_tcp h2) \<and>
    (if hs_cache h1 = NoDir then True else pc_ProxyPort (loadPortCache (hs_cache h1)) = hd (hs_tcp h1))"
proof -
  obtain m a g k e needs where one: "reached c w (h\<lparr>hs_pools := hs_pools h + 1\<rparr>) m a g"
    "(ForReconnect, e, h1) = operate exec c w m a needs e1 (with_kernel k g)"
    by (rule engine_Run_cases [OF assms(1)]) auto
  note o1 = operate_result [OF one(2) [symmetric]]
  have h1: "hs_tcp h1 = sa_proxyPort a # hs_tcp h"
    using o1(7,9) one(1) by (auto simp: reached_def)
  have cache: "hs_cache h1 = savePortCache \<lparr>pc_ProxyPort = sa_proxyPort a, pc_DNSPort = sa_dnsPort a, pc_StatsPort = rw_statsPort w\<rparr> (hs_cache h)"
    using o1(4) one(1) by (simp add: reached_def)
  obtain m' a' g' k' e' needs' where two: "reached c' w' (h1\<lparr>hs_pools := hs_pools h1 + 1\<rparr>) m' a' g'"
    "(r, e', h2) = operate exec c' w' m' a' needs' e2 (with_kernel k' g')"
    by (rule engine_Run_cases [OF assms(4)]) (use assms(5) in auto)
  note p = reached_ports [OF two(1), unfolded fresh_ports_pools, OF assms(3)]
  have "hs_tcp h2 = sa_proxyPort a' # hs_tcp h1"
    using operate_result(7) [OF two(2) [symmetric]] assms(2) p(3) by simp
  then show ?thesis
    using p(1) h1 cache by (cases "hs_cache h") auto
qed


text \<open>
  After a run with TPROXY the proxy of every later run in the process works in TPROXY mode, whatever
  its method: the two variables are set for TPROXY and never set back. A later run with nftables then
  takes the local address of a redirected connection for its destination.
\<close>

lemma tproxy_mode_stays:
  assumes "engine_Run exec c w e h = (r, e1, h1)" "operational r" "choose_method c (rw_hasNft w) = Inr (Tproxy b)"
  shows "hs_UseTProxy (foldl (run_step exec) h1 cws) \<and> \<not> hs_OrigDst (foldl (run_step exec) h1 cws)"
proof -
  have step: "hs_UseTProxy h' \<and> \<not> hs_OrigDst h'" if "engine_Run exec c w e h = (r, e', h')" "hs_UseTProxy h" "\<not> hs_OrigDst h"
    for c w e h r e' and h' :: "'a host"
    using that(1)
  proof (cases rule: engine_Run_cases)
    case (failed m a h2 k)
    then show ?thesis using that(2,3) by (cases m) (auto simp: reached_def)
  next
    case (running m a h2 k e2 needs)
    then show ?thesis using that(2,3) operate_result(5,6) [OF running(4) [symmetric]] by (cases m) (auto simp: reached_def)
  qed (use that(2,3) in auto)
  have "hs_UseTProxy h1 \<and> \<not> hs_OrigDst h1"
  proof (rule engine_Run_cases [OF assms(1)])
    fix m a h2 k e2 needs
    assume "reached c w (h\<lparr>hs_pools := hs_pools h + 1\<rparr>) m a h2" "(r, e2, h1) = operate exec c w m a needs e (with_kernel k h2)"
    then show ?thesis
      using assms(3) operate_result(5,6) [of exec c w m a needs e "with_kernel k h2" r e2 h1] by (auto simp: reached_def)
  qed (use assms(2) in auto)
  then show ?thesis
  proof (induction cws arbitrary: h1)
    case (Cons cw cws)
    have "hs_UseTProxy (run_step exec h1 cw) \<and> \<not> hs_OrigDst (run_step exec h1 cw)"
      using step [of "fst cw" "snd cw" new_engine h1] Cons.prems by (cases "engine_Run exec (fst cw) (snd cw) new_engine h1") (auto simp: run_step_def)
    then show ?case using Cons.IH by simp
  qed simp
qed

section \<open>A session of the terminal UI and the firewall\<close>

text \<open>
  What \<^verbatim>\<open>Session.loop\<close> (\<^verbatim>\<open>internal/tui/session.go\<close>) does with the rules that runs keep: \<open>last\<close> is the engine
  whose rules may still be installed. The list has the worlds of the runs to come; when it is empty, the
  user stops between two runs.
\<close>

definition release :: "'k exec \<Rightarrow> run_world \<Rightarrow> engine option \<Rightarrow> 'k host \<Rightarrow> 'k host" where
  "release exec w lst h = (case lst of None \<Rightarrow> h | Some e \<Rightarrow> snd (ReleaseFirewall exec w e h))"

fun session_runs :: "'k exec \<Rightarrow> engine_config \<Rightarrow> run_world \<Rightarrow> bool \<Rightarrow> engine option \<Rightarrow> run_world list \<Rightarrow> 'k host \<Rightarrow> 'k host" where
  "session_runs exec c w0 everConnected lst [] h = release exec w0 lst h"
| "session_runs exec c w0 everConnected lst (w # ws) h =
     (case engine_Run exec c w new_engine h of
        (Fatal _, _, h1) \<Rightarrow> h1
      | (r, e, h1) \<Rightarrow>
          let ready = (eg_ready e = Some True);
              ever = (everConnected \<or> ready);
              lst1 = (if r = ForReconnect then Some e else if ready then None else lst) in
          if r = RunDone \<and> rw_end w = StopAsked \<or> \<not> ever then release exec w lst1 h1
          else session_runs exec c w ever lst1 ws h1)"

definition no_fatal :: "'k exec \<Rightarrow> engine_config \<Rightarrow> run_world list \<Rightarrow> bool" where
  "no_fatal exec c ws \<longleftrightarrow> (\<forall>w\<in>set ws. rw_tcpFree w \<noteq> None)"

lemma engine_Run_fatal:
  assumes "engine_Run exec c w e h = (r, e', h')" "rw_tcpFree w \<noteq> None"
  shows "r \<noteq> Fatal x"
  using assms
  by (auto simp: engine_Run_def capture_def operate_def pick_proxy_port_def pick_port_def Let_def
      split: sum.splits prod.splits routes_reply.splits option.splits bool.splits if_splits run_end.splits)

text \<open>
  What is asked of the commands: removing the rules of the method leaves none, the clean-up adds none,
  and a set-up that fails on a system without rules leaves none (nftables loads a script as a whole).
\<close>

definition removes_rules :: "'k exec \<Rightarrow> engine_config \<Rightarrow> linux_fw \<Rightarrow> ('k \<Rightarrow> bool) \<Rightarrow> bool" where
  "removes_rules exec c m bare \<longleftrightarrow>
     (\<forall>k. bare (fw_Restore exec m (engine_tproxy c) k)) \<and> (\<forall>k. bare k \<longrightarrow> bare (CleanStaleAnchors exec k)) \<and>
     (\<forall>k a k'. bare k \<longrightarrow> fw_Setup exec m (engine_tproxy c) (ec_NoIPv6 c) a k = (False, k') \<longrightarrow> bare k')"

definition holds_rules :: "engine_config \<Rightarrow> linux_fw \<Rightarrow> ('k \<Rightarrow> bool) \<Rightarrow> engine option \<Rightarrow> 'k host \<Rightarrow> bool" where
  "holds_rules c m bare lst h =
     (case lst of None \<Rightarrow> bare (hs_kernel h) | Some e \<Rightarrow> eg_kept e = Some (Kept m (engine_tproxy c) (locks_ipv6 c)))"

lemma release_bare:
  assumes "removes_rules exec c m bare" "holds_rules c m bare lst h"
  shows "bare (hs_kernel (release exec w lst h))"
  using assms by (cases lst) (auto simp: release_def holds_rules_def ReleaseFirewall_def removes_rules_def)

lemma run_holds:
  assumes "removes_rules exec c m bare" "choose_method c (rw_hasNft w) = Inr m" "holds_rules c m bare lst h"
    and "engine_Run exec c w new_engine h = (r, e, h')"
  shows "holds_rules c m bare (if r = ForReconnect then Some e else if eg_ready e = Some True then None else lst) h'"
  using assms(4)
proof (cases rule: engine_Run_cases)
  case (failed m' a h2 k)
  then have "m' = m" using assms(2) by (auto simp: reached_def)
  then show ?thesis
    using failed assms(1,3) by (cases lst) (auto simp: holds_rules_def removes_rules_def engine_setup_def signalEnded_def new_engine_def)
next
  case (running m' a h2 k e2 needs)
  have m: "m' = m" using running(1) assms(2) by (auto simp: reached_def)
  note o = operate_result [OF running(4) [symmetric]]
  have ready: "eg_ready e = Some True" "eg_kept e = eg_kept e2"
    using o(2) running(5) by (auto simp: signalReady_def signalEnded_def new_engine_def)
  show ?thesis
  proof (cases "r = ForReconnect")
    case True
    then show ?thesis using o(10) ready m by (simp add: holds_rules_def)
  next
    case False
    then obtain k' where "hs_kernel h' = fw_Restore exec m' (engine_tproxy c) k'" using o(1,11) by (auto simp: operational_def)
    then show ?thesis using assms(1) ready False m by (simp add: holds_rules_def removes_rules_def)
  qed
qed (use assms(1,3) in \<open>cases lst; auto simp: holds_rules_def removes_rules_def signalEnded_def new_engine_def\<close>)+


text \<open>
  Without the last demand of \<open>removes_rules\<close> it fails: \<^verbatim>\<open>Restore\<close> is deferred only after \<^verbatim>\<open>Setup\<close> has
  succeeded. When the set-up of the first run fails half-way, as that of iptables can, what it installed
  stays, and no engine keeps anything to release.
\<close>

lemma failed_setup_stays:
  assumes "engine_Run exec c w new_engine h = (r, e', h')" "setup_failed r"
  shows "eg_kept e' = None \<and> (\<exists>m a. hs_kernel h' = snd (fw_Setup exec m (engine_tproxy c) (ec_NoIPv6 c) a (CleanStaleAnchors exec (hs_kernel h))))"
proof (rule engine_Run_cases [OF assms(1)])
  fix m a h2 k
  assume "engine_setup exec c m a (CleanStaleAnchors exec (hs_kernel h)) = (False, k)" "e' = signalEnded new_engine" "h' = with_kernel k h2"
  then show ?thesis by (intro conjI exI [of _ m] exI [of _ a]) (simp_all add: engine_setup_def signalEnded_def new_engine_def)
next
  fix m a h2 k e2 needs
  assume "(r, e2, h') = operate exec c w m a needs new_engine (with_kernel k h2)"
  then show ?thesis
    using assms(2) operate_result(1) [of exec c w m a needs new_engine "with_kernel k h2" r e2 h'] by (auto simp: operational_def setup_failed_def)
qed (use assms(2) in auto)

section \<open>The connection to the server\<close>

lemma addEx_mem: "set excludes \<subseteq> set (addEx x excludes)" "trim_space x \<noteq> [] \<Longrightarrow> trim_space x \<in> set (addEx x excludes)"
  by (auto simp: addEx_def Let_def)

lemma fold_addEx_mem: "x \<in> set ex \<Longrightarrow> x \<in> set (fold addEx xs ex)"
  by (induction xs arbitrary: ex) (use addEx_mem(1) in auto)

lemma engine_excludes_hop:
  assumes "trim_space (ip @ ''/32'') = ip @ ''/32''"
  shows "ip @ ''/32'' \<in> set (engine_excludes c server (Some ip))"
proof -
  have "ip @ ''/32'' \<in> set (addEx (ip @ ''/32'') (addEx (server @ ''/32'') (base_excludes c)))"
    using addEx_mem(2) [of "ip @ ''/32''"] assms by simp
  then show ?thesis by (simp add: engine_excludes_def fold_addEx_mem)
qed

text \<open>
  C32: The packets to the first hop are never captured, whatever else is excluded or captured and
  whatever the ports: the connection that carries the tunnel does not enter it. But the exemption is as
  wide as \<^verbatim>\<open>/32\<close> of the address: for an IPv6 hop every destination that shares its first 32 bits, a whole
  provider, passes the tunnel by.
\<close>

theorem carrier_exempt:
  assumes "trim_space (ip @ ''/32'') = ip @ ''/32''" "sa_excludes a = engine_excludes c server (Some ip)"
    and "pk_fam p = fam_of (IsIPv6CIDR (ip @ ''/32''))" "inn (ip @ ''/32'') (pk_dst p)"
  shows "fw_policy inn a p = Deliver"
proof -
  have "excluded inn a p"
    using engine_excludes_hop [OF assms(1)] assms(2-4) by (auto simp: excluded_def list_ex_iff)
  then show ?thesis by (simp add: fw_policy_def)
qed

section \<open>Examples\<close>

text \<open>A kernel of which only the presence of the table is known, and runs that differ in method and end.\<close>

definition table_exec :: "bool exec" where
  "table_exec c k =
     (if take 2 c = [''nft'', ''-f''] then (True, True) else if take 3 c = [''nft'', ''delete'', ''table''] then (k, False) else (True, k))"

definition method_config :: "string \<Rightarrow> engine_config" where
  "method_config m =
     \<lparr>ec_Backend = backendCfgFromProfile None example_profile, ec_SubnetStrings = [''10.0.0.0/8''], ec_FirewallMethod = m, ec_AutoNets = False,
      ec_DNSEnabled = True, ec_DNSTarget = [], ec_UDPProxy = False, ec_NoIPv6 = False, ec_NoIPv6Lockdown = False, ec_NoBlockUDP = False,
      ec_ExcludeNets = [], ec_TProxyMark = 1, ec_TProxyTable = 100, ec_Verbose = False, ec_LANSocks5 = [], ec_LANHTTP = []\<rparr>"

definition example_run :: "int \<Rightarrow> run_end \<Rightarrow> run_world" where
  "example_run p fin =
     \<lparr>rw_backend = Inr (''192.0.2.1'', Some ''192.0.2.1'', False), rw_routes = NoRoutes, rw_hasNft = True, rw_dnsServers = [''192.0.2.53''],
      rw_tcpUsed = (\<lambda>_. False), rw_tcpFree = Some p, rw_udpUsed = (\<lambda>_. False), rw_udpFree = Some p, rw_statsPort = 7000,
      rw_write = own_write, rw_order = (\<lambda>x. x), rw_entries = Inr [], rw_stored = None, rw_end = fin\<rparr>"

definition fresh_host :: "bool host" where
  "fresh_host = \<lparr>hs_kernel = False, hs_ipv6 = \<lparr>ih_sysctl = Map.empty, ih_state = NoFile\<rparr>, hs_cache = CacheFile None, hs_UseTProxy = False,
     hs_OrigDst = True, hs_FilterAAAA = False, hs_BindAddr = ''127.0.0.1'', hs_tcp = [], hs_udp = [], hs_pools = 0\<rparr>"

lemma example_subnets: "effective_subnets (method_config m) [] = Inr [\<lparr>sn_CIDR = ''10.0.0.0/8'', sn_PortLow = 0, sn_PortHigh = 0\<rparr>]"
proof -
  have "ParseSubnetRules [''10.0.0.0/8''] = Some [\<lparr>sn_CIDR = ''10.0.0.0/8'', sn_PortLow = 0, sn_PortHigh = 0\<rparr>]" by code_simp
  then show ?thesis by (simp add: effective_subnets_def method_config_def)
qed

lemma example_features: "missing_feature (method_config m) f [\<lparr>sn_CIDR = ''10.0.0.0/8'', sn_PortLow = 0, sn_PortHigh = 0\<rparr>] = None"
proof -
  have "\<not> sn_IsIPv6 \<lparr>sn_CIDR = ''10.0.0.0/8'', sn_PortLow = 0, sn_PortHigh = 0\<rparr>" by code_simp
  then show ?thesis by (simp add: missing_feature_def Let_def HasPortRange_def method_config_def)
qed

lemma example_nft: "choose_method (method_config ''nft'') True = Inr Nft"
  by (simp add: choose_method_def method_config_def newNamed_def newNamed_linux_def)

lemma example_tproxy: "choose_method (method_config ''tproxy'') True = Inr (Tproxy True)"
  by (simp add: choose_method_def method_config_def newNamed_def newNamed_linux_def)

lemma table_setup: "fst (fw_Setup table_exec m cfg blk a k) \<longleftrightarrow> True" if "m = Nft \<or> m = Tproxy True"
  using that by (auto simp: table_exec_def nft_load_def drop_tables_def routes_up_def route_up_def ip_rule_def ip_route_def Let_def split: prod.split bool.split)

lemma example_backend [simp]:
  "rw_backend (example_run p fin) = Inr (''192.0.2.1'', Some ''192.0.2.1'', False)" "rw_routes (example_run p fin) = NoRoutes"
  "rw_hasNft (example_run p fin) = True" "rw_tcpUsed (example_run p fin) x = False" "rw_tcpFree (example_run p fin) = Some p"
  "rw_udpUsed (example_run p fin) x = False" "rw_udpFree (example_run p fin) = Some p" "rw_end (example_run p fin) = fin"
  by (simp_all add: example_run_def)

lemma example_ports [simp]:
  "listen_dns (method_config n) (example_run p fin) g = (Inl e, g') \<longleftrightarrow> False" "pick_proxy_port (example_run p fin) g = None \<longleftrightarrow> False"
  by (auto simp: listen_dns_def pick_proxy_port_def pick_port_def)

lemma operate_end: "fst (operate exec c w m a needs e h) = (if rw_end w = MuxDied \<or> rw_end w = NetChanged then ForReconnect else RunDone)"
  by (cases "rw_end w") (simp_all add: operate_def Let_def)

text \<open>Such a run operates and ends as its world says.\<close>

lemma example_operates:
  assumes "choose_method (method_config n) True = Inr m" "m = Nft \<or> m = Tproxy True"
  shows "fst (engine_Run table_exec (method_config n) (example_run p fin) e h) =
    (if fin = MuxDied \<or> fin = NetChanged then ForReconnect else RunDone)"
proof -
  have s: "fw_Setup table_exec m cfg blk a k = (False, k') \<longleftrightarrow> False" for cfg blk a k k'
    using table_setup [OF assms(2), of cfg blk a k] by auto
  have cap: "fst (capture table_exec (method_config n) (example_run p fin) ex [\<lparr>sn_CIDR = ''10.0.0.0/8'', sn_PortLow = 0, sn_PortHigh = 0\<rparr>] needs e g) =
    (if fin = MuxDied \<or> fin = NetChanged then ForReconnect else RunDone)" for ex needs and g :: "bool host"
    unfolding capture_def Let_def
    by (auto simp: assms(1) example_features s operate_end split: prod.splits sum.splits option.splits bool.splits)
  show ?thesis
    using cap [of "engine_excludes (method_config n) ''192.0.2.1'' (Some ''192.0.2.1'')" False "h\<lparr>hs_pools := hs_pools h + 1\<rparr>"]
    by (simp add: engine_Run_def Let_def example_subnets case_prod_beta)
qed

definition nft_engine :: "int \<Rightarrow> run_end \<Rightarrow> bool host \<Rightarrow> engine" where
  "nft_engine p fin h = fst (snd (engine_Run table_exec (method_config ''nft'') (example_run p fin) new_engine h))"

definition nft_host :: "int \<Rightarrow> run_end \<Rightarrow> bool host \<Rightarrow> bool host" where
  "nft_host p fin h = snd (snd (engine_Run table_exec (method_config ''nft'') (example_run p fin) new_engine h))"

lemma nft_run_eq: "engine_Run table_exec (method_config ''nft'') (example_run p fin) new_engine h =
    (if fin = MuxDied \<or> fin = NetChanged then ForReconnect else RunDone, nft_engine p fin h, nft_host p fin h)"
  using example_operates [OF example_nft, of p fin new_engine h]
  by (cases "engine_Run table_exec (method_config ''nft'') (example_run p fin) new_engine h") (auto simp: nft_engine_def nft_host_def)

lemma outcome_agrees_witness:
  "eg_ready (nft_engine 4000 MuxDied fresh_host) = Some True \<and> eg_kept (nft_engine 4000 MuxDied fresh_host) \<noteq> None"
  using outcome_agrees [OF nft_run_eq [of 4000 MuxDied fresh_host]] by auto

lemma first_ports: "hs_tcp (nft_host 4000 MuxDied fresh_host) = [4000]" "hs_udp (nft_host 4000 MuxDied fresh_host) = [4000]"
proof -
  let ?h = "nft_host 4000 MuxDied fresh_host"
  have tcp: "hs_tcp ?h = [4000]" and udp: "hs_udp ?h = [4000] \<or> hs_udp ?h = [4000, 4000] \<and> (4000::int) \<notin> {4000}"
  proof (atomize (full), rule engine_Run_cases [OF nft_run_eq [of 4000 MuxDied fresh_host]])
    fix m a h2 k e2 needs
    assume r: "reached (method_config ''nft'') (example_run 4000 MuxDied) (fresh_host\<lparr>hs_pools := hs_pools fresh_host + 1\<rparr>) m a h2"
      and o: "(if MuxDied = MuxDied \<or> MuxDied = NetChanged then ForReconnect else RunDone, e2, ?h) =
        operate table_exec (method_config ''nft'') (example_run 4000 MuxDied) m a needs new_engine (with_kernel k h2)"
    have a: "sa_proxyPort a = 4000" "hs_tcp h2 = []" "hs_udp h2 = [4000]"
      using r by (auto simp: reached_def fresh_host_def pick_port_def method_config_def)
    show "hs_tcp ?h = [4000] \<and> (hs_udp ?h = [4000] \<or> hs_udp ?h = [4000, 4000] \<and> (4000::int) \<notin> {4000})"
      using operate_result(7,8) [OF o [symmetric]] a by auto
  qed auto
  then show "hs_tcp ?h = [4000]" "hs_udp ?h = [4000]" by auto
qed


lemma table_removes: "removes_rules table_exec (method_config ''nft'') Nft Not"
proof -
  have clean: "k \<Longrightarrow> False" if "\<not> k0" "k = CleanStaleAnchors table_exec k0" for k k0
    using that
    by (simp add: CleanStaleAnchors_def try_all_def CleanStaleAnchors_linux_def ipt_Restore_def drop_chain_def drop_block_def table_exec_def)
  moreover have "fw_Setup table_exec Nft cfg blk a k \<noteq> (False, k')" for cfg blk a k k'
    using table_setup [of Nft cfg blk a k] by (metis fst_conv)
  ultimately show ?thesis
    by (auto simp: removes_rules_def fw_Restore_def try_all_def table_exec_def simp del: fw_Setup.simps)
qed


text \<open>Any IPv6 destination that the test of the network puts into \<^verbatim>\<open>2001:db8::1/32\<close> is delivered past the tunnel.\<close>

lemma carrier_exempt_witness:
  "fw_policy (\<lambda>net dst. net = ''2001:db8::1/32'' \<and> take 4 dst = [0x20, 0x01, 0x0d, 0xb8])
     \<lparr>sa_subnets = [], sa_excludes = engine_excludes (method_config ''nft'') ''192.0.2.1'' (Some ''2001:db8::1''), sa_proxyPort = 12300, sa_dnsPort = 0, sa_dnsServers = []\<rparr>
     (web_packet\<lparr>pk_fam := Fam6, pk_dst := [0x20, 0x01, 0x0d, 0xb8, 9, 9, 9, 9, 9, 9, 9, 9, 9, 9, 9, 9]\<rparr>) = Deliver"
proof (rule carrier_exempt [where ip = "''2001:db8::1''" and server = "''192.0.2.1''" and c = "method_config ''nft''"])
  have "IsIPv6CIDR ''2001:db8::1/32''" by code_simp
  then show "pk_fam (web_packet\<lparr>pk_fam := Fam6, pk_dst := [0x20, 0x01, 0x0d, 0xb8, 9, 9, 9, 9, 9, 9, 9, 9, 9, 9, 9, 9]\<rparr>) = fam_of (IsIPv6CIDR (''2001:db8::1'' @ ''/32''))"
    by (simp add: fam_of_def)
qed (simp_all add: trim_space_def trim_right_by_def is_space_def)

end
