(* ===== verification/NetMon.thy ===== *)
theory NetMon
  imports GoNet "HOL-Library.Multiset" "HOL-Library.List_Lexorder" "HOL-Library.Char_ord"
begin

text \<open>
  The network monitor (\<^verbatim>\<open>internal/netmon/netmon.go\<close>, \<^verbatim>\<open>netmon_linux.go\<close>, \<^verbatim>\<open>netmon_retry.go\<close>): what counts as
  the identity of a network, when a change of it is believed, and the loop that reads the events of the
  kernel. What a read returns, when it does, and what the interfaces are then is an argument.
\<close>

section \<open>Fingerprints\<close>

record iface_snapshot =
  if_name :: string
  if_up :: bool
  if_loopback :: bool
  if_addrs :: "string list"

text \<open>\<^verbatim>\<open>netip.ParsePrefix\<close>: the length is digits without a leading zero, the address has no zone.\<close>

definition ParsePrefix :: "string \<Rightarrow> (nat list \<times> nat) option" where
  "ParsePrefix s =
     (case last_index_char (CHR ''/'') s of
        None \<Rightarrow> None
      | Some i \<Rightarrow>
          let addr = take i s; bits = drop (i + 1) s in
          (case ParseIP addr of
             None \<Rightarrow> None
           | Some ip \<Rightarrow>
               if bits = [] \<or> \<not> list_all is_digit bits \<or> length bits > 1 \<and> hd bits = CHR ''0'' \<or>
                  dec_val bits > (if CHR '':'' \<in> set addr then 128 else 32) then None
               else Some (ip, dec_val bits)))"

definition IsLinkLocalUnicast :: "nat list \<Rightarrow> bool" where
  "IsLinkLocalUnicast ip =
     (case To4 ip of
        Some v4 \<Rightarrow> take 2 v4 = [169, 254]
      | None \<Rightarrow> take 1 ip = [0xfe] \<and> ip ! 1 div 64 = 2)"

definition isLinkLocalCIDR :: "string \<Rightarrow> bool" where
  "isLinkLocalCIDR cidr = (case ParsePrefix cidr of None \<Rightarrow> False | Some (ip, _) \<Rightarrow> IsLinkLocalUnicast ip)"

definition routable :: "iface_snapshot \<Rightarrow> string list" where
  "routable f = filter (\<lambda>a. \<not> isLinkLocalCIDR a) (if_addrs f)"

definition counts :: "iface_snapshot \<Rightarrow> bool" where
  "counts f \<longleftrightarrow> if_up f \<and> \<not> if_loopback f \<and> routable f \<noteq> []"

definition iface_entry :: "iface_snapshot \<Rightarrow> string" where
  "iface_entry f = if_name f @ ''='' @ join_with '','' (sort (routable f))"

definition computeFingerprint :: "iface_snapshot list \<Rightarrow> string" where
  "computeFingerprint ifaces = join_with '';'' (sort (map iface_entry (filter counts ifaces)))"

text \<open>An error reading the interfaces gives the empty fingerprint, one reading the addresses none of them.\<close>

definition currentFingerprint :: "(string \<times> bool \<times> bool \<times> (error + string list)) list option \<Rightarrow> string" where
  "currentFingerprint ifaces =
     (case ifaces of
        None \<Rightarrow> []
      | Some fs \<Rightarrow> computeFingerprint (map (\<lambda>(n, up, lo, as). \<lparr>if_name = n, if_up = up, if_loopback = lo,
          if_addrs = (case as of Inl _ \<Rightarrow> [] | Inr xs \<Rightarrow> xs)\<rparr>) fs))"

section \<open>The fingerprint is that of the network\<close>

text \<open>What the fingerprint is meant to stand for: which interface holds which addresses.\<close>

definition network :: "iface_snapshot list \<Rightarrow> (string \<times> string multiset) multiset" where
  "network ifaces = image_mset (\<lambda>f. (if_name f, mset (routable f))) (mset (filter counts ifaces))"

definition plain_text :: "string \<Rightarrow> bool" where
  "plain_text s \<longleftrightarrow> CHR '';'' \<notin> set s \<and> CHR '','' \<notin> set s \<and> CHR ''='' \<notin> set s"

definition plain_iface :: "iface_snapshot \<Rightarrow> bool" where
  "plain_iface f \<longleftrightarrow> plain_text (if_name f) \<and> list_all plain_text (if_addrs f)"

definition entry_text :: "string \<times> string multiset \<Rightarrow> string" where
  "entry_text p = fst p @ ''='' @ join_with '','' (sorted_list_of_multiset (snd p))"

lemma entry_text: "iface_entry f = entry_text (if_name f, mset (routable f))"
  by (simp add: iface_entry_def entry_text_def sorted_list_of_multiset_mset)

lemma fingerprint_network: "computeFingerprint ifaces = join_with '';'' (sorted_list_of_multiset (image_mset entry_text (network ifaces)))"
proof -
  have "image_mset entry_text (network ifaces) = image_mset iface_entry (mset (filter counts ifaces))"
    unfolding network_def multiset.map_comp by (rule image_mset_cong) (simp add: entry_text)
  also have "\<dots> = mset (map iface_entry (filter counts ifaces))" by (simp only: mset_map)
  finally show ?thesis by (simp only: computeFingerprint_def sorted_list_of_multiset_mset)
qed

lemma join_no_char: "c \<notin> set sep \<Longrightarrow> list_all (\<lambda>s. c \<notin> set s) ss \<Longrightarrow> c \<notin> set (join_with sep ss)"
  by (induction sep ss rule: join_with.induct) auto

lemma split_first: "c \<notin> set x \<Longrightarrow> c \<notin> set x' \<Longrightarrow> x @ c # y = x' @ c # y' \<Longrightarrow> x = x' \<and> y = y'"
proof (induction x arbitrary: x')
  case Nil
  then show ?case by (cases x') auto
next
  case (Cons a x)
  then show ?case by (cases x') auto
qed

lemma join_with_inj:
  assumes "join_with [c] ps = join_with [c] qs" "ps \<noteq> []" "qs \<noteq> []" "list_all (\<lambda>p. c \<notin> set p) (ps @ qs)"
  shows "ps = qs"
proof -
  have "split_on c (join_with [c] ps) = ps" using assms(2,4) by (intro split_on_join) (auto simp: list_all_iff)
  moreover have "split_on c (join_with [c] qs) = qs" using assms(3,4) by (intro split_on_join) (auto simp: list_all_iff)
  ultimately show ?thesis using assms(1) by metis
qed

definition plain_entry :: "string \<times> string multiset \<Rightarrow> bool" where
  "plain_entry p \<longleftrightarrow> plain_text (fst p) \<and> snd p \<noteq> {#} \<and> (\<forall>a\<in>#snd p. plain_text a)"

lemma entry_text_inj:
  assumes "entry_text p = entry_text q" "plain_entry p" "plain_entry q"
  shows "p = q"
proof -
  let ?l = sorted_list_of_multiset
  have "fst p = fst q \<and> join_with '','' (?l (snd p)) = join_with '','' (?l (snd q))"
    using assms by (intro split_first [of "CHR ''=''"]) (auto simp: entry_text_def plain_entry_def plain_text_def)
  moreover have "?l (snd p) \<noteq> []" "?l (snd q) \<noteq> []"
    using assms(2,3) by (metis mset.simps(1) mset_sorted_list_of_multiset plain_entry_def)+
  ultimately have "?l (snd p) = ?l (snd q)"
    using assms(2,3) by (intro join_with_inj [of "CHR '',''"]) (auto simp: list_all_iff plain_entry_def plain_text_def)
  then show ?thesis
    using \<open>fst p = fst q \<and> _\<close> by (metis mset_sorted_list_of_multiset prod.expand)
qed

lemma entry_text_char:
  assumes "plain_entry p"
  shows "CHR '';'' \<notin> set (entry_text p)"
proof -
  have "CHR '';'' \<notin> set (join_with '','' (sorted_list_of_multiset (snd p)))"
    using assms by (intro join_no_char) (auto simp: list_all_iff plain_entry_def plain_text_def)
  then show ?thesis using assms by (auto simp: entry_text_def plain_entry_def plain_text_def)
qed

lemma join_entries_Nil:
  assumes "list_all (\<lambda>x. x \<noteq> []) xs"
  shows "join_with sep xs = [] \<longleftrightarrow> xs = []"
  using assms by (induction sep xs rule: join_with.induct) auto

lemma entry_text_nonempty [simp]: "entry_text p \<noteq> []"
  by (simp add: entry_text_def)

lemma network_plain:
  assumes "list_all plain_iface ifaces" "p \<in># network ifaces"
  shows "plain_entry p"
  using assms by (fastforce simp: network_def plain_entry_def plain_iface_def list_all_iff routable_def counts_def)

lemma image_mset_inj: "image_mset f A = image_mset f B \<Longrightarrow> inj_on f (set_mset A \<union> set_mset B) \<Longrightarrow> A = B"
proof -
  assume eq: "image_mset f A = image_mset f B" and inj: "inj_on f (set_mset A \<union> set_mset B)"
  let ?g = "the_inv_into (set_mset A \<union> set_mset B) f"
  have left_inv: "image_mset ?g (image_mset f C) = C" if "set_mset C \<subseteq> set_mset A \<union> set_mset B" for C
  proof -
    have "image_mset ?g (image_mset f C) = image_mset (\<lambda>x. x) C"
      unfolding multiset.map_comp using that inj by (intro image_mset_cong) (auto simp: the_inv_into_f_f subset_iff)
    then show ?thesis by simp
  qed
  have "image_mset ?g (image_mset f A) = A" "image_mset ?g (image_mset f B) = B" by (rule left_inv, simp)+
  then show "A = B" using eq by metis
qed

text \<open>
  C37: Two samples have the same fingerprint exactly when they show the same network: the same usable
  interfaces with the same routable addresses, in whatever order the system reports them, and with link-local
  addresses left out. (Interface names and addresses hold no comma, semicolon or equals sign.)
\<close>

theorem fingerprint_identifies:
  assumes "list_all plain_iface xs" "list_all plain_iface ys"
  shows "computeFingerprint xs = computeFingerprint ys \<longleftrightarrow> network xs = network ys"
proof
  assume eq: "computeFingerprint xs = computeFingerprint ys"
  let ?s = "\<lambda>zs. sorted_list_of_multiset (image_mset entry_text (network zs))"
  have ne: "list_all (\<lambda>x. x \<noteq> []) (?s zs)" for zs by (auto simp: list_all_iff)
  have "?s xs = ?s ys"
  proof (cases "?s xs = [] \<or> ?s ys = []")
    case True
    then show ?thesis
      using eq join_entries_Nil [OF ne [of xs]] join_entries_Nil [OF ne [of ys]] by (metis fingerprint_network join_with.simps(1))
  next
    case False
    have "list_all (\<lambda>p. CHR '';'' \<notin> set p) (?s xs @ ?s ys)"
      using network_plain [OF assms(1)] network_plain [OF assms(2)] entry_text_char by (auto simp: list_all_iff)
    then show ?thesis
      using eq False by (intro join_with_inj [of "CHR '';''"]) (auto simp: fingerprint_network)
  qed
  then have "image_mset entry_text (network xs) = image_mset entry_text (network ys)"
    by (metis mset_sorted_list_of_multiset)
  moreover have "inj_on entry_text (set_mset (network xs) \<union> set_mset (network ys))"
    using entry_text_inj network_plain [OF assms(1)] network_plain [OF assms(2)] by (intro inj_onI) blast
  ultimately show "network xs = network ys" by (rule image_mset_inj)
qed (simp add: fingerprint_network)

definition wifi :: "string list \<Rightarrow> iface_snapshot" where
  "wifi addrs = \<lparr>if_name = ''en0'', if_up = True, if_loopback = False, if_addrs = addrs\<rparr>"

lemma fingerprint_identifies_witness:
  "computeFingerprint [wifi [''10.0.1.71/24'', ''169.254.9.9/16'']] \<noteq> computeFingerprint [wifi [''10.0.2.71/24'', ''169.254.9.9/16'']]"
proof -
  have ll: "isLinkLocalCIDR ''169.254.9.9/16'' = True" "isLinkLocalCIDR ''10.0.1.71/24'' = False" "isLinkLocalCIDR ''10.0.2.71/24'' = False"
    by code_simp+
  have r: "routable (wifi [''10.0.1.71/24'', ''169.254.9.9/16'']) = [''10.0.1.71/24'']" "routable (wifi [''10.0.2.71/24'', ''169.254.9.9/16'']) = [''10.0.2.71/24'']"
    by (simp_all add: routable_def wifi_def ll)
  have "network [wifi [''10.0.1.71/24'', ''169.254.9.9/16'']] \<noteq> network [wifi [''10.0.2.71/24'', ''169.254.9.9/16'']]"
    by (simp add: network_def counts_def r) (simp add: wifi_def)
  moreover have "list_all plain_iface [wifi [''10.0.1.71/24'', ''169.254.9.9/16'']]" "list_all plain_iface [wifi [''10.0.2.71/24'', ''169.254.9.9/16'']]"
    by (simp_all add: plain_iface_def plain_text_def wifi_def)
  ultimately show ?thesis
    using fingerprint_identifies [of "[wifi [''10.0.1.71/24'', ''169.254.9.9/16'']]" "[wifi [''10.0.2.71/24'', ''169.254.9.9/16'']]"] by blast
qed

section \<open>Waiting until the network settles\<close>

definition fingerprintMaxPolls :: nat where "fingerprintMaxPolls = 30"
definition fingerprintStableCount :: nat where "fingerprintStableCount = 3"

text \<open>A poll: whether \<^verbatim>\<open>done\<close> is closed before it, and the sample after the pause.\<close>

type_synonym poll = "bool \<times> string"

fun settle_polls :: "string \<Rightarrow> string \<Rightarrow> nat \<Rightarrow> poll list \<Rightarrow> bool" where
  "settle_polls baseline lst streak [] = True"
| "settle_polls baseline lst streak ((stop, cur) # ps) =
     (if stop \<or> cur = baseline then False
      else if cur = [] then settle_polls baseline [] 0 ps
      else
        (let streak' = (if cur = lst then streak + 1 else 1) in
         if streak' \<ge> fingerprintStableCount then True else settle_polls baseline cur streak' ps))"

definition waitForStableFingerprint :: "string \<Rightarrow> poll list \<Rightarrow> bool" where
  "waitForStableFingerprint baseline ps = settle_polls baseline [] 0 (take fingerprintMaxPolls ps)"

text \<open>The rules of the comment: what ends the wait without a change, and what confirms one.\<close>

definition ends_wait :: "string \<Rightarrow> poll \<Rightarrow> bool" where
  "ends_wait baseline p \<longleftrightarrow> fst p \<or> snd p = baseline"

definition confirmed :: "poll list \<Rightarrow> nat \<Rightarrow> bool" where
  "confirmed ps j \<longleftrightarrow> 2 \<le> j \<and> snd (ps ! j) \<noteq> [] \<and> snd (ps ! (j - 1)) = snd (ps ! j) \<and> snd (ps ! (j - 2)) = snd (ps ! j)"

definition settles_back :: "string \<Rightarrow> poll list \<Rightarrow> bool" where
  "settles_back baseline ps \<longleftrightarrow> (\<exists>i<length ps. ends_wait baseline (ps ! i) \<and> (\<forall>j<i. \<not> confirmed ps j))"

text \<open>The state of the loop after the polls \<open>qs\<close>: the length of the run of equal samples at the end.\<close>

definition run_state :: "poll list \<Rightarrow> string \<Rightarrow> nat \<Rightarrow> bool" where
  "run_state qs lst streak \<longleftrightarrow>
     (if streak = 0 then lst = [] \<and> (qs = [] \<or> snd (last qs) = [])
      else lst \<noteq> [] \<and> streak \<le> length qs \<and> snd (last qs) = lst \<and>
        (streak = 1 \<and> (length qs = 1 \<or> snd (qs ! (length qs - 2)) \<noteq> lst) \<or> streak = 2 \<and> snd (qs ! (length qs - 2)) = lst))"

lemma confirmed_append: "j < length qs \<Longrightarrow> confirmed (qs @ ps) j = confirmed qs j"
  by (auto simp: confirmed_def nth_append)

lemma confirmed_last:
  "confirmed (qs @ p # ps) (length qs) \<longleftrightarrow> 2 \<le> length qs \<and> snd p \<noteq> [] \<and> snd (last qs) = snd p \<and> snd (qs ! (length qs - 2)) = snd p"
  by (cases qs rule: rev_cases) (auto simp: confirmed_def nth_append)

lemma run_state_step:
  assumes "run_state qs lst streak" "cur \<noteq> []" "streak' = (if cur = lst then streak + 1 else 1)"
  shows "3 \<le> streak' \<longleftrightarrow> confirmed (qs @ (stop, cur) # ps) (length qs)" "\<not> 3 \<le> streak' \<Longrightarrow> run_state (qs @ [(stop, cur)]) cur streak'"
proof -
  have shape: "streak = 0 \<and> lst = [] \<and> (qs = [] \<or> snd (last qs) = []) \<or>
      streak = 1 \<and> qs \<noteq> [] \<and> snd (last qs) = lst \<and> (length qs = 1 \<or> snd (qs ! (length qs - 2)) \<noteq> lst) \<or>
      streak = 2 \<and> 2 \<le> length qs \<and> snd (last qs) = lst \<and> snd (qs ! (length qs - 2)) = lst"
    using assms(1) by (auto simp: run_state_def split: if_splits)
  show "3 \<le> streak' \<longleftrightarrow> confirmed (qs @ (stop, cur) # ps) (length qs)"
    using shape assms(2,3) by (auto simp: confirmed_last)
  show "run_state (qs @ [(stop, cur)]) cur streak'" if "\<not> 3 \<le> streak'"
    using shape assms(2,3) that
    by (cases qs rule: rev_cases) (auto simp: run_state_def nth_append split: if_splits)
qed

lemma settle_spec:
  assumes "run_state qs lst streak" "\<forall>i<length qs. \<not> ends_wait baseline (qs ! i)" "\<forall>j<length qs. \<not> confirmed qs j"
  shows "settle_polls baseline lst streak ps \<longleftrightarrow> \<not> settles_back baseline (qs @ ps)"
  using assms
proof (induction ps arbitrary: qs lst streak)
  case Nil
  then show ?case by (auto simp: settles_back_def)
next
  case (Cons p ps)
  obtain stop cur where p: "p = (stop, cur)" by (cases p)
  have before: "\<not> ends_wait baseline ((qs @ p # ps) ! i)" "\<not> confirmed (qs @ p # ps) i" if "i < length qs" for i
    using Cons.prems(2,3) that by (auto simp: nth_append confirmed_append)
  have append: "qs @ p # ps = (qs @ [p]) @ ps" by simp
  have next_state: "settle_polls baseline l k ps \<longleftrightarrow> \<not> settles_back baseline (qs @ p # ps)"
    if "run_state (qs @ [p]) l k" "\<not> ends_wait baseline p" "\<not> confirmed (qs @ p # ps) (length qs)" for l k
    unfolding append
  proof (rule Cons.IH [OF that(1)])
    show "\<forall>i<length (qs @ [p]). \<not> ends_wait baseline ((qs @ [p]) ! i)"
      using Cons.prems(2) that(2) by (auto simp: nth_append less_Suc_eq)
    show "\<forall>j<length (qs @ [p]). \<not> confirmed (qs @ [p]) j"
      using before(2) that(3) confirmed_append [of _ "qs @ [p]" ps] by (auto simp: less_Suc_eq)
  qed
  consider (ends) "ends_wait baseline p" | (empty) "\<not> ends_wait baseline p" "cur = []" | (other) "\<not> ends_wait baseline p" "cur \<noteq> []"
    by blast
  then show ?case
  proof cases
    case ends
    then have "settles_back baseline (qs @ p # ps)"
      using before(2) unfolding settles_back_def by (intro exI [of _ "length qs"]) simp
    then show ?thesis using ends p by (auto simp: ends_wait_def)
  next
    case empty
    have "run_state (qs @ [p]) [] 0" using empty p by (simp add: run_state_def)
    then show ?thesis
      using next_state [of "[]" 0] empty p by (auto simp: ends_wait_def confirmed_last)
  next
    case other
    define k where "k = (if cur = lst then streak + 1 else 1)"
    note step = run_state_step [OF Cons.prems(1) other(2) k_def, of stop]
    have eq: "settle_polls baseline lst streak (p # ps) = (if 3 \<le> k then True else settle_polls baseline cur k ps)"
      using other p by (simp add: k_def ends_wait_def fingerprintStableCount_def)
    show ?thesis
    proof (cases "3 \<le> k")
      case True
      then have conf: "confirmed (qs @ p # ps) (length qs)" using step(1) p by simp
      have "\<not> settles_back baseline (qs @ p # ps)"
        unfolding settles_back_def
      proof (intro notI, elim exE conjE)
        fix i
        assume i: "ends_wait baseline ((qs @ p # ps) ! i)" "\<forall>j<i. \<not> confirmed (qs @ p # ps) j"
        then have "length qs \<ge> i" using conf by (meson not_le)
        moreover have "i \<noteq> length qs" using i(1) other(1) by auto
        ultimately show False using before(1) [of i] i(1) by simp
      qed
      then show ?thesis using eq True by simp
    next
      case False
      then show ?thesis
        using eq next_state [of cur k] step p other(1) by simp
    qed
  qed
qed

lemma wait_rule: "waitForStableFingerprint baseline ps \<longleftrightarrow> \<not> settles_back baseline (take fingerprintMaxPolls ps)"
  using settle_spec [of "[]" "[]" 0 baseline "take fingerprintMaxPolls ps"] by (simp add: waitForStableFingerprint_def run_state_def)

text \<open>
  C35: A network event leads to a reconnect unless, within the thirty polls, the fingerprint returns to the
  one of the start (or the caller is done) before three polls in a row have shown the same other network.
  An empty sample is no evidence of a switch.
\<close>

theorem wait_decision:
  "waitForStableFingerprint baseline ps \<longleftrightarrow> \<not> settles_back baseline (take fingerprintMaxPolls ps)"
  by (rule wait_rule)

section \<open>Watching\<close>

text \<open>
  What a turn of the loop finds: \<^verbatim>\<open>done\<close> closed, a failing call, or a message with its length, the time
  since the start, its type and the polls that would follow.
\<close>

datatype turn = DoneClosed | TimeoutFails error | ReadFails string error | Message nat nat nat "poll list"

datatype watch_result = Watching | Stopped | Switched | WatchFailed error

definition isRetryableRecvErr :: "string \<Rightarrow> bool" where
  "isRetryableRecvErr e \<longleftrightarrow> e = ''EAGAIN'' \<or> e = ''EWOULDBLOCK'' \<or> e = ''EINTR''"

definition isRelevantChange :: "nat \<Rightarrow> bool" where
  "isRelevantChange t \<longleftrightarrow> t \<in> {16, 17, 20, 21}"

definition grace :: nat where "grace = 5"

fun watch :: "string \<Rightarrow> turn list \<Rightarrow> watch_result" where
  "watch baseline [] = Watching"
| "watch baseline (DoneClosed # ts) = Stopped"
| "watch baseline (TimeoutFails e # ts) = WatchFailed e"
| "watch baseline (ReadFails n e # ts) = (if isRetryableRecvErr n then watch baseline ts else WatchFailed e)"
| "watch baseline (Message len since t ps # ts) =
     (if len \<ge> 16 \<and> since \<ge> grace \<and> isRelevantChange t \<and> waitForStableFingerprint baseline ps then Switched
      else watch baseline ts)"

lemma watch_switched:
  "watch baseline ts = Switched \<Longrightarrow>
     \<exists>len since t ps. Message len since t ps \<in> set ts \<and> since \<ge> grace \<and> isRelevantChange t \<and> \<not> settles_back baseline (take fingerprintMaxPolls ps)"
  by (induction baseline ts rule: watch.induct) (auto simp: wait_rule split: if_splits)

text \<open>
  The events of the first five seconds are dropped, not postponed: a switch of the network in that time
  is never noticed unless another event follows.
\<close>

lemma early_switch_missed:
  "\<forall>t\<in>set ts. (\<exists>len since ty ps. t = Message len since ty ps \<and> since < grace) \<Longrightarrow> watch baseline ts = Watching"
  by (induction ts) auto

end
