(* ===== verification/LogFile.thy ===== *)
theory LogFile
  imports GoText
begin

text \<open>
  The rotating log file (\<^verbatim>\<open>internal/logfile/logfile.go\<close>). The directory is a function from the number of a
  backup to its content, 0 for the log itself; each \<^verbatim>\<open>Write\<close> is told the time stamp, whether the log can be
  opened again after a rotation, and how many bytes the disk takes. Opening and asking for the size count
  as one call.
\<close>

definition DefaultMaxSize :: nat where "DefaultMaxSize = 64 * 1024 * 1024"
definition DefaultMaxBackups :: nat where "DefaultMaxBackups = 3"

type_synonym log_dir = "nat \<Rightarrow> string option"

record rot_writer =
  rw_maxSize :: nat
  rw_maxBackups :: nat
  rw_dir :: log_dir
  rw_file :: bool
  rw_size :: nat

text \<open>\<open>rw_file\<close> is whether the file the writer holds is open.\<close>

record write_env =
  we_stamp :: string
  we_reopen :: "error option"
  we_room :: nat

definition openExisting :: "error option \<Rightarrow> rot_writer \<Rightarrow> error option \<times> rot_writer" where
  "openExisting err w =
     (case err of
        Some e \<Rightarrow> (Some (Wrapped ''logfile: open'' e), w)
      | None \<Rightarrow>
          let content = (case rw_dir w 0 of None \<Rightarrow> [] | Some s \<Rightarrow> s) in
          (None, w\<lparr>rw_dir := (rw_dir w)(0 \<mapsto> content), rw_file := True, rw_size := length content\<rparr>))"

definition new_writer :: "error option \<Rightarrow> error option \<Rightarrow> int \<Rightarrow> int \<Rightarrow> log_dir \<Rightarrow> error + rot_writer" where
  "new_writer mkdir err maxSize maxBackups dir =
     (let w = \<lparr>rw_maxSize = (if maxSize \<le> 0 then DefaultMaxSize else nat maxSize),
               rw_maxBackups = (if maxBackups \<le> 0 then DefaultMaxBackups else nat maxBackups),
               rw_dir = dir, rw_file = False, rw_size = 0\<rparr> in
      case mkdir of
        Some e \<Rightarrow> Inl (Wrapped ''logfile: mkdir'' e)
      | None \<Rightarrow> (case openExisting err w of (Some e, _) \<Rightarrow> Inl e | (None, w1) \<Rightarrow> Inr w1))"

section \<open>Time stamps\<close>

definition EOL :: char where "EOL = CHR 0x0A"

fun stamp_lines :: "string \<Rightarrow> string \<Rightarrow> string \<Rightarrow> string" where
  "stamp_lines ts line [] = (if line = [] then [] else ts @ line)"
| "stamp_lines ts line (b # p) =
     (if b = EOL then ts @ line @ [b] @ stamp_lines ts [] p else stamp_lines ts (line @ [b]) p)"

definition addTimestamps :: "string \<Rightarrow> string \<Rightarrow> string" where
  "addTimestamps ts p =
     (if p \<noteq> [] \<and> last p = EOL \<and> count_list p EOL = 1 then ts @ p else stamp_lines ts [] p)"

lemma stamp_lines_no_lf: "EOL \<notin> set q \<Longrightarrow> stamp_lines ts line (q @ EOL # p) = ts @ line @ q @ EOL # stamp_lines ts [] p"
  by (induction q arbitrary: line) auto

text \<open>The fast path is the slow one.\<close>

lemma addTimestamps_lines: "addTimestamps ts p = stamp_lines ts [] p"
proof (cases "p \<noteq> [] \<and> last p = EOL \<and> count_list p EOL = 1")
  case True
  then obtain q where p: "p = q @ [EOL]" by (metis append_butlast_last_id)
  then have "count_list q EOL = 0" using True by (simp add: p)
  then have "EOL \<notin> set q" by (simp add: count_list_0_iff)
  then have "stamp_lines ts [] p = ts @ p" using stamp_lines_no_lf [of q ts "[]" "[]"] p by simp
  then show ?thesis unfolding addTimestamps_def if_P [OF True] by simp
next
  case False
  show ?thesis unfolding addTimestamps_def if_not_P [OF False] ..
qed

section \<open>Rotation\<close>

text \<open>One turn of the loop: the last backup is removed, and a rename without a source does nothing.\<close>

definition shift_one :: "nat \<Rightarrow> nat \<Rightarrow> log_dir \<Rightarrow> log_dir" where
  "shift_one mx i d =
     (let d1 = (if i = mx then d(i := None) else d) in
      case d1 (i - 1) of None \<Rightarrow> d1 | Some s \<Rightarrow> d1(i \<mapsto> s, i - 1 := None))"

definition shift_backups :: "nat \<Rightarrow> log_dir \<Rightarrow> log_dir" where
  "shift_backups mx d = fold (shift_one mx) (rev [1..<mx + 1]) d"

definition rotate_log :: "error option \<Rightarrow> rot_writer \<Rightarrow> error option \<times> rot_writer" where
  "rotate_log err w = openExisting err (w\<lparr>rw_file := False, rw_dir := shift_backups (rw_maxBackups w) (rw_dir w)\<rparr>)"

text \<open>The result is that of \<^verbatim>\<open>File.Write\<close>; the caller is always told that everything was written.\<close>

definition log_Write :: "write_env \<Rightarrow> string \<Rightarrow> rot_writer \<Rightarrow> (nat \<times> bool) \<times> rot_writer" where
  "log_Write e p w =
     (let stamped = addTimestamps (we_stamp e) p;
          w1 = (if rw_size w + length stamped > rw_maxSize w then snd (rotate_log (we_reopen e) w) else w);
          n = (if rw_file w1 then min (we_room e) (length stamped) else 0);
          dir = (if rw_file w1 then (rw_dir w1)(0 := map_option (\<lambda>s. s @ take n stamped) (rw_dir w1 0)) else rw_dir w1)
      in ((length p, n < length stamped), w1\<lparr>rw_dir := dir, rw_size := rw_size w1 + n\<rparr>))"

definition log_Close :: "rot_writer \<Rightarrow> rot_writer" where
  "log_Close w = w\<lparr>rw_file := False\<rparr>"

definition log_writes :: "(write_env \<times> string) list \<Rightarrow> rot_writer \<Rightarrow> rot_writer" where
  "log_writes ps w = fold (\<lambda>(e, p) w. snd (log_Write e p w)) ps w"

lemma fold_shift:
  assumes "0 < mx" "m \<le> mx" "m < mx \<Longrightarrow> d m = None"
  shows "fold (shift_one mx) (rev [1..<m + 1]) d i =
    (if i = 0 then (if m = 0 then d 0 else None) else if i \<le> m then d (i - 1) else d i)"
  using assms(2,3)
proof (induction m arbitrary: d)
  case (Suc m)
  have up: "rev [1..<Suc m + 1] = Suc m # rev [1..<m + 1]" by simp
  let ?d = "shift_one mx (Suc m) d"
  have step: "?d j = (if j = Suc m then d m else if j = m then None else d j)" for j
    using Suc.prems by (cases "d m"; cases "Suc m = mx") (auto simp: shift_one_def Let_def)
  have IH: "fold (shift_one mx) (rev [1..<m + 1]) ?d i =
    (if i = 0 then (if m = 0 then ?d 0 else None) else if i \<le> m then ?d (i - 1) else ?d i)"
    using Suc.prems by (intro Suc.IH) (auto simp: step)
  have "fold (shift_one mx) (rev [1..<Suc m + 1]) d = fold (shift_one mx) (rev [1..<m + 1]) ?d"
    unfolding up by simp
  moreover have "?d 0 = (if m = 0 then None else d 0)" using step [of 0] by auto
  ultimately show ?case
    using IH step [of i] step [of "i - 1"] by (auto simp del: One_nat_def)
qed simp

lemma shift_backups:
  assumes "0 < mx"
  shows "shift_backups mx d i = (if i = 0 then None else if i \<le> mx then d (i - 1) else d i)"
  using fold_shift [OF assms, of mx d i] assms by (auto simp: shift_backups_def)

section \<open>What the files hold\<close>

definition content :: "rot_writer \<Rightarrow> nat \<Rightarrow> string" where
  "content w i = (case rw_dir w i of None \<Rightarrow> [] | Some s \<Rightarrow> s)"

text \<open>The numbers of the files, oldest first.\<close>

definition file_order :: "rot_writer \<Rightarrow> nat list" where
  "file_order w = rev [0..<rw_maxBackups w + 1]"

text \<open>
  \<open>split_into w chunks dropped g\<close>: of the chunks written the oldest are gone, the others are distributed
  over the files in their order, no chunk over two files.
\<close>

definition split_into :: "rot_writer \<Rightarrow> string list \<Rightarrow> string list \<Rightarrow> (nat \<Rightarrow> string list) \<Rightarrow> bool" where
  "split_into w chunks dropped g \<longleftrightarrow>
     chunks = dropped @ concat (map g (file_order w)) \<and>
     (\<forall>i\<le>rw_maxBackups w. content w i = concat (g i) \<and> (length (content w i) \<le> rw_maxSize w \<or> (\<exists>c. g i = [c])))"

definition writer_ok :: "rot_writer \<Rightarrow> bool" where
  "writer_ok w \<longleftrightarrow> 0 < rw_maxBackups w \<and> rw_file w \<and> rw_dir w 0 = Some (content w 0) \<and> rw_size w = length (content w 0)"

definition disk_takes :: "write_env \<Rightarrow> string \<Rightarrow> bool" where
  "disk_takes e p \<longleftrightarrow> we_reopen e = None \<and> length (addTimestamps (we_stamp e) p) \<le> we_room e"

lemma order_rotated:
  "concat (map (\<lambda>i. if i = 0 then xs else g (i - 1)) (rev [0..<n + 1])) = concat (map g (rev [0..<n])) @ xs"
proof -
  have "rev [0..<n + 1] = map Suc (rev [0..<n]) @ [0]"
    by (simp add: rev_map [symmetric] map_Suc_upt upt_conv_Cons del: upt_Suc)
  then show ?thesis by (simp add: comp_def)
qed

lemma order_last: "concat (map (g(0 := g 0 @ [c])) (rev [0..<n + 1])) = concat (map g (rev [0..<n + 1])) @ [c]"
proof -
  have "rev [0..<n + 1] = rev [1..<n + 1] @ [0]" by (simp add: upt_conv_Cons del: upt_Suc)
  moreover have "map (g(0 := x)) (rev [1..<n + 1]) = map g (rev [1..<n + 1])" for x by auto
  ultimately show ?thesis by simp
qed

lemma rotate_split:
  assumes "writer_ok w" "split_into w chunks dropped g" "rotate_log None w = (r, w')"
  shows "writer_ok w'" "split_into w' chunks (dropped @ g (rw_maxBackups w)) (\<lambda>i. if i = 0 then [] else g (i - 1))"
    "rw_maxSize w' = rw_maxSize w" "content w' 0 = []" "rw_maxBackups w' = rw_maxBackups w"
proof -
  let ?mx = "rw_maxBackups w"
  have mx: "0 < ?mx" using assms(1) by (simp add: writer_ok_def)
  have w': "w' = w\<lparr>rw_dir := (shift_backups ?mx (rw_dir w))(0 \<mapsto> []), rw_file := True, rw_size := 0\<rparr>"
    using assms(3) shift_backups [OF mx, of "rw_dir w" 0] by (simp add: rotate_log_def openExisting_def Let_def)
  have cont: "content w' i = (if i = 0 then [] else content w (i - 1))" if "i \<le> ?mx" for i
    using that shift_backups [OF mx, of "rw_dir w" i] by (simp add: w' content_def)
  show "writer_ok w'" "rw_maxSize w' = rw_maxSize w" "content w' 0 = []" "rw_maxBackups w' = ?mx"
    using mx by (simp_all add: w' writer_ok_def content_def)
  show "split_into w' chunks (dropped @ g ?mx) (\<lambda>i. if i = 0 then [] else g (i - 1))"
    unfolding split_into_def
  proof
    have "chunks = dropped @ g ?mx @ concat (map g (rev [0..<?mx]))"
      using assms(2) by (simp add: split_into_def file_order_def)
    then show "chunks = (dropped @ g ?mx) @ concat (map (\<lambda>i. if i = 0 then [] else g (i - 1)) (file_order w'))"
      using order_rotated [of "[]" g ?mx] by (simp add: file_order_def w' del: upt_Suc)
    show "\<forall>i\<le>rw_maxBackups w'. content w' i = concat (if i = 0 then [] else g (i - 1)) \<and>
        (length (content w' i) \<le> rw_maxSize w' \<or> (\<exists>c. (if i = 0 then [] else g (i - 1)) = [c]))"
    proof (intro allI impI)
      fix i
      assume i: "i \<le> rw_maxBackups w'"
      have mx': "rw_maxBackups w' = ?mx" "rw_maxSize w' = rw_maxSize w" by (simp_all add: w')
      show "content w' i = concat (if i = 0 then [] else g (i - 1)) \<and>
        (length (content w' i) \<le> rw_maxSize w' \<or> (\<exists>c. (if i = 0 then [] else g (i - 1)) = [c]))"
      proof (cases i)
        case (Suc j)
        then have j: "j \<le> rw_maxBackups w" using i mx' by simp
        have "content w j = concat (g j) \<and> (length (content w j) \<le> rw_maxSize w \<or> (\<exists>c. g j = [c]))"
          using assms(2) [unfolded split_into_def] j by blast
        moreover have "content w' i = content w j" using cont [of i] i mx' Suc by simp
        ultimately show ?thesis using mx' Suc by (metis diff_Suc_1 nat.distinct(1))
      qed (use cont [of 0] in simp)
    qed
  qed
qed

lemma append_split:
  assumes "writer_ok w" "split_into w chunks dropped g" "disk_takes e p" "w' = w\<lparr>rw_dir := (rw_dir w)(0 := map_option (\<lambda>s. s @ c) (rw_dir w 0)), rw_size := rw_size w + length c\<rparr>"
    "length (content w 0) + length c \<le> rw_maxSize w \<or> g 0 = []"
  shows "writer_ok w' \<and> split_into w' (chunks @ [c]) dropped (g(0 := g 0 @ [c]))"
proof -
  have cont: "content w' i = (if i = 0 then content w 0 @ c else content w i)" for i
    using assms(1,4) by (cases i) (auto simp: content_def writer_ok_def split: option.splits)
  have "writer_ok w'"
    using assms(1,4) cont [of 0] by (auto simp: writer_ok_def)
  moreover have "split_into w' (chunks @ [c]) dropped (g(0 := g 0 @ [c]))"
    using assms(2,4,5) cont order_last [of g c "rw_maxBackups w"] by (auto simp: split_into_def file_order_def simp del: upt_Suc)
  ultimately show ?thesis ..
qed

lemma write_split:
  assumes "writer_ok w" "split_into w chunks dropped g" "disk_takes e p" "log_Write e p w = (r, w')"
  shows "writer_ok w' \<and> rw_maxSize w' = rw_maxSize w \<and> rw_maxBackups w' = rw_maxBackups w \<and>
    (\<exists>dropped g. split_into w' (chunks @ [addTimestamps (we_stamp e) p]) dropped g \<and> g 0 \<noteq> [])"
proof -
  define c where "c = addTimestamps (we_stamp e) p"
  have takes: "we_reopen e = None" "min (we_room e) (length c) = length c" using assms(3) by (auto simp: disk_takes_def c_def)
  show ?thesis
  proof (cases "rw_size w + length c > rw_maxSize w")
    case True
    obtain r1 w1 where rot: "rotate_log None w = (r1, w1)" by (cases "rotate_log None w")
    note rs = rotate_split [OF assms(1,2) rot]
    have "w' = w1\<lparr>rw_dir := (rw_dir w1)(0 := map_option (\<lambda>s. s @ c) (rw_dir w1 0)), rw_size := rw_size w1 + length c\<rparr>"
      using assms(4) True rot takes rs(1) by (auto simp: log_Write_def Let_def c_def [symmetric] writer_ok_def)
    from append_split [OF rs(1,2) assms(3) this] rs show ?thesis
      using \<open>w' = _\<close> by (fastforce simp: c_def)
  next
    case False
    have "w' = w\<lparr>rw_dir := (rw_dir w)(0 := map_option (\<lambda>s. s @ c) (rw_dir w 0)), rw_size := rw_size w + length c\<rparr>"
      using assms(1,4) False takes by (auto simp: log_Write_def Let_def c_def [symmetric] writer_ok_def)
    from append_split [OF assms(1,2,3) this] show ?thesis
      using assms(1) False \<open>w' = _\<close> by (fastforce simp: c_def writer_ok_def)
  qed
qed

definition fresh_dir :: log_dir where "fresh_dir = (\<lambda>_. None)"

lemma log_writes_split:
  assumes "new_writer None None mxs mxb fresh_dir = Inr w0" "list_all (\<lambda>(e, p). disk_takes e p) ps"
  shows "writer_ok (log_writes ps w0) \<and> rw_maxBackups (log_writes ps w0) = (if mxb \<le> 0 then DefaultMaxBackups else nat mxb) \<and>
    (\<exists>dropped g. split_into (log_writes ps w0) (map (\<lambda>(e, p). addTimestamps (we_stamp e) p) ps) dropped g \<and> (ps = [] \<or> g 0 \<noteq> []))"
proof -
  have w0: "w0 = \<lparr>rw_maxSize = rw_maxSize w0, rw_maxBackups = rw_maxBackups w0, rw_dir = fresh_dir(0 \<mapsto> []), rw_file = True, rw_size = 0\<rparr>"
    "0 < rw_maxBackups w0" "rw_maxBackups w0 = (if mxb \<le> 0 then DefaultMaxBackups else nat mxb)"
    using assms(1) by (auto simp: new_writer_def openExisting_def fresh_dir_def Let_def DefaultMaxBackups_def split: if_splits)
  have empty: "content w0 i = []" for i
    by (subst w0(1)) (simp add: content_def fresh_dir_def)
  have ok: "writer_ok w0" by (subst w0(1)) (simp add: w0(2) writer_ok_def content_def)
  have none: "split_into w0 [] [] (\<lambda>_. [])" by (simp add: split_into_def empty)
  have "writer_ok (log_writes ps w0) \<and> rw_maxBackups (log_writes ps w0) = rw_maxBackups w0 \<and>
      (\<exists>dropped g. split_into (log_writes ps w0) (map (\<lambda>(e, p). addTimestamps (we_stamp e) p) ps) dropped g \<and> (ps = [] \<or> g 0 \<noteq> []))"
    using assms(2)
  proof (induction ps rule: rev_induct)
    case Nil
    then show ?case using ok none by (auto simp: log_writes_def)
  next
    case (snoc q qs)
    obtain e p where q: "q = (e, p)" by (cases q)
    obtain r w' where w': "log_Write e p (log_writes qs w0) = (r, w')" by (cases "log_Write e p (log_writes qs w0)")
    have last: "log_writes (qs @ [q]) w0 = w'" using w' by (simp add: q log_writes_def)
    obtain dropped g where qs: "split_into (log_writes qs w0) (map (\<lambda>(e, p). addTimestamps (we_stamp e) p) qs) dropped g"
      "writer_ok (log_writes qs w0)" "rw_maxBackups (log_writes qs w0) = rw_maxBackups w0"
      using snoc by auto
    have "disk_takes e p" using snoc.prems by (simp add: q)
    from write_split [OF qs(2,1) this w'] qs(3) show ?case unfolding last by (simp add: q)
  qed
  then show ?thesis using w0(3) by simp
qed

text \<open>
  While the disk takes what is written, the files of a log hold, oldest first, the newest of the writes, each
  stamped and whole in one file and none missing in between; only the oldest are dropped, never the last.
  No file is larger than the limit unless a single write is.
\<close>

lemma log_keeps_suffix:
  assumes "new_writer None None mxs mxb fresh_dir = Inr w0" "list_all (\<lambda>(e, p). disk_takes e p) ps" "w = log_writes ps w0"
  shows "\<exists>dropped g. split_into w (map (\<lambda>(e, p). addTimestamps (we_stamp e) p) ps) dropped g \<and> (ps = [] \<or> g 0 \<noteq> [])"
  using log_writes_split [OF assms(1,2)] assms(3) by blast

definition small_log :: rot_writer where
  "small_log = \<lparr>rw_maxSize = 4, rw_maxBackups = 1, rw_dir = fresh_dir(0 \<mapsto> []), rw_file = True, rw_size = 0\<rparr>"

definition good_disk :: write_env where
  "good_disk = \<lparr>we_stamp = ''t'', we_reopen = None, we_room = 100\<rparr>"

section \<open>When the log cannot be opened again\<close>

text \<open>
  The comment promises to go on writing to the current file when a rotation fails, but the rotation has closed
  it, and the size stays above the limit. So nothing is written any more, and every further write rotates
  once more until all backups are gone.
\<close>

definition failing :: "write_env \<Rightarrow> string \<Rightarrow> rot_writer \<Rightarrow> bool" where
  "failing e p w \<longleftrightarrow> we_reopen e \<noteq> None \<and> rw_size w + length (addTimestamps (we_stamp e) p) > rw_maxSize w"

lemma failing_write:
  assumes "failing e p w" "0 < rw_maxBackups w"
  shows "snd (log_Write e p w) = w\<lparr>rw_file := False, rw_dir := shift_backups (rw_maxBackups w) (rw_dir w)\<rparr>"
  using assms by (auto simp: failing_def log_Write_def rotate_log_def openExisting_def Let_def)

lemma failed_rotation_erases:
  assumes "0 < rw_maxBackups w" "list_all (\<lambda>(e, p). failing e p w) ps" "i \<le> rw_maxBackups w"
  shows "rw_dir (log_writes ps w) i = (if i < length ps then None else rw_dir w (i - length ps))"
proof -
  have "log_writes ps w = (if ps = [] then w else w\<lparr>rw_file := False, rw_dir := (shift_backups (rw_maxBackups w) ^^ length ps) (rw_dir w)\<rparr>)"
    using assms(2)
  proof (induction ps rule: rev_induct)
    case (snoc q qs)
    obtain e p where q: "q = (e, p)" by (cases q)
    let ?v = "log_writes qs w"
    have v: "rw_size ?v = rw_size w" "rw_maxSize ?v = rw_maxSize w" "rw_maxBackups ?v = rw_maxBackups w"
      "rw_dir ?v = (shift_backups (rw_maxBackups w) ^^ length qs) (rw_dir w)"
      using snoc by (auto split: if_splits)
    have "failing e p ?v" using snoc.prems v by (simp add: failing_def q)
    then have "snd (log_Write e p ?v) = ?v\<lparr>rw_file := False, rw_dir := shift_backups (rw_maxBackups w) (rw_dir ?v)\<rparr>"
      using failing_write [of e p ?v] assms(1) v by simp
    moreover have "log_writes (qs @ [q]) w = snd (log_Write e p ?v)" by (simp add: log_writes_def q)
    moreover have "?v = (if qs = [] then w else w\<lparr>rw_file := False, rw_dir := (shift_backups (rw_maxBackups w) ^^ length qs) (rw_dir w)\<rparr>)"
      using snoc by simp
    ultimately show ?case by (cases "qs = []") simp_all
  qed (simp add: log_writes_def)
  moreover have "(shift_backups (rw_maxBackups w) ^^ n) d i = (if i < n then None else d (i - n))" if "i \<le> rw_maxBackups w" for n d
    using that
  proof (induction n arbitrary: i)
    case (Suc n)
    then show ?case using shift_backups [OF assms(1), of "(shift_backups (rw_maxBackups w) ^^ n) d" i] by auto
  qed simp
  ultimately show ?thesis using assms(3) by simp
qed

end
