(* ===== verification/ConnDisk.thy ===== *)
theory ConnDisk
  imports ConnLog LogFile
begin

text \<open>
  The history of connections on disk (\<^verbatim>\<open>internal/stats/connlog_disk.go\<close>) and the query that reads it. The
  JSON encoder and decoder of a record are parameters; a file is its content and the time of its last
  write.
\<close>

definition connFileMaxSize :: int where "connFileMaxSize = 16 * 1024 * 1024"
definition connFileBackups :: nat where "connFileBackups = 3"

definition PersistConnLog :: "error option \<Rightarrow> error option \<Rightarrow> log_dir \<Rightarrow> error + rot_writer" where
  "PersistConnLog mkdir err = new_writer mkdir err connFileMaxSize (int connFileBackups)"

definition persistConn :: "(conn_record \<Rightarrow> string) \<Rightarrow> write_env \<Rightarrow> conn_record \<Rightarrow> rot_writer option \<Rightarrow> rot_writer option" where
  "persistConn enc e r lf = map_option (\<lambda>w. snd (log_Write e (enc r @ [EOL]) w)) lf"

section \<open>Reading\<close>

record disk_file =
  df_text :: string
  df_mtime :: int
  df_opens :: bool

text \<open>The files that exist, oldest first; \<open>stat\<close> and \<open>opens\<close> stand for the system.\<close>

definition dir_file :: "rot_writer \<Rightarrow> (nat \<Rightarrow> int) \<Rightarrow> (nat \<Rightarrow> bool) \<Rightarrow> nat \<Rightarrow> disk_file option" where
  "dir_file w mtime opens i = map_option (\<lambda>s. \<lparr>df_text = s, df_mtime = mtime i, df_opens = opens i\<rparr>) (rw_dir w i)"

definition disk_files :: "rot_writer \<Rightarrow> (nat \<Rightarrow> int) \<Rightarrow> (nat \<Rightarrow> bool) \<Rightarrow> disk_file list" where
  "disk_files w mtime opens =
     List.map_filter (dir_file w mtime opens) (rev [0..<connFileBackups + 1])"

definition maxToken :: nat where "maxToken = 1024 * 1024"

text \<open>
  \<^verbatim>\<open>bufio.Scanner\<close> over a file: the lines without their ends, and whether one was too long. What follows
  the last line end is a line when it is not empty.
\<close>

fun scan_lines :: "string list \<Rightarrow> string list \<times> bool" where
  "scan_lines [] = ([], False)"
| "scan_lines [l] = (if l = [] then ([], False) else if length l \<ge> maxToken then ([], True) else ([trim_suffix l [CHR 0x0D]], False))"
| "scan_lines (l # m # ls) =
     (if length l \<ge> maxToken then ([], True)
      else (case scan_lines (m # ls) of (xs, e) \<Rightarrow> (trim_suffix l [CHR 0x0D] # xs, e)))"

definition file_lines :: "string \<Rightarrow> string list \<times> bool" where
  "file_lines t = scan_lines (split_on EOL t)"

definition json_part :: "string \<Rightarrow> string option" where
  "json_part line = map_option (\<lambda>i. drop i line) (index_char (CHR ''{'') line)"

definition error_key :: string where
  "error_key = CHR 0x22 # ''error'' @ [CHR 0x22, CHR '':'']"

definition cheap_reject :: "conn_filter \<Rightarrow> string \<Rightarrow> bool" where
  "cheap_reject f line \<longleftrightarrow>
     fl_errOnly f \<and> \<not> contains_sub line error_key \<or> fl_host f \<noteq> [] \<and> \<not> contains_sub (to_lower line) (fl_host f)"

definition line_record :: "(string \<Rightarrow> conn_record option) \<Rightarrow> conn_filter \<Rightarrow> string \<Rightarrow> conn_record option" where
  "line_record dec f line =
     (case json_part line of
        None \<Rightarrow> None
      | Some j \<Rightarrow>
          if cheap_reject f j then None
          else (case dec j of None \<Rightarrow> None | Some r \<Rightarrow> if fl_match f r then Some r else None))"

definition firstOpenMs :: "(string \<Rightarrow> conn_record option) \<Rightarrow> disk_file \<Rightarrow> int" where
  "firstOpenMs dec df =
     (if \<not> df_opens df then 0
      else (case List.map_filter (\<lambda>l. Option.bind (json_part l) dec) (fst (file_lines (df_text df))) of
              [] \<Rightarrow> 0 | r # _ \<Rightarrow> cr_OpenedMs r))"

fun each_file :: "(string \<Rightarrow> conn_record option) \<Rightarrow> conn_filter \<Rightarrow> disk_file list \<Rightarrow> conn_record list \<times> error option" where
  "each_file dec f [] = ([], None)"
| "each_file dec f (df # dfs) =
     (if fl_sinceMs f > 0 \<and> df_mtime df < fl_sinceMs f then each_file dec f dfs
      else if \<not> df_opens df then ([], Some (Msg ''open''))
      else (case file_lines (df_text df) of (ls, long) \<Rightarrow>
              let rs = List.map_filter (line_record dec f) ls in
              if long then (rs, Some (Msg ''bufio.Scanner: token too long''))
              else (case each_file dec f dfs of (rs', e) \<Rightarrow> (rs @ rs', e))))"

definition disk_each :: "(string \<Rightarrow> conn_record option) \<Rightarrow> conn_filter \<Rightarrow> disk_file list \<Rightarrow> conn_record list \<times> int \<times> error option" where
  "disk_each dec f files =
     (case each_file dec f files of (rs, e) \<Rightarrow> (rs, (case files of [] \<Rightarrow> 0 | df # _ \<Rightarrow> firstOpenMs dec df), e))"

text \<open>\<^verbatim>\<open>eachMatching\<close> with a history file: the active connections, then the records on disk.\<close>

definition eachMatching_disk ::
    "(string \<Rightarrow> conn_record option) \<Rightarrow> conn_filter \<Rightarrow> int \<Rightarrow> (u64 \<times> conn_stats) list \<Rightarrow> disk_file list \<Rightarrow> conn_record list \<times> conn_record list \<times> int" where
  "eachMatching_disk dec f now conns files =
     (case disk_each dec f files of (rs, from_ms, _) \<Rightarrow>
        (filter (fl_match f) (map (\<lambda>(cid, cs). cs_record cs cid now) conns), rs, from_ms))"

section \<open>What a query finds\<close>

text \<open>
  What the query relies on for a stored record: the JSON of the record decodes to it, is an object on one
  line, names the error when there is one and contains what the filter looks for in the host or the
  address; the stamp has no brace; the line fits the scanner.
\<close>

definition stored_ok ::
    "(conn_record \<Rightarrow> string) \<Rightarrow> (string \<Rightarrow> conn_record option) \<Rightarrow> conn_filter \<Rightarrow> string \<Rightarrow> conn_record \<Rightarrow> bool" where
  "stored_ok enc dec f ts r \<longleftrightarrow>
     dec (enc r) = Some r \<and> enc r \<noteq> [] \<and> hd (enc r) = CHR ''{'' \<and> last (enc r) = CHR ''}'' \<and>
     EOL \<notin> set (enc r) \<and> EOL \<notin> set ts \<and> CHR ''{'' \<notin> set ts \<and> length ts + length (enc r) < maxToken \<and>
     (cr_Error r \<noteq> [] \<longrightarrow> contains_sub (enc r) error_key) \<and>
     (contains_sub (to_lower (cr_Host r)) (fl_host f) \<or> contains_sub (to_lower (cr_DstAddr r)) (fl_host f)
        \<longrightarrow> contains_sub (to_lower (enc r)) (fl_host f))"

definition stored_line :: "(conn_record \<Rightarrow> string) \<Rightarrow> string \<times> conn_record \<Rightarrow> string" where
  "stored_line enc q = (case q of (ts, r) \<Rightarrow> ts @ enc r)"

lemma json_part_stored:
  assumes "CHR ''{'' \<notin> set ts" "j \<noteq> []" "hd j = CHR ''{''"
  shows "json_part (ts @ j) = Some j"
  using assms by (cases j) (auto simp: json_part_def)

lemma line_record_stored:
  assumes "stored_ok enc dec f ts r"
  shows "line_record dec f (stored_line enc (ts, r)) = (if fl_match f r then Some r else None)"
proof -
  have "json_part (stored_line enc (ts, r)) = Some (enc r)"
    using assms by (simp add: stored_line_def json_part_stored stored_ok_def)
  moreover have "\<not> fl_match f r" if "cheap_reject f (enc r)"
    using that assms by (auto simp: cheap_reject_def stored_ok_def fl_match_def)
  ultimately show ?thesis using assms by (auto simp: line_record_def stored_ok_def)
qed

lemma scan_stored:
  assumes "\<forall>l\<in>set ls. EOL \<notin> set l \<and> l \<noteq> [] \<and> last l \<noteq> CHR 0x0D \<and> length l < maxToken"
  shows "file_lines (concat (map (\<lambda>l. l @ [EOL]) ls)) = (ls, False)"
  using assms
proof (induction ls)
  case (Cons l ls)
  have "trim_suffix l [CHR 0x0D] = l" using Cons.prems by (auto simp: trim_suffix_def has_suffix_iff)
  moreover have "split_on EOL (l @ EOL # t) = l # split_on EOL t" for t
    using Cons.prems by (simp add: split_on_append_sep)
  moreover obtain m ms where "split_on EOL (concat (map (\<lambda>l. l @ [EOL]) ls)) = m # ms"
    by (cases "split_on EOL (concat (map (\<lambda>l. l @ [EOL]) ls))") auto
  ultimately show ?case using Cons by (simp add: file_lines_def)
qed (simp add: file_lines_def)

text \<open>A file whose lines are those of the records \<open>qs\<close>.\<close>

definition stored_text :: "(conn_record \<Rightarrow> string) \<Rightarrow> (string \<times> conn_record) list \<Rightarrow> string" where
  "stored_text enc qs = concat (map (\<lambda>q. stored_line enc q @ [EOL]) qs)"

lemma stored_lines:
  assumes "\<forall>(ts, r)\<in>set qs. stored_ok enc dec f ts r"
  shows "file_lines (stored_text enc qs) = (map (stored_line enc) qs, False)"
proof -
  have "\<forall>l\<in>set (map (stored_line enc) qs). EOL \<notin> set l \<and> l \<noteq> [] \<and> last l \<noteq> CHR 0x0D \<and> length l < maxToken"
    using assms by (auto simp: stored_ok_def stored_line_def)
  from scan_stored [OF this] show ?thesis by (simp add: stored_text_def comp_def)
qed

lemma stored_matches:
  assumes "\<forall>(ts, r)\<in>set qs. stored_ok enc dec f ts r"
  shows "List.map_filter (line_record dec f) (map (stored_line enc) qs) = filter (fl_match f) (map snd qs)"
  using assms
proof (induction qs)
  case (Cons q qs)
  obtain ts r where "q = (ts, r)" by (cases q)
  then show ?case using Cons line_record_stored [of enc dec f ts r] by (simp add: map_filter_simps)
qed (simp add: map_filter_simps)

text \<open>\<open>gs i\<close> are the records of the file \<open>i\<close>.\<close>

definition holds_records ::
    "(conn_record \<Rightarrow> string) \<Rightarrow> rot_writer \<Rightarrow> (nat \<Rightarrow> int) \<Rightarrow> nat \<Rightarrow> (string \<times> conn_record) list \<Rightarrow> bool" where
  "holds_records enc w mtime i qs \<longleftrightarrow>
     content w i = stored_text enc qs \<and> (\<forall>(ts, r)\<in>set qs. cr_ClosedMs r \<noteq> 0 \<and> cr_ClosedMs r \<le> mtime i)"

lemma each_file_stored:
  assumes "\<forall>i\<in>set is. holds_records enc w mtime i (gs i) \<and> (\<forall>(ts, r)\<in>set (gs i). stored_ok enc dec f ts r)"
  shows "each_file dec f (List.map_filter (dir_file w mtime (\<lambda>_. True)) is) = (filter (fl_match f) (map snd (concat (map gs is))), None)"
  using assms
proof (induction "is")
  case (Cons i js)
  let ?fs = "List.map_filter (dir_file w mtime (\<lambda>_. True)) js"
  have IH: "each_file dec f ?fs = (filter (fl_match f) (map snd (concat (map gs js))), None)"
    using Cons by simp
  have i: "content w i = stored_text enc (gs i)" "\<forall>(ts, r)\<in>set (gs i). cr_ClosedMs r \<noteq> 0 \<and> cr_ClosedMs r \<le> mtime i"
    "\<forall>(ts, r)\<in>set (gs i). stored_ok enc dec f ts r"
    using Cons.prems by (auto simp: holds_records_def)
  have files: "List.map_filter (dir_file w mtime (\<lambda>_. True)) (i # js) = (case dir_file w mtime (\<lambda>_. True) i of None \<Rightarrow> ?fs | Some d \<Rightarrow> d # ?fs)"
    by (simp only: map_filter_simps)
  show ?case
  proof (cases "rw_dir w i")
    case None
    then have "gs i = []" using i(1) by (cases "gs i") (auto simp: content_def stored_text_def)
    moreover have "dir_file w mtime (\<lambda>_. True) i = None" using None by (simp add: dir_file_def)
    ultimately show ?thesis using IH files by simp
  next
    case (Some t)
    then have t: "t = stored_text enc (gs i)" using i(1) by (simp add: content_def)
    have d: "dir_file w mtime (\<lambda>_. True) i = Some \<lparr>df_text = t, df_mtime = mtime i, df_opens = True\<rparr>"
      using Some by (simp add: dir_file_def)
    have old: "filter (fl_match f) (map snd (gs i)) = []" if "fl_sinceMs f > 0" "mtime i < fl_sinceMs f"
      using that i(2) by (fastforce simp: filter_empty_conv fl_match_def)
    have lines: "file_lines t = (map (stored_line enc) (gs i), False)" using stored_lines [OF i(3)] t by simp
    show ?thesis
      unfolding files d using IH old lines stored_matches [OF i(3)] by (auto simp: Let_def)
  qed
qed (simp add: map_filter_simps)

text \<open>The pieces of a list of images are images of the pieces.\<close>

lemma map_concat_pieces:
  assumes "map h ps = concat (map g xs)" "distinct xs"
  obtains gs where "ps = concat (map gs xs)" "\<forall>x\<in>set xs. map h (gs x) = g x"
proof -
  have "\<exists>gs. ps = concat (map gs xs) \<and> (\<forall>x\<in>set xs. map h (gs x) = g x)"
    using assms
  proof (induction xs arbitrary: ps)
    case (Cons x xs)
    then obtain q ps' where q: "ps = q @ ps'" "map h q = g x" "map h ps' = concat (map g xs)"
      by (auto simp: map_eq_append_conv)
    then obtain gs where "ps' = concat (map gs xs)" "\<forall>y\<in>set xs. map h (gs y) = g y"
      using Cons by auto
    then show ?case
      using q Cons.prems by (intro exI [of _ "gs(x := q)"]) (auto intro!: arg_cong [of _ _ concat])
  qed simp
  then show thesis using that by blast
qed

lemma persisted: "fold (\<lambda>(e, r). persistConn enc e r) qs (Some w) = Some (log_writes (map (\<lambda>(e, r). (e, enc r @ [EOL])) qs) w)"
  by (induction qs arbitrary: w) (auto simp: persistConn_def log_writes_def)

lemma map_tail:
  assumes "map h qs = ds @ xs"
  obtains q1 q2 where "qs = q1 @ q2" "map h q2 = xs"
  using assms by (auto simp: map_eq_append_conv)

lemma contains_sub_middle: "contains_sub (a @ p @ b) p"
proof (induction a)
  case Nil
  have "has_prefix (p @ b) p" by simp
  then show ?case by (cases "p @ b") (auto simp del: append_is_Nil_conv)
qed simp

lemma stamped_record:
  assumes "EOL \<notin> set (enc r)"
  shows "addTimestamps ts (enc r @ [EOL]) = stored_line enc (ts, r) @ [EOL]"
proof -
  have "count_list (enc r) EOL = 0" using assms by (simp add: count_list_0_iff)
  then show ?thesis by (simp add: addTimestamps_def stored_line_def)
qed

text \<open>
  C30: A query of the history on disk answers, in the order of closing and without an error, exactly the
  matching ones among the newest records persisted: none is lost in between, none is doubled, the rejections
  before decoding lose nothing, and the files skipped by their time hold no match. The last record is
  always among them.
\<close>

theorem history_query:
  assumes "PersistConnLog None None fresh_dir = Inr w0"
    "list_all (\<lambda>(e, r). disk_takes e (enc r @ [EOL]) \<and> stored_ok enc dec f (we_stamp e) r \<and> cr_ClosedMs r \<noteq> 0) qs"
    "fold (\<lambda>(e, r). persistConn enc e r) qs (Some w0) = Some w"
    "\<forall>i. \<forall>(e, r)\<in>set qs. contains_sub (content w i) (enc r) \<longrightarrow> cr_ClosedMs r \<le> mtime i"
  shows "\<exists>dropped kept from_ms. map snd qs = dropped @ kept \<and> (qs = [] \<or> kept \<noteq> []) \<and>
    disk_each dec f (disk_files w mtime (\<lambda>_. True)) = (filter (fl_match f) kept, from_ms, None)"
proof -
  let ?ps = "map (\<lambda>(e, r). (e, enc r @ [EOL])) qs"
  let ?h = "\<lambda>(e, r). stored_line enc (we_stamp e, r) @ [EOL]"
  have w: "w = log_writes ?ps w0" using assms(3) by (simp add: persisted)
  have takes: "list_all (\<lambda>(e, p). disk_takes e p) ?ps" using assms(2) by (auto simp: list_all_iff)
  have chunks: "map (\<lambda>(e, p). addTimestamps (we_stamp e) p) ?ps = map ?h qs"
    using assms(2) by (auto simp: list_all_iff stored_ok_def stamped_record)
  from log_writes_split [OF assms(1) [unfolded PersistConnLog_def] takes] obtain dr g where
    g: "split_into w (map ?h qs) dr g" "qs = [] \<or> g 0 \<noteq> []" "rw_maxBackups w = connFileBackups"
    unfolding chunks w by (auto simp: connFileBackups_def)
  let ?is = "rev [0..<connFileBackups + 1]"
  have "map ?h qs = dr @ concat (map g ?is)" using g(1,3) by (simp add: split_into_def file_order_def del: upt_Suc)
  then obtain q1 q2 where q: "qs = q1 @ q2" "map ?h q2 = concat (map g ?is)" by (rule map_tail)
  obtain gs where gs: "q2 = concat (map gs ?is)" "\<forall>i\<in>set ?is. map ?h (gs i) = g i"
    using map_concat_pieces [OF q(2)] by auto
  define hs where "hs i = map (\<lambda>(e, r). (we_stamp e, r)) (gs i)" for i
  have held: "holds_records enc w mtime i (hs i) \<and> (\<forall>(ts, r)\<in>set (hs i). stored_ok enc dec f ts r)" if i: "i \<in> set ?is" for i
  proof -
    have sub: "set (gs i) \<subseteq> set qs" using i q(1) gs(1) by auto
    have "content w i = concat (g i)" using g(1,3) i by (auto simp: split_into_def)
    then have whole: "content w i = concat (map ?h (gs i))" using bspec [OF gs(2) i] by (simp only:)
    then have "content w i = stored_text enc (hs i)" by (simp add: whole stored_text_def hs_def comp_def case_prod_unfold)
    moreover have "contains_sub (content w i) (enc r)" if mem: "(e, r) \<in> set (gs i)" for e r
    proof -
      obtain xs ys where "gs i = xs @ (e, r) # ys" using split_list [OF mem] by blast
      then have "content w i = (concat (map ?h xs) @ we_stamp e) @ enc r @ (EOL # concat (map ?h ys))"
        by (simp add: whole stored_line_def)
      then show ?thesis by (metis contains_sub_middle)
    qed
    moreover have "stored_ok enc dec f (we_stamp e) r \<and> cr_ClosedMs r \<noteq> 0" "(e, r) \<in> set qs" if "(e, r) \<in> set (gs i)" for e r
      using that sub assms(2) by (auto simp: list_all_iff)
    ultimately have "stored_ok enc dec f (we_stamp e) r \<and> cr_ClosedMs r \<noteq> 0 \<and> cr_ClosedMs r \<le> mtime i \<and> content w i = stored_text enc (hs i)"
      if "(e, r) \<in> set (gs i)" for e r
      using that assms(4) by blast
    then show ?thesis using \<open>content w i = stored_text enc (hs i)\<close> by (auto simp: holds_records_def hs_def)
  qed
  have each: "each_file dec f (disk_files w mtime (\<lambda>_. True)) = (filter (fl_match f) (map snd (concat (map hs ?is))), None)"
    unfolding disk_files_def by (rule each_file_stored) (use held in blast)
  have "map snd (concat (map hs ?is)) = map snd q2"
    unfolding gs(1) by (simp add: hs_def map_concat comp_def case_prod_unfold del: upt_Suc)
  moreover have "qs = [] \<or> map snd q2 \<noteq> []"
  proof -
    have "0 \<in> set ?is" by (auto simp: connFileBackups_def)
    then have "g 0 \<noteq> [] \<Longrightarrow> q2 \<noteq> []" using gs by fastforce
    then show ?thesis using g(2) by auto
  qed
  ultimately show ?thesis
    using q(1) each by (intro exI [of _ "map snd q1"] exI [of _ "map snd q2"]) (simp add: disk_each_def)
qed

definition sample_record :: conn_record where
  "sample_record = \<lparr>cr_ID = 7, cr_Route = ''proxy'', cr_SrcAddr = ''s'', cr_DstAddr = ''d'', cr_Host = ''h'', cr_TunnelIndex = 1,
     cr_OpenedMs = 100, cr_ClosedMs = 200, cr_DurationMs = 100, cr_TxBytes = 0, cr_RxBytes = 0, cr_FirstRxMs = 0,
     cr_LastRxMs = 0, cr_LastTxMs = 0, cr_Error = ''refused''\<rparr>"

definition sample_json :: string where "sample_json = CHR ''{'' # error_key @ ''1}''"

definition sample_env :: write_env where "sample_env = \<lparr>we_stamp = ''12:00 '', we_reopen = None, we_room = 1000\<rparr>"

definition errors_only :: conn_filter where
  "errors_only = \<lparr>fl_host = [], fl_sinceMs = 150, fl_untilMs = 0, fl_route = [], fl_minDurMs = 0, fl_minBytes = 0, fl_errOnly = True\<rparr>"

definition sample_writer :: rot_writer where
  "sample_writer = \<lparr>rw_maxSize = nat connFileMaxSize, rw_maxBackups = connFileBackups, rw_dir = fresh_dir(0 \<mapsto> []), rw_file = True, rw_size = 0\<rparr>"

lemma sample_stored: "stored_ok (\<lambda>_. sample_json) (\<lambda>_. Some sample_record) errors_only ''12:00 '' sample_record"
proof -
  have chars: "sample_json \<noteq> []" "hd sample_json = CHR ''{''" "last sample_json = CHR ''}''" "EOL \<notin> set sample_json"
    "length ''12:00 '' + length sample_json < maxToken"
    by (simp_all add: sample_json_def error_key_def EOL_def maxToken_def)
  have key: "contains_sub sample_json error_key"
    unfolding sample_json_def using contains_sub_middle [of "''{''" error_key "''1}''"] by simp
  have any: "contains_sub s (fl_host errors_only)" for s
    using contains_sub_middle [of s "[]" "[]"] by (simp add: errors_only_def)
  show ?thesis
    unfolding stored_ok_def using chars key any by (simp add: EOL_def)
qed

lemma history_query_witness:
  "\<exists>w from_ms. fold (\<lambda>(e, r). persistConn (\<lambda>_. sample_json) e r) [(sample_env, sample_record)] (Some sample_writer) = Some w \<and>
     disk_each (\<lambda>_. Some sample_record) errors_only (disk_files w (\<lambda>_. 200) (\<lambda>_. True)) = ([sample_record], from_ms, None)"
proof -
  let ?qs = "[(sample_env, sample_record)]"
  have w0: "PersistConnLog None None fresh_dir = Inr sample_writer"
    by (simp add: PersistConnLog_def new_writer_def openExisting_def sample_writer_def fresh_dir_def connFileMaxSize_def connFileBackups_def)
  have "addTimestamps ''12:00 '' (sample_json @ [EOL]) = stored_line (\<lambda>_. sample_json) (''12:00 '', sample_record) @ [EOL]"
    by (rule stamped_record) (simp add: sample_json_def error_key_def EOL_def)
  then have "disk_takes sample_env (sample_json @ [EOL])"
    by (simp add: disk_takes_def sample_env_def stored_line_def sample_json_def error_key_def)
  then have stored: "list_all (\<lambda>(e, r). disk_takes e (sample_json @ [EOL]) \<and>
      stored_ok (\<lambda>_. sample_json) (\<lambda>_. Some sample_record) errors_only (we_stamp e) r \<and> cr_ClosedMs r \<noteq> 0) ?qs"
    using sample_stored by (simp add: sample_env_def) (simp add: sample_record_def)
  obtain w where w: "fold (\<lambda>(e, r). persistConn (\<lambda>_. sample_json) e r) ?qs (Some sample_writer) = Some w"
    using persisted [of "\<lambda>_. sample_json" ?qs sample_writer] by blast
  have "\<forall>i. \<forall>(e, r)\<in>set ?qs. contains_sub (content w i) sample_json \<longrightarrow> cr_ClosedMs r \<le> 200"
    by (simp add: sample_record_def)
  from history_query [OF w0 stored w this] obtain dropped kept from_ms where
    k: "[sample_record] = dropped @ kept" "kept \<noteq> []"
      "disk_each (\<lambda>_. Some sample_record) errors_only (disk_files w (\<lambda>_. 200) (\<lambda>_. True)) = (filter (fl_match errors_only) kept, from_ms, None)"
    by auto
  then have "kept = [sample_record]" by (simp add: Cons_eq_append_conv)
  moreover have "fl_match errors_only sample_record" by (simp add: fl_match_def errors_only_def sample_record_def)
  ultimately show ?thesis using w k(3) by auto
qed

end
