(* ===== verification/ConnGroups.thy ===== *)
theory ConnGroups
  imports ConnLog "HOL-Library.AList" "HOL-Library.List_Lexorder" "HOL-Library.Char_ord"
begin

text \<open>
  \<^verbatim>\<open>GET /connections\<close> (\<^verbatim>\<open>internal/stats/connlog.go\<close>): the aggregation of connections by host, route or error
  and the handler with its checks. A Go map is an association list; that its order does not matter is
  proved, since the order of the groups is a linear order on their ranks.
\<close>

section \<open>Groups\<close>

record conn_group =
  cg_Key :: string
  cg_Conns :: nat
  cg_Active :: nat
  cg_Errors :: nat
  cg_TxBytes :: int
  cg_RxBytes :: int
  cg_NoReply :: nat
  cg_FirstByteP50 :: int
  cg_FirstByteP95 :: int
  cg_MaxDurMs :: int
  cg_FirstSeenMs :: int
  cg_LastSeenMs :: int
  cg_TopError :: string

definition connGroupKeys :: "string \<Rightarrow> (conn_record \<Rightarrow> string) option" where
  "connGroupKeys by =
     (if by = ''host'' then Some (\<lambda>r. if cr_Host r \<noteq> [] then cr_Host r else cr_DstAddr r)
      else if by = ''route'' then Some cr_Route
      else if by = ''error'' then Some (\<lambda>r. if cr_Error r = [] then ''(clean)'' else cr_Error r)
      else None)"

record group_acc =
  ac_g :: conn_group
  ac_firstBytes :: "int list"
  ac_errs :: "(string \<times> nat) list"

definition new_acc :: "string \<Rightarrow> conn_record \<Rightarrow> group_acc" where
  "new_acc k r =
     \<lparr>ac_g = \<lparr>cg_Key = k, cg_Conns = 0, cg_Active = 0, cg_Errors = 0, cg_TxBytes = 0, cg_RxBytes = 0, cg_NoReply = 0,
              cg_FirstByteP50 = 0, cg_FirstByteP95 = 0, cg_MaxDurMs = 0, cg_FirstSeenMs = cr_OpenedMs r, cg_LastSeenMs = 0, cg_TopError = []\<rparr>,
      ac_firstBytes = [], ac_errs = []\<rparr>"

definition count_error :: "string \<Rightarrow> (string \<times> nat) list \<Rightarrow> (string \<times> nat) list" where
  "count_error e errs = AList.update e (case map_of errs e of None \<Rightarrow> 1 | Some n \<Rightarrow> n + 1) errs"

text \<open>\<open>add\<close>, for a record and whether its connection is open.\<close>

definition acc_add :: "conn_record \<times> bool \<Rightarrow> group_acc \<Rightarrow> group_acc" where
  "acc_add e a =
     (case e of (r, opn) \<Rightarrow>
        let g = ac_g a;
            failed = \<not> opn \<and> cr_Error r \<noteq> [];
            g1 = g\<lparr>cg_Conns := cg_Conns g + 1,
                   cg_Active := cg_Active g + (if opn then 1 else 0),
                   cg_Errors := cg_Errors g + (if failed then 1 else 0),
                   cg_TxBytes := cg_TxBytes g + cr_TxBytes r,
                   cg_RxBytes := cg_RxBytes g + cr_RxBytes r,
                   cg_NoReply := cg_NoReply g + (if \<not> opn \<and> cr_TxBytes r > 0 \<and> cr_RxBytes r = 0 then 1 else 0),
                   cg_MaxDurMs := max (cg_MaxDurMs g) (cr_DurationMs r),
                   cg_FirstSeenMs := min (cg_FirstSeenMs g) (cr_OpenedMs r),
                   cg_LastSeenMs := max (cg_LastSeenMs g) (cr_OpenedMs r)\<rparr>
        in a\<lparr>ac_g := g1,
             ac_firstBytes := (if cr_FirstRxMs r > 0 then ac_firstBytes a @ [cr_FirstRxMs r] else ac_firstBytes a),
             ac_errs := (if failed then count_error (cr_Error r) (ac_errs a) else ac_errs a)\<rparr>)"

definition group_add :: "(conn_record \<Rightarrow> string) \<Rightarrow> conn_record \<times> bool \<Rightarrow> (string \<times> group_acc) list \<Rightarrow> (string \<times> group_acc) list" where
  "group_add keyOf e byKey =
     (let k = keyOf (fst e);
          a = (case map_of byKey k of None \<Rightarrow> new_acc k (fst e) | Some a \<Rightarrow> a)
      in AList.update k (acc_add e a) byKey)"

definition better_error :: "string \<times> nat \<Rightarrow> string \<times> nat \<Rightarrow> string \<times> nat" where
  "better_error en tb = (case (en, tb) of ((e, n), (t, best)) \<Rightarrow> if n > best \<or> n = best \<and> e < t then (e, n) else (t, best))"

definition topError :: "(string \<times> nat) list \<Rightarrow> string" where
  "topError errs = fst (fold better_error errs ([], 0))"

definition percentile :: "nat \<Rightarrow> int list \<Rightarrow> int" where
  "percentile q xs = sort xs ! ((length xs - 1) * q div 100)"

definition finish_group :: "group_acc \<Rightarrow> conn_group" where
  "finish_group a =
     (let g = (if ac_firstBytes a = [] then ac_g a
               else (ac_g a)\<lparr>cg_FirstByteP50 := percentile 50 (ac_firstBytes a), cg_FirstByteP95 := percentile 95 (ac_firstBytes a)\<rparr>)
      in g\<lparr>cg_TopError := topError (ac_errs a)\<rparr>)"

text \<open>The order of the groups in the answer: more connections first, then the smaller key.\<close>

datatype group_rank = Rank (rank_conns: nat) (rank_key: string)

instantiation group_rank :: linorder
begin

definition less_eq_group_rank :: "group_rank \<Rightarrow> group_rank \<Rightarrow> bool" where
  "less_eq_group_rank a b \<longleftrightarrow> rank_conns a > rank_conns b \<or> rank_conns a = rank_conns b \<and> rank_key a \<le> rank_key b"

definition less_group_rank :: "group_rank \<Rightarrow> group_rank \<Rightarrow> bool" where
  "less_group_rank a b \<longleftrightarrow> rank_conns a > rank_conns b \<or> rank_conns a = rank_conns b \<and> rank_key a < rank_key b"

instance
  by standard (auto simp: less_eq_group_rank_def less_group_rank_def intro: group_rank.expand)

end

definition group_order :: "conn_group \<Rightarrow> group_rank" where
  "group_order g = Rank (cg_Conns g) (cg_Key g)"

record groups_response =
  gr_NowMs :: int
  gr_HistoryFromMs :: int
  gr_GroupBy :: string
  gr_Total :: nat
  gr_Groups :: "conn_group list"
  gr_Omitted :: nat

definition conn_entries :: "conn_record list \<Rightarrow> conn_record list \<Rightarrow> (conn_record \<times> bool) list" where
  "conn_entries active closed = map (\<lambda>r. (r, True)) active @ map (\<lambda>r. (r, False)) closed"

definition groups ::
    "(conn_record \<Rightarrow> string) \<Rightarrow> string \<Rightarrow> nat \<Rightarrow> int \<Rightarrow> conn_record list \<times> conn_record list \<times> int \<Rightarrow> groups_response" where
  "groups keyOf by limit now matching =
     (case matching of (active, closed, from_ms) \<Rightarrow>
        let es = conn_entries active closed;
            byKey = fold (group_add keyOf) es [];
            gs = sort_key group_order (map (finish_group \<circ> snd) byKey);
            cut = limit > 0 \<and> length gs > limit
        in \<lparr>gr_NowMs = now, gr_HistoryFromMs = from_ms, gr_GroupBy = by, gr_Total = length es,
            gr_Groups = (if cut then take limit gs else gs), gr_Omitted = (if cut then length gs - limit else 0)\<rparr>)"

section \<open>What a group says\<close>

lemma fold_group_add:
  "map_of (fold (group_add keyOf) es byKey) k =
     (let mine = filter (\<lambda>e. keyOf (fst e) = k) es in
      case map_of byKey k of
        Some a \<Rightarrow> Some (fold acc_add mine a)
      | None \<Rightarrow> if mine = [] then None else Some (fold acc_add mine (new_acc k (fst (hd mine)))))"
  by (induction es arbitrary: byKey) (auto simp: group_add_def Let_def update_conv split: option.splits)

lemma update_key_set: "set (map fst (AList.update k v al)) = insert k (set (map fst al))"
  unfolding update_keys by auto

lemma group_add_keys: "set (map fst (fold (group_add keyOf) es byKey)) = set (map fst byKey) \<union> (keyOf \<circ> fst) ` set es"
proof (induction es arbitrary: byKey)
  case (Cons e es)
  have "set (map fst (group_add keyOf e byKey)) = insert (keyOf (fst e)) (set (map fst byKey))"
    unfolding group_add_def Let_def by (rule update_key_set)
  then show ?case using Cons.IH [of "group_add keyOf e byKey"] by auto
qed simp

lemma group_add_distinct: "distinct (map fst byKey) \<Longrightarrow> distinct (map fst (fold (group_add keyOf) es byKey))"
  by (induction es arbitrary: byKey) (auto simp: group_add_def Let_def distinct_update)

text \<open>The errors of the closed connections of a group.\<close>

definition group_errors :: "(conn_record \<times> bool) list \<Rightarrow> string list" where
  "group_errors es = map (cr_Error \<circ> fst) (filter (\<lambda>(r, opn). \<not> opn \<and> cr_Error r \<noteq> []) es)"

definition first_bytes :: "(conn_record \<times> bool) list \<Rightarrow> int list" where
  "first_bytes es = filter (\<lambda>ms. ms > 0) (map (cr_FirstRxMs \<circ> fst) es)"

text \<open>The most frequent of some errors, of several the least; \<open>[]\<close> when there is none.\<close>

definition most_frequent :: "string list \<Rightarrow> string \<Rightarrow> bool" where
  "most_frequent xs e \<longleftrightarrow>
     (if xs = [] then e = []
      else e \<in> set xs \<and> (\<forall>x\<in>set xs. count_list xs x < count_list xs e \<or> count_list xs x = count_list xs e \<and> e \<le> x))"

text \<open>What the group with key \<open>k\<close> says of its connections \<open>es\<close>.\<close>

definition summarises :: "string \<Rightarrow> (conn_record \<times> bool) list \<Rightarrow> conn_group \<Rightarrow> bool" where
  "summarises k es g \<longleftrightarrow>
     cg_Key g = k \<and> cg_Conns g = length es \<and> cg_Active g = length (filter snd es) \<and>
     cg_Errors g = length (group_errors es) \<and>
     cg_TxBytes g = sum_list (map (cr_TxBytes \<circ> fst) es) \<and> cg_RxBytes g = sum_list (map (cr_RxBytes \<circ> fst) es) \<and>
     cg_NoReply g = length (filter (\<lambda>(r, opn). \<not> opn \<and> cr_TxBytes r > 0 \<and> cr_RxBytes r = 0) es) \<and>
     cg_MaxDurMs g = Max (insert 0 ((cr_DurationMs \<circ> fst) ` set es)) \<and>
     cg_FirstSeenMs g = Min ((cr_OpenedMs \<circ> fst) ` set es) \<and>
     cg_LastSeenMs g = Max (insert 0 ((cr_OpenedMs \<circ> fst) ` set es)) \<and>
     cg_FirstByteP50 g = (if first_bytes es = [] then 0 else percentile 50 (first_bytes es)) \<and>
     cg_FirstByteP95 g = (if first_bytes es = [] then 0 else percentile 95 (first_bytes es)) \<and>
     most_frequent (group_errors es) (cg_TopError g)"

text \<open>The counts of the errors seen.\<close>

definition counts_of :: "string list \<Rightarrow> (string \<times> nat) list \<Rightarrow> bool" where
  "counts_of xs errs \<longleftrightarrow> distinct (map fst errs) \<and> set errs = (\<lambda>e. (e, count_list xs e)) ` set xs"

lemma counts_of_map:
  assumes "counts_of xs errs"
  shows "map_of errs e = (if e \<in> set xs then Some (count_list xs e) else None)"
proof (cases "e \<in> set xs")
  case True
  then have "(e, count_list xs e) \<in> set errs" using assms by (auto simp: counts_of_def)
  then show ?thesis using assms True by (simp add: counts_of_def)
next
  case False
  then have "e \<notin> fst ` set errs" using assms by (auto simp: counts_of_def)
  then show ?thesis using False by (simp add: map_of_eq_None_iff)
qed

lemma counts_of_add:
  assumes "counts_of xs errs"
  shows "counts_of (xs @ [e]) (count_error e errs)"
proof -
  let ?n = "case map_of errs e of None \<Rightarrow> 1 | Some n \<Rightarrow> n + 1"
  have n: "?n = count_list (xs @ [e]) e"
    using counts_of_map [OF assms, of e] by (auto simp: count_list_0_iff)
  have dist: "distinct (map fst (AList.update e ?n errs))" using assms by (simp add: counts_of_def distinct_update)
  have "map_of (AList.update e ?n errs) x = (if x \<in> set (xs @ [e]) then Some (count_list (xs @ [e]) x) else None)" for x
    using counts_of_map [OF assms, of x] n by (auto simp: update_conv)
  then have "(x, m) \<in> set (AList.update e ?n errs) \<longleftrightarrow> x \<in> set (xs @ [e]) \<and> m = count_list (xs @ [e]) x" for x m
    unfolding map_of_eq_Some_iff [OF dist, of x m, symmetric] by auto
  then have "set (AList.update e ?n errs) = (\<lambda>x. (x, count_list (xs @ [e]) x)) ` set (xs @ [e])" by auto
  then show ?thesis using dist by (simp add: counts_of_def count_error_def)
qed

lemma better_errors:
  assumes "fold better_error errs (t0, b0) = (t, b)"
  shows "((t, b) = (t0, b0) \<or> (t, b) \<in> set errs) \<and> (\<forall>(e, n)\<in>insert (t0, b0) (set errs). n < b \<or> n = b \<and> t \<le> e)"
  using assms
proof (induction errs arbitrary: t0 b0)
  case (Cons en errs)
  obtain e n where en: "en = (e, n)" by (cases en)
  obtain t1 b1 where s: "better_error en (t0, b0) = (t1, b1)" by (cases "better_error en (t0, b0)")
  have "((t, b) = (t1, b1) \<or> (t, b) \<in> set errs) \<and> (\<forall>(e, n)\<in>insert (t1, b1) (set errs). n < b \<or> n = b \<and> t \<le> e)"
    using Cons.IH [of t1 b1] Cons.prems s by simp
  then show ?case using s en by (fastforce simp: better_error_def split: if_splits)
qed auto

lemma topError_most_frequent:
  assumes "counts_of xs errs"
  shows "most_frequent xs (topError errs)"
proof (cases "xs = []")
  case True
  then show ?thesis using assms by (simp add: counts_of_def most_frequent_def topError_def)
next
  case False
  obtain t b where f: "fold better_error errs ([], 0) = (t, b)" by (cases "fold better_error errs ([], 0)")
  note best = better_errors [OF f]
  have mem: "(e, n) \<in> set errs \<longleftrightarrow> e \<in> set xs \<and> n = count_list xs e" for e n
    using assms by (auto simp: counts_of_def)
  obtain x where x: "x \<in> set xs" using False by (cases xs) auto
  then have "count_list xs x > 0" using count_list_0_iff [of xs x] by auto
  then have "b > 0" using best x mem [of x "count_list xs x"] by auto
  then have "(t, b) \<in> set errs" using best by auto
  then have "t \<in> set xs" "b = count_list xs t" using mem by auto
  have "count_list xs y < b \<or> count_list xs y = b \<and> t \<le> y" if "y \<in> set xs" for y
  proof -
    have "(y, count_list xs y) \<in> set errs" using mem that by simp
    then show ?thesis using best by auto
  qed
  then have "count_list xs y < count_list xs t \<or> count_list xs y = count_list xs t \<and> t \<le> y" if "y \<in> set xs" for y
    using that \<open>b = count_list xs t\<close> by simp
  then show ?thesis
    using False \<open>t \<in> set xs\<close> f by (simp add: most_frequent_def topError_def)
qed

text \<open>The accumulator after some connections of a group that began with the record \<open>r0\<close>.\<close>

definition acc_ok :: "string \<Rightarrow> conn_record \<Rightarrow> (conn_record \<times> bool) list \<Rightarrow> group_acc \<Rightarrow> bool" where
  "acc_ok k r0 es a \<longleftrightarrow>
     ac_g a = \<lparr>cg_Key = k, cg_Conns = length es, cg_Active = length (filter snd es), cg_Errors = length (group_errors es),
       cg_TxBytes = sum_list (map (cr_TxBytes \<circ> fst) es), cg_RxBytes = sum_list (map (cr_RxBytes \<circ> fst) es),
       cg_NoReply = length (filter (\<lambda>(r, opn). \<not> opn \<and> cr_TxBytes r > 0 \<and> cr_RxBytes r = 0) es),
       cg_FirstByteP50 = 0, cg_FirstByteP95 = 0,
       cg_MaxDurMs = Max (insert 0 ((cr_DurationMs \<circ> fst) ` set es)),
       cg_FirstSeenMs = Min (insert (cr_OpenedMs r0) ((cr_OpenedMs \<circ> fst) ` set es)),
       cg_LastSeenMs = Max (insert 0 ((cr_OpenedMs \<circ> fst) ` set es)), cg_TopError = []\<rparr> \<and>
     ac_firstBytes a = first_bytes es \<and> counts_of (group_errors es) (ac_errs a)"

lemma Max_snoc: "finite A \<Longrightarrow> Max (insert (x::int) (insert y A)) = max (Max (insert x A)) y"
  by (metis Max_insert2 Max_insert finite_insert insert_commute insert_not_empty max.commute)

lemma Min_snoc: "finite A \<Longrightarrow> Min (insert (x::int) (insert y A)) = min (Min (insert x A)) y"
  by (metis Min_insert finite_insert insert_commute insert_not_empty min.commute)

lemma acc_step:
  assumes "acc_ok k r0 es a"
  shows "acc_ok k r0 (es @ [e]) (acc_add e a)"
proof -
  obtain r opn where e: "e = (r, opn)" by (cases e)
  have "counts_of (group_errors (es @ [e])) (ac_errs (acc_add e a))"
    using assms counts_of_add [of "group_errors es" "ac_errs a"] by (simp add: acc_ok_def e group_errors_def acc_add_def Let_def)
  then show ?thesis
    using assms by (simp add: acc_ok_def e acc_add_def Let_def Max_snoc Min_snoc first_bytes_def group_errors_def comp_def del: Max_insert Min_insert)
qed

lemma acc_adds: "acc_ok k r0 es (fold acc_add es (new_acc k r0))"
proof (induction es rule: rev_induct)
  case Nil
  then show ?case by (simp add: acc_ok_def new_acc_def first_bytes_def group_errors_def counts_of_def)
next
  case (snoc e es)
  then show ?case using acc_step [OF snoc] by simp
qed

lemma group_summary:
  assumes "es \<noteq> []"
  shows "summarises k es (finish_group (fold acc_add es (new_acc k (fst (hd es)))))"
proof -
  let ?a = "fold acc_add es (new_acc k (fst (hd es)))"
  have ok: "acc_ok k (fst (hd es)) es ?a" by (rule acc_adds)
  have "insert (cr_OpenedMs (fst (hd es))) ((cr_OpenedMs \<circ> fst) ` set es) = (cr_OpenedMs \<circ> fst) ` set es"
    using assms by (auto intro: insert_absorb)
  then show ?thesis
    using ok topError_most_frequent by (auto simp: summarises_def acc_ok_def finish_group_def Let_def)
qed

definition of_key :: "(conn_record \<Rightarrow> string) \<Rightarrow> string \<Rightarrow> (conn_record \<times> bool) list \<Rightarrow> (conn_record \<times> bool) list" where
  "of_key keyOf k es = filter (\<lambda>e. keyOf (fst e) = k) es"

lemma keys_partition:
  assumes "distinct ks" "keyOf ` fst ` set es \<subseteq> set ks"
  shows "sum_list (map (\<lambda>k. length (of_key keyOf k es)) ks) = length es"
  using assms(2)
proof (induction es)
  case (Cons e es)
  have "sum_list (map (\<lambda>k. length (of_key keyOf k (e # es))) ks) =
      sum_list (map (\<lambda>k. length (of_key keyOf k es)) ks) + sum_list (map (\<lambda>k. if keyOf (fst e) = k then 1 else 0) ks)"
    unfolding sum_list_addf [symmetric] by (rule arg_cong [of _ _ sum_list], rule map_cong) (auto simp: of_key_def)
  also have "sum_list (map (\<lambda>k. if keyOf (fst e) = k then 1 else 0) ks) = (1 :: nat)"
    using Cons.prems assms(1) by (simp add: sum_list_distinct_conv_sum_set)
  finally show ?case using Cons by simp
qed (simp add: of_key_def)

lemma all_groups:
  fixes keyOf es
  defines "byKey \<equiv> fold (group_add keyOf) es []"
  defines "gs \<equiv> map (finish_group \<circ> snd) byKey"
  shows "map cg_Key gs = map fst byKey" "set (map fst byKey) = keyOf ` fst ` set es" "distinct (map fst byKey)"
    "list_all (\<lambda>g. summarises (cg_Key g) (of_key keyOf (cg_Key g) es) g) gs"
proof -
  show dist: "distinct (map fst byKey)" unfolding byKey_def by (rule group_add_distinct) simp
  show keys: "set (map fst byKey) = keyOf ` fst ` set es"
    unfolding byKey_def using group_add_keys [of keyOf es "[]"] by auto
  have sums: "summarises k (of_key keyOf k es) (finish_group a)" if "(k, a) \<in> set byKey" for k a
  proof -
    have "map_of byKey k = Some a" using that dist by simp
    then have "of_key keyOf k es \<noteq> []" "a = fold acc_add (of_key keyOf k es) (new_acc k (fst (hd (of_key keyOf k es))))"
      using fold_group_add [of keyOf es "[]" k] by (auto simp: byKey_def of_key_def Let_def split: if_splits)
    then show ?thesis using group_summary by simp
  qed
  then have key: "cg_Key (finish_group a) = k" if "(k, a) \<in> set byKey" for k a
    using that by (auto simp: summarises_def)
  then show "map cg_Key gs = map fst byKey" by (auto simp: gs_def)
  show "list_all (\<lambda>g. summarises (cg_Key g) (of_key keyOf (cg_Key g) es) g) gs"
    using sums key by (auto simp: gs_def list_all_iff)
qed

text \<open>The groups the answer is cut from: one for each key, each right, in the strict order of their ranks.\<close>

definition right_groups :: "(conn_record \<Rightarrow> string) \<Rightarrow> (conn_record \<times> bool) list \<Rightarrow> conn_group list \<Rightarrow> bool" where
  "right_groups keyOf es gs \<longleftrightarrow>
     set (map cg_Key gs) = keyOf ` fst ` set es \<and> sorted_wrt (<) (map group_order gs) \<and>
     list_all (\<lambda>g. summarises (cg_Key g) (of_key keyOf (cg_Key g) es) g) gs \<and>
     sum_list (map cg_Conns gs) = length es"

lemma group_order_inj: "group_order g = group_order h \<Longrightarrow> cg_Key g = cg_Key h"
  by (simp add: group_order_def)

lemma distinct_orders: "distinct (map cg_Key gs) \<Longrightarrow> distinct (map group_order gs)"
  by (auto simp: distinct_map inj_on_def dest: group_order_inj)

lemma sorted_groups: "right_groups keyOf es (sort_key group_order (map (finish_group \<circ> snd) (fold (group_add keyOf) es [])))"
proof -
  let ?gs = "map (finish_group \<circ> snd) (fold (group_add keyOf) es [])"
  let ?s = "sort_key group_order ?gs"
  note all = all_groups [of keyOf es]
  have set: "set ?s = set ?gs" by simp
  have "mset (map cg_Key ?s) = mset (map cg_Key ?gs)" unfolding mset_map mset_sort ..
  moreover have "distinct (map cg_Key ?gs)" unfolding all(1) by (rule all(3))
  ultimately have dist: "distinct (map cg_Key ?s)" using mset_eq_imp_distinct_iff by blast
  then have "distinct (map group_order ?s)" by (rule distinct_orders)
  then have strict: "sorted_wrt (<) (map group_order ?s)"
    using sorted_sort_key [of group_order ?gs] unfolding strict_sorted_iff by blast
  have conns: "cg_Conns g = length (of_key keyOf (cg_Key g) es)" if "g \<in> set ?s" for g
  proof -
    have "g \<in> set ?gs" using that by (simp only: set)
    then have "summarises (cg_Key g) (of_key keyOf (cg_Key g) es) g" using all(4) unfolding list_all_iff by blast
    then show ?thesis unfolding summarises_def by blast
  qed
  have keys: "keyOf ` fst ` set es = set (map cg_Key ?s)" using all(1,2) set by (metis set_map)
  have "map cg_Conns ?s = map (\<lambda>k. length (of_key keyOf k es)) (map cg_Key ?s)" using conns by simp
  moreover have "sum_list (map (\<lambda>k. length (of_key keyOf k es)) (map cg_Key ?s)) = length es"
    by (rule keys_partition [OF dist]) (simp only: keys subset_refl)
  ultimately have "sum_list (map cg_Conns ?s) = length es" by (simp only:)
  moreover have "list_all (\<lambda>g. summarises (cg_Key g) (of_key keyOf (cg_Key g) es) g) ?s"
    using all(4) unfolding list_all_iff by (simp only: set)
  ultimately show ?thesis using strict keys unfolding right_groups_def by blast
qed

text \<open>
  C31: An answer by groups has one group for each host, route or error among the matching connections, whatever
  the order of the maps; each says the right counts, sums, extremes, percentiles and most frequent error of
  its connections; the groups come by falling number of connections, then by key, the first of them up to the
  limit; and their connections, with those omitted, are all the matching ones.
\<close>

theorem groups_aggregate:
  "\<exists>gs. right_groups keyOf (conn_entries active closed) gs \<and>
     groups keyOf by limit now (active, closed, from_ms) =
       \<lparr>gr_NowMs = now, gr_HistoryFromMs = from_ms, gr_GroupBy = by, gr_Total = length active + length closed,
        gr_Groups = (if limit = 0 then gs else take limit gs), gr_Omitted = (if limit = 0 then 0 else length gs - limit)\<rparr>"
  by (intro exI conjI, rule sorted_groups) (auto simp: groups_def Let_def conn_entries_def)

section \<open>The request\<close>

text \<open>
  \<^verbatim>\<open>time.ParseDuration\<close>, in nanoseconds. \<open>fl f unit scale\<close> is the product in floating point that the library
  uses for a fraction.
\<close>

definition unit_ns :: "string \<Rightarrow> nat option" where
  "unit_ns u =
     (if u = ''ns'' then Some 1
      else if u \<in> {''us'', [CHR 0xC2, CHR 0xB5] @ ''s'', [CHR 0xCE, CHR 0xBC] @ ''s''} then Some 1000
      else if u = ''ms'' then Some 1000000
      else if u = ''s'' then Some 1000000000
      else if u = ''m'' then Some 60000000000
      else if u = ''h'' then Some 3600000000000 else None)"

fun fraction :: "string \<Rightarrow> string \<times> string" where
  "fraction [] = ([], [])"
| "fraction (c # cs) = (if c = CHR ''.'' then (takeWhile is_digit cs, dropWhile is_digit cs) else ([], c # cs))"

definition duration_number :: "string \<Rightarrow> (nat \<times> string \<times> string) option" where
  "duration_number s =
     (let whole = takeWhile is_digit s in
      case fraction (dropWhile is_digit s) of (frac, after) \<Rightarrow>
        if dec_val whole > 2 ^ 63 \<or> whole = [] \<and> frac = [] then None else Some (dec_val whole, frac, after))"

lemma take_drop_length: "length (takeWhile P s) + length (dropWhile P s) = length s"
  by (metis length_append takeWhile_dropWhile_id)

lemma fraction_length: "length (fst (fraction s)) + length (snd (fraction s)) \<le> length s"
proof (cases s)
  case (Cons c cs)
  then show ?thesis using take_drop_length [of is_digit cs] by simp
qed simp

lemma duration_number_shorter:
  assumes "duration_number s = Some (v, frac, after)"
  shows "length after < length s"
proof -
  have "fraction (dropWhile is_digit s) = (frac, after)" "takeWhile is_digit s \<noteq> [] \<or> frac \<noteq> []"
    using assms by (auto simp: duration_number_def Let_def split: prod.splits if_splits)
  then have "length frac + length after \<le> length (dropWhile is_digit s)" "0 < length (takeWhile is_digit s) \<or> 0 < length frac"
    using fraction_length [of "dropWhile is_digit s"] by simp_all
  then show ?thesis using take_drop_length [of is_digit s] by linarith
qed

definition unit_char :: "char \<Rightarrow> bool" where
  "unit_char c \<longleftrightarrow> c \<noteq> CHR ''.'' \<and> \<not> is_digit c"

definition add_term :: "(string \<Rightarrow> nat \<Rightarrow> nat) \<Rightarrow> nat \<Rightarrow> nat \<Rightarrow> string \<Rightarrow> nat \<Rightarrow> nat option" where
  "add_term fl d v frac unit =
     (if v > 2 ^ 63 div unit then None
      else
        (let v1 = v * unit; v2 = (if dec_val frac > 0 then v1 + fl frac unit else v1); d1 = (d + v2) mod 2 ^ 64 in
         if dec_val frac > 0 \<and> v2 > 2 ^ 63 \<or> d1 > 2 ^ 63 then None else Some d1))"

function duration_terms :: "(string \<Rightarrow> nat \<Rightarrow> nat) \<Rightarrow> nat \<Rightarrow> string \<Rightarrow> nat option" where
  "duration_terms fl d s =
     (if s = [] then Some d
      else
        (case duration_number s of
           None \<Rightarrow> None
         | Some (v, frac, after) \<Rightarrow>
             (case unit_ns (takeWhile unit_char after) of
                None \<Rightarrow> None
              | Some unit \<Rightarrow>
                  (case add_term fl d v frac unit of
                     None \<Rightarrow> None
                   | Some d1 \<Rightarrow> duration_terms fl d1 (dropWhile unit_char after)))))"
  by pat_completeness auto
termination
proof (relation "measure (\<lambda>(_, _, s). length s)")
  fix fl :: "string \<Rightarrow> nat \<Rightarrow> nat"
  fix d d1 :: nat
  fix s x v y frac after unit
  assume "duration_number s = Some x" "(v, y) = x" "(frac, after) = y"
  then have "length after < length s" using duration_number_shorter by blast
  then show "((fl, d1, dropWhile unit_char after), fl, d, s) \<in> measure (\<lambda>(_, _, s). length s)"
    using length_dropWhile_le [of unit_char after] by simp
qed simp

declare duration_terms.simps [simp del]

definition ParseDuration :: "(string \<Rightarrow> nat \<Rightarrow> nat) \<Rightarrow> string \<Rightarrow> int option" where
  "ParseDuration fl s =
     (let neg = has_prefix s ''-'';
          t = (if neg \<or> has_prefix s ''+'' then drop 1 s else s)
      in if t = ''0'' then Some 0
         else if t = [] then None
         else (case duration_terms fl 0 t of
                 None \<Rightarrow> None
               | Some d \<Rightarrow> if neg then Some (- int d) else if d > 2 ^ 63 - 1 then None else Some (int d)))"

text \<open>The clock in nanoseconds; subtracting a duration wraps at 64 bits.\<close>

definition minus_duration :: "int \<Rightarrow> int \<Rightarrow> int" where
  "minus_duration now d = now + sint (- word_of_int d :: 64 word)"

definition parseSince :: "(string \<Rightarrow> nat \<Rightarrow> nat) \<Rightarrow> string \<Rightarrow> int \<Rightarrow> int option" where
  "parseSince fl s now =
     (if s = [] then Some 0
      else
        (case ParseDuration fl s of
           Some d \<Rightarrow> Some (minus_duration now d div 1000000)
         | None \<Rightarrow> (case parse_int64 s of IntOk ms \<Rightarrow> Some ms | _ \<Rightarrow> None)))"

text \<open>An absolute time of 0 is read as the duration 0, which is now: every closed connection is left out.\<close>

lemma since_zero_is_now: "parseSince fl ''0'' now = Some (now div 1000000)"
  by (simp add: parseSince_def ParseDuration_def minus_duration_def Let_def has_prefix_def)

datatype conns_reply = BadRequest string | NotAllowed | Conns conns_response | Groups groups_response

definition parse_limit :: "string \<Rightarrow> nat option" where
  "parse_limit s =
     (if s = [] then Some 500 else (case atoi s of None \<Rightarrow> None | Some n \<Rightarrow> if n < 0 then None else Some (nat n)))"

definition parse_min_dur :: "(string \<Rightarrow> nat \<Rightarrow> nat) \<Rightarrow> string \<Rightarrow> int option" where
  "parse_min_dur fl s = (if s = [] then Some 0 else map_option (\<lambda>d. sgn d * (\<bar>d\<bar> div 1000000)) (ParseDuration fl s))"

definition parse_min_bytes :: "string \<Rightarrow> int option" where
  "parse_min_bytes s =
     (if s = [] then Some 0 else (case atoi s of None \<Rightarrow> None | Some n \<Rightarrow> if n < 0 then None else Some n))"

text \<open>The checks of the query parameters in their order; \<open>q\<close> is \<^verbatim>\<open>url.Values.Get\<close>.\<close>

definition query_filter ::
    "(string \<Rightarrow> nat \<Rightarrow> nat) \<Rightarrow> int \<Rightarrow> (string \<Rightarrow> string) \<Rightarrow> string + conn_filter \<times> nat" where
  "query_filter fl now q =
     (case parseSince fl (q ''since'') now of
        None \<Rightarrow> Inl ''since''
      | Some since \<Rightarrow>
     (case parseSince fl (q ''until'') now of
        None \<Rightarrow> Inl ''until''
      | Some until \<Rightarrow>
     (case parse_limit (q ''limit'') of
        None \<Rightarrow> Inl ''limit''
      | Some limit \<Rightarrow>
        if q ''route'' \<notin> {[], ''tunnel'', ''direct'', ''blocked''} then Inl ''route''
        else
     (case parse_min_dur fl (q ''min_dur'') of
        None \<Rightarrow> Inl ''min_dur''
      | Some dur \<Rightarrow>
     (case parse_min_bytes (q ''min_bytes'') of
        None \<Rightarrow> Inl ''min_bytes''
      | Some bytes \<Rightarrow>
        Inr (\<lparr>fl_host = to_lower (q ''host''), fl_sinceMs = since, fl_untilMs = until, fl_route = q ''route'',
              fl_minDurMs = dur, fl_minBytes = bytes, fl_errOnly = (q ''errors'' = ''1'' \<or> q ''errors'' = ''true'')\<rparr>, limit))))))"

definition handleConnections ::
    "(string \<Rightarrow> nat \<Rightarrow> nat) \<Rightarrow> string \<Rightarrow> (string \<Rightarrow> string) \<Rightarrow> int \<Rightarrow> (u64 \<times> conn_stats) list \<Rightarrow> conn_ring \<Rightarrow> conns_reply" where
  "handleConnections fl verb q now conns ring =
     (if verb \<noteq> ''GET'' then NotAllowed
      else
        (case query_filter fl now q of
           Inl bad \<Rightarrow> BadRequest bad
         | Inr (f, limit) \<Rightarrow>
             if connSortKeys (q ''sort'') = None \<and> q ''sort'' \<notin> {[], ''open''} then BadRequest ''sort''
             else if connGroupKeys (q ''group'') = None \<and> q ''group'' \<noteq> [] then BadRequest ''group''
             else
               (let ms = now div 1000000 in
                case connGroupKeys (q ''group'') of
                  Some keyOf \<Rightarrow> Groups (groups keyOf (q ''group'') limit ms (eachMatching f ms conns ring))
                | None \<Rightarrow> Conns (connections f (q ''sort'') limit ms conns ring))))"

end
