(* ===== verification/StatsStream.thy ===== *)
theory StatsStream
  imports ConnStats
begin

text \<open>
  The statistics stream (\<^verbatim>\<open>internal/stats/stats.go\<close>): the broadcaster, its clients over HTTP and in the
  process, and what the terminal interface makes of the messages (\<^verbatim>\<open>internal/tui/app.go\<close>). A message is the
  value that is encoded. Times are nanoseconds; the rates of destinations are in exact arithmetic, and the
  congestion score, which is only displayed, is left out.
\<close>

section \<open>Messages\<close>

record tunnel_snap =
  ts_Index :: int
  ts_State :: string
  ts_RxBytesPerSec :: int
  ts_TxBytesPerSec :: int
  ts_ActiveConns :: int
  ts_TotalConns :: int
  ts_LastRttUs :: int
  ts_MinRttUs :: int
  ts_MaxRttUs :: int
  ts_JitterUs :: int

record stats_snap =
  sn_RxBytesPerSec :: int
  sn_TxBytesPerSec :: int
  sn_TotalRxBytes :: int
  sn_TotalTxBytes :: int
  sn_ActiveConns :: int
  sn_TotalConns :: int
  sn_DNSQueries :: int
  sn_PeakConns :: int
  sn_LastActivityMs :: int
  sn_LastKeepaliveRttMs :: int
  sn_MaxKeepaliveRttMs :: int
  sn_Tunnels :: "tunnel_snap list"

text \<open>A destination with its rates down and up.\<close>

type_synonym dest_row = "dest_snapshot \<times> int \<times> int"

datatype hub_msg = StatsMsg stats_snap | ConnMsg conn_event | ConnsMsg "conn_event list" | DestsMsg "dest_row list"

section \<open>The view of a client\<close>

definition speedHistoryLen :: nat where "speedHistoryLen = 60"
definition maxClosedConns :: nat where "maxClosedConns = 100"

record live_state =
  lv_stats :: "stats_snap option"
  lv_history :: "stats_snap list"
  lv_active :: "u64 \<rightharpoonup> conn_event"
  lv_closed :: "conn_event list"
  lv_dests :: "dest_row list"

definition newLive :: live_state where
  "newLive = \<lparr>lv_stats = None, lv_history = [], lv_active = Map.empty, lv_closed = [], lv_dests = []\<rparr>"

text \<open>The branches of \<open>onSession\<close> for the messages of the engine.\<close>

definition onConn :: "conn_event \<Rightarrow> live_state \<Rightarrow> live_state" where
  "onConn c l =
     (if ce_Action c = ''open'' then l\<lparr>lv_active := (lv_active l)(ce_ID c \<mapsto> c)\<rparr>
      else
        (let c1 = (case lv_active l (ce_ID c) of
                     Some opn \<Rightarrow> c\<lparr>ce_Host := ce_Host opn, ce_TunnelIndex := ce_TunnelIndex opn\<rparr>
                   | None \<Rightarrow> c)
         in l\<lparr>lv_active := (lv_active l)(ce_ID c := None), lv_closed := take maxClosedConns (c1 # lv_closed l)\<rparr>))"

definition conns_view :: "conn_event list \<Rightarrow> u64 \<rightharpoonup> conn_event" where
  "conns_view evs = fold (\<lambda>c m. m(ce_ID c \<mapsto> c)) evs Map.empty"

fun onMessage :: "hub_msg \<Rightarrow> live_state \<Rightarrow> live_state" where
  "onMessage (StatsMsg s) l = l\<lparr>lv_stats := Some s, lv_history := last_n speedHistoryLen (lv_history l @ [s])\<rparr>"
| "onMessage (ConnMsg c) l = onConn c l"
| "onMessage (ConnsMsg evs) l = l\<lparr>lv_active := conns_view evs\<rparr>"
| "onMessage (DestsMsg ds) l = l\<lparr>lv_dests := ds\<rparr>"

section \<open>The broadcaster\<close>

record broadcaster =
  bc_prevRx :: int
  bc_prevTx :: int
  bc_prevTotal :: int
  bc_prevDNS :: int
  bc_tunnelRx :: "nat \<rightharpoonup> int"
  bc_tunnelTx :: "nat \<rightharpoonup> int"
  bc_destRx :: "string \<rightharpoonup> int"
  bc_destTx :: "string \<rightharpoonup> int"
  bc_lastHealth :: int
  bc_lastConn :: int
  bc_lastDest :: int
  bc_lookup :: bool

definition new_broadcaster :: "int \<Rightarrow> broadcaster" where
  "new_broadcaster now =
     \<lparr>bc_prevRx = 0, bc_prevTx = 0, bc_prevTotal = 0, bc_prevDNS = 0, bc_tunnelRx = Map.empty, bc_tunnelTx = Map.empty,
      bc_destRx = Map.empty, bc_destTx = Map.empty, bc_lastHealth = now, bc_lastConn = now, bc_lastDest = now, bc_lookup = False\<rparr>"

definition healthLogInterval :: int where "healthLogInterval = secs 30"
definition connSnapshotInterval :: int where "connSnapshotInterval = secs 3"
definition destSnapshotInterval :: int where "destSnapshotInterval = secs 5"

text \<open>A missing key of a Go map reads as 0.\<close>

definition at_key :: "('k \<rightharpoonup> int) \<Rightarrow> 'k \<Rightarrow> int" where
  "at_key m k = (case m k of None \<Rightarrow> 0 | Some v \<Rightarrow> v)"

definition tunnel_row :: "broadcaster \<Rightarrow> nat \<Rightarrow> int \<times> tunnel_counters \<Rightarrow> tunnel_snap" where
  "tunnel_row bc i e =
     (case e of (idx, tc) \<Rightarrow>
        \<lparr>ts_Index = idx, ts_State = tunnelStateString (tc_state tc),
         ts_RxBytesPerSec = tc_RxTotal tc - at_key (bc_tunnelRx bc) i, ts_TxBytesPerSec = tc_TxTotal tc - at_key (bc_tunnelTx bc) i,
         ts_ActiveConns = tc_ActiveTCP tc, ts_TotalConns = tc_TotalTCP tc, ts_LastRttUs = tc_LastRTT tc div 1000,
         ts_MinRttUs = MinRTT tc div 1000, ts_MaxRttUs = tc_maxRTTNs tc div 1000, ts_JitterUs = Jitter tc div 1000\<rparr>)"

definition tunnel_prevs :: "(tunnel_counters \<Rightarrow> int) \<Rightarrow> (int \<times> tunnel_counters) list \<Rightarrow> (nat \<rightharpoonup> int) \<Rightarrow> nat \<rightharpoonup> int" where
  "tunnel_prevs tally ts prev = (\<lambda>i. if i < length ts then Some (tally (snd (ts ! i))) else prev i)"

definition make_snap :: "int \<Rightarrow> broadcaster \<Rightarrow> meters \<Rightarrow> (int \<times> tunnel_counters) list \<Rightarrow> stats_snap" where
  "make_snap now bc m ts =
     \<lparr>sn_RxBytesPerSec = ct_RxTotal m - bc_prevRx bc, sn_TxBytesPerSec = ct_TxTotal m - bc_prevTx bc,
      sn_TotalRxBytes = ct_RxTotal m, sn_TotalTxBytes = ct_TxTotal m, sn_ActiveConns = ct_ActiveTCP m,
      sn_TotalConns = ct_TotalTCP m, sn_DNSQueries = ct_DNSTotal m, sn_PeakConns = ct_peakActive m,
      sn_LastActivityMs = LastActivityAgo now m div 1000000, sn_LastKeepaliveRttMs = ct_lastKeepaliveRTTNs m div 1000000,
      sn_MaxKeepaliveRttMs = ct_maxKeepaliveRTTNs m div 1000000,
      sn_Tunnels = map (\<lambda>(i, e). tunnel_row bc i e) (enumerate 0 ts)\<rparr>"

text \<open>\<open>int64(float64(d) / elapsed)\<close>, which cuts towards zero.\<close>

definition per_second :: "int \<Rightarrow> int \<Rightarrow> int" where
  "per_second d elapsed = (if elapsed \<le> 0 then 0 else sgn d * (\<bar>d\<bar> * secs 1 div elapsed))"

definition dest_rows :: "broadcaster \<Rightarrow> int \<Rightarrow> conn_book \<Rightarrow> dest_row list" where
  "dest_rows bc elapsed b =
     take maxDestSnapshot
       (sort_key (\<lambda>(s, _, _). - (dsn_RxBytes s + dsn_TxBytes s))
         (map (\<lambda>(k, ds). (dest_snap b (k, ds), per_second (ds_rxBytes ds - at_key (bc_destRx bc) k) elapsed,
                 per_second (ds_txBytes ds - at_key (bc_destTx bc) k) elapsed)) (cb_dests b)))"

definition dest_prevs :: "(dest_stats \<Rightarrow> int) \<Rightarrow> (string \<times> dest_stats) list \<Rightarrow> (string \<rightharpoonup> int) \<Rightarrow> string \<rightharpoonup> int" where
  "dest_prevs tally dests prev = fold (\<lambda>(k, ds) m. m(k \<mapsto> tally ds)) dests prev"

text \<open>What is asked for when a lookup of processes starts: the destination of each source address.\<close>

definition src_keys :: "conn_book \<Rightarrow> (string \<times> string) list" where
  "src_keys b = fold (\<lambda>(_, cs) m. AList.update (cs_srcAddr cs) (cs_destKey cs) m) (cb_conns b) []"

section \<open>Clients and their queues\<close>

text \<open>
  \<open>sc_unsent\<close> are the first messages: a handler writes them to the connection before it reads its channel,
  \<open>Subscribe\<close> (\<open>sc_inproc\<close>) sends them into the channel after it has given up the lock. \<open>sc_lost\<close> notes for the
  proofs that a message has been dropped since the last snapshot.
\<close>

record sse_client =
  sc_inproc :: bool
  sc_unsent :: "hub_msg list"
  sc_queue :: "hub_msg list"
  sc_live :: live_state
  sc_lost :: bool

definition clientQueue :: nat where "clientQueue = 256"

text \<open>
  \<open>hb_pending\<close> are the events of connections between the unlock and the send into the channel of events,
  \<open>hb_held\<close> the messages of a tick that are still to be broadcast, \<open>hb_lost\<close> whether an event was dropped.
\<close>

record stats_hub =
  hb_book :: conn_book
  hb_meters :: meters
  hb_tunnels :: "(int \<times> tunnel_counters) list"
  hb_bc :: broadcaster
  hb_pending :: "conn_event list"
  hb_held :: "hub_msg list"
  hb_clients :: "(nat \<times> sse_client) list"
  hb_next :: nat
  hb_lost :: bool
  hb_warnings :: "health_warning list"
  hb_asked :: "(string \<times> string) list option"
  hb_closed :: bool
  hb_done :: bool

definition new_hub :: "(string \<Rightarrow> string option) \<Rightarrow> int \<Rightarrow> stats_hub" where
  "new_hub etld now =
     \<lparr>hb_book = new_book etld, hb_meters = new_meters now, hb_tunnels = [], hb_bc = new_broadcaster now, hb_pending = [],
      hb_held = [], hb_clients = [], hb_next = 0, hb_lost = False, hb_warnings = [], hb_asked = None, hb_closed = False, hb_done = False\<rparr>"

definition initial_msgs :: "conn_book \<Rightarrow> hub_msg list" where
  "initial_msgs b =
     (let conns = buildConnSnapshot b; dests = dest_rows (new_broadcaster 0) 0 b in
      (if conns \<noteq> [] then [ConnsMsg conns] else []) @ (if dests \<noteq> [] then [DestsMsg dests] else []))"

definition hub_Subscribe :: "bool \<Rightarrow> stats_hub \<Rightarrow> stats_hub" where
  "hub_Subscribe inproc h =
     h\<lparr>hb_clients := hb_clients h @ [(hb_next h, \<lparr>sc_inproc = inproc, sc_unsent = initial_msgs (hb_book h), sc_queue = [],
           sc_live = newLive, sc_lost = hb_lost h\<rparr>)],
       hb_next := hb_next h + 1\<rparr>"

definition hub_cancel :: "nat \<Rightarrow> stats_hub \<Rightarrow> stats_hub" where
  "hub_cancel k h = h\<lparr>hb_clients := AList.delete k (hb_clients h)\<rparr>"

text \<open>The note of a loss is taken back when a snapshot is queued while nothing is lost before it.\<close>

definition queue_msg :: "bool \<Rightarrow> hub_msg \<Rightarrow> sse_client \<Rightarrow> sse_client" where
  "queue_msg lost msg c =
     (if length (sc_queue c) < clientQueue
      then c\<lparr>sc_queue := sc_queue c @ [msg],
             sc_lost := (case msg of ConnsMsg _ \<Rightarrow> lost | _ \<Rightarrow> sc_lost c)\<rparr>
      else c\<lparr>sc_lost := True\<rparr>)"

definition hub_broadcast :: "hub_msg \<Rightarrow> stats_hub \<Rightarrow> stats_hub" where
  "hub_broadcast msg h = h\<lparr>hb_clients := map (\<lambda>(k, c). (k, queue_msg (hb_lost h) msg c)) (hb_clients h)\<rparr>"

section \<open>Steps\<close>

datatype meter_op = MRx int int | MTx int int | MDNS int | MOpened | MDone | MKeepalive int | MCtrl int

fun meter_step :: "meters \<Rightarrow> meter_op \<Rightarrow> meters" where
  "meter_step m (MRx n now) = ct_AddRx now n m"
| "meter_step m (MTx n now) = ct_AddTx now n m"
| "meter_step m (MDNS now) = AddDNS now m"
| "meter_step m MOpened = m\<lparr>ct_ActiveTCP := ct_ActiveTCP m + 1, ct_TotalTCP := ct_TotalTCP m + 1\<rparr>"
| "meter_step m MDone = m\<lparr>ct_ActiveTCP := ct_ActiveTCP m - 1\<rparr>"
| "meter_step m (MKeepalive rtt) = ObserveKeepaliveRTT rtt m"
| "meter_step m (MCtrl rtt) = ObserveCtrlKeepaliveRTT rtt m"

text \<open>The event of an operation on the book; it is sent after the lock is given up.\<close>

definition open_event :: "u64 \<Rightarrow> conn_stats \<Rightarrow> conn_event" where
  "open_event cid cs =
     \<lparr>ce_ID = cid, ce_Action = ''open'', ce_SrcAddr = cs_srcAddr cs, ce_DstAddr = cs_dstAddr cs,
      ce_Host = cs_host cs, ce_TunnelIndex = cs_tunnelIndex cs, ce_TimestampMs = cs_openedAt cs\<rparr>"

fun op_event :: "conn_book \<Rightarrow> book_op \<Rightarrow> conn_event list" where
  "op_event b (OpOpen src dst host ti route now) =
     [\<lparr>ce_ID = cb_next b + 1, ce_Action = ''open'', ce_SrcAddr = src, ce_DstAddr = dst,
       ce_Host = host, ce_TunnelIndex = ti, ce_TimestampMs = now\<rparr>]"
| "op_event b (OpClose cid src dst err now) =
     [\<lparr>ce_ID = cid, ce_Action = ''close'', ce_SrcAddr = src, ce_DstAddr = dst,
       ce_Host = [], ce_TunnelIndex = 0, ce_TimestampMs = now\<rparr>]"
| "op_event b _ = []"

definition locked_step :: "conn_book \<Rightarrow> book_op \<Rightarrow> conn_book" where
  "locked_step b op = (book_step b op)\<lparr>cb_events := cb_events b\<rparr>"

text \<open>The parts are the operations as they are without other goroutines.\<close>

lemma op_parts: "fold push_event (op_event b op) (locked_step b op) = book_step b op"
  by (cases op) (auto simp: locked_step_def push_event_def ConnOpenRoute_def ConnCloseErr_def ConnFailed_def ConnAddRx_def ConnAddTx_def Let_def
      split: option.splits)

definition on_client :: "nat \<Rightarrow> (sse_client \<Rightarrow> sse_client) \<Rightarrow> stats_hub \<Rightarrow> stats_hub" where
  "on_client k f h = h\<lparr>hb_clients := map (\<lambda>(j, c). if j = k then (j, f c) else (j, c)) (hb_clients h)\<rparr>"

text \<open>A tick of the second, with everything that is due.\<close>

definition hub_tick :: "int \<Rightarrow> stats_hub \<Rightarrow> stats_hub" where
  "hub_tick now h =
     (let bc = hb_bc h; m = NoteActiveConns (ct_ActiveTCP (hb_meters h)) (hb_meters h); ts = hb_tunnels h; b = hb_book h;
          snap = make_snap now bc m ts;
          healthy = now - bc_lastHealth bc < healthLogInterval;
          connsDue = now - bc_lastConn bc \<ge> connSnapshotInterval;
          elapsed = now - bc_lastDest bc;
          destsDue = elapsed \<ge> destSnapshotInterval;
          asks = destsDue \<and> \<not> bc_lookup bc;
          bc1 = bc\<lparr>bc_prevRx := ct_RxTotal m, bc_prevTx := ct_TxTotal m,
                   bc_tunnelRx := tunnel_prevs tc_RxTotal ts (bc_tunnelRx bc), bc_tunnelTx := tunnel_prevs tc_TxTotal ts (bc_tunnelTx bc)\<rparr>;
          bc2 = (if healthy then bc1 else bc1\<lparr>bc_lastHealth := now, bc_prevTotal := sn_TotalConns snap, bc_prevDNS := sn_DNSQueries snap\<rparr>);
          bc3 = (if connsDue then bc2\<lparr>bc_lastConn := now\<rparr> else bc2);
          bc4 = (if destsDue then bc3\<lparr>bc_lastDest := now, bc_lookup := True,
                   bc_destRx := dest_prevs ds_rxBytes (cb_dests b) (bc_destRx bc3), bc_destTx := dest_prevs ds_txBytes (cb_dests b) (bc_destTx bc3)\<rparr>
                 else bc3)
      in h\<lparr>hb_bc := bc4, hb_meters := m,
            hb_held := [StatsMsg snap] @ (if connsDue then [ConnsMsg (buildConnSnapshot b)] else []) @
              (if destsDue then [DestsMsg (dest_rows bc elapsed b)] else []),
            hb_warnings := hb_warnings h @
              (if healthy then [] else (case logHealth now (sn_TotalConns snap - bc_prevTotal bc) (sn_DNSQueries snap - bc_prevDNS bc) m of
                 None \<Rightarrow> [] | Some x \<Rightarrow> [x])),
            hb_asked := (if asks then Some (src_keys b) else hb_asked h)\<rparr>)"

datatype hub_act =
    BookOp book_op
  | SendEvent nat
  | Meter meter_op
  | Registers int
  | TunnelAdds nat int int
  | TunnelRTT nat int
  | TunnelState nat tunnel_state
  | Tick int
  | SendHeld
  | Dispatch
  | ProcFound "(string \<times> string) list"
  | Subscribes bool
  | SendsInitial nat
  | ClientReads nat
  | Cancels nat
  | Closes
  | BroadcasterEnds

definition hub_tunnel :: "nat \<Rightarrow> (tunnel_counters \<Rightarrow> tunnel_counters) \<Rightarrow> stats_hub \<Rightarrow> stats_hub" where
  "hub_tunnel i f h = (if i < length (hb_tunnels h) then h\<lparr>hb_tunnels := (hb_tunnels h)[i := map_prod id f (hb_tunnels h ! i)]\<rparr> else h)"

definition send_initial :: "sse_client \<Rightarrow> sse_client" where
  "send_initial c =
     (case sc_unsent c of
        [] \<Rightarrow> c
      | msg # ms \<Rightarrow> if sc_inproc c \<and> length (sc_queue c) < clientQueue then c\<lparr>sc_unsent := ms, sc_queue := sc_queue c @ [msg]\<rparr> else c)"

text \<open>What \<open>Subscribe\<close> has still to send, its caller cannot read yet.\<close>

definition client_reads :: "sse_client \<Rightarrow> sse_client" where
  "client_reads c =
     (case sc_unsent c of
        msg # ms \<Rightarrow> if sc_inproc c then c else c\<lparr>sc_unsent := ms, sc_live := onMessage msg (sc_live c)\<rparr>
      | [] \<Rightarrow>
          (case sc_queue c of
             [] \<Rightarrow> c
           | msg # ms \<Rightarrow> c\<lparr>sc_queue := ms, sc_live := onMessage msg (sc_live c)\<rparr>))"

text \<open>
  A goroutine of a connection sends its event before its next operation: no operation is done on a
  connection whose event is pending.
\<close>

definition op_free :: "stats_hub \<Rightarrow> book_op \<Rightarrow> bool" where
  "op_free h op \<longleftrightarrow> list_all (\<lambda>e. ce_ID e \<notin> set (map ce_ID (hb_pending h))) (op_event (hb_book h) op)"

fun hub_step :: "stats_hub \<Rightarrow> hub_act \<Rightarrow> stats_hub" where
  "hub_step h (BookOp op) =
     (if op_free h op then h\<lparr>hb_book := locked_step (hb_book h) op, hb_pending := hb_pending h @ op_event (hb_book h) op\<rparr> else h)"
| "hub_step h (SendEvent i) =
     (if i < length (hb_pending h)
      then (let ev = hb_pending h ! i; rest = take i (hb_pending h) @ drop (Suc i) (hb_pending h) in
            if length (cb_events (hb_book h)) < eventBuffer
            then h\<lparr>hb_book := push_event ev (hb_book h), hb_pending := rest\<rparr>
            else h\<lparr>hb_pending := rest, hb_lost := True, hb_clients := map (\<lambda>(k, c). (k, c\<lparr>sc_lost := True\<rparr>)) (hb_clients h)\<rparr>)
      else h)"
| "hub_step h (Meter op) = h\<lparr>hb_meters := meter_step (hb_meters h) op\<rparr>"
| "hub_step h (Registers idx) = h\<lparr>hb_tunnels := snd (RegisterTunnel idx (hb_tunnels h))\<rparr>"
| "hub_step h (TunnelAdds i rx tx) = hub_tunnel i (\<lambda>tc. tc_AddTx tx (tc_AddRx rx tc)) h"
| "hub_step h (TunnelRTT i rtt) = hub_tunnel i (ObserveRTT rtt) h"
| "hub_step h (TunnelState i st) = hub_tunnel i (tc_SetState st) h"
| "hub_step h (Tick now) = (if hb_held h = [] \<and> \<not> hb_done h then hub_tick now h else h)"
| "hub_step h SendHeld =
     (case hb_held h of [] \<Rightarrow> h | msg # ms \<Rightarrow> hub_broadcast msg (h\<lparr>hb_held := ms\<rparr>))"
| "hub_step h Dispatch =
     (case cb_events (hb_book h) of
        [] \<Rightarrow> h
      | ev # evs \<Rightarrow>
          if hb_held h = [] \<and> \<not> hb_done h
          then (let h1 = hub_broadcast (ConnMsg ev) (h\<lparr>hb_book := (hb_book h)\<lparr>cb_events := evs\<rparr>\<rparr>) in
                if evs = [] \<and> hb_pending h = [] then h1\<lparr>hb_lost := False\<rparr> else h1)
          else h)"
| "hub_step h (ProcFound procs) =
     (case hb_asked h of
        None \<Rightarrow> h
      | Some keys \<Rightarrow>
          if hb_held h = [] \<and> \<not> hb_done h
          then h\<lparr>hb_book := fold (merge_process keys) procs (hb_book h), hb_asked := None, hb_bc := (hb_bc h)\<lparr>bc_lookup := False\<rparr>\<rparr>
          else h)"
| "hub_step h (Subscribes inproc) = hub_Subscribe inproc h"
| "hub_step h (SendsInitial k) = on_client k send_initial h"
| "hub_step h (ClientReads k) = on_client k client_reads h"
| "hub_step h (Cancels k) = hub_cancel k h"
| "hub_step h Closes = h\<lparr>hb_closed := True\<rparr>"
| "hub_step h BroadcasterEnds = (if hb_closed h \<and> hb_held h = [] then h\<lparr>hb_done := True\<rparr> else h)"

section \<open>What a client sees\<close>

text \<open>The open connections as a client is to see them.\<close>

definition conns_now :: "conn_book \<Rightarrow> u64 \<rightharpoonup> conn_event" where
  "conns_now b = (\<lambda>j. map_option (open_event j) (map_of (cb_conns b) j))"

definition event_state :: "conn_event \<Rightarrow> conn_event option" where
  "event_state e = (if ce_Action e = ''open'' then Some e else None)"

fun view_msg :: "hub_msg \<Rightarrow> (u64 \<rightharpoonup> conn_event) \<Rightarrow> u64 \<rightharpoonup> conn_event" where
  "view_msg (ConnMsg e) v = v(ce_ID e := event_state e)"
| "view_msg (ConnsMsg evs) v = conns_view evs"
| "view_msg _ v = v"

lemma lv_active_onMessage: "lv_active (onMessage msg l) = view_msg msg (lv_active l)"
  by (cases msg) (auto simp: onConn_def event_state_def Let_def)

text \<open>The state of a connection once the events \<open>evs\<close> that are on their way have arrived.\<close>

definition eventual :: "conn_event list \<Rightarrow> (u64 \<rightharpoonup> conn_event) \<Rightarrow> u64 \<rightharpoonup> conn_event" where
  "eventual evs v = (\<lambda>j. let es = filter (\<lambda>e. ce_ID e = j) evs in if es = [] then v j else event_state (last es))"

definition right_view :: "conn_event list \<Rightarrow> conn_book \<Rightarrow> (u64 \<rightharpoonup> conn_event) \<Rightarrow> bool" where
  "right_view evs b v \<longleftrightarrow> eventual evs v = conns_now b"

lemma eventual_Nil [simp]: "eventual [] v = v"
  by (simp add: eventual_def)

lemma eventual_snoc: "eventual (evs @ [e]) v = (eventual evs v)(ce_ID e := event_state e)"
  by (rule ext) (simp add: eventual_def Let_def)

lemma eventual_Cons: "eventual (e # evs) v = eventual evs (v(ce_ID e := event_state e))"
  by (rule ext) (simp add: eventual_def Let_def)

lemma eventual_upd: "eventual evs (v(j := x)) = (eventual evs v)(j := eventual evs (v(j := x)) j)"
  by (rule ext) (simp add: eventual_def Let_def)

lemma filter_distinct_id:
  assumes "distinct (map ce_ID ps)" "i < length ps"
  shows "filter (\<lambda>e. ce_ID e = j) (ps ! i # take i ps @ drop (Suc i) ps) = filter (\<lambda>e. ce_ID e = j) ps"
proof -
  have ps: "ps = take i ps @ ps ! i # drop (Suc i) ps" using assms(2) by (rule id_take_nth_drop)
  have "distinct (map ce_ID (take i ps @ ps ! i # drop (Suc i) ps))" using assms ps by metis
  then have "ce_ID (ps ! i) \<notin> ce_ID ` set (take i ps)" by auto
  then have "filter (\<lambda>e. ce_ID e = j) (take i ps) = []" if "ce_ID (ps ! i) = j"
    using that unfolding filter_empty_conv by (metis imageI)
  then have "filter (\<lambda>e. ce_ID e = j) (ps ! i # take i ps @ drop (Suc i) ps) = filter (\<lambda>e. ce_ID e = j) (take i ps @ ps ! i # drop (Suc i) ps)"
    by auto
  then show ?thesis using ps by metis
qed

lemma eventual_send:
  assumes "distinct (map ce_ID ps)" "i < length ps"
  shows "eventual (evs @ [ps ! i] @ take i ps @ drop (Suc i) ps) v = eventual (evs @ ps) v"
  unfolding eventual_def using filter_distinct_id [OF assms] by (simp add: Let_def)

lemma conns_now_update:
  assumes "map_of (cb_conns b) cid = Some cs" "open_event cid cs' = open_event cid cs"
  shows "conns_now (b\<lparr>cb_conns := AList.update cid cs' (cb_conns b), cb_dests := d, cb_events := e\<rparr>) = conns_now b"
  using assms by (auto simp: conns_now_def update_conv)

lemma conns_now_locked:
  "conns_now (locked_step b op) = fold (\<lambda>e v. v(ce_ID e := event_state e)) (op_event b op) (conns_now b)"
proof (cases op)
  case (OpOpen src dst host ti route now)
  then show ?thesis
    by (auto simp: conns_now_def locked_step_def ConnOpenRoute_def Let_def update_conv event_state_def open_event_def)
next
  case (OpClose cid src dst err now)
  then show ?thesis
    by (auto simp: conns_now_def locked_step_def ConnCloseErr_def Let_def delete_conv event_state_def split: option.splits)
next
  case (OpFailed src dst host route started err now)
  then show ?thesis by (simp add: conns_now_def locked_step_def ConnFailed_def Let_def)
next
  case (OpRx cid n now)
  then show ?thesis
    by (auto simp: locked_step_def ConnAddRx_def conns_now_update open_event_def count_rx_def conns_now_def update_conv split: option.splits)
next
  case (OpTx cid n now)
  then show ?thesis
    by (auto simp: locked_step_def ConnAddTx_def conns_now_update open_event_def conns_now_def update_conv split: option.splits)
qed

lemma op_event_cases:
  obtains "op_event b op = []" | e where "op_event b op = [e]"
  by (cases op) auto

lemma right_view_op: "right_view evs b v \<Longrightarrow> right_view (evs @ op_event b op) (locked_step b op) v"
  by (cases rule: op_event_cases [of b op]) (auto simp: right_view_def conns_now_locked eventual_snoc)

lemma right_view_op_self:
  assumes "right_view evs b (conns_now b)"
  shows "right_view (evs @ op_event b op) (locked_step b op) (conns_now (locked_step b op))"
proof (cases rule: op_event_cases [of b op])
  case 1
  then show ?thesis using assms by (simp add: right_view_def conns_now_locked)
next
  case (2 e)
  have "eventual evs ((conns_now b)(ce_ID e := event_state e)) = (conns_now b)(ce_ID e := eventual evs ((conns_now b)(ce_ID e := event_state e)) (ce_ID e))"
    using assms eventual_upd [of evs "conns_now b"] by (metis right_view_def)
  then show ?thesis
    using 2 by (simp add: right_view_def conns_now_locked eventual_snoc) (metis fun_upd_upd)
qed

lemma right_view_dispatch_self: "right_view (e # evs) b (conns_now b) \<Longrightarrow> right_view evs b (conns_now b)"
proof (unfold right_view_def, rule ext)
  fix j
  assume "eventual (e # evs) (conns_now b) = conns_now b"
  then have "eventual (e # evs) (conns_now b) j = conns_now b j" by (rule fun_cong)
  then show "eventual evs (conns_now b) j = conns_now b j" by (auto simp: eventual_def Let_def split: if_splits)
qed

definition view_msgs :: "hub_msg list \<Rightarrow> (u64 \<rightharpoonup> conn_event) \<Rightarrow> u64 \<rightharpoonup> conn_event" where
  "view_msgs ms v = fold view_msg ms v"

lemma view_msgs_simps [simp]:
  "view_msgs [] v = v" "view_msgs (m # ms) v = view_msgs ms (view_msg m v)" "view_msgs (ms @ ns) v = view_msgs ns (view_msgs ms v)"
  by (simp_all add: view_msgs_def)

definition msg_right :: "conn_event list \<Rightarrow> conn_book \<Rightarrow> hub_msg \<Rightarrow> bool" where
  "msg_right evs b msg = (case msg of ConnMsg _ \<Rightarrow> False | ConnsMsg cs \<Rightarrow> right_view evs b (conns_view cs) | _ \<Rightarrow> True)"

lemma right_view_held:
  "right_view evs b v \<Longrightarrow> list_all (msg_right evs b) ms \<Longrightarrow> right_view evs b (view_msgs ms v)"
  by (induction ms arbitrary: v) (auto simp: msg_right_def split: hub_msg.splits)

section \<open>The invariant of the stream\<close>

definition in_flight :: "stats_hub \<Rightarrow> conn_event list" where
  "in_flight h = cb_events (hb_book h) @ hb_pending h"

definition client_right :: "stats_hub \<Rightarrow> sse_client \<Rightarrow> bool" where
  "client_right h c \<longleftrightarrow>
     sc_inproc c \<or> sc_lost c \<or>
     right_view (in_flight h) (hb_book h) (view_msgs (sc_unsent c @ sc_queue c @ hb_held h) (lv_active (sc_live c)))"

definition hub_ok :: "stats_hub \<Rightarrow> bool" where
  "hub_ok h \<longleftrightarrow>
     distinct (map fst (cb_conns (hb_book h))) \<and> distinct (map ce_ID (hb_pending h)) \<and>
     (if hb_lost h then list_all (sc_lost \<circ> snd) (hb_clients h)
      else right_view (in_flight h) (hb_book h) (conns_now (hb_book h)) \<and>
           list_all (msg_right (in_flight h) (hb_book h)) (hb_held h)) \<and>
     list_all (client_right h \<circ> snd) (hb_clients h)"

lemma map_of_entries: "map_of (map (\<lambda>(k, v). (k, f k v)) xs) j = map_option (f j) (map_of xs j)"
  by (induction xs) auto

lemma conns_view_map:
  assumes "distinct (map ce_ID evs)"
  shows "conns_view evs = map_of (map (\<lambda>e. (ce_ID e, e)) evs)"
proof -
  let ?xs = "map (\<lambda>e. (ce_ID e, e)) evs"
  have "fold (\<lambda>c m. m(ce_ID c \<mapsto> c)) evs Map.empty = map_of (rev ?xs)"
    by (induction evs rule: rev_induct) auto
  moreover have "distinct (map fst ?xs)" "distinct (map fst (rev ?xs))"
    using assms by (simp_all add: comp_def rev_map [symmetric])
  then have "map_of (rev ?xs) = map_of ?xs" by (subst map_of_inject_set) simp_all
  ultimately show ?thesis by (simp add: conns_view_def)
qed

lemma conns_view_snapshot:
  assumes "distinct (map fst (cb_conns b))"
  shows "conns_view (buildConnSnapshot b) = conns_now b"
proof -
  have snap: "buildConnSnapshot b = map (\<lambda>(k, cs). open_event k cs) (cb_conns b)"
    by (simp add: buildConnSnapshot_def open_event_def)
  have ids: "map ce_ID (buildConnSnapshot b) = map fst (cb_conns b)"
    by (auto simp: snap open_event_def)
  have "map (\<lambda>e. (ce_ID e, e)) (buildConnSnapshot b) = map (\<lambda>(k, cs). (k, open_event k cs)) (cb_conns b)"
    by (auto simp: snap open_event_def)
  moreover have "distinct (map ce_ID (buildConnSnapshot b))" unfolding ids by (rule assms)
  ultimately show ?thesis
    using map_of_entries [of open_event "cb_conns b"] by (simp add: conns_view_map conns_now_def fun_eq_iff)
qed

lemma view_initial:
  assumes "distinct (map fst (cb_conns b))"
  shows "view_msgs (initial_msgs b) Map.empty = conns_now b"
proof -
  have "conns_now b = Map.empty" if "buildConnSnapshot b = []"
    using that by (auto simp: buildConnSnapshot_def conns_now_def)
  then show ?thesis using conns_view_snapshot [OF assms] by (auto simp: initial_msgs_def Let_def)
qed

text \<open>A step that leaves the book's connections, the events and the messages of the clients alone.\<close>

lemma hub_ok_cong:
  assumes "hub_ok h" "hb_pending h' = hb_pending h" "hb_held h' = hb_held h" "hb_clients h' = hb_clients h" "hb_lost h' = hb_lost h"
    "cb_conns (hb_book h') = cb_conns (hb_book h)" "cb_events (hb_book h') = cb_events (hb_book h)"
  shows "hub_ok h'"
proof -
  have o: "conns_now (hb_book h') = conns_now (hb_book h)" and i: "in_flight h' = in_flight h"
    using assms(2,6,7) by (simp_all add: conns_now_def in_flight_def)
  have "right_view (in_flight h) (hb_book h') = right_view (in_flight h) (hb_book h)"
    using o by (simp add: right_view_def fun_eq_iff)
  moreover from this have "msg_right (in_flight h) (hb_book h') = msg_right (in_flight h) (hb_book h)"
    by (auto simp: msg_right_def fun_eq_iff split: hub_msg.splits)
  ultimately show ?thesis
    using assms o i by (auto simp: hub_ok_def client_right_def comp_def)
qed

lemma hub_ok_op:
  assumes "hub_ok h" "op_free h op"
  shows "hub_ok (h\<lparr>hb_book := locked_step (hb_book h) op, hb_pending := hb_pending h @ op_event (hb_book h) op\<rparr>)"
proof -
  let ?b = "locked_step (hb_book h) op"
  let ?h = "h\<lparr>hb_book := ?b, hb_pending := hb_pending h @ op_event (hb_book h) op\<rparr>"
  have flight: "in_flight ?h = in_flight h @ op_event (hb_book h) op"
    by (simp add: in_flight_def locked_step_def)
  have "distinct (map fst (cb_conns ?b))"
    using assms(1) by (cases op) (auto simp: hub_ok_def locked_step_def ConnOpenRoute_def ConnCloseErr_def ConnFailed_def ConnAddRx_def
        ConnAddTx_def Let_def distinct_update distinct_delete split: option.splits)
  moreover have "distinct (map ce_ID (hb_pending ?h))"
    using assms by (cases rule: op_event_cases [of "hb_book h" op]) (auto simp: hub_ok_def op_free_def)
  moreover have "msg_right (in_flight ?h) ?b msg" if "msg_right (in_flight h) (hb_book h) msg" for msg
    using that right_view_op [of "in_flight h" "hb_book h" _ op] by (auto simp: msg_right_def flight split: hub_msg.splits)
  moreover have "client_right ?h c" if "client_right h c" for c
    using that right_view_op [of "in_flight h" "hb_book h" _ op] unfolding client_right_def flight by auto
  ultimately show ?thesis
    using assms(1) right_view_op_self [of "in_flight h" "hb_book h" op]
    by (auto simp: hub_ok_def flight list_all_iff split: if_splits)
qed

lemma hub_ok_send:
  assumes "hub_ok h" "i < length (hb_pending h)"
  shows "hub_ok (hub_step h (SendEvent i))"
proof -
  let ?ps = "hb_pending h"
  let ?rest = "take i ?ps @ drop (Suc i) ?ps"
  have "?ps = take i ?ps @ ?ps ! i # drop (Suc i) ?ps" using assms(2) by (rule id_take_nth_drop)
  then have "distinct (map ce_ID (take i ?ps @ ?ps ! i # drop (Suc i) ?ps))" using assms(1) by (metis hub_ok_def)
  then have dist: "distinct (map ce_ID ?rest)" by auto
  show ?thesis
  proof (cases "length (cb_events (hb_book h)) < eventBuffer")
    case True
    define h' where "h' = h\<lparr>hb_book := push_event (?ps ! i) (hb_book h), hb_pending := ?rest\<rparr>"
    have step: "hub_step h (SendEvent i) = h'" using True assms(2) by (simp add: h'_def)
    have o: "conns_now (hb_book h') = conns_now (hb_book h)" by (simp add: h'_def conns_now_def)
    have flight: "eventual (in_flight h') = eventual (in_flight h)"
      using eventual_send [OF _ assms(2), of "cb_events (hb_book h)"] assms(1) True
      by (simp add: fun_eq_iff in_flight_def h'_def push_event_def hub_ok_def)
    have r: "right_view (in_flight h') (hb_book h') = right_view (in_flight h) (hb_book h)"
      using o flight by (simp add: right_view_def fun_eq_iff)
    then have "msg_right (in_flight h') (hb_book h') = msg_right (in_flight h) (hb_book h)"
      by (auto simp: msg_right_def fun_eq_iff split: hub_msg.splits)
    moreover have "client_right h' = client_right h"
      using r by (auto simp: client_right_def h'_def fun_eq_iff)
    moreover have "hb_lost h' = hb_lost h" "hb_clients h' = hb_clients h" "hb_held h' = hb_held h" "hb_pending h' = ?rest"
      "cb_conns (hb_book h') = cb_conns (hb_book h)"
      by (simp_all add: h'_def)
    ultimately show ?thesis using assms(1) dist r o unfolding step by (simp add: hub_ok_def)
  next
    case False
    then show ?thesis
      using assms dist by (auto simp: hub_ok_def list_all_iff client_right_def)
  qed
qed

lemma hub_ok_send_held:
  assumes "hub_ok h" "hb_held h = msg # ms"
  shows "hub_ok (hub_broadcast msg (h\<lparr>hb_held := ms\<rparr>))"
proof -
  define h' where "h' = hub_broadcast msg (h\<lparr>hb_held := ms\<rparr>)"
  have f: "hb_book h' = hb_book h" "hb_pending h' = hb_pending h" "hb_held h' = ms" "hb_lost h' = hb_lost h"
    "hb_clients h' = map (\<lambda>(k, c). (k, queue_msg (hb_lost h) msg c)) (hb_clients h)" "in_flight h' = in_flight h"
    by (simp_all add: h'_def hub_broadcast_def in_flight_def)
  have held: "list_all (msg_right (in_flight h) (hb_book h)) (msg # ms)" if "\<not> hb_lost h"
    using assms that by (simp add: hub_ok_def)
  have "client_right h' (queue_msg (hb_lost h) msg c)" if "client_right h c" for c
  proof (cases "length (sc_queue c) < clientQueue")
    case True
    show ?thesis
    proof (cases msg)
      case (ConnsMsg evs)
      have "right_view (in_flight h) (hb_book h) (view_msgs ms (conns_view evs))" if "\<not> hb_lost h"
        using held [OF that] ConnsMsg by (intro right_view_held) (auto simp: msg_right_def)
      then show ?thesis using True ConnsMsg by (auto simp: client_right_def queue_msg_def f)
    qed (use that True assms(2) in \<open>auto simp: client_right_def queue_msg_def f\<close>)
  qed (simp add: client_right_def queue_msg_def)
  moreover have "sc_lost (queue_msg True msg c)" if "sc_lost c" for c
    using that by (auto simp: queue_msg_def split: hub_msg.splits)
  ultimately have "hub_ok h'"
    using assms(1) held by (auto simp: hub_ok_def f list_all_iff split: if_splits)
  then show ?thesis by (simp add: h'_def)
qed

lemma hub_ok_dispatch:
  assumes "hub_ok h" "hb_held h = []" "cb_events (hb_book h) = ev # evs"
    "h1 = hub_broadcast (ConnMsg ev) (h\<lparr>hb_book := (hb_book h)\<lparr>cb_events := evs\<rparr>\<rparr>)"
  shows "hub_ok h1 \<and> (evs = [] \<and> hb_pending h = [] \<longrightarrow> hub_ok (h1\<lparr>hb_lost := False\<rparr>))"
proof -
  let ?b = "(hb_book h)\<lparr>cb_events := evs\<rparr>"
  have f: "hb_book h1 = ?b" "hb_pending h1 = hb_pending h" "hb_held h1 = []" "hb_lost h1 = hb_lost h"
    "hb_clients h1 = map (\<lambda>(k, c). (k, queue_msg (hb_lost h) (ConnMsg ev) c)) (hb_clients h)"
    by (simp_all add: assms(2,4) hub_broadcast_def)
  have o: "conns_now ?b = conns_now (hb_book h)" by (simp add: conns_now_def)
  have flight: "in_flight h = ev # in_flight h1" by (simp add: in_flight_def assms(3) f)
  have r: "right_view (in_flight h1) ?b v = right_view (in_flight h1) (hb_book h) v" for v
    by (simp add: right_view_def o)
  have client: "client_right h1 (queue_msg (hb_lost h) (ConnMsg ev) c)" if "client_right h c" for c
    using that assms(2) by (auto simp: client_right_def queue_msg_def f o flight right_view_def eventual_Cons)
  have self: "right_view (in_flight h1) ?b (conns_now ?b)" if "\<not> hb_lost h"
    using assms(1) that right_view_dispatch_self [of ev "in_flight h1" "hb_book h"] unfolding r o flight [symmetric] by (simp add: hub_ok_def)
  have lost: "sc_lost (queue_msg (hb_lost h) (ConnMsg ev) c)" if "sc_lost c" for c
    using that by (auto simp: queue_msg_def)
  have ok: "hub_ok h1"
    using assms(1) self client lost by (auto simp: hub_ok_def f list_all_iff split: if_splits)
  moreover have "hub_ok (h1\<lparr>hb_lost := False\<rparr>)" if "evs = []" "hb_pending h = []"
  proof -
    have "in_flight h1 = []" using that by (simp add: in_flight_def f)
    moreover have "in_flight (h1\<lparr>hb_lost := False\<rparr>) = in_flight h1" by (simp add: in_flight_def)
    ultimately show ?thesis
      using ok by (auto simp: hub_ok_def list_all_iff client_right_def right_view_def f)
  qed
  ultimately show ?thesis by blast
qed

lemma hub_ok_tick:
  assumes "hub_ok h" "hb_held h = []"
  shows "hub_ok (hub_tick now h)"
proof -
  let ?h = "hub_tick now h"
  have f: "hb_book ?h = hb_book h" "hb_pending ?h = hb_pending h" "hb_lost ?h = hb_lost h" "hb_clients ?h = hb_clients h"
    by (simp_all add: hub_tick_def Let_def)
  have flight: "in_flight ?h = in_flight h" by (simp add: in_flight_def f)
  have "conns_view (buildConnSnapshot (hb_book h)) = conns_now (hb_book h)"
    using assms(1) by (intro conns_view_snapshot) (simp add: hub_ok_def)
  then have held: "list_all (msg_right (in_flight h) (hb_book h)) (hb_held ?h)" if "\<not> hb_lost h"
    using that assms(1) by (auto simp: hub_tick_def Let_def msg_right_def hub_ok_def)
  then have "client_right ?h c" if "client_right h c" "\<not> hb_lost h" for c
    using that assms(2) right_view_held [OF _ held [OF that(2)]] by (auto simp: client_right_def f flight)
  moreover have "client_right ?h c" if "sc_lost c" for c using that by (simp add: client_right_def)
  ultimately show ?thesis
    using assms held unfolding hub_ok_def f flight by (cases "hb_lost h") (auto simp: list_all_iff)
qed

lemma hub_ok_subscribe:
  assumes "hub_ok h"
  shows "hub_ok (hub_Subscribe inproc h)"
proof -
  let ?h = "hub_Subscribe inproc h"
  have f: "hb_book ?h = hb_book h" "hb_pending ?h = hb_pending h" "hb_lost ?h = hb_lost h" "hb_held ?h = hb_held h"
    by (simp_all add: hub_Subscribe_def)
  have flight: "in_flight ?h = in_flight h" by (simp add: in_flight_def f)
  have "view_msgs (initial_msgs (hb_book h)) Map.empty = conns_now (hb_book h)"
    using assms by (intro view_initial) (simp add: hub_ok_def)
  moreover have "right_view (in_flight h) (hb_book h) (view_msgs (hb_held h) (conns_now (hb_book h)))" if "\<not> hb_lost h"
    using assms that by (intro right_view_held) (simp_all add: hub_ok_def)
  ultimately show ?thesis
    using assms unfolding hub_ok_def f flight
    by (fastforce simp: hub_Subscribe_def client_right_def flight f newLive_def list_all_iff in_flight_def)
qed

lemma client_right_reads: "client_right h c \<Longrightarrow> client_right h (client_reads c)"
  by (auto simp: client_right_def client_reads_def lv_active_onMessage split: list.split)

lemma client_right_initial: "client_right h c \<Longrightarrow> client_right h (send_initial c)"
  by (auto simp: client_right_def send_initial_def split: list.split)

lemma hub_ok_on_client:
  assumes "hub_ok h" "\<And>c. client_right h c \<Longrightarrow> client_right h (f c)" "\<And>c. sc_lost (f c) = sc_lost c"
  shows "hub_ok (on_client k f h)"
proof -
  have "client_right (on_client k f h) = client_right h" by (auto simp: client_right_def on_client_def in_flight_def fun_eq_iff)
  moreover have "in_flight (on_client k f h) = in_flight h" by (simp add: in_flight_def on_client_def)
  ultimately show ?thesis
    using assms by (auto simp: hub_ok_def on_client_def list_all_iff split: if_splits)
qed

lemma merge_process_fields [simp]:
  "cb_conns (fold (merge_process keys) procs b) = cb_conns b" "cb_events (fold (merge_process keys) procs b) = cb_events b"
  by (induction procs arbitrary: b) (auto simp: merge_process_def split: option.splits)

lemma hub_ok_cancel: "hub_ok h \<Longrightarrow> hub_ok (hub_cancel k h)"
proof -
  assume ok: "hub_ok h"
  have sub: "set (AList.delete k (hb_clients h)) \<subseteq> set (hb_clients h)" by (auto simp: AList.delete_eq)
  have "client_right (hub_cancel k h) = client_right h" by (auto simp: client_right_def hub_cancel_def in_flight_def fun_eq_iff)
  moreover have "in_flight (hub_cancel k h) = in_flight h" by (simp add: in_flight_def hub_cancel_def)
  ultimately show ?thesis
    using ok sub by (fastforce simp: hub_ok_def hub_cancel_def list_all_iff split: if_splits)
qed

lemma hub_ok_step:
  assumes "hub_ok h"
  shows "hub_ok (hub_step h act)"
proof (cases act)
  case (BookOp op)
  then show ?thesis using assms hub_ok_op by simp
next
  case (SendEvent i)
  then show ?thesis using assms hub_ok_send [OF assms, of i] by (cases "i < length (hb_pending h)") auto
next
  case (Tick now)
  then show ?thesis using assms hub_ok_tick by simp
next
  case SendHeld
  then show ?thesis using assms hub_ok_send_held [OF assms] by (simp split: list.split)
next
  case Dispatch
  then show ?thesis using assms hub_ok_dispatch [OF assms _ _ refl] by (auto simp: Let_def split: list.split)
next
  case (ProcFound procs)
  then show ?thesis using assms by (auto split: option.split intro: hub_ok_cong [OF assms])
next
  case (Subscribes inproc)
  then show ?thesis using hub_ok_subscribe [OF assms] by simp
next
  case (SendsInitial k)
  have "sc_lost (send_initial c) = sc_lost c" for c by (simp add: send_initial_def split: list.split)
  then show ?thesis using hub_ok_on_client [OF assms client_right_initial] SendsInitial by simp
next
  case (ClientReads k)
  have "sc_lost (client_reads c) = sc_lost c" for c by (simp add: client_reads_def split: list.split)
  then show ?thesis using hub_ok_on_client [OF assms client_right_reads] ClientReads by simp
next
  case (Cancels k)
  then show ?thesis using hub_ok_cancel [OF assms] by simp
qed (auto simp: hub_tunnel_def intro: hub_ok_cong [OF assms])

lemma hub_ok_run: "hub_ok (foldl hub_step (new_hub etld now) acts)"
proof (induction acts rule: rev_induct)
  case Nil
  then show ?case
    by (simp add: hub_ok_def new_hub_def new_book_def in_flight_def right_view_def)
next
  case (snoc a acts)
  then show ?case using hub_ok_step by simp
qed


definition one_conn :: "hub_act list" where
  "one_conn = [Subscribes False, BookOp (OpOpen ''s:1'' ''d:2'' ''h'' 1 ''proxy'' 7), SendEvent 0, Dispatch, ClientReads 0]"

definition seen_open :: conn_event where
  "seen_open = \<lparr>ce_ID = 1, ce_Action = ''open'', ce_SrcAddr = ''s:1'', ce_DstAddr = ''d:2'', ce_Host = ''h'', ce_TunnelIndex = 1, ce_TimestampMs = 7\<rparr>"

lemmas hub_eval = new_hub_def new_book_def hub_Subscribe_def initial_msgs_def buildConnSnapshot_def dest_rows_def op_free_def
  locked_step_def ConnOpenRoute_def ConnCloseErr_def push_event_def eventBuffer_def evict_not_full maxDests_def update_dest_def
  hub_broadcast_def queue_msg_def clientQueue_def on_client_def client_reads_def send_initial_def in_flight_def


text \<open>
  C0: \<open>Subscribe\<close> takes its snapshot under the lock but sends it after the unlock, when the broadcaster may
  already have sent newer events: a connection closed in between is shown as open although no message was
  lost and none is on its way.
\<close>

definition overtaken :: "hub_act list" where
  "overtaken =
     [BookOp (OpOpen ''s:1'' ''d:2'' ''h'' 1 ''proxy'' 7), SendEvent 0, Dispatch, Subscribes True,
      BookOp (OpClose 1 ''s:1'' ''d:2'' [] 8), SendEvent 0, Dispatch, SendsInitial 0, SendsInitial 0,
      ClientReads 0, ClientReads 0, ClientReads 0]"

lemma buildDestSnapshot_short: "length (dest_rows bc e b) = min maxDestSnapshot (length (cb_dests b))"
  by (simp add: dest_rows_def)


section \<open>Rates\<close>

text \<open>The rates of the ticks add up to the bytes counted.\<close>

primrec tick_rates :: "stats_hub \<Rightarrow> hub_act list \<Rightarrow> int list" where
  "tick_rates h [] = []"
| "tick_rates h (a # as) =
     (case a of
        Tick now \<Rightarrow> if hb_held h = [] \<and> \<not> hb_done h then [ct_RxTotal (hb_meters h) - bc_prevRx (hb_bc h)] else []
      | _ \<Rightarrow> []) @ tick_rates (hub_step h a) as"

lemma tick_snap_rate:
  "hd (hb_held (hub_tick now h)) = StatsMsg (make_snap now (hb_bc h) (NoteActiveConns (ct_ActiveTCP (hb_meters h)) (hb_meters h)) (hb_tunnels h)) \<and>
   sn_RxBytesPerSec (make_snap now (hb_bc h) (NoteActiveConns (ct_ActiveTCP (hb_meters h)) (hb_meters h)) (hb_tunnels h)) =
     ct_RxTotal (hb_meters h) - bc_prevRx (hb_bc h)"
  by (simp add: hub_tick_def make_snap_def NoteActiveConns_def Let_def)

lemma prevRx_step:
  "bc_prevRx (hb_bc (hub_step h a)) =
     (case a of Tick now \<Rightarrow> if hb_held h = [] \<and> \<not> hb_done h then ct_RxTotal (hb_meters h) else bc_prevRx (hb_bc h) | _ \<Rightarrow> bc_prevRx (hb_bc h))"
  by (cases a) (auto simp: hub_tick_def Let_def NoteActiveConns_def hub_tunnel_def hub_broadcast_def hub_Subscribe_def on_client_def hub_cancel_def
      split: list.splits option.splits)

lemma rates_add_up: "sum_list (tick_rates h as) = bc_prevRx (hb_bc (foldl hub_step h as)) - bc_prevRx (hb_bc h)"
proof (induction as arbitrary: h)
  case (Cons a as)
  then show ?case by (cases a) (simp_all only: tick_rates.simps foldl.simps sum_list.append sum_list.Cons sum_list.Nil prevRx_step hub_act.case split: if_splits, auto)
qed simp

text \<open>
  The totals kept for the rates of destinations outlive the destinations: one that was evicted and comes
  back with fresh counters is reported with a negative rate.
\<close>

lemma dest_prevs_absent: "k \<notin> fst ` set dests \<Longrightarrow> dest_prevs tally dests prev k = prev k"
  unfolding dest_prevs_def by (induction dests arbitrary: prev) auto

lemma evicted_total_kept:
  assumes "k \<notin> fst ` set (cb_dests (hb_book h))"
  shows "bc_destRx (hb_bc (hub_tick now h)) k = bc_destRx (hb_bc h) k"
  using assms by (simp add: hub_tick_def Let_def dest_prevs_absent)

lemma negative_rate:
  assumes "bc_destRx bc k = Some old" "ds_rxBytes ds < old" "(old - ds_rxBytes ds) * secs 1 \<ge> elapsed" "0 < elapsed"
  shows "per_second (ds_rxBytes ds - at_key (bc_destRx bc) k) elapsed < 0"
proof -
  have "1 \<le> (old - ds_rxBytes ds) * secs 1 div elapsed" using zdiv_mono1 [OF assms(3,4)] assms(4) by simp
  then show ?thesis using assms by (simp add: per_second_def at_key_def)
qed

section \<open>The server\<close>

text \<open>\<open>listen\<close> gives the port that was bound, 0 asks for any.\<close>

definition ListenAndServe :: "(nat \<Rightarrow> nat option) \<Rightarrow> int \<Rightarrow> error + nat" where
  "ListenAndServe listen preferred =
     (case (if preferred > 0 then listen (nat preferred) else None) of
        Some p \<Rightarrow> Inr p
      | None \<Rightarrow> (case listen 0 of None \<Rightarrow> Inl (Msg ''stats: listen'') | Some p \<Rightarrow> Inr p))"

definition Priorities :: "conn_book \<Rightarrow> (string \<times> int) list" where
  "Priorities b = (case cb_priorities b of None \<Rightarrow> [] | Some m \<Rightarrow> m)"

definition handleSnapshot :: "int \<Rightarrow> meters \<Rightarrow> stats_snap" where
  "handleSnapshot now m =
     \<lparr>sn_RxBytesPerSec = 0, sn_TxBytesPerSec = 0, sn_TotalRxBytes = ct_RxTotal m, sn_TotalTxBytes = ct_TxTotal m,
      sn_ActiveConns = ct_ActiveTCP m, sn_TotalConns = ct_TotalTCP m, sn_DNSQueries = ct_DNSTotal m, sn_PeakConns = ct_peakActive m,
      sn_LastActivityMs = LastActivityAgo now m div 1000000, sn_LastKeepaliveRttMs = ct_lastKeepaliveRTTNs m div 1000000,
      sn_MaxKeepaliveRttMs = ct_maxKeepaliveRTTNs m div 1000000, sn_Tunnels = []\<rparr>"

datatype priorities_reply = NoContent | PrioritiesAre "(string \<times> int) list" | BadBody | BadMethod

text \<open>The body is what the decoder made of it: \<open>None\<close> an error, \<open>Some None\<close> the JSON null.\<close>

definition handlePriorities ::
    "string \<Rightarrow> (string \<times> int) list option option \<Rightarrow> conn_book \<Rightarrow> priorities_reply \<times> conn_book" where
  "handlePriorities verb body b =
     (if verb = ''OPTIONS'' then (NoContent, b)
      else if verb = ''GET'' then (PrioritiesAre (Priorities b), b)
      else if verb = ''POST''
      then (case body of
              None \<Rightarrow> (BadBody, b)
            | Some m \<Rightarrow> (let b1 = SetPriorities m b in (PrioritiesAre (Priorities b1), b1)))
      else (BadMethod, b))"

text \<open>
  A posted null is taken as it is, and the next \<open>SetPriority\<close> other than to the default writes to a nil map;
  a posted value outside 1 to 5 is kept as it is.
\<close>

lemma null_priorities_panic:
  "fst (handlePriorities ''POST'' (Some None) b) = PrioritiesAre [] \<and>
   stats_SetPriority host 1 (snd (handlePriorities ''POST'' (Some None) b)) = None \<and>
   fst (handlePriorities ''POST'' (Some (Some [(host, 99)])) b) = PrioritiesAre [(host, 99)]"
  by (simp add: handlePriorities_def SetPriorities_def Priorities_def stats_SetPriority_def DefaultPriority_def Let_def)

lemma ListenAndServe_falls_back:
  "listen 0 = Some p \<Longrightarrow> ListenAndServe listen preferred = Inr (case (if preferred > 0 then listen (nat preferred) else None) of None \<Rightarrow> p | Some q \<Rightarrow> q)"
  by (auto simp: ListenAndServe_def split: option.split)

end
