(* ===== verification/PfCommands.thy ===== *)
theory PfCommands
  imports FwRules IpText
begin

text \<open>
  The pf method on macOS beside its rules (\<^verbatim>\<open>internal/firewall/pf.go\<close>): the commands and control calls it makes,
  the token by which pf is kept enabled, and the lookup of the original destination. What \<^verbatim>\<open>pfctl\<close> and the
  calls on \<^verbatim>\<open>/dev/pf\<close> do is a parameter; the file that keeps the token is part of the state.
\<close>

section \<open>Running pfctl\<close>

text \<open>Arguments, standard input; whether it succeeded, its output.\<close>

type_synonym 'k pf_exec = "string list \<Rightarrow> string \<Rightarrow> 'k \<Rightarrow> (bool \<times> string) \<times> 'k"

text \<open>A control call changes the buffer it is given.\<close>

type_synonym 'k pf_ioctl = "nat \<Rightarrow> 8 word list \<Rightarrow> 'k \<Rightarrow> 8 word list \<times> 'k"

record 'k pf_host =
  ph_kernel :: 'k
  ph_token :: "string option"
  ph_dev :: bool

record pf_run =
  pr_anchor :: string
  pr_token :: string
  pr_args :: setup_args

definition new_pf_run :: pf_run where
  "new_pf_run = \<lparr>pr_anchor = [], pr_token = [],
     pr_args = \<lparr>sa_subnets = [], sa_excludes = [], sa_proxyPort = 0, sa_dnsPort = 0, sa_dnsServers = []\<rparr>\<rparr>"

definition newNamed_pf :: "string \<Rightarrow> bool" where
  "newNamed_pf name \<longleftrightarrow> name = ''pf'' \<or> name = ''auto''"

definition pfctl :: "'k pf_exec \<Rightarrow> string list \<Rightarrow> 'k pf_host \<Rightarrow> (bool \<times> string) \<times> 'k pf_host" where
  "pfctl exec args h = (case exec args [] (ph_kernel h) of (r, k) \<Rightarrow> (r, h\<lparr>ph_kernel := k\<rparr>))"

definition pfctlStdin :: "'k pf_exec \<Rightarrow> string \<Rightarrow> string list \<Rightarrow> 'k pf_host \<Rightarrow> bool \<times> 'k pf_host" where
  "pfctlStdin exec stdin args h = (case exec args stdin (ph_kernel h) of ((ok, _), k) \<Rightarrow> (ok, h\<lparr>ph_kernel := k\<rparr>))"

section \<open>What is read from the output\<close>

definition not_S :: "char \<Rightarrow> bool" where
  "not_S c \<longleftrightarrow> c \<in> {CHR 0x09, CHR 0x0A, CHR 0x0C, CHR 0x0D, CHR '' ''}"

text \<open>The expression \<^verbatim>\<open>Token : (\S+)\<close>, its first match.\<close>

fun find_token :: "string \<Rightarrow> string option" where
  "find_token [] = None"
| "find_token (c # s) =
     (let t = takeWhile (\<lambda>d. \<not> not_S d) (drop 8 (c # s)) in
      if has_prefix (c # s) ''Token : '' \<and> t \<noteq> [] then Some t else find_token s)"

definition quote :: string where "quote = [CHR 0x22]"

definition anchor_text :: "string \<Rightarrow> string" where
  "anchor_text name = ''anchor '' @ quote @ name @ quote"

text \<open>All matches of the expression for \<^verbatim>\<open>anchor "(netferry-\d+)"\<close>; a match holds no start of another.\<close>

definition anchor_start :: string where
  "anchor_start = ''anchor '' @ quote @ ''netferry-''"

fun find_anchors :: "string \<Rightarrow> string list" where
  "find_anchors [] = []"
| "find_anchors (c # s) =
     (let rest = drop (length anchor_start) (c # s); ds = takeWhile is_digit rest in
      (if has_prefix (c # s) anchor_start \<and> ds \<noteq> [] \<and> has_prefix (dropWhile is_digit rest) quote then [''netferry-'' @ ds] else [])
      @ find_anchors s)"

section \<open>Anchors\<close>

definition DIOCNATLOOK :: nat where "DIOCNATLOOK = 0xC0544417"
definition DIOCCHANGERULE :: nat where "DIOCCHANGERULE = 0xCC20441A"
definition DIOCBEGINADDRS :: nat where "DIOCBEGINADDRS = 0xC4704433"
definition pfioc_rule_size :: nat where "pfioc_rule_size = 3104"
definition pfioc_pooladdr_size :: nat where "pfioc_pooladdr_size = 1136"
definition pool_ticket_offset :: nat where "pool_ticket_offset = 8"
definition anchor_call_offset :: nat where "anchor_call_offset = 1040"
definition rule_action_offset :: nat where "rule_action_offset = 3068"
definition pf_pass :: "32 word" where "pf_pass = 0"
definition pf_rdr_action :: "32 word" where "pf_rdr_action = 8"

definition copy_at :: "nat \<Rightarrow> 'b list \<Rightarrow> 'b list \<Rightarrow> 'b list" where
  "copy_at off xs buf = take off buf @ take (length buf - off) xs @ drop (off + length xs) buf"

definition le32 :: "32 word \<Rightarrow> 8 word list" where
  "le32 v = map (\<lambda>i. ucast (drop_bit (8 * i) v)) [0, 1, 2, 3]"

definition byte_of :: "char \<Rightarrow> 8 word" where
  "byte_of c = of_nat (of_char c)"

definition rule_request :: "8 word list \<Rightarrow> 32 word \<Rightarrow> string \<Rightarrow> 8 word list" where
  "rule_request ppa kind name =
     copy_at 0 (le32 6)
       (copy_at rule_action_offset (le32 kind)
         (copy_at anchor_call_offset (map byte_of name)
           (copy_at pool_ticket_offset (take 4 (drop 4 ppa)) (replicate pfioc_rule_size 0))))"

definition addAnchorRule :: "'k pf_ioctl \<Rightarrow> 32 word \<Rightarrow> string \<Rightarrow> 'k \<Rightarrow> 'k" where
  "addAnchorRule ioctl kind name k =
     (let (ppa, k1) = ioctl DIOCBEGINADDRS (replicate pfioc_pooladdr_size 0) k;
          (pr, k2) = ioctl DIOCCHANGERULE (rule_request ppa kind name) k1;
          (_, k3) = ioctl DIOCCHANGERULE (copy_at 0 (le32 2) pr) k2
      in k3)"

definition addAnchors :: "'k pf_exec \<Rightarrow> 'k pf_ioctl \<Rightarrow> string \<Rightarrow> 'k pf_host \<Rightarrow> 'k pf_host" where
  "addAnchors exec ioctl name h =
     (if \<not> ph_dev h then h
      else
        (case pfctl exec [''-s'', ''all''] h of
           ((_, status), h1) \<Rightarrow>
             let k1 = (if contains_sub status (''rdr-'' @ anchor_text name) then ph_kernel h1 else addAnchorRule ioctl pf_rdr_action name (ph_kernel h1));
                 k2 = (if contains_sub status (anchor_text name) then k1 else addAnchorRule ioctl pf_pass name k1)
             in h1\<lparr>ph_kernel := k2\<rparr>))"

section \<open>The operations\<close>

definition load_rules :: "'k pf_exec \<Rightarrow> string \<Rightarrow> string \<Rightarrow> 'k pf_host \<Rightarrow> bool \<times> 'k pf_host" where
  "load_rules exec rules anchor h = pfctlStdin exec rules [''-a'', anchor, ''-f'', ''/dev/stdin''] h"

definition keep_token :: "string \<Rightarrow> pf_run \<Rightarrow> 'k pf_host \<Rightarrow> pf_run \<times> 'k pf_host" where
  "keep_token out p h =
     (case find_token out of None \<Rightarrow> (p, h) | Some t \<Rightarrow> (p\<lparr>pr_token := t\<rparr>, h\<lparr>ph_token := Some t\<rparr>))"

definition fix_skip :: "'k pf_exec \<Rightarrow> 'k pf_host \<Rightarrow> 'k pf_host" where
  "fix_skip exec h =
     (case pfctl exec [''-s'', ''Interfaces'', ''-i'', ''lo0'', ''-v''] h of
        ((_, status), h1) \<Rightarrow>
          if contains_sub status ''skip'' then snd (pfctlStdin exec (''pass on lo'' @ nl) [''-f'', ''/dev/stdin''] h1) else h1)"

definition pf_Setup ::
    "'k pf_exec \<Rightarrow> 'k pf_ioctl \<Rightarrow> pf_method \<Rightarrow> setup_args \<Rightarrow> pf_run \<Rightarrow> 'k pf_host \<Rightarrow> bool \<times> pf_run \<times> 'k pf_host" where
  "pf_Setup exec ioctl m a p h =
     (let p0 = p\<lparr>pr_anchor := ''netferry-'' @ itoa (sa_proxyPort a), pr_args := a\<rparr> in
      case pfctl exec [''-E''] h of
        ((False, _), h1) \<Rightarrow> (False, p0, h1)
      | ((True, out), h1) \<Rightarrow>
          (case keep_token out p0 h1 of
             (p1, h2) \<Rightarrow>
               let h3 = addAnchors exec ioctl (pr_anchor p1) (fix_skip exec h2) in
               case load_rules exec (pf_buildRules m a) (pr_anchor p1) h3 of (ok, h4) \<Rightarrow> (ok, p1, h4)))"

definition pf_Restore :: "'k pf_exec \<Rightarrow> pf_run \<Rightarrow> 'k pf_host \<Rightarrow> 'k pf_host" where
  "pf_Restore exec p h =
     (let h1 = snd (pfctl exec [''-a'', pr_anchor p, ''-F'', ''all''] h) in
      if pr_token p = [] then h1 else (snd (pfctl exec [''-X'', pr_token p] h1))\<lparr>ph_token := None\<rparr>)"

definition pf_DisableDNS :: "'k pf_exec \<Rightarrow> pf_method \<Rightarrow> pf_run \<Rightarrow> 'k pf_host \<Rightarrow> bool \<times> 'k pf_host" where
  "pf_DisableDNS exec m p h =
     (if pr_anchor p = [] then (True, h)
      else load_rules exec (pf_buildRules m ((pr_args p)\<lparr>sa_dnsPort := 0, sa_dnsServers := []\<rparr>)) (pr_anchor p) h)"

definition releaseStaleToken :: "'k pf_exec \<Rightarrow> 'k pf_host \<Rightarrow> 'k pf_host" where
  "releaseStaleToken exec h =
     (case ph_token h of
        None \<Rightarrow> h
      | Some tok \<Rightarrow>
          let t = trim_space tok; h1 = (if t \<noteq> [] then snd (pfctl exec [''-X'', t] h) else h)
          in h1\<lparr>ph_token := None\<rparr>)"

definition pf_CleanStaleAnchors :: "'k pf_exec \<Rightarrow> 'k pf_host \<Rightarrow> 'k pf_host" where
  "pf_CleanStaleAnchors exec h =
     (case pfctl exec [''-s'', ''all''] h of
        ((False, _), h1) \<Rightarrow> h1
      | ((True, out), h1) \<Rightarrow>
          releaseStaleToken exec (fold (\<lambda>a h. snd (pfctl exec [''-a'', a, ''-F'', ''all''] h)) (find_anchors out) h1))"

definition pf_FlushExistingConnections :: "'k pf_exec \<Rightarrow> subnet_rule list \<Rightarrow> 'k pf_host \<Rightarrow> 'k pf_host" where
  "pf_FlushExistingConnections exec subnets h =
     fold (\<lambda>s h. snd (pfctl exec [''-k'', if sn_IsIPv6 s then ''::/0'' else ''0/0'', ''-k'', sn_CIDR s] h)) subnets h"

definition pf_FlushDNSCache :: "(string list \<Rightarrow> 'k \<Rightarrow> 'k) \<Rightarrow> 'k \<Rightarrow> 'k" where
  "pf_FlushDNSCache run k = run [''killall'', ''-HUP'', ''mDNSResponder''] (run [''dscacheutil'', ''-flushcache''] k)"

section \<open>The original destination\<close>

definition htons :: "16 word \<Rightarrow> 16 word" where
  "htons v = or (drop_bit 8 v) (push_bit 8 v)"

definition ntohs :: "16 word \<Rightarrow> 16 word" where "ntohs v = htons v"

record natlook =
  nk_saddr :: "nat list"
  nk_daddr :: "nat list"
  nk_rdaddr :: "nat list"
  nk_sxport :: "16 word"
  nk_dxport :: "16 word"
  nk_rdxport :: "16 word"
  nk_af :: nat
  nk_proto :: nat
  nk_dir :: nat

definition addr_field :: "nat list \<Rightarrow> nat list" where
  "addr_field ip = take 16 ip @ replicate (16 - length ip) 0"

definition To4_bytes :: "nat list \<Rightarrow> nat list" where
  "To4_bytes ip = (case To4 ip of None \<Rightarrow> [] | Some v4 \<Rightarrow> v4)"

text \<open>An address is its 16 bytes, with its port; \<open>look\<close> is the control call, \<open>None\<close> an error.\<close>

definition natlook_request :: "nat list \<times> nat \<Rightarrow> nat list \<times> nat \<Rightarrow> natlook" where
  "natlook_request peer proxy =
     (let v6 = To4 (fst peer) = None; addr = (\<lambda>ip. addr_field (if v6 then ip else To4_bytes ip)) in
      \<lparr>nk_saddr = addr (fst peer), nk_daddr = addr (fst proxy), nk_rdaddr = replicate 16 0,
       nk_sxport = htons (of_nat (snd peer)), nk_dxport = htons (of_nat (snd proxy)), nk_rdxport = 0,
       nk_af = (if v6 then 30 else 2), nk_proto = 6, nk_dir = 2\<rparr>)"

definition QueryNATLook ::
    "error option \<Rightarrow> (natlook \<Rightarrow> natlook option) \<Rightarrow> nat list \<times> nat \<Rightarrow> nat list \<times> nat \<Rightarrow> error + string \<times> nat" where
  "QueryNATLook dev look peer proxy =
     (case dev of
        Some e \<Rightarrow> Inl e
      | None \<Rightarrow>
          (case look (natlook_request peer proxy) of
             None \<Rightarrow> Inr (ip_string (fst proxy), snd proxy)
           | Some r \<Rightarrow>
               Inr (if To4 (fst peer) = None then ip_string (take 16 (nk_rdaddr r)) else ipv4_string (take 4 (nk_rdaddr r)),
                    unat (ntohs (nk_rdxport r)))))"

lemma ntohs_htons [simp]: "ntohs (htons v) = v"
proof (rule bit_word_eqI)
  fix n :: nat
  have "8 + (n - 8) = n" if "8 \<le> n" using that by simp
  then show "n < LENGTH(16) \<Longrightarrow> bit (ntohs (htons v)) n = bit v n"
    by (cases "n < 8") (auto simp: ntohs_def htons_def bit_simps)
qed

text \<open>The port the kernel recorded is the port that is returned, and the ports asked for are in network order.\<close>

lemma QueryNATLook_port:
  assumes "look (natlook_request peer proxy) = Some r" "nk_rdxport r = htons (of_nat p)" "p < 65536"
  shows "map_sum id snd (QueryNATLook None look peer proxy) = Inr p"
  using assms by (auto simp: QueryNATLook_def unat_of_nat)

section \<open>The request for an anchor\<close>

lemma length_copy_at: "off + length xs \<le> length buf \<Longrightarrow> length (copy_at off xs buf) = length buf"
  by (simp add: copy_at_def)

lemma copy_at_read: "off + length xs \<le> length buf \<Longrightarrow> take (length xs) (drop off (copy_at off xs buf)) = xs"
  by (simp add: copy_at_def)

lemma copy_at_other:
  assumes "off + length xs \<le> length buf" "a + n \<le> off \<or> off + length xs \<le> a"
  shows "take n (drop a (copy_at off xs buf)) = take n (drop a buf)"
proof (rule nth_equalityI)
  show len: "length (take n (drop a (copy_at off xs buf))) = length (take n (drop a buf))"
    using assms(1) by (simp add: length_copy_at)
  fix i
  assume "i < length (take n (drop a (copy_at off xs buf)))"
  then have i: "i < n" "a + i < length buf" using len by auto
  have "copy_at off xs buf ! (a + i) = buf ! (a + i)"
    using assms i by (auto simp: copy_at_def nth_append min_def)
  then show "take n (drop a (copy_at off xs buf)) ! i = take n (drop a buf) ! i"
    using i assms(1) by (simp add: length_copy_at)
qed

text \<open>
  Every field of the request is where the kernel expects it, for every name that fits: none of the four
  copies overwrites another or runs over the end.
\<close>

lemma rule_request_fields:
  fixes ppa :: "8 word list" and kind :: "32 word" and name :: string
  assumes "length ppa = pfioc_pooladdr_size" "length name \<le> rule_action_offset - anchor_call_offset"
  defines "pr \<equiv> rule_request ppa kind name"
  shows "length pr = pfioc_rule_size" "take 4 pr = le32 6" "take 4 (drop pool_ticket_offset pr) = take 4 (drop 4 ppa)"
    "take (length name) (drop anchor_call_offset pr) = map byte_of name" "take 4 (drop rule_action_offset pr) = le32 kind"
proof -
  have n: "length (take 4 (drop 4 ppa)) = 4" "length (map byte_of name) = length name" "length (le32 v) = 4" for v
    using assms(1) by (simp_all add: pfioc_pooladdr_size_def le32_def)
  note sizes = pfioc_rule_size_def pool_ticket_offset_def anchor_call_offset_def rule_action_offset_def
  define b0 :: "8 word list" where "b0 = replicate pfioc_rule_size 0"
  define b1 where "b1 = copy_at pool_ticket_offset (take 4 (drop 4 ppa)) b0"
  define b2 where "b2 = copy_at anchor_call_offset (map byte_of name) b1"
  define b3 where "b3 = copy_at rule_action_offset (le32 kind) b2"
  have pr: "pr = copy_at 0 (le32 6) b3" by (simp add: pr_def rule_request_def b0_def b1_def b2_def b3_def)
  have l0: "length b0 = 3104" by (simp add: b0_def sizes)
  have l1: "length b1 = 3104" unfolding b1_def using l0 n by (subst length_copy_at) (simp_all add: sizes)
  have l2: "length b2 = 3104" unfolding b2_def using l1 assms(2) by (subst length_copy_at) (simp_all add: sizes)
  have l3: "length b3 = 3104" unfolding b3_def using l2 n by (subst length_copy_at) (simp_all add: sizes)
  show "length pr = pfioc_rule_size" unfolding pr using l3 n by (subst length_copy_at) (simp_all add: sizes)
  show "take 4 pr = le32 6" using copy_at_read [of 0 "le32 6" b3] l3 n by (simp add: pr)
  have top: "take m (drop a pr) = take m (drop a b3)" if "4 \<le> a" for m a
    unfolding pr using l3 n that by (intro copy_at_other) simp_all
  show "take 4 (drop rule_action_offset pr) = le32 kind"
    using top [of rule_action_offset 4] copy_at_read [of rule_action_offset "le32 kind" b2] l2 n by (simp add: sizes b3_def)
  have "take (length name) (drop anchor_call_offset b3) = take (length name) (drop anchor_call_offset b2)"
    unfolding b3_def using l2 n assms(2) by (intro copy_at_other) (simp_all add: sizes)
  then show "take (length name) (drop anchor_call_offset pr) = map byte_of name"
    using top [of anchor_call_offset "length name"] copy_at_read [of anchor_call_offset "map byte_of name" b1] l1 assms(2)
    by (simp add: sizes b2_def)
  have "take 4 (drop pool_ticket_offset b3) = take 4 (drop pool_ticket_offset b1)"
    unfolding b3_def b2_def using l1 n assms(2) l2 [unfolded b2_def]
    by (subst copy_at_other, simp_all add: sizes, subst copy_at_other, simp_all)
  then show "take 4 (drop pool_ticket_offset pr) = take 4 (drop 4 ppa)"
    using top [of pool_ticket_offset 4] copy_at_read [of pool_ticket_offset "take 4 (drop 4 ppa)" b0] l0 n by (simp add: sizes b1_def)
qed

section \<open>The token\<close>

text \<open>
  pf stays enabled while a token is held. \<open>refs\<close> are the tokens that the kernel counts; what is assumed is that
  \<^verbatim>\<open>pfctl -E\<close> adds the token it prints and \<^verbatim>\<open>-X\<close> takes it back, nothing else changes them, and listing works.
\<close>

definition pf_tokens_law :: "'k pf_exec \<Rightarrow> 'k pf_ioctl \<Rightarrow> ('k \<Rightarrow> string set) \<Rightarrow> bool" where
  "pf_tokens_law exec ioctl refs \<longleftrightarrow>
     (\<forall>k out k'. exec [''-E''] [] k = ((True, out), k') \<longrightarrow>
        (\<exists>t. find_token out = Some t \<and> list_all is_digit t \<and> t \<noteq> [] \<and> refs k' = insert t (refs k))) \<and>
     (\<forall>k out k'. exec [''-E''] [] k = ((False, out), k') \<longrightarrow> refs k' = refs k) \<and>
     (\<forall>k t. refs (snd (exec [''-X'', t] [] k)) = refs k - {t}) \<and>
     (\<forall>k args stdin. hd args \<notin> {''-E'', ''-X''} \<longrightarrow> refs (snd (exec args stdin k)) = refs k) \<and>
     (\<forall>k c buf. refs (snd (ioctl c buf k)) = refs k) \<and>
     (\<forall>k. fst (fst (exec [''-s'', ''all''] [] k)))"

text \<open>A run starts by cleaning up and sets the rules up; it may restore them in the end, or be killed or keep them.\<close>

definition pf_session ::
    "'k pf_exec \<Rightarrow> 'k pf_ioctl \<Rightarrow> pf_method \<times> setup_args \<times> bool \<Rightarrow> 'k pf_host \<Rightarrow> 'k pf_host" where
  "pf_session exec ioctl run h =
     (case run of (m, a, restored) \<Rightarrow>
        (case pf_Setup exec ioctl m a new_pf_run (pf_CleanStaleAnchors exec h) of
           (ok, p, h1) \<Rightarrow> if ok \<and> restored then pf_Restore exec p h1 else h1))"

definition host_refs :: "('k \<Rightarrow> string set) \<Rightarrow> 'k pf_host \<Rightarrow> string set" where
  "host_refs refs h = refs (ph_kernel h)"

lemma trim_digits:
  assumes "list_all is_digit t"
  shows "trim_space t = t"
proof -
  have "dropWhile is_space t = t" using assms digit_not_space by (cases t) auto
  moreover have "t = [] \<or> \<not> is_space (last t)" using assms digit_not_space by (cases t rule: rev_cases) auto
  ultimately show ?thesis by (simp add: trim_space_def trim_right_by_id)
qed

lemma law_rest:
  assumes "pf_tokens_law exec ioctl refs" "hd args \<notin> {''-E'', ''-X''}"
  shows "refs (snd (exec args stdin k)) = refs k"
  using assms unfolding pf_tokens_law_def by blast

lemma pfctl_snd: "snd (pfctl exec args h) = h\<lparr>ph_kernel := snd (exec args [] (ph_kernel h))\<rparr>"
  by (simp add: pfctl_def case_prod_unfold)

lemma pfctl_fst: "fst (pfctl exec args h) = fst (exec args [] (ph_kernel h))"
  by (simp add: pfctl_def case_prod_unfold)

lemma pfctl_eqD: "pfctl exec args h = (r, h2) \<Longrightarrow> exec args [] (ph_kernel h) = (r, ph_kernel h2)"
  by (auto simp: pfctl_def split: prod.splits)

lemma law_enable:
  assumes "pf_tokens_law exec ioctl refs" "exec [''-E''] [] k = ((True, out), k')"
  shows "\<exists>t. find_token out = Some t \<and> list_all is_digit t \<and> t \<noteq> [] \<and> refs k' = insert t (refs k)"
  using conjunct1 [OF assms(1) [unfolded pf_tokens_law_def], rule_format, OF assms(2)] .

lemma pfctlStdin_snd: "snd (pfctlStdin exec stdin args h) = h\<lparr>ph_kernel := snd (exec args stdin (ph_kernel h))\<rparr>"
  by (simp add: pfctlStdin_def case_prod_unfold)

lemma pfctl_refs:
  assumes "pf_tokens_law exec ioctl refs" "hd args \<notin> {''-E'', ''-X''}"
  shows "host_refs refs (snd (pfctl exec args h)) = host_refs refs h" "ph_token (snd (pfctl exec args h)) = ph_token h"
  by (simp_all add: pfctl_snd host_refs_def law_rest [OF assms])

lemma pfctlStdin_refs:
  assumes "pf_tokens_law exec ioctl refs" "hd args \<notin> {''-E'', ''-X''}"
  shows "host_refs refs (snd (pfctlStdin exec stdin args h)) = host_refs refs h" "ph_token (snd (pfctlStdin exec stdin args h)) = ph_token h"
  by (simp_all add: pfctlStdin_snd host_refs_def law_rest [OF assms])

lemma addAnchorRule_refs:
  assumes "pf_tokens_law exec ioctl refs"
  shows "refs (addAnchorRule ioctl kind name k) = refs k"
proof -
  have "refs (snd (ioctl c buf k)) = refs k" for c buf k using assms unfolding pf_tokens_law_def by blast
  then show ?thesis by (simp add: addAnchorRule_def Let_def case_prod_unfold)
qed

lemma addAnchors_refs:
  assumes "pf_tokens_law exec ioctl refs"
  shows "host_refs refs (addAnchors exec ioctl name h) = host_refs refs h" "ph_token (addAnchors exec ioctl name h) = ph_token h"
proof -
  obtain r status h1 where s: "pfctl exec [''-s'', ''all''] h = ((r, status), h1)" by (metis prod.exhaust)
  have h1: "host_refs refs h1 = host_refs refs h" "ph_token h1 = ph_token h"
    using pfctl_refs [OF assms, of "[''-s'', ''all'']" h] s by simp_all
  show "host_refs refs (addAnchors exec ioctl name h) = host_refs refs h" "ph_token (addAnchors exec ioctl name h) = ph_token h"
    using h1 unfolding addAnchors_def s by (simp_all add: Let_def host_refs_def addAnchorRule_refs [OF assms])
qed

lemma fix_skip_refs:
  assumes "pf_tokens_law exec ioctl refs"
  shows "host_refs refs (fix_skip exec h) = host_refs refs h" "ph_token (fix_skip exec h) = ph_token h"
proof -
  obtain r status h1 where s: "pfctl exec [''-s'', ''Interfaces'', ''-i'', ''lo0'', ''-v''] h = ((r, status), h1)" by (metis prod.exhaust)
  have h1: "host_refs refs h1 = host_refs refs h" "ph_token h1 = ph_token h"
    using pfctl_refs [OF assms, of "[''-s'', ''Interfaces'', ''-i'', ''lo0'', ''-v'']" h] s by simp_all
  have h2: "host_refs refs (snd (pfctlStdin exec x [''-f'', ''/dev/stdin''] h1)) = host_refs refs h1"
    "ph_token (snd (pfctlStdin exec x [''-f'', ''/dev/stdin''] h1)) = ph_token h1" for x
    by (rule pfctlStdin_refs [OF assms], simp)+
  show "host_refs refs (fix_skip exec h) = host_refs refs h" "ph_token (fix_skip exec h) = ph_token h"
    unfolding fix_skip_def s using h1 h2 by simp_all
qed

lemma release_refs:
  assumes "pf_tokens_law exec ioctl refs" "host_refs refs h \<subseteq> set_option (ph_token h)" "\<forall>t\<in>set_option (ph_token h). list_all is_digit t"
  shows "host_refs refs (releaseStaleToken exec h) \<subseteq> (if ph_token h = Some [] then {[]} else {}) \<and> ph_token (releaseStaleToken exec h) = None"
proof (cases "ph_token h")
  case (Some t)
  have X: "refs (snd (exec [''-X'', t] [] k)) = refs k - {t}" for k
    using assms(1) unfolding pf_tokens_law_def by blast
  show ?thesis
    using assms(2,3) Some X [of "ph_kernel h"]
    by (auto simp: releaseStaleToken_def Let_def trim_digits pfctl_def host_refs_def split: prod.split)
qed (use assms(2) in \<open>simp add: releaseStaleToken_def\<close>)

text \<open>The tokens held are at most the one in the file, which is digits and not empty.\<close>

definition token_ok :: "('k \<Rightarrow> string set) \<Rightarrow> 'k pf_host \<Rightarrow> bool" where
  "token_ok refs h \<longleftrightarrow>
     host_refs refs h \<subseteq> set_option (ph_token h) \<and> list_all (\<lambda>t. t \<noteq> [] \<and> list_all is_digit t) (case ph_token h of None \<Rightarrow> [] | Some t \<Rightarrow> [t])"

lemma clean_refs:
  assumes "pf_tokens_law exec ioctl refs" "token_ok refs h"
  shows "host_refs refs (pf_CleanStaleAnchors exec h) = {} \<and> ph_token (pf_CleanStaleAnchors exec h) = None"
proof -
  let ?flush = "\<lambda>as h. fold (\<lambda>a h. snd (pfctl exec [''-a'', a, ''-F'', ''all''] h)) as h"
  obtain ok out h1 where s: "pfctl exec [''-s'', ''all''] h = ((ok, out), h1)" by (metis prod.exhaust)
  have "ok" using s using assms(1) unfolding pf_tokens_law_def by (metis fst_conv pfctl_fst)
  have h1: "host_refs refs h1 = host_refs refs h" "ph_token h1 = ph_token h"
    using pfctl_refs [OF assms(1), of "[''-s'', ''all'']" h] s by simp_all
  have flush: "host_refs refs (?flush as g) = host_refs refs g \<and> ph_token (?flush as g) = ph_token g" for as g
    using pfctl_refs [OF assms(1), of "[''-a'', a, ''-F'', ''all'']" for a] by (induction as arbitrary: g) simp_all
  have "token_ok refs (?flush (find_anchors out) h1)"
    using assms(2) flush [of "find_anchors out" h1] h1 by (simp add: token_ok_def)
  then show ?thesis
    using release_refs [OF assms(1), of "?flush (find_anchors out) h1"] s \<open>ok\<close>
    by (auto simp: pf_CleanStaleAnchors_def token_ok_def split: option.splits if_splits)
qed

lemma setup_refs:
  assumes "pf_tokens_law exec ioctl refs" "host_refs refs h = {}" "ph_token h = None" "pf_Setup exec ioctl m a p h = (ok, p1, h1)"
  shows "token_ok refs h1 \<and> (ok \<longrightarrow> ph_token h1 = Some (pr_token p1))"
proof -
  obtain e out h2 where E: "pfctl exec [''-E''] h = ((e, out), h2)" by (metis prod.exhaust)
  show ?thesis
  proof (cases e)
    case False
    then have "host_refs refs h2 = {}" "ph_token h2 = None" "h1 = h2" "\<not> ok"
      using assms E unfolding pf_tokens_law_def pf_Setup_def pfctl_def host_refs_def by (auto simp: Let_def split: prod.splits)
    then show ?thesis by (simp add: token_ok_def)
  next
    case True
    have "exec [''-E''] [] (ph_kernel h) = ((True, out), ph_kernel h2)" using pfctl_eqD [OF E] True by simp
    from law_enable [OF assms(1) this] assms(2) obtain t
      where t: "find_token out = Some t" "list_all is_digit t" "t \<noteq> []" "host_refs refs h2 = {t}"
      unfolding host_refs_def by metis
    define p0 where "p0 = p\<lparr>pr_anchor := ''netferry-'' @ itoa (sa_proxyPort a), pr_args := a, pr_token := t\<rparr>"
    define h3 where "h3 = addAnchors exec ioctl (pr_anchor p0) (fix_skip exec (h2\<lparr>ph_token := Some t\<rparr>))"
    have h3: "host_refs refs h3 = {t}" "ph_token h3 = Some t"
      unfolding h3_def addAnchors_refs [OF assms(1)] fix_skip_refs [OF assms(1)] using t(4) by (simp_all add: host_refs_def)
    have "h1 = snd (load_rules exec (pf_buildRules m a) (pr_anchor p0) h3)" "p1 = p0"
      using assms(4) E True t(1) by (auto simp: pf_Setup_def Let_def keep_token_def p0_def h3_def split: prod.splits)
    then have "host_refs refs h1 = {t}" "ph_token h1 = Some t" "pr_token p1 = t"
      using pfctlStdin_refs [OF assms(1), of "[''-a'', pr_anchor p0, ''-f'', ''/dev/stdin'']"] h3 by (simp_all add: load_rules_def p0_def)
    then show ?thesis using t by (simp add: token_ok_def)
  qed
qed

lemma restore_refs:
  assumes "pf_tokens_law exec ioctl refs" "token_ok refs h" "ph_token h = Some (pr_token p)"
  shows "host_refs refs (pf_Restore exec p h) = {} \<and> ph_token (pf_Restore exec p h) = None"
proof -
  let ?h = "snd (pfctl exec [''-a'', pr_anchor p, ''-F'', ''all''] h)"
  have h: "host_refs refs ?h = host_refs refs h" "ph_token ?h = ph_token h"
    using pfctl_refs [OF assms(1), of "[''-a'', pr_anchor p, ''-F'', ''all'']" h] by simp_all
  have X: "refs (snd (exec [''-X'', pr_token p] [] (ph_kernel ?h))) = refs (ph_kernel ?h) - {pr_token p}"
    using assms(1) unfolding pf_tokens_law_def by blast
  have "pr_token p \<noteq> []" "host_refs refs ?h \<subseteq> {pr_token p}" using assms(2,3) h by (simp_all add: token_ok_def)
  then show ?thesis
    using X by (auto simp: pf_Restore_def Let_def host_refs_def pfctl_def split: prod.splits)
qed

lemma session_refs:
  assumes "pf_tokens_law exec ioctl refs" "token_ok refs h"
  shows "token_ok refs (pf_session exec ioctl run h)"
proof -
  obtain m a r where run: "run = (m, a, r)" by (metis prod.exhaust)
  obtain ok p h1 where s: "pf_Setup exec ioctl m a new_pf_run (pf_CleanStaleAnchors exec h) = (ok, p, h1)" by (metis prod.exhaust)
  have h1: "token_ok refs h1" "ok \<longrightarrow> ph_token h1 = Some (pr_token p)"
    using setup_refs [OF assms(1) _ _ s] clean_refs [OF assms] by simp_all
  have end_state: "pf_session exec ioctl run h = (if ok \<and> r then pf_Restore exec p h1 else h1)"
    by (simp add: pf_session_def run s)
  show ?thesis
  proof (cases "ok \<and> r")
    case True
    then show ?thesis using restore_refs [OF assms(1) h1(1), of p] h1(2) by (simp add: end_state token_ok_def)
  qed (use h1(1) end_state in auto)
qed


text \<open>A kernel that counts tokens as the laws say.\<close>

definition fake_pfctl :: "string list pf_exec" where
  "fake_pfctl args stdin ks =
     (if args = [''-E''] then (let t = replicate (Suc (sum_list (map length ks))) (CHR ''1'') in ((True, ''Token : '' @ t), t # ks))
      else if hd args = ''-X'' then ((True, []), removeAll (args ! 1) ks)
      else ((True, []), ks))"

definition fake_ioctl :: "string list pf_ioctl" where
  "fake_ioctl c buf ks = (buf, ks)"

lemma find_token_printed:
  assumes "t \<noteq> []" "list_all is_digit t"
  shows "find_token (''Token : '' @ t) = Some t"
proof -
  have digit: "\<not> not_S c" if "is_digit c" for c using that by (auto simp: is_digit_def not_S_def)
  have tw: "takeWhile (\<lambda>d. \<not> not_S d) t = t"
    using assms(2) digit by (simp add: list_all_iff)
  have "''Token : '' @ t = CHR ''T'' # (''oken : '' @ t)" "has_prefix (''Token : '' @ t) ''Token : ''" by (simp_all add: has_prefix_def)
  then show ?thesis using assms(1) by (simp only: find_token.simps) (simp add: has_prefix_def Let_def tw)
qed

lemma fake_law: "pf_tokens_law fake_pfctl fake_ioctl set"
proof -
  have digits: "list_all is_digit (replicate n (CHR ''1''))" for n by (simp add: list_all_iff is_digit_def)
  show ?thesis
    unfolding pf_tokens_law_def
  proof (intro conjI allI impI)
    fix ks out k'
    assume "fake_pfctl [''-E''] [] ks = ((True, out), k')"
    then show "\<exists>t. find_token out = Some t \<and> list_all is_digit t \<and> t \<noteq> [] \<and> set k' = insert t (set ks)"
      using find_token_printed [OF _ digits, of "Suc (sum_list (map length ks))"] digits [of "Suc (sum_list (map length ks))"]
      by (auto simp: fake_pfctl_def Let_def simp del: replicate_Suc)
  qed (auto simp: fake_pfctl_def fake_ioctl_def Let_def)
qed

definition killed_run :: "pf_method \<times> setup_args \<times> bool" where
  "killed_run = (\<lparr>pm_blockUDP = True, pm_allowRootUDP = False, pm_blockIPv6 = False\<rparr>,
     \<lparr>sa_subnets = [], sa_excludes = [], sa_proxyPort = 1080, sa_dnsPort = 0, sa_dnsServers = []\<rparr>, False)"

definition fresh_pf_host :: "string list pf_host" where
  "fresh_pf_host = \<lparr>ph_kernel = [], ph_token = None, ph_dev = True\<rparr>"


section \<open>The check for the anchors\<close>

text \<open>
  The line of the anchor for redirections contains the text that is looked for when the filter anchor is
  checked. When only the former is there, the filter anchor is not added, and the rules that send the
  traffic to the redirection are not evaluated.
\<close>

lemma anchor_check_fooled:
  assumes "ph_dev h" "snd (fst (pfctl exec [''-s'', ''all''] h)) = status" "contains_sub status (''rdr-'' @ anchor_text name)"
  shows "addAnchors exec ioctl name h = snd (pfctl exec [''-s'', ''all''] h)"
proof -
  have "contains_sub status (anchor_text name)"
    using assms(3) unfolding contains_sub_iff by (metis append_assoc)
  then show ?thesis using assms by (auto simp: addAnchors_def Let_def split: prod.split)
qed

end
