(* ===== verification/Spec2Isabelle.thy ===== *)
theory Spec2Isabelle
  imports RelayServer MuxPool SplitLink FairSched RuleEdits ConnStats ProxyConn UdpFlows FwPolicy DnsProxy TuiSession TuiEvents SshConfig FectunDaemon PoolMembers TunnelEngine NetMon ConnDisk ConnGroups StatsStream PfCommands
begin

text \<open>
  Netferry tunnels the traffic of a host through a server reached over SSH. On the client,
  firewall rules divert TCP connections and DNS queries to a local proxy, which decides for every
  connection whether it goes through the tunnel, directly, or nowhere, and carries the tunnelled
  ones as streams of a multiplexed connection to the relay program on the server. A terminal user
  interface edits the rules and runs the tunnel. All sources named here are under
  \<^verbatim>\<open>src/netferry-relay\<close>.

  \<^bold>\<open>What is modelled, and where.\<close>

  \<^item> \<^verbatim>\<open>internal/mux\<close>, the tunnel. Wire: the message framing of both ends (\<^verbatim>\<open>protocol.go\<close>, the server's
    copy in \<^verbatim>\<open>cmd/server\<close>). FairSched: the deficit-round-robin writer under the smux session
    (\<^verbatim>\<open>fair_writer.go\<close>). SplitLink: one session over two connections (\<^verbatim>\<open>split_conn.go\<close>). MuxStream: the
    client's TCP, DNS and UDP streams (\<^verbatim>\<open>client.go\<close>). MuxPool: the choice among several tunnels
    (\<^verbatim>\<open>pool.go\<close>). Meters: their counters (\<^verbatim>\<open>internal/stats/stats.go\<close>).
  \<^item> \<^verbatim>\<open>cmd/server/main.go\<close>, the relay. RelayServer: arguments, dispatch of a stream, the handlers.
  \<^item> \<^verbatim>\<open>internal/store\<close> and \<^verbatim>\<open>internal/stats/routes.go\<close>, the rules. DomainRules: host names and scopes.
    RouteTable: the compiled table and the page that shows it. RuleStore: the files and their
    migration. RuleEdits: the edits of the terminal interface (\<^verbatim>\<open>internal/tui\<close>).
  \<^item> \<^verbatim>\<open>internal/stats\<close>, the books. ConnLog: closed connections and queries (\<^verbatim>\<open>connlog.go\<close>). ConnStats:
    open connections and destinations (\<^verbatim>\<open>stats.go\<close>).
  \<^item> \<^verbatim>\<open>internal/proxy\<close>, the client side. PeekHost: the host name in the first bytes of a connection.
    Socks5, SocksUdp: the SOCKS5 server. ProxyConn: the life of a proxied connection. UdpFlows: the
    TPROXY UDP listener. DnsProxy: the DNS interceptor and its resolver.
  \<^item> \<^verbatim>\<open>internal/firewall\<close>. FwRules: the rules of nftables, iptables, TPROXY and pf with their exact texts
    and arguments. FwPolicy: what they do to a packet.
  \<^item> The Go library: GoText (strings, numbers in text), GoNet and IpText (\<^verbatim>\<open>net.ParseIP\<close>, \<^verbatim>\<open>IP.String\<close>,
    CIDR texts, host and port).
\<^item> \<open>TuiSession\<close> (\<^verbatim>\<open>internal/tui/session.go\<close>): the session of the terminal UI and the goroutines of its
  reconnect loop, one step relation over the engine's events. At most one engine runs; a stopped
  goroutine ends; two races of the source are proved. \<^verbatim>\<open>Disconnect\<close> takes its lock twice; its two
  halves are one step, since the code that is run in between has no other caller.
\<^item> \<open>TuiEvents\<close> (\<^verbatim>\<open>internal/tui/logring.go\<close>, the event pump and \<^verbatim>\<open>parseSSE\<close> of \<^verbatim>\<open>session.go\<close>): how the
  output of the engine becomes log lines and its event stream becomes messages.
\<^item> \<open>SshConfig\<close> (\<^verbatim>\<open>internal/sshconfig\<close>, \<^verbatim>\<open>internal/sshconn/config.go\<close>): parsing of SSH configurations
  with their includes, profiles made from the entries, and the text of a target. The recursion of the
  source is a list of work; its termination measure is the number of files not read yet, then the
  work left. Printing and parsing is a round trip.
\<^item> The way to the server. \<open>SshDial\<close> (\<^verbatim>\<open>internal/sshconn/client.go\<close>, \<^verbatim>\<open>auth.go\<close>): which keys are offered,
  which hops are dialled and which clients stay open. \<open>FectunClient\<close> (\<^verbatim>\<open>internal/sshconn/fectun.go\<close>): the
  shared clients of the UDP transport with references and idle timers, and the bootstrap of its key.
  \<open>Deploy\<close> (\<^verbatim>\<open>internal/deploy\<close>): quoting, detection of the architecture, upload of the server.
  \<open>FectunDaemon\<close> (\<^verbatim>\<open>cmd/server/fectun.go\<close>): key file, pid file and port of the daemon on the server.
\<^item> The tunnel program, \<^verbatim>\<open>cmd/tunnel\<close>. \<open>TunnelConfig\<close>: the configuration from flags, profile and terminal UI
  (\<^verbatim>\<open>cliconfig.go\<close>, \<^verbatim>\<open>tui_start.go\<close>). \<open>PoolMembers\<close>: the connections of the pool and the reconnect loop of
  each member (\<^verbatim>\<open>backend.go\<close>, \<^verbatim>\<open>muxbuilder.go\<close>), ten attempts with 5 to 60 seconds between them.
\<^item> \<open>IfaceIPv6\<close> (\<^verbatim>\<open>internal/firewall/iface_ipv6_linux.go\<close>): IPv6 off the interfaces and back. \<open>FwCommands\<close>: setting up
  and removing the rules as the commands that are run. \<open>TunnelEngine\<close> (\<^verbatim>\<open>cmd/tunnel/engine.go\<close>,
  \<^verbatim>\<open>portcache.go\<close>): a run of the tunnel on Linux over the state that outlives it (kernel, port cache, variables
  of package \<^verbatim>\<open>proxy\<close>, open sockets and pools), and what a session of the terminal UI makes of its runs.
\<^item> \<open>NetMon\<close> (\<^verbatim>\<open>internal/netmon\<close>): the fingerprint of the network, the wait until it settles and the loop over
  the kernel's events on Linux. \<open>LogFile\<close> (\<^verbatim>\<open>internal/logfile\<close>): the rotating log file.
  \<open>ConnDisk\<close> (\<^verbatim>\<open>internal/stats/connlog_disk.go\<close>): the history of connections in such a file and the query that
  reads it; persisting and querying compose to the newest matching records.
\<^item> What observers see of the counters. \<open>ConnGroups\<close> (\<^verbatim>\<open>internal/stats/connlog.go\<close>): aggregation of connections by a
  key and the handler of \<^verbatim>\<open>GET /connections\<close> with the checks of its parameters. \<open>StatsStream\<close>
  (\<^verbatim>\<open>internal/stats/stats.go\<close>, \<^verbatim>\<open>internal/tui/app.go\<close>): the broadcaster, its subscribers and server-sent
  events as steps of one state, and the live view that the terminal builds from the messages; the view is
  right once everything has arrived, and the two orders in which it is not are stated.
\<^item> \<open>PfCommands\<close> (\<^verbatim>\<open>internal/firewall/pf.go\<close>): what the method for pf asks of pfctl and of \<^verbatim>\<open>/dev/pf\<close>, the
  requests as bytes, and the token that keeps pf enabled over any sequence of runs.

  Prelude holds bytes, byte streams, sinks, the errors of the code and the lemmas that several
  components use. Contracts holds the interfaces between components as locales (operations that
  keep an invariant, a step relation with an invariant, a self-delimiting codec, an index of rules,
  a bounded log); each is interpreted on the definitions of the code, in the theory of the component
  that provides it.

  \<^bold>\<open>How state and operations correspond to the code.\<close> A struct is a record with the fields the
  modelled code reads and writes, prefixed; a method is a function from the state to the new state
  and its results; a handler is one function with all its early returns. Errors are values, \<open>Inl\<close>
  of the type \<open>error\<close>. Where the code holds a mutex, the locked section is one step, and goroutines
  are interleaved as sequences of such steps: a schedule (FairSched), an inductive relation
  (SplitLink, DnsProxy) or a fold over a list of events (ConnStats, ProxyConn, SocksUdp,
  UdpFlows). A network connection is the list of bytes that arrive before it ends
  and a sink that may fail after a number of bytes. Integers keep their width where the code's
  arithmetic can wrap (lengths and ports on the wire, stream ids, counters); lengths of slices and
  clock readings are \<open>nat\<close> and \<open>int\<close>. A Go map that is iterated is an association list in the
  order of the iteration, and theorems hold for every order; a map that is only looked up is a
  partial function. Text functions are modelled on ASCII.

  \<^bold>\<open>What the lemmas show.\<close> The lemmas of a component state its invariant and that each operation
  keeps it, what every operation returns on each branch, and the equalities between an optimised
  routine and its specification. The numbered properties stand in the theories of their
  components; each says in words what it states of the code. The most important: streams arrive
  complete and in order through framing, scheduler and split connection; the compiled rule index
  decides like the documented precedence; no group operation or migration loses a rule; open and
  closed connections balance the active counts; every DNS query gets one answer; the firewall rules
  of every method carry out one policy. Several properties state defects: an instance of the
  code's behaviour that its comments or its other half contradict.

  \<^bold>\<open>Bounds and fuel.\<close> Recursions that follow the data are structural or have a measure and need no
  fuel. Limits of the code appear as its constants: 65,535 byte messages, 4096 closed connections,
  2048 destinations, eight direct dials per destination, ten RTT measurements.

  \<^bold>\<open>Parameters.\<close> Third-party packages and the operating system are arguments: what the smux session
  answers to \<^verbatim>\<open>OpenStream\<close>, the public suffix list, \<^verbatim>\<open>http.ReadRequest\<close>, resolvers, dialers, the success
  of commands and of writes to a file, the clock, and whether an address lies in a network text.

  \<^bold>\<open>Not modelled.\<close> JSON encoding and decoding (a file is the value its decoder returns, a message the value that is
  encoded), sockets and system calls, the TLS, SSH and fectun protocols themselves, encryption of
  exported profiles, the floating-point rates that are only displayed, rendering of the terminal
  pages, process lookup, the probes and benchmarks under \<^verbatim>\<open>cmd\<close>,
  the WinDivert code and the interface-level IPv6 code of macOS and Windows, which are system calls, the user-space network
  stack of the mobile library, and the desktop and mobile applications in other languages.
\<close>

end
